(* ===== verification/Prelude.thy ===== *)
theory Prelude
  imports Main
begin

text \<open>
  Shared vocabulary of the development: the theorem collections, the list searches that the
  programs write as counted loops with a \<open>break\<close>, C strings inside fixed buffers, and the
  two insertion disciplines of \<open>std::map\<close>.  Nothing here models a file of the repository;
  every component theory builds on it.
\<close>

named_theorems table_simps "facts about searching and updating fixed-size tables"
named_theorems cstring_simps "facts about NUL-terminated strings in fixed buffers"
named_theorems stdmap_simps "facts about the insertion disciplines of std::map"

section \<open>Counted loops that stop at the first hit\<close>

text \<open>
  \<open>for (i = 0; i < n; i++) if (p(a[i])) { ...; break; }\<close> acts on the least index that
  satisfies \<open>p\<close>, or on none.
\<close>

fun first_index :: "('a \<Rightarrow> bool) \<Rightarrow> 'a list \<Rightarrow> nat option" where
  "first_index p [] = None"
| "first_index p (x # xs) = (if p x then Some 0 else map_option Suc (first_index p xs))"

lemma first_index_None [table_simps]: "first_index p xs = None \<longleftrightarrow> (\<forall>x \<in> set xs. \<not> p x)"
  by (induction xs) auto

lemma first_index_SomeD:
  "first_index p xs = Some i \<Longrightarrow> i < length xs \<and> p (xs ! i) \<and> (\<forall>j < i. \<not> p (xs ! j))"
proof (induction xs arbitrary: i)
  case Nil
  then show ?case by simp
next
  case (Cons x xs)
  then show ?case by (auto split: if_splits simp: nth_Cons split: nat.splits)
qed

lemmas first_index_bound = first_index_SomeD [THEN conjunct1]
lemmas first_index_hit = first_index_SomeD [THEN conjunct2, THEN conjunct1]
lemmas first_index_least = first_index_SomeD [THEN conjunct2, THEN conjunct2]

lemma first_index_SomeI:
  "i < length xs \<Longrightarrow> p (xs ! i) \<Longrightarrow> (\<And>j. j < i \<Longrightarrow> \<not> p (xs ! j)) \<Longrightarrow> first_index p xs = Some i"
proof (induction xs arbitrary: i)
  case Nil
  then show ?case by simp
next
  case (Cons x xs)
  show ?case
  proof (cases i)
    case 0
    with Cons.prems show ?thesis by simp
  next
    case (Suc k)
    with Cons.prems(3)[of 0] have "\<not> p x" by simp
    moreover have "first_index p xs = Some k"
      using Cons.prems Suc by (intro Cons.IH) fastforce+
    ultimately show ?thesis using Suc by simp
  qed
qed

lemma first_index_ex: "x \<in> set xs \<Longrightarrow> p x \<Longrightarrow> \<exists>i. first_index p xs = Some i"
  by (cases "first_index p xs") (auto simp: table_simps)

section \<open>Counting occupied entries of a table\<close>

definition occupied :: "'a \<Rightarrow> 'a list \<Rightarrow> nat" where
  "occupied free tab = length (filter (\<lambda>x. x \<noteq> free) tab)"

lemma occupied_le [table_simps]: "occupied free tab \<le> length tab"
  by (simp add: occupied_def)

lemma occupied_full: "occupied free tab = length tab \<longleftrightarrow> free \<notin> set tab"
  by (induction tab) (auto simp: occupied_def le_imp_less_Suc less_imp_neq)

lemma occupied_fill:
  "i < length tab \<Longrightarrow> tab ! i = free \<Longrightarrow> x \<noteq> free \<Longrightarrow>
   occupied free (tab[i := x]) = Suc (occupied free tab)"
  by (induction tab arbitrary: i) (auto simp: occupied_def nth_Cons split: nat.splits)

lemma occupied_clear:
  "i < length tab \<Longrightarrow> tab ! i \<noteq> free \<Longrightarrow>
   Suc (occupied free (tab[i := free])) = occupied free tab"
  by (induction tab arbitrary: i) (auto simp: occupied_def nth_Cons split: nat.splits)

section \<open>C strings and fixed buffers\<close>

abbreviation NUL :: char where
  "NUL \<equiv> CHR 0x00"

text \<open>The bytes before the first NUL: what \<open>strlen\<close>, \<open>\%s\<close> and \<open>std::string(char*)\<close> see.\<close>

definition c_str :: "string \<Rightarrow> string" where
  "c_str mem = takeWhile (\<lambda>c. c \<noteq> NUL) mem"

text \<open>A buffer of \<open>n\<close> bytes cleared by \<open>memset\<close> and then filled from its start.\<close>

definition filled_buffer :: "nat \<Rightarrow> string \<Rightarrow> string" where
  "filled_buffer n d = take n (d @ replicate n NUL)"

lemma length_filled_buffer [simp]: "length (filled_buffer n d) = n"
  by (simp add: filled_buffer_def)

lemma c_str_no_NUL [cstring_simps]: "NUL \<notin> set (c_str s)"
  by (auto simp: c_str_def dest: set_takeWhileD)

lemma c_str_cut [cstring_simps]: "c_str (s @ NUL # t) = c_str s"
  unfolding c_str_def by (induction s) auto

lemma c_str_id [cstring_simps]: "NUL \<notin> set s \<Longrightarrow> c_str s = s"
  unfolding c_str_def by (induction s) auto

lemma c_str_idem [simp]: "c_str (c_str s) = c_str s"
  by (simp add: c_str_id c_str_no_NUL)

lemma length_c_str_le: "length (c_str s) \<le> length s"
  by (simp add: c_str_def length_takeWhile_le)

text \<open>
  Reading a short message back out of a cleared buffer, whatever lies behind the buffer in
  memory: the message up to its own first NUL.
\<close>

lemma c_str_filled_buffer:
  assumes "length d < n"
  shows "c_str (filled_buffer n d @ after) = c_str d"
proof -
  from assms obtain m where m: "n = length d + Suc m"
    using less_iff_Suc_add by auto
  have "filled_buffer n d = d @ NUL # replicate m NUL"
    unfolding filled_buffer_def m by simp
  then show ?thesis by (simp add: c_str_cut)
qed

section \<open>std::map\<close>

text \<open>\<open>std::map::insert\<close> keeps the value already stored under the key.\<close>

definition std_insert :: "'k \<Rightarrow> 'v \<Rightarrow> ('k \<rightharpoonup> 'v) \<Rightarrow> ('k \<rightharpoonup> 'v)" where
  "std_insert k v m = (case m k of None \<Rightarrow> m(k \<mapsto> v) | Some _ \<Rightarrow> m)"

text \<open>\<open>std::map::operator[]\<close> creates a default value for a missing key before it reads.\<close>

definition std_index :: "'v \<Rightarrow> 'k \<Rightarrow> ('k \<rightharpoonup> 'v) \<Rightarrow> 'v \<times> ('k \<rightharpoonup> 'v)" where
  "std_index dflt k m = (case m k of None \<Rightarrow> (dflt, m(k \<mapsto> dflt)) | Some v \<Rightarrow> (v, m))"

lemma std_insert_fresh [stdmap_simps]: "m k = None \<Longrightarrow> std_insert k v m = m(k \<mapsto> v)"
  by (simp add: std_insert_def)

lemma std_insert_present [stdmap_simps]: "m k = Some w \<Longrightarrow> std_insert k v m = m"
  by (simp add: std_insert_def)

lemma std_insert_other [stdmap_simps]: "k' \<noteq> k \<Longrightarrow> std_insert k v m k' = m k'"
  by (simp add: std_insert_def split: option.splits)

lemma dom_std_insert [stdmap_simps]: "dom (std_insert k v m) = insert k (dom m)"
  by (auto simp: std_insert_def split: option.splits)

lemma ran_std_insert: "ran (std_insert k v m) \<subseteq> insert v (ran m)"
  by (auto simp: std_insert_def ran_def split: option.splits if_splits)

lemma std_insert_keeps: "m k' = Some w \<Longrightarrow> std_insert k v m k' = Some w"
  by (auto simp: std_insert_def split: option.splits)

end
