(* ===== verification/Posix.thy ===== *)
theory Posix
  imports Prelude "HOL-Library.Word"
begin

text \<open>
  The part of the socket interface the programs call.  The kernel is outside the repository:
  the \<^emph>\<open>results\<close> of its calls are inputs of the model (return values, received bytes,
  \<open>errno\<close>), and the \<^emph>\<open>calls themselves\<close>, with the arguments the program passes, are
  recorded in order in the field \<open>trace\<close> of the state record that every program state
  extends.  Console output is not recorded.

  The helper functions that several programs repeat word for word (\<open>make_nonblocking\<close>,
  \<open>CloseSocket\<close>, \<open>SocketGetLastError\<close>) are modelled once here, from
  \<open>chat-server/Server.cpp\<close>; the POSIX branch of each \<open>#ifdef WINDOWS_OS\<close> is the one
  modelled throughout.
\<close>

section \<open>Descriptors, results, calls\<close>

type_synonym fd = int

datatype errno = EAGAIN | EINTR | EOTHER nat

text \<open>What \<open>recv\<close> reports: bytes, an orderly shutdown (0), or -1 with an \<open>errno\<close>.\<close>

datatype recv_res = RData string | REof | RErr errno

text \<open>The number \<open>recv\<close> returns, and the bytes it has put into the buffer.\<close>

fun recv_status :: "recv_res \<Rightarrow> int" where
  "recv_status (RData d) = int (length d)"
| "recv_status REof = 0"
| "recv_status (RErr e) = -1"

fun recv_bytes :: "recv_res \<Rightarrow> string" where
  "recv_bytes (RData d) = d"
| "recv_bytes REof = []"
| "recv_bytes (RErr e) = []"

datatype syscall =
    Call_socket
  | Call_setsockopt fd
  | Call_bind fd "16 word"
  | Call_listen fd nat
  | Call_connect fd "16 word"
  | Call_accept fd
  | Call_select int "fd list" "fd list"  \<comment> \<open>nfds, read set, write set\<close>
  | Call_poll "fd list"
  | Call_fcntl_getfl fd
  | Call_fcntl_setfl_nonblock fd int
  | Call_recv fd nat
  | Call_send fd string nat  \<comment> \<open>the object at the pointer passed, and the length passed\<close>
  | Call_ioctl_fionread fd
  | Call_shutdown fd
  | Call_close fd

record os =
  trace :: "syscall list"

definition emit :: "syscall \<Rightarrow> 'a os_scheme \<Rightarrow> 'a os_scheme" where
  "emit c s = s\<lparr>trace := trace s @ [c]\<rparr>"

lemma trace_emit [simp]: "trace (emit c s) = trace s @ [c]"
  by (simp add: emit_def)

lemma more_emit [simp]: "os.more (emit c s) = os.more s"
  by (simp add: emit_def)

text \<open>How a program's control leaves a routine: it goes on in a state, or the process ends.\<close>

datatype 'a outcome = Running 'a | Exited int 'a

fun final_state :: "'a outcome \<Rightarrow> 'a" where
  "final_state (Running s) = s"
| "final_state (Exited c s) = s"

fun bind_outcome :: "'a outcome \<Rightarrow> ('a \<Rightarrow> 'a outcome) \<Rightarrow> 'a outcome" where
  "bind_outcome (Running s) f = f s"
| "bind_outcome (Exited c s) f = Exited c s"

text \<open>It goes on, in a state with a property.\<close>

fun runs_to :: "'a outcome option \<Rightarrow> ('a \<Rightarrow> bool) \<Rightarrow> bool" where
  "runs_to (Some (Running z)) P = P z"
| "runs_to _ P = False"

lemma runs_toE:
  assumes "runs_to r P"
  obtains z where "r = Some (Running z)" "P z"
  using assms by (cases r) (auto elim: outcome.exhaust elim!: runs_to.elims)

text \<open>How a C++ routine leaves: it completes, or it throws (with the message of the exception).\<close>

datatype 'a completion = Done 'a | Raised string 'a

fun state_of :: "'a completion \<Rightarrow> 'a" where
  "state_of (Done s) = s"
| "state_of (Raised m s) = s"

fun bind_completion :: "'a completion \<Rightarrow> ('a \<Rightarrow> 'a completion) \<Rightarrow> 'a completion" where
  "bind_completion (Done s) f = f s"
| "bind_completion (Raised m s) f = Raised m s"

text \<open>A \<open>send\<close> whose length exceeds the object it is given reads foreign memory.\<close>

fun overreads :: "syscall \<Rightarrow> bool" where
  "overreads (Call_send f object len) = (length object < len)"
| "overreads _ = False"

text \<open>The descriptors a trace has closed, in order, with repetitions.\<close>

fun closes :: "syscall list \<Rightarrow> fd list" where
  "closes [] = []"
| "closes (Call_close f # cs) = f # closes cs"
| "closes (c # cs) = closes cs"

text \<open>What a trace has handed to \<open>send\<close>, and the descriptors it has shut down or closed.\<close>

fun sends :: "syscall list \<Rightarrow> (fd \<times> string \<times> nat) list" where
  "sends [] = []"
| "sends (Call_send f object len # cs) = (f, object, len) # sends cs"
| "sends (c # cs) = sends cs"

fun hangups :: "syscall list \<Rightarrow> fd list" where
  "hangups [] = []"
| "hangups (Call_close f # cs) = f # hangups cs"
| "hangups (Call_shutdown f # cs) = f # hangups cs"
| "hangups (c # cs) = hangups cs"

lemma sends_append [simp]: "sends (xs @ ys) = sends xs @ sends ys"
  by (induction xs rule: sends.induct) auto

lemma hangups_append [simp]: "hangups (xs @ ys) = hangups xs @ hangups ys"
  by (induction xs rule: hangups.induct) auto

lemma closes_append [simp]: "closes (xs @ ys) = closes xs @ closes ys"
  by (induction xs rule: closes.induct) auto

text \<open>The bytes a \<open>send\<close> really transmits, for every \<open>send\<close> of a trace.\<close>

definition wire :: "'a os_scheme \<Rightarrow> string list" where
  "wire s = map (\<lambda>(f, object, len). take len object) (sends (trace s))"

lemma wire_emit_send [simp]: "wire (emit (Call_send f object len) s) = wire s @ [take len object]"
  by (simp add: wire_def)

section \<open>Descriptor sets and select\<close>

text \<open>
  \<open>FD_ZERO\<close>/\<open>FD_SET\<close> build a set in call order; \<open>select\<close> replaces it by the members
  that are ready.  So whatever the kernel reports, nothing that was not put in comes out.
\<close>

definition fd_select :: "fd list \<Rightarrow> fd list \<Rightarrow> fd list" where
  "fd_select requested ready = filter (\<lambda>f. f \<in> set ready) requested"

definition FD_ISSET :: "fd \<Rightarrow> fd list \<Rightarrow> bool" where
  "FD_ISSET f fds = (f \<in> set fds)"

lemma set_fd_select [simp]: "set (fd_select req ready) = set req \<inter> set ready"
  by (auto simp: fd_select_def)

lemma FD_ISSET_select [simp]:
  "FD_ISSET f (fd_select req ready) \<longleftrightarrow> f \<in> set req \<and> f \<in> set ready"
  by (auto simp: FD_ISSET_def fd_select_def)

section \<open>Helper functions of every program\<close>

text \<open>
  \<open>make_nonblocking\<close>: \<open>getfl\<close> and \<open>setfl\<close> are what the two \<open>fcntl\<close> calls return.
  On a failure the descriptor is closed before -1 is returned.
\<close>

definition make_nonblocking ::
  "fd \<Rightarrow> int \<Rightarrow> int \<Rightarrow> 'a os_scheme \<Rightarrow> int \<times> 'a os_scheme" where
  "make_nonblocking f getfl setfl s =
     (let s1 = emit (Call_fcntl_getfl f) s in
      if getfl = -1 then (-1, emit (Call_close f) s1)
      else let s2 = emit (Call_fcntl_setfl_nonblock f getfl) s1 in
        if setfl = -1 then (-1, emit (Call_close f) s2)
        else (0, s2))"

text \<open>\<open>CloseSocket\<close> of the chat and select/poll servers shuts the connection down; it never
  calls \<open>close\<close>, so the descriptor stays allocated.\<close>

definition CloseSocket :: "fd \<Rightarrow> 'a os_scheme \<Rightarrow> 'a os_scheme" where
  "CloseSocket f s = emit (Call_shutdown f) s"

definition SocketGetLastError :: int where
  "SocketGetLastError = 0xFFFF"

definition StartSocket :: bool where
  "StartSocket = True"

lemma make_nonblocking_result:
  "fst (make_nonblocking f g st s) = 0 \<longleftrightarrow> g \<noteq> -1 \<and> st \<noteq> -1"
  by (simp add: make_nonblocking_def Let_def)

lemma make_nonblocking_closes:
  "closes (trace (snd (make_nonblocking f g st s))) =
     closes (trace s) @ (if g = -1 \<or> st = -1 then [f] else [])"
  by (simp add: make_nonblocking_def Let_def)

section \<open>Ports and numbers from the command line\<close>

fun digit_val :: "char \<Rightarrow> nat option" where
  "digit_val c =
     (if 48 \<le> (of_char c :: nat) \<and> (of_char c :: nat) \<le> 57 then Some (of_char c - 48) else None)"

text \<open>The leading digits of a string, read as a decimal number with accumulator \<open>acc\<close>.\<close>

fun read_digits :: "nat \<Rightarrow> string \<Rightarrow> nat" where
  "read_digits acc [] = acc"
| "read_digits acc (c # cs) =
     (case digit_val c of None \<Rightarrow> acc | Some d \<Rightarrow> read_digits (10 * acc + d) cs)"

definition is_space :: "char \<Rightarrow> bool" where
  "is_space c \<longleftrightarrow> (of_char c :: nat) \<in> {9, 10, 11, 12, 13, 32}"

text \<open>
  \<open>atoi\<close>: white space, an optional sign, digits; 0 when there are none.  A number beyond the
  range of \<open>int\<close> is undefined behaviour in C and is not cut here.
\<close>

definition atoi :: "string \<Rightarrow> int" where
  "atoi s =
     (case dropWhile is_space s of
        [] \<Rightarrow> 0
      | c # cs \<Rightarrow>
          if c = CHR ''-'' then - int (read_digits 0 cs)
          else if c = CHR ''+'' then int (read_digits 0 cs)
          else int (read_digits 0 (c # cs)))"

text \<open>\<open>htons\<close> takes a \<open>uint16_t\<close>: the port number is cut to 16 bits on the way in.  The
  port recorded in the trace is the host-order value the kernel ends up with.\<close>

definition port_of :: "int \<Rightarrow> 16 word" where
  "port_of p = word_of_int p"

lemma uint_port_of: "uint (port_of p) = p mod 65536"
  by (simp add: port_of_def uint_word_of_int)

lemma port_of_exact: "0 \<le> p \<Longrightarrow> p < 65536 \<Longrightarrow> uint (port_of p) = p"
  by (simp add: uint_port_of)

end
