(* ===== verification/SlotTable.thy ===== *)
theory SlotTable
  imports Posix
begin

text \<open>
  The fixed array of client descriptors that the chat server, the select server and the poll
  server each keep, with a marker for a free entry (0 in the first two, -1 in the third).  The
  three programs write the same two loops over it: put a descriptor into the first free entry,
  and clear the first entry that holds a descriptor.

  The contract the servers rely on is the locale \<open>bounded_table\<close>: seen from outside, the
  array is a set of at most \<open>capacity\<close> descriptors.  It is interpreted below on the array
  operations for both markers, and the servers' theorems on admission, eviction and starvation
  rest on its lemmas.
\<close>

section \<open>The two loops\<close>

definition MAX_CONNECTIONS :: nat where
  "MAX_CONNECTIONS = 5"

definition slot_admit :: "fd \<Rightarrow> fd \<Rightarrow> fd list \<Rightarrow> fd list" where
  "slot_admit free x tab =
     (case first_index (\<lambda>y. y = free) tab of None \<Rightarrow> tab | Some i \<Rightarrow> tab[i := x])"

definition slot_evict :: "fd \<Rightarrow> fd \<Rightarrow> fd list \<Rightarrow> fd list" where
  "slot_evict free x tab =
     (case first_index (\<lambda>y. y = x) tab of None \<Rightarrow> tab | Some i \<Rightarrow> tab[i := free])"

definition slot_members :: "fd \<Rightarrow> fd list \<Rightarrow> fd set" where
  "slot_members free tab = {x \<in> set tab. x \<noteq> free}"

text \<open>The table invariant: five entries, and no descriptor twice.\<close>

definition slot_wf :: "fd \<Rightarrow> fd list \<Rightarrow> bool" where
  "slot_wf free tab \<longleftrightarrow>
     length tab = MAX_CONNECTIONS \<and> distinct (filter (\<lambda>x. x \<noteq> free) tab)"

lemma first_index_absent [simp]: "free \<notin> set tab \<Longrightarrow> first_index (\<lambda>y. y = free) tab = None"
  by (auto simp: table_simps)

lemma length_slot_admit [simp]: "length (slot_admit free x tab) = length tab"
  by (simp add: slot_admit_def split: option.splits)

lemma length_slot_evict [simp]: "length (slot_evict free x tab) = length tab"
  by (simp add: slot_evict_def split: option.splits)

lemma slot_members_finite [simp]: "finite (slot_members free tab)"
  by (simp add: slot_members_def)

lemma slot_members_filter: "slot_members free tab = set (filter (\<lambda>x. x \<noteq> free) tab)"
  by (auto simp: slot_members_def)

lemma card_slot_members: "slot_wf free tab \<Longrightarrow> card (slot_members free tab) = occupied free tab"
  unfolding slot_members_filter slot_wf_def occupied_def by (simp only: distinct_card)

text \<open>Filling the first free entry: the entries before and after it stay where they are.\<close>

lemma slot_admit_split:
  "free \<in> set tab \<Longrightarrow>
   \<exists>xs ys. tab = xs @ free # ys \<and> free \<notin> set xs \<and> slot_admit free x tab = xs @ x # ys"
proof (induction tab)
  case Nil
  then show ?case by simp
next
  case (Cons y tab)
  show ?case
  proof (cases "y = free")
    case True
    then have "y # tab = [] @ free # tab \<and> free \<notin> set [] \<and> slot_admit free x (y # tab) = [] @ x # tab"
      by (simp add: slot_admit_def)
    then show ?thesis by blast
  next
    case False
    with Cons obtain xs ys where
      "tab = xs @ free # ys" "free \<notin> set xs" "slot_admit free x tab = xs @ x # ys"
      by auto
    with False have "y # tab = (y # xs) @ free # ys \<and> free \<notin> set (y # xs) \<and>
        slot_admit free x (y # tab) = (y # xs) @ x # ys"
      by (auto simp: slot_admit_def split: option.splits)
    then show ?thesis by blast
  qed
qed

lemma slot_admit_full: "free \<notin> set tab \<Longrightarrow> slot_admit free x tab = tab"
  by (auto simp: slot_admit_def table_simps dest: first_index_SomeD split: option.splits)

lemma slot_admit_keeps:
  assumes "tab ! i \<noteq> free"
  shows "slot_admit free x tab ! i = tab ! i"
proof (cases "first_index (\<lambda>y. y = free) tab")
  case None
  then show ?thesis by (simp add: slot_admit_def)
next
  case (Some k)
  then have "k \<noteq> i" using first_index_SomeD [OF Some] assms by auto
  with Some show ?thesis by (simp add: slot_admit_def)
qed

text \<open>Clearing the first entry that holds the descriptor.\<close>

lemma slot_evict_split:
  "x \<in> set tab \<Longrightarrow>
   \<exists>xs ys. tab = xs @ x # ys \<and> x \<notin> set xs \<and> slot_evict free x tab = xs @ free # ys"
proof (induction tab)
  case Nil
  then show ?case by simp
next
  case (Cons y tab)
  show ?case
  proof (cases "y = x")
    case True
    then have "y # tab = [] @ x # tab \<and> x \<notin> set [] \<and> slot_evict free x (y # tab) = [] @ free # tab"
      by (simp add: slot_evict_def)
    then show ?thesis by blast
  next
    case False
    with Cons obtain xs ys where
      "tab = xs @ x # ys" "x \<notin> set xs" "slot_evict free x tab = xs @ free # ys"
      by auto
    with False have "y # tab = (y # xs) @ x # ys \<and> x \<notin> set (y # xs) \<and>
        slot_evict free x (y # tab) = (y # xs) @ free # ys"
      by (auto simp: slot_evict_def split: option.splits)
    then show ?thesis by blast
  qed
qed

lemma slot_evict_absent: "x \<notin> set tab \<Longrightarrow> slot_evict free x tab = tab"
  by (auto simp: slot_evict_def table_simps dest: first_index_SomeD split: option.splits)

section \<open>The contract\<close>

text \<open>A history of a table, and its replay.\<close>

datatype table_op = Admit fd | Evict fd

fun run_table :: "(fd \<Rightarrow> 't \<Rightarrow> 't) \<Rightarrow> (fd \<Rightarrow> 't \<Rightarrow> 't) \<Rightarrow> table_op list \<Rightarrow> 't \<Rightarrow> 't" where
  "run_table admit evict [] t = t"
| "run_table admit evict (Admit x # ops) t = run_table admit evict ops (admit x t)"
| "run_table admit evict (Evict x # ops) t = run_table admit evict ops (evict x t)"

text \<open>A history that a kernel can produce: a descriptor is admitted only while it is absent.\<close>

fun fresh_history :: "(fd \<Rightarrow> bool) \<Rightarrow> fd set \<Rightarrow> table_op list \<Rightarrow> bool" where
  "fresh_history genuine A [] = True"
| "fresh_history genuine A (Admit x # ops) =
     (genuine x \<and> x \<notin> A \<and> fresh_history genuine (insert x A) ops)"
| "fresh_history genuine A (Evict x # ops) = fresh_history genuine A ops"

locale bounded_table =
  fixes admit :: "fd \<Rightarrow> 't \<Rightarrow> 't"
    and evict :: "fd \<Rightarrow> 't \<Rightarrow> 't"
    and members :: "'t \<Rightarrow> fd set"
    and wf :: "'t \<Rightarrow> bool"
    and genuine :: "fd \<Rightarrow> bool"
    and capacity :: nat
  assumes bounded: "wf t \<Longrightarrow> finite (members t) \<and> card (members t) \<le> capacity"
    and members_admit: "wf t \<Longrightarrow> genuine x \<Longrightarrow> x \<notin> members t \<Longrightarrow>
      card (members t) < capacity \<Longrightarrow> members (admit x t) = insert x (members t)"
    and admit_full: "wf t \<Longrightarrow> card (members t) = capacity \<Longrightarrow> admit x t = t"
    and wf_admit: "wf t \<Longrightarrow> genuine x \<Longrightarrow> x \<notin> members t \<Longrightarrow> wf (admit x t)"
    and members_evict: "wf t \<Longrightarrow> members (evict x t) = members t - {x}"
    and wf_evict: "wf t \<Longrightarrow> wf (evict x t)"
begin

lemma admit_subset:
  assumes "wf t" "genuine x" "x \<notin> members t"
  shows "members t \<subseteq> members (admit x t)" and "members (admit x t) \<subseteq> insert x (members t)"
  using assms bounded [OF assms(1)] members_admit [OF assms] admit_full [OF assms(1), of x]
  by (cases "card (members t) = capacity"; auto simp: le_less)+

lemma run_table_wf:
  "wf t \<Longrightarrow> members t \<subseteq> A \<Longrightarrow> fresh_history genuine A ops \<Longrightarrow> wf (run_table admit evict ops t)"
proof (induction ops arbitrary: t A)
  case Nil
  then show ?case by simp
next
  case (Cons op ops)
  show ?case
  proof (cases op)
    case (Admit x)
    with Cons.prems have x: "genuine x" "x \<notin> members t" by auto
    then have "members (admit x t) \<subseteq> insert x A" and "wf (admit x t)"
      using admit_subset(2) [OF Cons.prems(1) x] wf_admit [OF Cons.prems(1) x] Cons.prems(2) by auto
    with Cons Admit show ?thesis by simp
  next
    case (Evict x)
    have "members (evict x t) \<subseteq> A" and "wf (evict x t)"
      using members_evict [OF Cons.prems(1), of x] wf_evict [OF Cons.prems(1), of x] Cons.prems(2)
      by auto
    with Cons Evict show ?thesis by simp
  qed
qed

text \<open>Whatever comes and goes, the table never holds more than its capacity.\<close>

lemma run_table_bounded:
  assumes "wf t" "members t \<subseteq> A" "fresh_history genuine A ops"
  shows "card (members (run_table admit evict ops t)) \<le> capacity"
  using bounded [OF run_table_wf [OF assms]] by simp

text \<open>Starvation: a full table that nobody leaves admits nobody, however many knock.\<close>

lemma full_without_evict:
  "wf t \<Longrightarrow> card (members t) = capacity \<Longrightarrow> (\<forall>x. Evict x \<notin> set ops) \<Longrightarrow>
   run_table admit evict ops t = t"
proof (induction ops arbitrary: t)
  case Nil
  then show ?case by simp
next
  case (Cons op ops)
  then obtain x where "op = Admit x" by (cases op) auto
  with Cons admit_full [OF Cons.prems(1,2), of x] show ?case by simp
qed

end

lemma slot_wf_admit:
  assumes wf: "slot_wf free tab" and x: "x \<noteq> free" "x \<notin> slot_members free tab"
  shows "slot_wf free (slot_admit free x tab)"
proof (cases "free \<in> set tab")
  case True
  then obtain xs ys where "tab = xs @ free # ys" "slot_admit free x tab = xs @ x # ys"
    using slot_admit_split by blast
  with wf x show ?thesis by (auto simp: slot_wf_def slot_members_def)
next
  case False
  with wf show ?thesis by (simp add: slot_admit_full)
qed

lemma slot_wf_evict:
  assumes "slot_wf free tab"
  shows "slot_wf free (slot_evict free x tab)"
proof (cases "x \<in> set tab")
  case True
  then obtain xs ys where "tab = xs @ x # ys" "slot_evict free x tab = xs @ free # ys"
    using slot_evict_split by blast
  with assms show ?thesis by (auto simp: slot_wf_def split: if_splits)
next
  case False
  with assms show ?thesis by (simp add: slot_evict_absent)
qed

lemma slot_members_admit:
  "free \<in> set tab \<Longrightarrow> x \<noteq> free \<Longrightarrow>
   slot_members free (slot_admit free x tab) = insert x (slot_members free tab)"
  using slot_admit_split [of free tab x] by (auto simp: slot_members_def)

lemma slot_members_evict:
  assumes "slot_wf free tab"
  shows "slot_members free (slot_evict free x tab) = slot_members free tab - {x}"
proof (cases "x \<in> set tab")
  case True
  then obtain xs ys where "tab = xs @ x # ys" "slot_evict free x tab = xs @ free # ys"
    using slot_evict_split by blast
  with assms show ?thesis by (auto simp: slot_members_def slot_wf_def split: if_splits)
next
  case False
  then show ?thesis by (auto simp: slot_evict_absent slot_members_def)
qed

lemma slot_full_iff:
  "slot_wf free tab \<Longrightarrow> card (slot_members free tab) = MAX_CONNECTIONS \<longleftrightarrow> free \<notin> set tab"
  using occupied_full [of free tab] by (simp add: card_slot_members slot_wf_def)

lemma slot_bounded: "slot_wf free tab \<Longrightarrow> card (slot_members free tab) \<le> MAX_CONNECTIONS"
  using occupied_le [of free tab] by (simp add: card_slot_members slot_wf_def)

lemma bounded_table_slots:
  "bounded_table (slot_admit free) (slot_evict free) (slot_members free) (slot_wf free)
     (\<lambda>x. x \<noteq> free) MAX_CONNECTIONS"
proof unfold_locales
  fix t x
  assume wf: "slot_wf free t"
  show "finite (slot_members free t) \<and> card (slot_members free t) \<le> MAX_CONNECTIONS"
    using slot_bounded [OF wf] by simp
  show "slot_members free (slot_evict free x t) = slot_members free t - {x}"
    by (rule slot_members_evict [OF wf])
  show "slot_wf free (slot_evict free x t)"
    by (rule slot_wf_evict [OF wf])
  show "card (slot_members free t) = MAX_CONNECTIONS \<Longrightarrow> slot_admit free x t = t"
    using slot_full_iff [OF wf] slot_admit_full by blast
  assume x: "x \<noteq> free" "x \<notin> slot_members free t"
  show "slot_wf free (slot_admit free x t)"
    by (rule slot_wf_admit [OF wf x])
  assume "card (slot_members free t) < MAX_CONNECTIONS"
  then show "slot_members free (slot_admit free x t) = insert x (slot_members free t)"
    using slot_full_iff [OF wf] slot_members_admit x(1) by (metis less_irrefl)
qed

text \<open>The chat and select servers mark a free entry with 0, the poll server with -1.\<close>

interpretation zero_table: bounded_table "slot_admit 0" "slot_evict 0" "slot_members 0"
  "slot_wf 0" "\<lambda>x. x \<noteq> 0" MAX_CONNECTIONS
  by (rule bounded_table_slots)

interpretation minus_table: bounded_table "slot_admit (-1)" "slot_evict (-1)"
  "slot_members (-1)" "slot_wf (-1)" "\<lambda>x. x \<noteq> -1" MAX_CONNECTIONS
  by (rule bounded_table_slots)

end
