(* ===== verification/SelectServer.thy ===== *)
theory SelectServer
  imports SlotTable
begin

text \<open>
  \<open>multiple-client-single-thread/Server_select.cpp\<close>: one thread, one listening socket, up to
  five clients watched with \<open>select\<close>.  \<open>server_globals\<close> holds the program's globals (the chat
  server has the same two and extends them); \<open>sel_main_setup\<close> is \<open>main\<close> up to its loop,
  \<open>sel_round\<close> is one turn of the \<open>while (true)\<close> loop, and \<open>sel_run\<close> is the loop over the
  rounds the environment supplies.  The lines after the loop are unreachable.
\<close>

section \<open>State and environment\<close>

record server_globals = os +
  sock_file_descriptor :: fd
  client_socket_fd_map :: "fd list"

text \<open>Globals are zero before \<open>main\<close> runs.\<close>

definition initial_globals :: server_globals where
  "initial_globals =
     \<lparr>trace = [], sock_file_descriptor = 0, client_socket_fd_map = replicate MAX_CONNECTIONS 0\<rparr>"

text \<open>What the kernel answers during the start-up calls.\<close>

record setup_env =
  e_socket :: int
  e_setsockopt :: int
  e_bind :: int
  e_listen :: int
  e_getfl :: int
  e_setfl :: int

text \<open>
  What the kernel answers in one round: \<open>select\<close>'s return value and the descriptors it reports
  (readable, writable), the descriptor \<open>accept\<close> returns, and what \<open>recv\<close> yields for the
  client in entry \<open>i\<close>, with the bytes that lie behind the receive buffer on the stack.
\<close>

record round_env =
  r_ready :: int
  r_readable :: "fd list"
  r_writable :: "fd list"
  r_accept :: fd
  r_recv :: "nat \<Rightarrow> recv_res"
  r_stack :: "nat \<Rightarrow> string"

text \<open>The greeting is a 25-byte array, counting its terminator; both servers send 255 bytes of it.\<close>

definition welcome_message :: string where
  "welcome_message = ''Connected Successfully!'' @ [CHR 0x0A, NUL]"

section \<open>main up to the loop\<close>

text \<open>\<open>error()\<close> ends the process with status 1, so \<open>return -1\<close> after it is never reached.\<close>

definition sel_main_setup :: "nat \<Rightarrow> string \<Rightarrow> setup_env \<Rightarrow> server_globals \<Rightarrow> server_globals outcome" where
  "sel_main_setup argc argv1 e s =
     (if argc < 2 then Exited 1 s
      else
        let s1 = (emit Call_socket s)\<lparr>sock_file_descriptor := e_socket e\<rparr>; sock = e_socket e in
        if sock = -1 then Exited 1 s1
        else
          let s2 = emit (Call_setsockopt sock) s1 in
          if e_setsockopt e \<noteq> 0 then Exited 1 s2
          else
            let s3 = emit (Call_bind sock (port_of (atoi argv1))) s2 in
            if e_bind e = -1 then Exited 1 s3
            else
              let s4 = emit (Call_listen sock MAX_CONNECTIONS) s3 in
              if e_listen e = -1 then Exited 1 s4
              else Running (snd (make_nonblocking sock (e_getfl e) (e_setfl e) s4)))"

section \<open>One round\<close>

text \<open>\<open>processRequest(int)\<close>: a failed \<open>recv\<close> ends the whole process inside \<open>error()\<close>;
  the clean-up written after that call is dead code, and a closed connection (0) is not
  noticed.\<close>

definition sel_processClient :: "recv_res \<Rightarrow> fd \<Rightarrow> server_globals \<Rightarrow> server_globals outcome" where
  "sel_processClient r f s =
     (let s1 = emit (Call_recv f 255) s in
      case r of RErr e \<Rightarrow> Exited 1 s1 | REof \<Rightarrow> Running s1 | RData d \<Rightarrow> Running s1)"

definition sel_accept :: "fd \<Rightarrow> server_globals \<Rightarrow> server_globals" where
  "sel_accept c s =
     (let s1 = emit (Call_accept (sock_file_descriptor s)) s in
      case first_index (\<lambda>y. y = 0) (client_socket_fd_map s1) of
        None \<Rightarrow> s1
      | Some i \<Rightarrow> emit (Call_send c welcome_message 255)
                    (s1\<lparr>client_socket_fd_map := (client_socket_fd_map s1)[i := c]\<rparr>))"

definition sel_slot :: "round_env \<Rightarrow> fd list \<Rightarrow> nat \<Rightarrow> server_globals \<Rightarrow> server_globals outcome" where
  "sel_slot e readfds i s =
     (let f = client_socket_fd_map s ! i in
      if f \<noteq> 0 \<and> FD_ISSET f readfds then sel_processClient (r_recv e i) f s else Running s)"

fun sel_slots :: "round_env \<Rightarrow> fd list \<Rightarrow> nat list \<Rightarrow> server_globals \<Rightarrow> server_globals outcome" where
  "sel_slots e readfds [] s = Running s"
| "sel_slots e readfds (i # is) s = bind_outcome (sel_slot e readfds i s) (sel_slots e readfds is)"

definition sel_processRequest :: "round_env \<Rightarrow> fd list \<Rightarrow> server_globals \<Rightarrow> server_globals outcome" where
  "sel_processRequest e readfds s =
     (let s1 = (if FD_ISSET (sock_file_descriptor s) readfds then sel_accept (r_accept e) s else s)
      in sel_slots e readfds [0..<MAX_CONNECTIONS] s1)"

definition sel_read_set :: "server_globals \<Rightarrow> fd list" where
  "sel_read_set s = sock_file_descriptor s # filter (\<lambda>f. f \<noteq> 0) (client_socket_fd_map s)"

text \<open>\<open>select\<close> examines the descriptors below its first argument only; it is the listening socket's number
  plus six in every round, whichever numbers the clients' descriptors have.\<close>

definition examined :: "int \<Rightarrow> fd list \<Rightarrow> fd list" where
  "examined nfds ready = filter (\<lambda>f. f < nfds) ready"

lemma set_examined [simp]: "f \<in> set (examined nfds ready) \<longleftrightarrow> f \<in> set ready \<and> f < nfds"
  by (auto simp: examined_def)

definition sel_round :: "round_env \<Rightarrow> server_globals \<Rightarrow> server_globals outcome" where
  "sel_round e s =
     (let req = sel_read_set s;
          nfds = sock_file_descriptor s + int MAX_CONNECTIONS + 1;
          s1 = emit (Call_select nfds req []) s in
      if r_ready e > 0 then sel_processRequest e (fd_select req (examined nfds (r_readable e))) s1
      else if r_ready e = 0 then Running s1
      else Exited 1 s1)"

fun sel_run :: "round_env list \<Rightarrow> server_globals \<Rightarrow> server_globals outcome" where
  "sel_run [] s = Running s"
| "sel_run (e # es) s = bind_outcome (sel_round e s) (sel_run es)"

section \<open>Correctness\<close>

text \<open>The table a round leaves behind is the table it found, with at most one admission.\<close>

lemma sel_processClient_table [simp]:
  "client_socket_fd_map (final_state (sel_processClient r f s)) = client_socket_fd_map s"
  by (simp add: sel_processClient_def emit_def Let_def split: recv_res.splits)

lemma sel_slot_table [simp]:
  "client_socket_fd_map (final_state (sel_slot e fds i s)) = client_socket_fd_map s"
  by (simp add: sel_slot_def Let_def)

lemma final_state_bind:
  "(\<And>s. f (final_state (g s)) = f s) \<Longrightarrow> f (final_state (bind_outcome m g)) = f (final_state m)"
  by (cases m) auto

lemma sel_slots_table [simp]:
  "client_socket_fd_map (final_state (sel_slots e fds is s)) = client_socket_fd_map s"
  by (induction "is" arbitrary: s) (simp_all add: final_state_bind [of client_socket_fd_map])

lemma sel_accept_table [simp]:
  "client_socket_fd_map (sel_accept c s) = slot_admit 0 c (client_socket_fd_map s)"
  by (simp add: sel_accept_def slot_admit_def emit_def Let_def split: option.splits)

text \<open>The table operation a round amounts to.\<close>

definition round_ops :: "round_env \<Rightarrow> server_globals \<Rightarrow> table_op list" where
  "round_ops e s =
     (if r_ready e > 0 \<and> sock_file_descriptor s \<in> set (r_readable e) then [Admit (r_accept e)] else [])"

lemma sel_round_table:
  "client_socket_fd_map (final_state (sel_round e s)) =
     run_table (slot_admit 0) (slot_evict 0) (round_ops e s) (client_socket_fd_map s)"
  by (simp add: sel_round_def sel_processRequest_def sel_read_set_def round_ops_def emit_def Let_def)

lemma sel_processClient_sock [simp]:
  "sock_file_descriptor (final_state (sel_processClient r f s)) = sock_file_descriptor s"
  by (simp add: sel_processClient_def emit_def Let_def split: recv_res.splits)

lemma sel_slot_sock [simp]:
  "sock_file_descriptor (final_state (sel_slot e fds i s)) = sock_file_descriptor s"
  by (simp add: sel_slot_def Let_def)

lemma sel_slots_sock [simp]:
  "sock_file_descriptor (final_state (sel_slots e fds is s)) = sock_file_descriptor s"
  by (induction "is" arbitrary: s) (simp_all add: final_state_bind [of sock_file_descriptor])

lemma sel_round_sock [simp]:
  "sock_file_descriptor (final_state (sel_round e s)) = sock_file_descriptor s"
  by (simp add: sel_round_def sel_processRequest_def sel_accept_def emit_def Let_def
      split: option.splits)

lemma sel_run_sock [simp]:
  "sock_file_descriptor (final_state (sel_run es s)) = sock_file_descriptor s"
proof (induction es arbitrary: s)
  case (Cons e es)
  then show ?case
    using sel_round_sock [of e s] by (cases "sel_round e s") simp_all
qed simp

lemma sel_run_full:
  assumes "0 \<notin> set (client_socket_fd_map s)"
  shows "client_socket_fd_map (final_state (sel_run es s)) = client_socket_fd_map s"
  using assms
proof (induction es arbitrary: s)
  case (Cons e es)
  have "client_socket_fd_map (final_state (sel_round e s)) = client_socket_fd_map s"
    using Cons.prems by (simp add: sel_round_table round_ops_def slot_admit_full)
  with Cons show ?case by (cases "sel_round e s") simp_all
qed simp

text \<open>No call of a round hangs up on anyone, and only an admission sends.\<close>

lemma sel_processClient_hangups [simp]:
  "hangups (trace (final_state (sel_processClient r f s))) = hangups (trace s)"
  by (simp add: sel_processClient_def Let_def split: recv_res.splits)

lemma sel_processClient_sends [simp]:
  "sends (trace (final_state (sel_processClient r f s))) = sends (trace s)"
  by (simp add: sel_processClient_def Let_def split: recv_res.splits)

lemma sel_slots_hangups [simp]:
  "hangups (trace (final_state (sel_slots e fds is s))) = hangups (trace s)"
  by (induction "is" arbitrary: s)
    (simp_all add: final_state_bind [of "\<lambda>s. hangups (trace s)"] sel_slot_def Let_def)

lemma sel_slots_sends [simp]:
  "sends (trace (final_state (sel_slots e fds is s))) = sends (trace s)"
  by (induction "is" arbitrary: s)
    (simp_all add: final_state_bind [of "\<lambda>s. sends (trace s)"] sel_slot_def Let_def)

lemma sel_round_hangups [simp]:
  "hangups (trace (final_state (sel_round e s))) = hangups (trace s)"
  by (simp add: sel_round_def sel_processRequest_def sel_accept_def Let_def
      emit_def [of "Call_accept f" for f] split: option.splits)

lemma sel_round_sends_full:
  "0 \<notin> set (client_socket_fd_map s) \<Longrightarrow>
   sends (trace (final_state (sel_round e s))) = sends (trace s)"
  by (simp add: sel_round_def sel_processRequest_def sel_accept_def Let_def emit_def)

lemma sel_round_members_mono:
  "slot_members 0 (client_socket_fd_map s) \<subseteq>
   slot_members 0 (client_socket_fd_map (final_state (sel_round e s)))"
proof (cases "0 \<in> set (client_socket_fd_map s)")
  case True
  then show ?thesis
    using slot_admit_split [OF True, of "r_accept e"]
    by (auto simp: sel_round_table round_ops_def slot_members_def)
next
  case False
  then show ?thesis by (simp add: sel_round_table round_ops_def slot_admit_full)
qed

text \<open>The whole history of admissions a list of rounds can amount to.\<close>

definition sel_history :: "round_env list \<Rightarrow> server_globals \<Rightarrow> table_op list" where
  "sel_history es s = concat (map (\<lambda>e. round_ops e s) es)"

lemma sel_history_sock:
  "sock_file_descriptor s = sock_file_descriptor t \<Longrightarrow> sel_history es s = sel_history es t"
  by (simp add: sel_history_def round_ops_def)

lemma sel_run_wf_aux:
  "slot_wf 0 (client_socket_fd_map s) \<Longrightarrow> slot_members 0 (client_socket_fd_map s) \<subseteq> A \<Longrightarrow>
   fresh_history (\<lambda>x. x \<noteq> 0) A (sel_history es s) \<Longrightarrow>
   slot_wf 0 (client_socket_fd_map (final_state (sel_run es s)))"
proof (induction es arbitrary: s A)
  case (Cons e es)
  let ?t = "final_state (sel_round e s)"
  define B where "B = (if round_ops e s = [] then A else insert (r_accept e) A)"
  have rest: "fresh_history (\<lambda>x. x \<noteq> 0) B (sel_history es ?t)"
    and wf: "slot_wf 0 (client_socket_fd_map ?t)"
    and sub: "slot_members 0 (client_socket_fd_map ?t) \<subseteq> B"
    using Cons.prems zero_table.wf_admit [OF Cons.prems(1), of "r_accept e"]
      zero_table.admit_subset(2) [OF Cons.prems(1), of "r_accept e"]
    by (auto simp: B_def sel_history_def round_ops_def sel_round_table split: if_splits)
  show ?case
  proof (cases "sel_round e s")
    case (Running t)
    with Cons.IH [OF wf sub rest] show ?thesis by simp
  next
    case (Exited c t)
    with wf show ?thesis by simp
  qed
qed simp

section \<open>Properties\<close>

text \<open>However many rounds the select server runs, whatever the kernel reports and even when a
  round ends the process, its client table keeps its five entries, never holds a descriptor
  twice and never more than five clients, provided the kernel hands out descriptors that are
  not zero and not already in use.\<close>

theorem sel_table_invariant:
  assumes "slot_wf 0 (client_socket_fd_map s)"
    and "fresh_history (\<lambda>x. x \<noteq> 0) (slot_members 0 (client_socket_fd_map s)) (sel_history es s)"
  shows "slot_wf 0 (client_socket_fd_map (final_state (sel_run es s))) \<and>
    card (slot_members 0 (client_socket_fd_map (final_state (sel_run es s)))) \<le> MAX_CONNECTIONS"
  using sel_run_wf_aux [OF assms(1) subset_refl assms(2)] zero_table.bounded by blast

text \<open>A concrete environment: a new client 7 in an idle server listening on descriptor 3.\<close>

definition sample_round :: round_env where
  "sample_round = \<lparr>r_ready = 1, r_readable = [3], r_writable = [], r_accept = 7,
     r_recv = (\<lambda>i. REof), r_stack = (\<lambda>i. [])\<rparr>"

definition sample_server :: "fd list \<Rightarrow> server_globals" where
  "sample_server tab = \<lparr>trace = [], sock_file_descriptor = 3, client_socket_fd_map = tab\<rparr>"

lemmas sample_defs = sample_round_def sample_server_def

lemma sel_table_invariant_witness:
  "slot_wf 0 (client_socket_fd_map (final_state (sel_run [sample_round] (sample_server [0,0,0,0,0])))) \<and>
   card (slot_members 0 (client_socket_fd_map
     (final_state (sel_run [sample_round] (sample_server [0,0,0,0,0]))))) \<le> MAX_CONNECTIONS"
  by (rule sel_table_invariant)
    (simp_all add: sample_defs slot_wf_def slot_members_def sel_history_def round_ops_def
      MAX_CONNECTIONS_def)

text \<open>Starvation of the select server.  Once its table is full it stays exactly as it is in
  every later round: no client is ever removed, and nobody who connects afterwards is stored or
  greeted, however long the server runs.\<close>

theorem sel_starvation:
  assumes "0 \<notin> set (client_socket_fd_map s)"
  shows "client_socket_fd_map (final_state (sel_run es s)) = client_socket_fd_map s \<and>
    sends (trace (final_state (sel_run es s))) = sends (trace s)"
  using assms
proof (induction es arbitrary: s)
  case (Cons e es)
  let ?t = "final_state (sel_round e s)"
  have tab: "client_socket_fd_map ?t = client_socket_fd_map s"
    using sel_run_full [OF Cons.prems, of "[e]"] by (cases "sel_round e s") simp_all
  have out: "sends (trace ?t) = sends (trace s)"
    by (rule sel_round_sends_full [OF Cons.prems])
  show ?case
  proof (cases "sel_round e s")
    case (Running t)
    with tab out Cons.IH [of t] Cons.prems show ?thesis by simp
  next
    case (Exited c t)
    with tab out show ?thesis by simp
  qed
qed simp

lemma sel_starvation_witness:
  "client_socket_fd_map (final_state (sel_run [sample_round, sample_round] (sample_server [4,5,6,8,9])))
     = [4,5,6,8,9] \<and>
   sends (trace (final_state (sel_run [sample_round, sample_round] (sample_server [4,5,6,8,9])))) = []"
  using sel_starvation [of "sample_server [4,5,6,8,9]" "[sample_round, sample_round]"]
  by (simp add: sample_server_def)

text \<open>The select server never hangs up: over any run it neither closes nor shuts down a
  single descriptor, and every client in the table stays in the table, even one whose
  connection has ended.\<close>

theorem sel_never_hangs_up:
  "hangups (trace (final_state (sel_run es s))) = hangups (trace s) \<and>
   slot_members 0 (client_socket_fd_map s) \<subseteq>
     slot_members 0 (client_socket_fd_map (final_state (sel_run es s)))"
proof (induction es arbitrary: s)
  case (Cons e es)
  show ?case
  proof (cases "sel_round e s")
    case (Running t)
    then show ?thesis
      using sel_round_hangups [of e s] sel_round_members_mono [of s e] Cons.IH [of t] by auto
  next
    case (Exited c t)
    then show ?thesis
      using sel_round_hangups [of e s] sel_round_members_mono [of s e] by simp
  qed
qed simp

text \<open>One failing client ends the select server for everyone: if the client in some entry, with a descriptor that
  \<open>select\<close> examines, is reported readable and its \<open>recv\<close> fails, for whatever reason, then the round ends the process
  with status 1, whatever else happens in that round.\<close>

theorem sel_client_error_exits:
  assumes ready: "r_ready e > 0"
    and i: "i < MAX_CONNECTIONS" "length (client_socket_fd_map s) = MAX_CONNECTIONS"
    and f: "client_socket_fd_map s ! i \<noteq> 0" "client_socket_fd_map s ! i \<in> set (r_readable e)"
    and low: "client_socket_fd_map s ! i \<le> sock_file_descriptor s + int MAX_CONNECTIONS"
    and err: "r_recv e i = RErr err"
  shows "\<exists>t. sel_round e s = Exited 1 t"
proof -
  have step: "\<exists>t. sel_slots e fds is u = Exited 1 t"
    if "i \<in> set is" "client_socket_fd_map u ! i = client_socket_fd_map s ! i"
      "client_socket_fd_map s ! i \<in> set fds" for "is" u fds
    using that
  proof (induction "is" arbitrary: u)
    case (Cons k ks)
    show ?case
    proof (cases "sel_slot e fds k u")
      case (Running v)
      have "i \<noteq> k"
        using Running Cons.prems f(1) err
        by (auto simp: sel_slot_def sel_processClient_def FD_ISSET_def Let_def)
      with Running Cons sel_slot_table [of e fds k u] show ?thesis by simp
    next
      case (Exited c v)
      then have "c = 1"
        by (auto simp: sel_slot_def sel_processClient_def Let_def split: if_splits recv_res.splits)
      with Exited show ?thesis by simp
    qed
  qed simp
  have "client_socket_fd_map s ! i \<in> set (sel_read_set s)"
    using i f(1) by (simp add: sel_read_set_def)
  then show ?thesis
    using ready i f low
    by (simp add: sel_round_def sel_processRequest_def Let_def step slot_admit_keeps emit_def)
qed

lemma sel_client_error_exits_witness:
  "\<exists>t. sel_round (sample_round\<lparr>r_readable := [3, 8], r_recv := (\<lambda>i. RErr EAGAIN)\<rparr>)
     (sample_server [0,8,0,0,0]) = Exited 1 t"
  by (rule sel_client_error_exits [where i = 1 and err = EAGAIN])
    (simp_all add: sample_defs MAX_CONNECTIONS_def)

end
