(* ===== verification/ChatServer.thy ===== *)
theory ChatServer
  imports SelectServer
begin

text \<open>
  \<open>chat-server/Server.cpp\<close>: the select server extended to a relay.  Clients are paired when
  they connect (\<open>client_to_client_map\<close>), a message read from one client is queued for its
  partner (\<open>client_messages_queue\<close>, one message per recipient), and is written when \<open>select\<close>
  reports the partner writable.  \<open>error()\<close> only prints here, so nothing in a round ends the
  process but a failing \<open>select\<close>.  \<open>chat_main_setup\<close> is \<open>main\<close> up to its loop,
  \<open>chat_round\<close> one turn of the loop, \<open>chat_run\<close> the loop over the environment's rounds.
\<close>

section \<open>State\<close>

record chat_globals = server_globals +
  client_to_client_map :: "fd \<rightharpoonup> fd"
  client_messages_queue :: "fd \<rightharpoonup> string"
  max_file_descriptor :: int

definition chat_initial :: chat_globals where
  "chat_initial = server_globals.extend initial_globals (chat_globals.fields Map.empty Map.empty 0)"

section \<open>main up to the loop\<close>

definition chat_main_setup :: "nat \<Rightarrow> string \<Rightarrow> setup_env \<Rightarrow> chat_globals \<Rightarrow> chat_globals outcome" where
  "chat_main_setup argc argv1 e s =
     (if argc < 2 then Exited 1 s
      else
        let s1 = (emit Call_socket s)\<lparr>sock_file_descriptor := e_socket e\<rparr>; sock = e_socket e in
        if sock = -1 then Exited (-1) s1
        else
          let s2 = emit (Call_setsockopt sock) s1 in
          if e_setsockopt e \<noteq> 0 then Exited 1 s2
          else
            let s3 = emit (Call_bind sock (port_of (atoi argv1))) s2 in
            if e_bind e = -1 then Exited (-1) s3
            else
              let s4 = emit (Call_listen sock MAX_CONNECTIONS) s3 in
              if e_listen e = -1 then Exited 1 s4
              else
                let s5 = snd (make_nonblocking sock (e_getfl e) (e_setfl e) s4) in
                Running (s5\<lparr>max_file_descriptor := sock\<rparr>))"

section \<open>One round\<close>

definition chat_closeClientConnection :: "fd \<Rightarrow> chat_globals \<Rightarrow> chat_globals" where
  "chat_closeClientConnection f s =
     (let s1 = CloseSocket f s in
      case first_index (\<lambda>y. y = f) (client_socket_fd_map s1) of
        None \<Rightarrow> s1
      | Some i \<Rightarrow> s1\<lparr>client_socket_fd_map := (client_socket_fd_map s1)[i := 0]\<rparr>)"

definition chat_sendRequest :: "fd \<Rightarrow> string \<Rightarrow> chat_globals \<Rightarrow> chat_globals" where
  "chat_sendRequest f message s = emit (Call_send f message 255) s"

text \<open>
  \<open>processRequest(int)\<close>: \<open>stack\<close> are the bytes behind the 255-byte buffer, which
  \<open>std::string(buffer)\<close> runs into when the message fills the buffer.
\<close>

definition chat_processClient :: "recv_res \<Rightarrow> string \<Rightarrow> fd \<Rightarrow> chat_globals \<Rightarrow> chat_globals" where
  "chat_processClient r stack f s =
     (let s1 = emit (Call_recv f 255) s in
      if recv_status r = 0 then chat_closeClientConnection f s1
      else if recv_status r < 0 \<and> r = RErr EAGAIN then chat_closeClientConnection f s1
      else
        let buffer = filled_buffer 255 (recv_bytes r);
            recepient = (case client_to_client_map s1 f of None \<Rightarrow> -1 | Some g \<Rightarrow> g) in
        if recepient > 0 then
          s1\<lparr>client_messages_queue :=
               std_insert recepient (c_str (buffer @ stack)) (client_messages_queue s1)\<rparr>
        else s1)"

text \<open>The first other client of the table, which the newcomer in entry \<open>i\<close> is paired with.\<close>

definition chat_partner :: "nat \<Rightarrow> fd list \<Rightarrow> fd option" where
  "chat_partner i tab =
     map_option (\<lambda>j. tab ! j) (List.find (\<lambda>j. tab ! j \<noteq> 0 \<and> j \<noteq> i) [0..<MAX_CONNECTIONS])"

definition chat_accept :: "fd \<Rightarrow> chat_globals \<Rightarrow> chat_globals" where
  "chat_accept c s =
     (let s1 = emit (Call_accept (sock_file_descriptor s)) s in
      case first_index (\<lambda>y. y = 0) (client_socket_fd_map s1) of
        None \<Rightarrow> s1
      | Some i \<Rightarrow>
          let tab = (client_socket_fd_map s1)[i := c];
              s2 = s1\<lparr>client_socket_fd_map := tab\<rparr>;
              s3 = (case chat_partner i tab of
                      None \<Rightarrow> s2
                    | Some g \<Rightarrow>
                        s2\<lparr>client_to_client_map :=
                             std_insert g c (std_insert c g (client_to_client_map s2))\<rparr>)
          in emit (Call_send c welcome_message 255) s3)"

text \<open>The body of the second loop: read, then write, re-reading the entry in between.\<close>

definition chat_write :: "fd list \<Rightarrow> nat \<Rightarrow> chat_globals \<Rightarrow> chat_globals" where
  "chat_write writefds i s =
     (let g = client_socket_fd_map s ! i in
      if FD_ISSET g writefds then
        let (message, q) = std_index [] g (client_messages_queue s);
            s1 = chat_sendRequest g (message @ [NUL]) (s\<lparr>client_messages_queue := q\<rparr>)
        in s1\<lparr>client_messages_queue := (client_messages_queue s1)(g := None)\<rparr>
      else s)"

definition chat_slot ::
  "round_env \<Rightarrow> fd list \<Rightarrow> fd list \<Rightarrow> nat \<Rightarrow> chat_globals \<Rightarrow> chat_globals" where
  "chat_slot e readfds writefds i s =
     (let f = client_socket_fd_map s ! i in
      if f \<noteq> 0 then
        let s1 = (if FD_ISSET f readfds then chat_processClient (r_recv e i) (r_stack e i) f s else s)
        in chat_write writefds i s1
      else s)"

definition chat_processRequest ::
  "round_env \<Rightarrow> fd list \<Rightarrow> fd list \<Rightarrow> chat_globals \<Rightarrow> chat_globals" where
  "chat_processRequest e readfds writefds s =
     (let s1 = (if FD_ISSET (sock_file_descriptor s) readfds then chat_accept (r_accept e) s else s)
      in fold (chat_slot e readfds writefds) [0..<MAX_CONNECTIONS] s1)"

definition chat_read_set :: "chat_globals \<Rightarrow> fd list" where
  "chat_read_set s = sock_file_descriptor s # filter (\<lambda>f. f \<noteq> 0) (client_socket_fd_map s)"

definition chat_write_set :: "chat_globals \<Rightarrow> fd list" where
  "chat_write_set s =
     filter (\<lambda>f. f \<noteq> 0 \<and> client_messages_queue s f \<noteq> None) (client_socket_fd_map s)"

definition chat_round :: "round_env \<Rightarrow> chat_globals \<Rightarrow> chat_globals outcome" where
  "chat_round e s =
     (let rd = chat_read_set s;
          wr = chat_write_set s;
          s1 = s\<lparr>max_file_descriptor :=
                  fold max (filter (\<lambda>f. f \<noteq> 0) (client_socket_fd_map s)) (max_file_descriptor s)\<rparr>;
          s2 = emit (Call_select (max_file_descriptor s1 + 1) rd wr) s1 in
      if r_ready e > 0 then
        Running (chat_processRequest e (fd_select rd (r_readable e)) (fd_select wr (r_writable e)) s2)
      else if r_ready e = 0 then Running s2
      else Exited 1 s2)"

fun chat_run :: "round_env list \<Rightarrow> chat_globals \<Rightarrow> chat_globals outcome" where
  "chat_run [] s = Running s"
| "chat_run (e # es) s = bind_outcome (chat_round e s) (chat_run es)"

section \<open>What a round leaves alone\<close>

lemma chat_close_table [simp]:
  "client_socket_fd_map (chat_closeClientConnection f s) = slot_evict 0 f (client_socket_fd_map s)"
  by (simp add: chat_closeClientConnection_def slot_evict_def CloseSocket_def emit_def Let_def
      split: option.splits)

lemma chat_close_rest [simp]:
  "client_to_client_map (chat_closeClientConnection f s) = client_to_client_map s"
  "client_messages_queue (chat_closeClientConnection f s) = client_messages_queue s"
  "sock_file_descriptor (chat_closeClientConnection f s) = sock_file_descriptor s"
  "sends (trace (chat_closeClientConnection f s)) = sends (trace s)"
  "closes (trace (chat_closeClientConnection f s)) = closes (trace s)"
  by (simp_all add: chat_closeClientConnection_def CloseSocket_def emit_def Let_def split: option.splits)

text \<open>Which receive results end the connection.\<close>

definition chat_hangs_up :: "recv_res \<Rightarrow> bool" where
  "chat_hangs_up r \<longleftrightarrow> recv_status r = 0 \<or> r = RErr EAGAIN"

text \<open>What a receive result is taken to say, and whom the sender is connected to.\<close>

definition chat_text :: "recv_res \<Rightarrow> string \<Rightarrow> string" where
  "chat_text r stack = c_str (filled_buffer 255 (recv_bytes r) @ stack)"

definition chat_recipient :: "fd \<Rightarrow> chat_globals \<Rightarrow> fd option" where
  "chat_recipient f s = (case client_to_client_map s f of
     None \<Rightarrow> None | Some g \<Rightarrow> if g > 0 then Some g else None)"

lemma chat_processClient_table [simp]:
  "client_socket_fd_map (chat_processClient r stk f s) =
     (if chat_hangs_up r then slot_evict 0 f (client_socket_fd_map s) else client_socket_fd_map s)"
  by (auto simp: chat_processClient_def chat_hangs_up_def emit_def Let_def split: option.splits)

lemma chat_processClient_queue [simp]:
  "client_messages_queue (chat_processClient r stk f s) =
     (if chat_hangs_up r then client_messages_queue s
      else case chat_recipient f s of None \<Rightarrow> client_messages_queue s
        | Some g \<Rightarrow> std_insert g (chat_text r stk) (client_messages_queue s))"
  by (auto simp: chat_processClient_def chat_hangs_up_def chat_recipient_def chat_text_def
      emit_def Let_def split: option.splits)

lemma chat_processClient_rest [simp]:
  "client_to_client_map (chat_processClient r stk f s) = client_to_client_map s"
  "sock_file_descriptor (chat_processClient r stk f s) = sock_file_descriptor s"
  "sends (trace (chat_processClient r stk f s)) = sends (trace s)"
  "closes (trace (chat_processClient r stk f s)) = closes (trace s)"
  by (simp_all add: chat_processClient_def emit_def Let_def split: option.splits)

lemma chat_write_rest [simp]:
  "client_to_client_map (chat_write w i s) = client_to_client_map s"
  "client_socket_fd_map (chat_write w i s) = client_socket_fd_map s"
  "sock_file_descriptor (chat_write w i s) = sock_file_descriptor s"
  "closes (trace (chat_write w i s)) = closes (trace s)"
  by (simp_all add: chat_write_def chat_sendRequest_def emit_def Let_def split: prod.splits)

lemma chat_write_queue [simp]:
  "client_messages_queue (chat_write w i s) =
     (if FD_ISSET (client_socket_fd_map s ! i) w
      then (client_messages_queue s)(client_socket_fd_map s ! i := None)
      else client_messages_queue s)"
  by (auto simp: chat_write_def chat_sendRequest_def emit_def Let_def std_index_def
      split: prod.splits option.splits)

lemma chat_write_sends:
  "sends (trace (chat_write w i s)) = sends (trace s) @
     (if FD_ISSET (client_socket_fd_map s ! i) w
      then [(client_socket_fd_map s ! i,
             (case client_messages_queue s (client_socket_fd_map s ! i) of None \<Rightarrow> [] | Some m \<Rightarrow> m) @ [NUL],
             255)]
      else [])"
  by (auto simp: chat_write_def chat_sendRequest_def emit_def Let_def std_index_def
      split: prod.splits option.splits)

lemma chat_slot_rest [simp]:
  "client_to_client_map (chat_slot e r w i s) = client_to_client_map s"
  "sock_file_descriptor (chat_slot e r w i s) = sock_file_descriptor s"
  "closes (trace (chat_slot e r w i s)) = closes (trace s)"
  by (simp_all add: chat_slot_def Let_def)

lemma chat_slots_rest [simp]:
  "client_to_client_map (fold (chat_slot e r w) is s) = client_to_client_map s"
  "sock_file_descriptor (fold (chat_slot e r w) is s) = sock_file_descriptor s"
  "closes (trace (fold (chat_slot e r w) is s)) = closes (trace s)"
  by (induction "is" arbitrary: s) simp_all

lemma chat_accept_table [simp]:
  "client_socket_fd_map (chat_accept c s) = slot_admit 0 c (client_socket_fd_map s)"
  by (simp add: chat_accept_def slot_admit_def emit_def Let_def split: option.splits)

lemma chat_accept_rest [simp]:
  "client_messages_queue (chat_accept c s) = client_messages_queue s"
  "sock_file_descriptor (chat_accept c s) = sock_file_descriptor s"
  "closes (trace (chat_accept c s)) = closes (trace s)"
  by (simp_all add: chat_accept_def emit_def Let_def split: option.splits)

lemma chat_accept_sends:
  "sends (trace (chat_accept c s)) = sends (trace s) @
     (if 0 \<in> set (client_socket_fd_map s) then [(c, welcome_message, 255)] else [])"
  by (auto simp: chat_accept_def emit_def Let_def split: option.splits
      dest: first_index_SomeD) (auto simp: table_simps)

text \<open>Pairings are only ever added.\<close>

lemma chat_accept_pairs: "client_to_client_map s \<subseteq>\<^sub>m client_to_client_map (chat_accept c s)"
  by (auto simp: chat_accept_def emit_def Let_def map_le_def std_insert_def split: option.splits)

lemma chat_round_pairs:
  "client_to_client_map s \<subseteq>\<^sub>m client_to_client_map (final_state (chat_round e s))"
  using chat_accept_pairs
    [of "emit c (s\<lparr>max_file_descriptor := m\<rparr>)" "r_accept e" for c m]
  by (auto simp: chat_round_def chat_processRequest_def emit_def Let_def)

lemma chat_run_pairs:
  "client_to_client_map s \<subseteq>\<^sub>m client_to_client_map (final_state (chat_run es s))"
proof (induction es arbitrary: s)
  case (Cons e es)
  then show ?case
    using chat_round_pairs [of s e] map_le_trans by (cases "chat_round e s") fastforce+
qed simp

lemma chat_round_sock [simp]:
  "sock_file_descriptor (final_state (chat_round e s)) = sock_file_descriptor s"
  by (simp add: chat_round_def chat_processRequest_def emit_def Let_def)

lemma chat_round_closes [simp]: "closes (trace (final_state (chat_round e s))) = closes (trace s)"
  by (simp add: chat_round_def chat_processRequest_def emit_def Let_def)

section \<open>The client table over a run\<close>

text \<open>An entry of the table is cleared or kept by the second loop, never refilled.\<close>

lemma slot_evict_entry: "slot_evict free x tab ! i = tab ! i \<or> slot_evict free x tab ! i = free"
proof (cases "first_index (\<lambda>y. y = x) tab")
  case (Some k)
  then show ?thesis
    using first_index_bound [OF Some] by (cases "k = i") (simp_all add: slot_evict_def)
qed (simp add: slot_evict_def)

lemma chat_slot_table:
  "client_socket_fd_map (chat_slot e r w i s) =
     (let f = client_socket_fd_map s ! i in
      if f \<noteq> 0 \<and> FD_ISSET f r \<and> chat_hangs_up (r_recv e i)
      then slot_evict 0 f (client_socket_fd_map s) else client_socket_fd_map s)"
  by (simp add: chat_slot_def Let_def)

lemma chat_slot_entry:
  "client_socket_fd_map (chat_slot e r w i s) ! k = client_socket_fd_map s ! k \<or>
   client_socket_fd_map (chat_slot e r w i s) ! k = 0"
  using slot_evict_entry [of 0 _ "client_socket_fd_map s" k] by (auto simp: chat_slot_table Let_def)

lemma chat_slot_wf:
  "slot_wf 0 (client_socket_fd_map s) \<Longrightarrow>
   slot_wf 0 (client_socket_fd_map (chat_slot e r w i s)) \<and>
   slot_members 0 (client_socket_fd_map (chat_slot e r w i s)) \<subseteq> slot_members 0 (client_socket_fd_map s)"
  by (auto simp: chat_slot_table Let_def zero_table.wf_evict zero_table.members_evict)

lemma chat_slots_wf:
  "slot_wf 0 (client_socket_fd_map s) \<Longrightarrow>
   slot_wf 0 (client_socket_fd_map (fold (chat_slot e r w) is s)) \<and>
   slot_members 0 (client_socket_fd_map (fold (chat_slot e r w) is s)) \<subseteq>
     slot_members 0 (client_socket_fd_map s)"
proof (induction "is" arbitrary: s)
  case (Cons i "is")
  with chat_slot_wf [OF Cons.prems, of e r w i] show ?case by fastforce
qed simp

text \<open>Whether a round accepts, and the kernel's promise that descriptors are fresh: the one it
  hands out is positive and not one the server still has in its table.\<close>

definition chat_accepts :: "round_env \<Rightarrow> chat_globals \<Rightarrow> bool" where
  "chat_accepts e s \<longleftrightarrow> r_ready e > 0 \<and> sock_file_descriptor s \<in> set (r_readable e)"

fun chat_fresh :: "round_env list \<Rightarrow> chat_globals \<Rightarrow> bool" where
  "chat_fresh [] s = True"
| "chat_fresh (e # es) s =
     ((chat_accepts e s \<longrightarrow> 0 < r_accept e \<and> r_accept e \<notin> set (client_socket_fd_map s)) \<and>
      (case chat_round e s of Running t \<Rightarrow> chat_fresh es t | Exited c t \<Rightarrow> True))"

text \<open>The state in which the second loop starts.\<close>

definition chat_selected :: "round_env \<Rightarrow> chat_globals \<Rightarrow> chat_globals" where
  "chat_selected e s =
     (let s1 = s\<lparr>max_file_descriptor :=
            fold max (filter (\<lambda>f. f \<noteq> 0) (client_socket_fd_map s)) (max_file_descriptor s)\<rparr>;
          s2 = emit (Call_select (max_file_descriptor s1 + 1) (chat_read_set s) (chat_write_set s)) s1
      in if chat_accepts e s then chat_accept (r_accept e) s2 else s2)"

lemma chat_round_split:
  "chat_round e s =
     (if r_ready e > 0 then
        Running (fold (chat_slot e (fd_select (chat_read_set s) (r_readable e))
                   (fd_select (chat_write_set s) (r_writable e))) [0..<MAX_CONNECTIONS] (chat_selected e s))
      else if r_ready e = 0 then Running (chat_selected e s)
      else Exited 1 (chat_selected e s))"
  by (simp add: chat_round_def chat_processRequest_def chat_selected_def chat_accepts_def
      chat_read_set_def emit_def Let_def)

lemma chat_selected_simps [simp]:
  "client_socket_fd_map (chat_selected e s) =
     (if chat_accepts e s then slot_admit 0 (r_accept e) (client_socket_fd_map s)
      else client_socket_fd_map s)"
  "client_messages_queue (chat_selected e s) = client_messages_queue s"
  by (simp_all add: chat_selected_def emit_def Let_def)

lemma chat_selected_wf:
  assumes "slot_wf 0 (client_socket_fd_map s)"
    and "chat_accepts e s \<Longrightarrow> 0 < r_accept e \<and> r_accept e \<notin> set (client_socket_fd_map s)"
  shows "slot_wf 0 (client_socket_fd_map (chat_selected e s))"
  using assms zero_table.wf_admit [OF assms(1), of "r_accept e"] by (auto simp: slot_members_def)

lemma chat_round_wf:
  assumes "slot_wf 0 (client_socket_fd_map s)"
    and "chat_accepts e s \<Longrightarrow> 0 < r_accept e \<and> r_accept e \<notin> set (client_socket_fd_map s)"
  shows "slot_wf 0 (client_socket_fd_map (final_state (chat_round e s)))"
  using chat_slots_wf [OF chat_selected_wf [OF assms]] chat_selected_wf [OF assms]
  by (simp add: chat_round_split)

section \<open>Provenance of what is sent\<close>

text \<open>The messages heard in a round: the descriptor read, and the text taken from its bytes.\<close>

definition round_heard :: "round_env \<Rightarrow> chat_globals \<Rightarrow> (fd \<times> string) set" where
  "round_heard e s =
     {(f, m). f \<noteq> 0 \<and> f \<in> set (chat_read_set s) \<and> f \<in> set (r_readable e) \<and>
        (\<exists>i < MAX_CONNECTIONS. client_socket_fd_map (chat_selected e s) ! i = f \<and>
            \<not> chat_hangs_up (r_recv e i) \<and> m = chat_text (r_recv e i) (r_stack e i))}"

fun chat_heard :: "round_env list \<Rightarrow> chat_globals \<Rightarrow> (fd \<times> string) set" where
  "chat_heard [] s = {}"
| "chat_heard (e # es) s =
     round_heard e s \<union> (case chat_round e s of Running t \<Rightarrow> chat_heard es t | Exited c t \<Rightarrow> {})"

text \<open>A queue or a list of sends that only carries messages of \<open>H\<close>, each to its sender's partner.\<close>

definition queue_from :: "(fd \<times> string) set \<Rightarrow> chat_globals \<Rightarrow> bool" where
  "queue_from H s \<longleftrightarrow> (\<forall>g m. client_messages_queue s g = Some m \<longrightarrow>
     (\<exists>x. client_to_client_map s x = Some g \<and> (x, m) \<in> H))"

definition send_from :: "(fd \<times> string) set \<Rightarrow> (fd \<rightharpoonup> fd) \<Rightarrow> fd \<times> string \<times> nat \<Rightarrow> bool" where
  "send_from H pairs = (\<lambda>(g, obj, len). len = 255 \<and>
     (obj = welcome_message \<or> (\<exists>x m. pairs x = Some g \<and> (x, m) \<in> H \<and> obj = m @ [NUL])))"

definition relay_from :: "(fd \<times> string) set \<Rightarrow> chat_globals \<Rightarrow> bool" where
  "relay_from H s \<longleftrightarrow>
     queue_from H s \<and> (\<forall>x \<in> set (sends (trace s)). send_from H (client_to_client_map s) x)"

lemma send_from_mono:
  "send_from H p x \<Longrightarrow> H \<subseteq> H' \<Longrightarrow> p \<subseteq>\<^sub>m p' \<Longrightarrow> send_from H' p' x"
  by (cases x) (auto simp: send_from_def map_le_def; metis domI subsetD)

lemma relay_from_mono: "relay_from H s \<Longrightarrow> H \<subseteq> H' \<Longrightarrow> relay_from H' s"
  unfolding relay_from_def queue_from_def
  using send_from_mono [OF _ _ map_le_refl] by (meson subsetD)

lemma send_from_welcome [simp]: "send_from H p (c, welcome_message, 255)"
  by (simp add: send_from_def)

lemma relay_from_selected:
  assumes "relay_from H s"
  shows "relay_from H (chat_selected e s)"
proof -
  define s2 where "s2 = emit (Call_select (fold max (filter (\<lambda>f. f \<noteq> 0) (client_socket_fd_map s))
     (max_file_descriptor s) + 1) (chat_read_set s) (chat_write_set s))
     (s\<lparr>max_file_descriptor :=
        fold max (filter (\<lambda>f. f \<noteq> 0) (client_socket_fd_map s)) (max_file_descriptor s)\<rparr>)"
  have s2: "relay_from H s2"
    using assms by (simp add: relay_from_def queue_from_def s2_def emit_def)
  have grow: "client_to_client_map s2 \<subseteq>\<^sub>m client_to_client_map (chat_accept (r_accept e) s2)"
    by (rule chat_accept_pairs)
  have "queue_from H (chat_accept (r_accept e) s2)"
    using s2 grow by (force simp: relay_from_def queue_from_def map_le_def dom_def)
  moreover have "\<forall>x \<in> set (sends (trace (chat_accept (r_accept e) s2))).
      send_from H (client_to_client_map (chat_accept (r_accept e) s2)) x"
    using s2 send_from_mono [OF _ subset_refl grow]
    by (auto simp: relay_from_def chat_accept_sends split: if_splits)
  ultimately show ?thesis
    using s2 by (auto simp: chat_selected_def relay_from_def s2_def Let_def)
qed

text \<open>Reading one client keeps the relay honest when the message it says is in \<open>H\<close>.\<close>

lemma relay_from_processClient:
  assumes "relay_from H s" "\<not> chat_hangs_up r \<Longrightarrow> (f, chat_text r stk) \<in> H"
  shows "relay_from H (chat_processClient r stk f s)"
  using assms unfolding relay_from_def queue_from_def chat_processClient_rest chat_processClient_queue
  by (auto simp: chat_recipient_def std_insert_def split: option.splits if_splits)

lemma relay_from_write:
  assumes "relay_from H s"
    and "FD_ISSET (client_socket_fd_map s ! i) w \<Longrightarrow>
      client_messages_queue s (client_socket_fd_map s ! i) \<noteq> None"
  shows "relay_from H (chat_write w i s)"
proof -
  let ?g = "client_socket_fd_map s ! i"
  have "send_from H (client_to_client_map s) (?g, m @ [NUL], 255)"
    if "client_messages_queue s ?g = Some m" for m
    using assms(1) that by (auto simp: relay_from_def queue_from_def send_from_def)
  moreover have "queue_from H (chat_write w i s)"
    using assms(1) by (auto simp: relay_from_def queue_from_def)
  ultimately show ?thesis
    using assms unfolding relay_from_def chat_write_rest chat_write_sends
    by (auto split: option.splits)
qed

text \<open>A queued message stays queued while the loop works on other entries.\<close>

lemma chat_slot_pending:
  assumes "client_messages_queue s g \<noteq> None" "g \<noteq> client_socket_fd_map s ! i" "\<not> FD_ISSET 0 w"
  shows "client_messages_queue (chat_slot e r w i s) g \<noteq> None"
proof -
  define s1 where "s1 = (if FD_ISSET (client_socket_fd_map s ! i) r
    then chat_processClient (r_recv e i) (r_stack e i) (client_socket_fd_map s ! i) s else s)"
  have "client_messages_queue s1 g \<noteq> None"
    using assms(1) std_insert_keeps by (fastforce simp: s1_def split: option.splits)
  moreover have "client_socket_fd_map s1 ! i = client_socket_fd_map s ! i \<or>
      client_socket_fd_map s1 ! i = 0"
    using slot_evict_entry [of 0 "client_socket_fd_map s ! i" "client_socket_fd_map s" i]
    by (auto simp: s1_def)
  ultimately show ?thesis
    using assms by (auto simp: chat_slot_def s1_def [symmetric] Let_def)
qed

lemma slot_wf_entries:
  assumes "slot_wf 0 tab" "i < MAX_CONNECTIONS" "k < MAX_CONNECTIONS" "tab ! i = tab ! k" "tab ! i \<noteq> 0"
  shows "i = k"
proof (rule ccontr)
  assume "i \<noteq> k"
  have *: "False" if "a < b" "b < length xs" "xs ! a = xs ! b" "xs ! a \<noteq> 0"
    "distinct (filter (\<lambda>x. x \<noteq> 0) xs)" for a b and xs :: "fd list"
  proof -
    have "xs = take b xs @ drop b xs" by simp
    with that(5) have "set (filter (\<lambda>x. x \<noteq> 0) (take b xs)) \<inter> set (filter (\<lambda>x. x \<noteq> 0) (drop b xs)) = {}"
      by (metis distinct_append filter_append)
    moreover have "xs ! a \<in> set (take b xs)" "xs ! b \<in> set (drop b xs)"
      using that(1,2) by (auto simp: in_set_conv_nth intro: exI [of _ a] exI [of _ 0])
    ultimately show False using that(3,4) by auto
  qed
  show False
    using * [of i k tab] * [of k i tab] assms \<open>i \<noteq> k\<close>
    by (auto simp: slot_wf_def neq_iff)
qed

lemma relay_from_slots:
  assumes "relay_from H s" "slot_wf 0 (client_socket_fd_map s)" "\<not> FD_ISSET 0 w"
    and "distinct is" "set is \<subseteq> {..<MAX_CONNECTIONS}"
    and "\<And>i. i \<in> set is \<Longrightarrow> FD_ISSET (client_socket_fd_map s ! i) w \<Longrightarrow>
      client_messages_queue s (client_socket_fd_map s ! i) \<noteq> None"
    and "\<And>i. i \<in> set is \<Longrightarrow> client_socket_fd_map s ! i \<noteq> 0 \<Longrightarrow> FD_ISSET (client_socket_fd_map s ! i) r \<Longrightarrow>
      \<not> chat_hangs_up (r_recv e i) \<Longrightarrow>
      (client_socket_fd_map s ! i, chat_text (r_recv e i) (r_stack e i)) \<in> H"
  shows "relay_from H (fold (chat_slot e r w) is s)"
  using assms
proof (induction "is" arbitrary: s)
  case (Cons i "is")
  let ?f = "client_socket_fd_map s ! i" and ?t = "chat_slot e r w i s"
  define s1 where "s1 = (if FD_ISSET ?f r
    then chat_processClient (r_recv e i) (r_stack e i) ?f s else s)"
  have entry: "client_socket_fd_map s1 ! i = ?f \<or> client_socket_fd_map s1 ! i = 0"
    using slot_evict_entry [of 0 ?f "client_socket_fd_map s" i] by (auto simp: s1_def)
  have pend: "client_messages_queue s1 ?f \<noteq> None" if "FD_ISSET ?f w"
    using Cons.prems(6) [of i] that std_insert_keeps by (fastforce simp: s1_def split: option.splits)
  have "relay_from H s1" if "?f \<noteq> 0"
    using Cons.prems(1,7) that by (auto simp: s1_def intro: relay_from_processClient)
  moreover have "client_messages_queue s1 (client_socket_fd_map s1 ! i) \<noteq> None"
    if "FD_ISSET (client_socket_fd_map s1 ! i) w"
    using entry pend that Cons.prems(3) by metis
  ultimately have relay: "relay_from H ?t"
    using Cons.prems(1) by (auto simp: chat_slot_def s1_def [symmetric] Let_def intro: relay_from_write)
  have wf: "slot_wf 0 (client_socket_fd_map ?t)"
    using chat_slot_wf [OF Cons.prems(2)] by blast
  have pending: "client_messages_queue ?t (client_socket_fd_map ?t ! k) \<noteq> None"
    if k: "k \<in> set is" "FD_ISSET (client_socket_fd_map ?t ! k) w" for k
  proof -
    have eq: "client_socket_fd_map ?t ! k = client_socket_fd_map s ! k" "client_socket_fd_map s ! k \<noteq> 0"
      using chat_slot_entry [of e r w i s k] k(2) Cons.prems(3) by auto
    moreover have "client_socket_fd_map s ! k \<noteq> ?f"
      using slot_wf_entries [OF Cons.prems(2), of k i] Cons.prems(4,5) k(1) eq by auto
    ultimately show ?thesis
      using chat_slot_pending [OF _ _ Cons.prems(3)] Cons.prems(6) [of k] k by auto
  qed
  have said: "(client_socket_fd_map ?t ! k, chat_text (r_recv e k) (r_stack e k)) \<in> H"
    if "k \<in> set is" "client_socket_fd_map ?t ! k \<noteq> 0" "FD_ISSET (client_socket_fd_map ?t ! k) r"
      "\<not> chat_hangs_up (r_recv e k)" for k
    using chat_slot_entry [of e r w i s k] that Cons.prems(7) [of k] by auto
  show ?case
    using Cons.IH [OF relay wf Cons.prems(3) _ _ pending said] Cons.prems(4,5) by simp
qed simp

lemma relay_from_round:
  assumes relay: "relay_from H s" and wf: "slot_wf 0 (client_socket_fd_map s)"
    and fresh: "chat_accepts e s \<Longrightarrow> 0 < r_accept e \<and> r_accept e \<notin> set (client_socket_fd_map s)"
    and heard: "round_heard e s \<subseteq> H"
  shows "relay_from H (final_state (chat_round e s))"
proof -
  let ?u = "chat_selected e s" and ?r = "fd_select (chat_read_set s) (r_readable e)"
  let ?w = "fd_select (chat_write_set s) (r_writable e)"
  have u: "relay_from H ?u" by (rule relay_from_selected [OF relay])
  have pend: "client_messages_queue ?u (client_socket_fd_map ?u ! i) \<noteq> None"
    if "FD_ISSET (client_socket_fd_map ?u ! i) ?w" for i
    using that by (auto simp: chat_write_set_def)
  have said: "(client_socket_fd_map ?u ! i, chat_text (r_recv e i) (r_stack e i)) \<in> H"
    if "i \<in> set [0..<MAX_CONNECTIONS]" "client_socket_fd_map ?u ! i \<noteq> 0"
      "FD_ISSET (client_socket_fd_map ?u ! i) ?r" "\<not> chat_hangs_up (r_recv e i)" for i
    using heard that unfolding round_heard_def FD_ISSET_select by fastforce
  have "relay_from H (fold (chat_slot e ?r ?w) [0..<MAX_CONNECTIONS] ?u)"
    by (rule relay_from_slots [OF u chat_selected_wf [OF wf fresh] _ _ _ pend said])
      (auto simp: chat_write_set_def)
  with u show ?thesis by (simp add: chat_round_split)
qed

section \<open>Pending messages\<close>

text \<open>The body of the loop in two halves.\<close>

definition chat_read :: "round_env \<Rightarrow> fd list \<Rightarrow> nat \<Rightarrow> chat_globals \<Rightarrow> chat_globals" where
  "chat_read e readfds i s =
     (let f = client_socket_fd_map s ! i in
      if FD_ISSET f readfds then chat_processClient (r_recv e i) (r_stack e i) f s else s)"

lemma chat_slot_halves:
  "chat_slot e r w i s =
     (if client_socket_fd_map s ! i \<noteq> 0 then chat_write w i (chat_read e r i s) else s)"
  by (simp add: chat_slot_def chat_read_def Let_def)

lemma chat_read_keeps:
  "client_messages_queue s g = Some m \<Longrightarrow> client_messages_queue (chat_read e r i s) g = Some m"
  using std_insert_keeps [of "client_messages_queue s" g m]
  by (auto simp: chat_read_def Let_def split: option.splits)

lemma chat_read_entry:
  "client_socket_fd_map (chat_read e r i s) ! i = client_socket_fd_map s ! i \<or>
   client_socket_fd_map (chat_read e r i s) ! i = 0"
  using slot_evict_entry [of 0 "client_socket_fd_map s ! i" "client_socket_fd_map s" i]
  by (auto simp: chat_read_def Let_def)

text \<open>A pending message survives every step in which its recipient is not written to.\<close>

lemma chat_slot_pending_text:
  "client_messages_queue s g = Some m \<Longrightarrow> g \<notin> set w \<Longrightarrow>
   client_messages_queue (chat_slot e r w i s) g = Some m"
  using chat_read_keeps [of s g m e r i] by (auto simp: chat_slot_halves FD_ISSET_def)

lemma chat_slots_pending_text:
  "client_messages_queue s g = Some m \<Longrightarrow> g \<notin> set w \<Longrightarrow>
   client_messages_queue (fold (chat_slot e r w) is s) g = Some m"
  by (induction "is" arbitrary: s) (simp_all add: chat_slot_pending_text)

text \<open>It also survives until the loop reaches the recipient's own entry \<open>j\<close>.\<close>

lemma chat_slots_pending_before:
  assumes "client_messages_queue s g = Some m" "client_socket_fd_map s ! j = g" "g \<noteq> 0"
    and "slot_wf 0 (client_socket_fd_map s)" "\<not> FD_ISSET 0 w" "j < MAX_CONNECTIONS"
    and "set is \<subseteq> {..<MAX_CONNECTIONS}" "j \<notin> set is"
  shows "client_messages_queue (fold (chat_slot e r w) is s) g = Some m \<and>
    client_socket_fd_map (fold (chat_slot e r w) is s) ! j = g"
  using assms
proof (induction "is" arbitrary: s)
  case (Cons i "is")
  let ?f = "client_socket_fd_map s ! i" and ?t = "chat_slot e r w i s"
  have other: "?f \<noteq> g"
    using slot_wf_entries [OF Cons.prems(4), of i j] Cons.prems by auto
  have q: "client_messages_queue ?t g = Some m"
    using chat_read_keeps [OF Cons.prems(1), of e r i] chat_read_entry [of e r i s]
      other Cons.prems(1,3,5) by (auto simp: chat_slot_halves)
  have "slot_evict 0 ?f (client_socket_fd_map s) ! j = g"
  proof (cases "first_index (\<lambda>y. y = ?f) (client_socket_fd_map s)")
    case (Some k)
    then have "k \<noteq> j" using first_index_hit [OF Some] other Cons.prems(2) by auto
    with Some Cons.prems(2) show ?thesis by (simp add: slot_evict_def)
  qed (simp add: slot_evict_def Cons.prems(2))
  then have "client_socket_fd_map ?t ! j = g"
    using Cons.prems(2) by (auto simp: chat_slot_table Let_def)
  with q Cons.IH [of ?t] chat_slot_wf [OF Cons.prems(4), of e r w i] Cons.prems show ?case by simp
qed simp

lemma chat_slots_sends_mono:
  "set (sends (trace s)) \<subseteq> set (sends (trace (fold (chat_slot e r w) is s)))"
proof (induction "is" arbitrary: s)
  case (Cons i "is")
  have "set (sends (trace s)) \<subseteq> set (sends (trace (chat_slot e r w i s)))"
    by (auto simp: chat_slot_def chat_write_sends Let_def)
  with Cons show ?case by fastforce
qed simp

text \<open>Nothing is sent to a descriptor that is not in the write set.\<close>

lemma chat_slots_sends_other:
  "g \<notin> set w \<Longrightarrow>
   filter (\<lambda>x. fst x = g) (sends (trace (fold (chat_slot e r w) is s))) =
     filter (\<lambda>x. fst x = g) (sends (trace s))"
proof (induction "is" arbitrary: s)
  case (Cons i "is")
  have "filter (\<lambda>x. fst x = g) (sends (trace (chat_slot e r w i s))) =
      filter (\<lambda>x. fst x = g) (sends (trace s))"
    using Cons.prems by (auto simp: chat_slot_def chat_write_sends FD_ISSET_def Let_def)
  with Cons show ?case by simp
qed simp

lemma chat_slots_members:
  "g \<noteq> 0 \<Longrightarrow> g \<notin> set (client_socket_fd_map s) \<Longrightarrow>
   g \<notin> set (client_socket_fd_map (fold (chat_slot e r w) is s))"
proof (induction "is" arbitrary: s)
  case (Cons i "is")
  have "set (slot_evict 0 f tab) \<subseteq> insert 0 (set tab)" for f tab
    by (auto simp: slot_evict_def split: option.splits dest!: set_update_subset_insert [THEN subsetD])
  with Cons.prems have "g \<notin> set (client_socket_fd_map (chat_slot e r w i s))"
    by (auto simp: chat_slot_table Let_def)
  with Cons show ?case by simp
qed simp

section \<open>Properties\<close>

text \<open>C30: The chat server's table invariant.  From a well-formed table, and as long as \<open>accept\<close> does not fail and each
  accepted descriptor is positive and not in the table, every run keeps the table at five entries with no
  descriptor twice and at most five clients, although clients now also leave.  (A failed \<open>accept\<close> is stored like a
  client, and two of them put -1 into two entries: \<open>failed_accepts_stored\<close>.)\<close>

theorem chat_table_invariant:
  assumes "slot_wf 0 (client_socket_fd_map s)" and "chat_fresh es s"
  shows "slot_wf 0 (client_socket_fd_map (final_state (chat_run es s))) \<and>
    card (slot_members 0 (client_socket_fd_map (final_state (chat_run es s)))) \<le> MAX_CONNECTIONS"
proof -
  have "slot_wf 0 (client_socket_fd_map (final_state (chat_run es s)))"
    using assms
  proof (induction es arbitrary: s)
    case (Cons e es)
    have "slot_wf 0 (client_socket_fd_map (final_state (chat_round e s)))"
      using Cons.prems by (intro chat_round_wf) auto
    with Cons show ?case by (cases "chat_round e s") simp_all
  qed simp
  then show ?thesis using zero_table.bounded by blast
qed

text \<open>A concrete server: clients 4 and 5 are paired, the server listens on 3.\<close>

definition sample_chat :: "fd list \<Rightarrow> (fd \<rightharpoonup> fd) \<Rightarrow> (fd \<rightharpoonup> string) \<Rightarrow> chat_globals" where
  "sample_chat tab pairs queue = \<lparr>trace = [], sock_file_descriptor = 3, client_socket_fd_map = tab,
     client_to_client_map = pairs, client_messages_queue = queue, max_file_descriptor = 3\<rparr>"

definition sample_env :: "fd list \<Rightarrow> fd list \<Rightarrow> recv_res \<Rightarrow> round_env" where
  "sample_env rd wr r = \<lparr>r_ready = 1, r_readable = rd, r_writable = wr, r_accept = 9,
     r_recv = (\<lambda>i. r), r_stack = (\<lambda>i. [])\<rparr>"

lemma chat_table_invariant_witness:
  "slot_wf 0 (client_socket_fd_map (final_state
     (chat_run [sample_env [3] [] REof] (sample_chat [4,5,0,0,0] Map.empty Map.empty)))) \<and>
   card (slot_members 0 (client_socket_fd_map (final_state
     (chat_run [sample_env [3] [] REof] (sample_chat [4,5,0,0,0] Map.empty Map.empty))))) \<le> MAX_CONNECTIONS"
  by (rule chat_table_invariant)
    (simp_all add: slot_wf_def sample_chat_def sample_env_def MAX_CONNECTIONS_def split: outcome.splits)

lemma failed_accepts_stored:
  "client_socket_fd_map (final_state
     (chat_run (replicate 2 (sample_env [3] [] REof\<lparr>r_accept := -1\<rparr>)) (sample_chat [0,0,0,0,0] Map.empty Map.empty))) = [-1,-1,0,0,0]"
  by code_simp

text \<open>C1: Nothing is misdelivered.  Whatever the kernel reports over any run that starts with an
  empty queue, every buffer the chat server sends is either the greeting or a message the server
  has read from the client that is paired to the addressee (the text of what was received from
  that client and from no other); no client ever gets another pair's messages.\<close>

theorem chat_provenance:
  assumes "slot_wf 0 (client_socket_fd_map s)" "chat_fresh es s"
    and "client_messages_queue s = Map.empty" "sends (trace s) = []"
    and "(g, obj, len) \<in> set (sends (trace (final_state (chat_run es s))))"
  shows "len = 255 \<and> (obj = welcome_message \<or>
    (\<exists>f m. client_to_client_map (final_state (chat_run es s)) f = Some g \<and>
       (f, m) \<in> chat_heard es s \<and> obj = m @ [NUL]))"
proof -
  have "relay_from (H \<union> chat_heard es s) (final_state (chat_run es s))"
    if "relay_from H s" "slot_wf 0 (client_socket_fd_map s)" "chat_fresh es s" for H
    using that
  proof (induction es arbitrary: s H)
    case (Cons e es)
    let ?H = "H \<union> round_heard e s"
    have ok: "relay_from ?H (final_state (chat_round e s))"
      using Cons.prems by (intro relay_from_round) (auto intro: relay_from_mono)
    have wf: "slot_wf 0 (client_socket_fd_map (final_state (chat_round e s)))"
      using Cons.prems by (intro chat_round_wf) auto
    show ?case
    proof (cases "chat_round e s")
      case (Running t)
      then show ?thesis using Cons.IH [of ?H t] ok wf Cons.prems(3) by (simp add: Un_assoc)
    next
      case (Exited c t)
      then show ?thesis using ok by simp
    qed
  qed simp
  moreover have "relay_from {} s" using assms(3,4) by (simp add: relay_from_def queue_from_def)
  ultimately have "relay_from (chat_heard es s) (final_state (chat_run es s))"
    using assms(1,2) by fastforce
  then show ?thesis using assms(5) by (auto simp: relay_from_def send_from_def)
qed

lemma chat_provenance_witness:
  "(255::nat) = 255 \<and> ((''hi'' @ [NUL]) = welcome_message \<or>
    (\<exists>f m. client_to_client_map (final_state (chat_run
          [sample_env [4] [] (RData ''hi''), sample_env [] [5] REof]
          (sample_chat [4,5,0,0,0] [4 \<mapsto> 5] Map.empty))) f = Some 5 \<and>
       (f, m) \<in> chat_heard [sample_env [4] [] (RData ''hi''), sample_env [] [5] REof]
          (sample_chat [4,5,0,0,0] [4 \<mapsto> 5] Map.empty) \<and> ''hi'' @ [NUL] = m @ [NUL]))"
  by (rule chat_provenance) (code_simp, code_simp, simp add: sample_chat_def, code_simp, code_simp)


text \<open>C2: Delivery.  In a round where \<open>select\<close> reports a client writable, the message pending
  for it is sent to it - all 255 bytes from the start of the message - whatever every other
  client does in the same round, unless the client itself turns out to have hung up.\<close>

theorem chat_delivers:
  assumes wf: "slot_wf 0 (client_socket_fd_map s)" and pend: "client_messages_queue s g = Some m"
    and j: "j < MAX_CONNECTIONS" "client_socket_fd_map s ! j = g" "g \<noteq> 0"
    and env: "r_ready e > 0" "g \<in> set (r_writable e)"
    and fresh: "chat_accepts e s \<Longrightarrow> 0 < r_accept e \<and> r_accept e \<notin> set (client_socket_fd_map s)"
    and up: "g \<in> set (r_readable e) \<Longrightarrow> \<not> chat_hangs_up (r_recv e j)"
  shows "(g, m @ [NUL], 255) \<in> set (sends (trace (final_state (chat_round e s))))"
proof -
  let ?u = "chat_selected e s" and ?r = "fd_select (chat_read_set s) (r_readable e)"
  let ?w = "fd_select (chat_write_set s) (r_writable e)"
  let ?v = "fold (chat_slot e ?r ?w) [0..<j] ?u"
  have zero: "\<not> FD_ISSET 0 ?w" by (simp add: chat_write_set_def)
  have uj: "client_socket_fd_map ?u ! j = g"
    using j slot_admit_keeps [of "client_socket_fd_map s" j 0 "r_accept e"] by simp
  have uq: "client_messages_queue ?u g = Some m" using pend by simp
  have below: "set [0..<j] \<subseteq> {..<MAX_CONNECTIONS}" "j \<notin> set [0..<j]" using j(1) by auto
  note v = chat_slots_pending_before
    [OF uq uj j(3) chat_selected_wf [OF wf fresh] zero j(1) below, of e ?r]
  have "g \<in> set (client_socket_fd_map s)"
    using j wf nth_mem [of j "client_socket_fd_map s"] by (auto simp: slot_wf_def)
  then have w: "FD_ISSET g ?w" using pend j env by (simp add: chat_write_set_def)
  have r: "FD_ISSET g ?r \<Longrightarrow> \<not> chat_hangs_up (r_recv e j)" using up by simp
  have "client_socket_fd_map (chat_read e ?r j ?v) ! j = g"
    using r v by (simp add: chat_read_def)
  then have "(g, m @ [NUL], 255) \<in> set (sends (trace (chat_slot e ?r ?w j ?v)))"
    using chat_read_keeps [OF v [THEN conjunct1], of e ?r j] v w j(3)
    by (simp add: chat_slot_halves chat_write_sends)
  moreover have "[0..<MAX_CONNECTIONS] = [0..<j] @ j # [Suc j..<MAX_CONNECTIONS]"
    using j(1) upt_add_eq_append [of 0 j "MAX_CONNECTIONS - j"] by (simp add: upt_conv_Cons)
  ultimately show ?thesis
    using env chat_slots_sends_mono by (fastforce simp: chat_round_split)
qed

lemma chat_delivers_witness:
  "(5, ''hi'' @ [NUL], 255) \<in> set (sends (trace (final_state (chat_round (sample_env [4] [5] REof)
     (sample_chat [4,5,0,0,0] [4 \<mapsto> 5] [5 \<mapsto> ''hi''])))))"
  by (rule chat_delivers [where j = 1])
    (simp_all add: slot_wf_def sample_chat_def sample_env_def MAX_CONNECTIONS_def chat_accepts_def)

text \<open>One pending message per client, the first wins.  While a client is not reported writable,
  the message pending for it stays exactly as it is: whatever anybody - its partner included -
  says in the meantime is dropped without trace, over any number of rounds.\<close>

theorem chat_pending_blocks:
  assumes "client_messages_queue s g = Some m" "\<forall>e \<in> set es. g \<notin> set (r_writable e)"
  shows "client_messages_queue (final_state (chat_run es s)) g = Some m"
  using assms
proof (induction es arbitrary: s)
  case (Cons e es)
  have "client_messages_queue (final_state (chat_round e s)) g = Some m"
    using Cons.prems by (simp add: chat_round_split chat_slots_pending_text)
  with Cons show ?case by (cases "chat_round e s") simp_all
qed simp

lemma chat_pending_blocks_witness:
  "client_messages_queue (final_state (chat_run [sample_env [4] [] (RData ''two''),
     sample_env [4] [] (RData ''three'')] (sample_chat [4,5,0,0,0] [4 \<mapsto> 5] [5 \<mapsto> ''one'']))) 5
   = Some ''one''"
  by (rule chat_pending_blocks) (simp_all add: sample_chat_def sample_env_def)

text \<open>Dead letters.  Pairings are never dissolved: once a client has left the table, and as
  long as the kernel does not hand its descriptor out again, its old partner stays paired with
  it for ever, what is pending for it stays pending for ever, and nothing is ever sent to it;
  so the partner talks into the void, whoever else connects.\<close>

theorem chat_dead_letters:
  assumes "g \<noteq> 0" "g \<notin> set (client_socket_fd_map s)" "\<forall>e \<in> set es. r_accept e \<noteq> g"
    and "client_to_client_map s f = Some g" "client_messages_queue s g = Some m"
  shows "client_to_client_map (final_state (chat_run es s)) f = Some g \<and>
    client_messages_queue (final_state (chat_run es s)) g = Some m \<and>
    filter (\<lambda>x. fst x = g) (sends (trace (final_state (chat_run es s)))) =
      filter (\<lambda>x. fst x = g) (sends (trace s))"
proof -
  have "client_messages_queue (final_state (chat_run es s)) g = Some m \<and>
    filter (\<lambda>x. fst x = g) (sends (trace (final_state (chat_run es s)))) =
      filter (\<lambda>x. fst x = g) (sends (trace s))"
    using assms(1,2,3,5)
  proof (induction es arbitrary: s)
    case (Cons e es)
    have w: "g \<notin> set (fd_select (chat_write_set s) (r_writable e))"
      using Cons.prems(2) by (simp add: chat_write_set_def)
    have u: "g \<notin> set (client_socket_fd_map (chat_selected e s))"
      using Cons.prems by (auto simp: slot_admit_def split: option.splits
          dest!: set_update_subset_insert [THEN subsetD])
    have snd: "filter (\<lambda>x. fst x = g) (sends (trace (chat_selected e s))) =
        filter (\<lambda>x. fst x = g) (sends (trace s))"
      using Cons.prems(3) by (simp add: chat_selected_def chat_accept_sends Let_def emit_def)
    show ?case
    proof (cases "chat_round e s")
      case (Running t)
      then have t: "g \<notin> set (client_socket_fd_map t)" "client_messages_queue t g = Some m"
        "filter (\<lambda>x. fst x = g) (sends (trace t)) = filter (\<lambda>x. fst x = g) (sends (trace s))"
        using Cons.prems u w snd
        by (auto simp: chat_round_split chat_slots_members chat_slots_pending_text
            chat_slots_sends_other split: if_splits)
      with Cons.IH [of t] Cons.prems Running show ?thesis by simp
    next
      case (Exited c t)
      with Cons.prems(4) snd show ?thesis by (auto simp: chat_round_split split: if_splits)
    qed
  qed simp
  moreover have "client_to_client_map (final_state (chat_run es s)) f = Some g"
    using chat_run_pairs [of s es] assms(4) by (force simp: map_le_def)
  ultimately show ?thesis by blast
qed

lemma chat_dead_letters_witness:
  "client_to_client_map (final_state (chat_run [sample_env [4] [] (RData ''anybody?'')]
     (sample_chat [4,0,0,0,0] [4 \<mapsto> 5] [5 \<mapsto> ''hi'']))) 4 = Some 5 \<and>
   client_messages_queue (final_state (chat_run [sample_env [4] [] (RData ''anybody?'')]
     (sample_chat [4,0,0,0,0] [4 \<mapsto> 5] [5 \<mapsto> ''hi'']))) 5 = Some ''hi'' \<and>
   filter (\<lambda>x. fst x = 5) (sends (trace (final_state (chat_run [sample_env [4] [] (RData ''anybody?'')]
     (sample_chat [4,0,0,0,0] [4 \<mapsto> 5] [5 \<mapsto> ''hi'']))))) =
   filter (\<lambda>x. fst x = 5) (sends (trace (sample_chat [4,0,0,0,0] [4 \<mapsto> 5] [5 \<mapsto> ''hi''])))"
  by (rule chat_dead_letters) (simp_all add: sample_chat_def sample_env_def)

end
