(* ===== verification/ChatClient.thy ===== *)
theory ChatClient
  imports ChatServer "HOL-Library.Sublist"
begin

text \<open>
  \<open>chat-server/Client.cpp\<close>: two threads share \<open>client_messages_queue\<close>.  The listener thread
  (\<open>inputListener\<close>) puts each typed line into the map under the socket's descriptor; the main
  thread's loop waits in \<open>select\<close>, shows what the server sends and writes the pending line.  The
  mutex makes each of their accesses one step, so an execution is a list of events: a line typed,
  or a turn of the main loop.  The lines after the loop are unreachable.
\<close>

section \<open>The program\<close>

record chat_client = os +
  cc_sock :: fd
  cc_queue :: "fd \<rightharpoonup> string"
  cc_listening :: bool
  cc_shown :: "string list"

text \<open>One turn's environment: what \<open>select\<close> returns and reports about the socket, and what
  \<open>recv\<close> yields.\<close>

record cc_env =
  ce_ready :: int
  ce_readable :: bool
  ce_writable :: bool
  ce_recv :: recv_res
  ce_stack :: string

datatype cc_event = Typed string | Turn cc_env

definition cc_setup ::
  "nat \<Rightarrow> string \<Rightarrow> int \<Rightarrow> bool \<Rightarrow> int \<Rightarrow> int \<Rightarrow> int \<Rightarrow> chat_client \<Rightarrow> chat_client outcome option" where
  "cc_setup argc argv2 sock host_found connected getfl setfl s =
     (if argc < 3 then Some (Exited 1 s)
      else
        let s1 = (emit Call_socket s)\<lparr>cc_sock := sock\<rparr> in
        if sock = -1 then Some (Exited 1 s1)
        else if \<not> host_found then None
        else
          let s2 = emit (Call_connect sock (port_of (atoi argv2))) s1 in
          if connected < 0 then Some (Exited 1 s2)
          else
            let s3 = s2\<lparr>cc_listening := True\<rparr> in
            Some (Running (snd (make_nonblocking sock getfl setfl s3))))"

definition cc_inputListener :: "string \<Rightarrow> chat_client \<Rightarrow> chat_client" where
  "cc_inputListener input s =
     (if \<not> cc_listening s then s
      else if input = ''exit'' then s\<lparr>cc_listening := False\<rparr>
      else s\<lparr>cc_queue := std_insert (cc_sock s) input (cc_queue s)\<rparr>)"

definition cc_closeClientConnection :: "fd \<Rightarrow> chat_client \<Rightarrow> chat_client" where
  "cc_closeClientConnection f s = CloseSocket f s"

definition cc_sendRequest :: "fd \<Rightarrow> string \<Rightarrow> chat_client \<Rightarrow> chat_client" where
  "cc_sendRequest f message s = emit (Call_send f message 255) s"

text \<open>A hang-up returns from the whole of \<open>processRequest\<close>: the write step is skipped.\<close>

definition cc_processRequest ::
  "cc_env \<Rightarrow> fd \<Rightarrow> fd list \<Rightarrow> fd list \<Rightarrow> chat_client \<Rightarrow> chat_client" where
  "cc_processRequest e f readfds writefds s =
     (let got = FD_ISSET f readfds;
          s1 = (if got then emit (Call_recv f 255) s else s);
          r = ce_recv e in
      if got \<and> (recv_status r = 0 \<or> recv_status r < 0 \<and> r = RErr EAGAIN) then
        cc_closeClientConnection f s1
      else
        let s2 = (if got then
                    s1\<lparr>cc_shown := cc_shown s1 @ [c_str (filled_buffer 255 (recv_bytes r) @ ce_stack e)]\<rparr>
                  else s1) in
        if FD_ISSET f writefds then
          let (message, q) = std_index [] f (cc_queue s2);
              s3 = cc_sendRequest f (message @ [NUL]) (s2\<lparr>cc_queue := q\<rparr>)
          in s3\<lparr>cc_queue := (cc_queue s3)(f := None)\<rparr>
        else s2)"

definition cc_turn :: "cc_env \<Rightarrow> chat_client \<Rightarrow> chat_client outcome" where
  "cc_turn e s =
     (let f = cc_sock s;
          rd = [f];
          wr = (if cc_queue s f \<noteq> None then [f] else []);
          s1 = emit (Call_select (f + 1) rd wr) s in
      if ce_ready e > 0 then
        Running (cc_processRequest e f (fd_select rd (if ce_readable e then [f] else []))
          (fd_select wr (if ce_writable e then [f] else [])) s1)
      else if ce_ready e = 0 then Running s1
      else Exited 1 s1)"

fun cc_step :: "cc_event \<Rightarrow> chat_client \<Rightarrow> chat_client outcome" where
  "cc_step (Typed l) s = Running (cc_inputListener l s)"
| "cc_step (Turn e) s = cc_turn e s"

fun cc_run :: "cc_event list \<Rightarrow> chat_client \<Rightarrow> chat_client outcome" where
  "cc_run [] s = Running s"
| "cc_run (ev # evs) s = bind_outcome (cc_step ev s) (cc_run evs)"

section \<open>What is typed and what is sent\<close>

text \<open>The lines the listener takes: those before \<open>exit\<close>, if it is still running.\<close>

fun cc_typed :: "bool \<Rightarrow> cc_event list \<Rightarrow> string list" where
  "cc_typed listening [] = []"
| "cc_typed listening (Typed l # evs) =
     (if listening \<and> l \<noteq> ''exit'' then l # cc_typed True evs else cc_typed False evs)"
| "cc_typed listening (Turn e # evs) = cc_typed listening evs"

text \<open>The texts handed to \<open>send\<close> (the bytes before the terminating NUL), and the pending one.\<close>

definition cc_sent :: "chat_client \<Rightarrow> string list" where
  "cc_sent s = map (\<lambda>(f, object, len). butlast object) (sends (trace s))"

definition cc_pending :: "chat_client \<Rightarrow> string list" where
  "cc_pending s = (case cc_queue s (cc_sock s) of None \<Rightarrow> [] | Some m \<Rightarrow> [m])"

lemmas cc_obs = cc_sent_def cc_pending_def

lemma cc_inputListener_obs:
  "cc_sent (cc_inputListener l s) = cc_sent s"
  "closes (trace (cc_inputListener l s)) = closes (trace s)"
  "cc_listening (cc_inputListener l s) = (cc_listening s \<and> l \<noteq> ''exit'')"
  "cc_pending (cc_inputListener l s) =
     (if cc_listening s \<and> l \<noteq> ''exit'' \<and> cc_pending s = [] then [l] else cc_pending s)"
  by (auto simp: cc_inputListener_def cc_obs std_insert_def split: option.splits)

text \<open>What a turn does to the pending line: nothing, or it sends it.\<close>

definition cc_hangs_up :: "cc_env \<Rightarrow> bool" where
  "cc_hangs_up e \<longleftrightarrow> ce_readable e \<and> (recv_status (ce_recv e) = 0 \<or> ce_recv e = RErr EAGAIN)"

definition cc_writes :: "cc_env \<Rightarrow> bool" where
  "cc_writes e \<longleftrightarrow> ce_ready e > 0 \<and> ce_writable e \<and> \<not> cc_hangs_up e"

lemma cc_turn_obs:
  "cc_sent (final_state (cc_turn e s)) = cc_sent s @ (if cc_writes e then cc_pending s else [])"
  "cc_pending (final_state (cc_turn e s)) = (if cc_writes e then [] else cc_pending s)"
  "cc_listening (final_state (cc_turn e s)) = cc_listening s"
  by (auto simp: cc_turn_def cc_processRequest_def cc_closeClientConnection_def cc_sendRequest_def
      CloseSocket_def cc_writes_def cc_hangs_up_def cc_obs std_index_def FD_ISSET_def fd_select_def
      emit_def Let_def split: option.splits)

lemma cc_turn_closes: "closes (trace (final_state (cc_turn e s))) = closes (trace s)"
  by (simp add: cc_turn_def cc_processRequest_def cc_closeClientConnection_def cc_sendRequest_def
      CloseSocket_def emit_def Let_def split: prod.splits)

lemma cc_turn_running: "0 \<le> ce_ready e \<Longrightarrow> \<exists>t. cc_turn e s = Running t"
  by (auto simp: cc_turn_def Let_def)

text \<open>The chat client invents nothing and reorders nothing: over any interleaving of typing and
  main-loop turns, the texts sent, followed by the one still pending, are a subsequence of the
  lines typed before exit.\<close>

theorem chat_client_sends_typed:
  "\<exists>new. cc_sent (final_state (cc_run evs s)) = cc_sent s @ new \<and>
     subseq (new @ cc_pending (final_state (cc_run evs s)))
       (cc_pending s @ cc_typed (cc_listening s) evs)"
proof (induction evs arbitrary: s)
  case (Cons ev evs)
  show ?case
  proof (cases ev)
    case (Typed l)
    let ?u = "cc_inputListener l s"
    obtain new where new: "cc_sent (final_state (cc_run evs ?u)) = cc_sent ?u @ new"
      "subseq (new @ cc_pending (final_state (cc_run evs ?u)))
        (cc_pending ?u @ cc_typed (cc_listening ?u) evs)"
      using Cons.IH by blast
    have "subseq (cc_pending ?u @ cc_typed (cc_listening ?u) evs)
        (cc_pending s @ cc_typed (cc_listening s) (Typed l # evs))"
      by (auto simp: cc_inputListener_obs intro: list_emb_append_mono)
    with new show ?thesis
      using Typed by (auto simp: cc_inputListener_obs intro: subseq_order.trans)
  next
    case (Turn e)
    show ?thesis
    proof (cases "cc_turn e s")
      case (Running u)
      obtain new where new: "cc_sent (final_state (cc_run evs u)) = cc_sent u @ new"
        "subseq (new @ cc_pending (final_state (cc_run evs u)))
          (cc_pending u @ cc_typed (cc_listening u) evs)"
        using Cons.IH by blast
      have u: "cc_sent u = cc_sent s @ (if cc_writes e then cc_pending s else [])"
        "cc_pending u = (if cc_writes e then [] else cc_pending s)" "cc_listening u = cc_listening s"
        using cc_turn_obs [of e s] Running by simp_all
      show ?thesis
        using new Turn Running
        by (intro exI [of _ "(if cc_writes e then cc_pending s else []) @ new"])
          (auto simp: u intro: list_emb_append_mono)
    next
      case (Exited c u)
      then show ?thesis
        using cc_turn_obs [of e s] Turn
        by (intro exI [of _ "if cc_writes e then cc_pending s else []"])
          (auto intro: list_emb_append_mono)
    qed
  qed
qed simp

text \<open>Nothing is lost when the main loop keeps up: if a turn that can write comes after every
  typed line, each line is sent, in order, and nothing stays pending.\<close>

theorem chat_client_lossless:
  assumes "\<forall>(l, e) \<in> set ls. l \<noteq> ''exit'' \<and> cc_writes e" "cc_listening s" "cc_pending s = []"
  shows "\<exists>t. cc_run (concat (map (\<lambda>(l, e). [Typed l, Turn e]) ls)) s = Running t \<and>
    cc_sent t = cc_sent s @ map fst ls \<and> cc_pending t = []"
  using assms
proof (induction ls arbitrary: s)
  case (Cons x ls)
  obtain l e where x: "x = (l, e)" "l \<noteq> ''exit''" "cc_writes e"
    using Cons.prems(1) by (cases x) auto
  let ?u = "cc_inputListener l s"
  obtain v where v: "cc_turn e ?u = Running v"
    using cc_turn_running [of e ?u] x(3) by (auto simp: cc_writes_def)
  have "cc_sent v = cc_sent s @ [l]" "cc_pending v = []" "cc_listening v"
    using cc_turn_obs [of e ?u] v x Cons.prems by (simp_all add: cc_inputListener_obs)
  with Cons.IH [of v] Cons.prems x v show ?case by auto
qed simp

definition sample_cc :: chat_client where
  "sample_cc = \<lparr>trace = [], cc_sock = 4, cc_queue = Map.empty, cc_listening = True, cc_shown = []\<rparr>"

definition sample_cc_env :: cc_env where
  "sample_cc_env = \<lparr>ce_ready = 1, ce_readable = False, ce_writable = True, ce_recv = REof, ce_stack = []\<rparr>"

lemma chat_client_lossless_witness:
  "\<exists>t. cc_run (concat (map (\<lambda>(l, e). [Typed l, Turn e]) [(''hi'', sample_cc_env), (''you'', sample_cc_env)]))
      sample_cc = Running t \<and>
    cc_sent t = cc_sent sample_cc @ map fst [(''hi'', sample_cc_env), (''you'', sample_cc_env)] \<and>
    cc_pending t = []"
  by (rule chat_client_lossless)
    (simp_all add: sample_cc_def sample_cc_env_def cc_writes_def cc_hangs_up_def cc_pending_def)

text \<open>Typing exit does not end the chat client.  Once it has been typed, the listener ignores
  everything typed later, but the main loop runs on for as long as \<open>select\<close> works: the program
  never terminates, never closes its socket, and sends at most the line that was pending.\<close>

theorem chat_client_never_quits:
  assumes "\<forall>e. Turn e \<in> set evs \<longrightarrow> 0 \<le> ce_ready e"
  shows "\<exists>t. cc_run (Typed ''exit'' # evs) s = Running t \<and> closes (trace t) = closes (trace s) \<and>
    (cc_sent t = cc_sent s \<or> cc_sent t = cc_sent s @ cc_pending s)"
proof -
  have "\<exists>t. cc_run evs u = Running t \<and> closes (trace t) = closes (trace u) \<and>
    (cc_sent t = cc_sent u \<or> cc_sent t = cc_sent u @ cc_pending u)"
    if "\<not> cc_listening u" for u
    using assms that
  proof (induction evs arbitrary: u)
    case (Cons ev evs)
    show ?case
    proof (cases ev)
      case (Typed l)
      then show ?thesis using Cons by (simp add: cc_inputListener_def)
    next
      case (Turn e)
      then obtain v where v: "cc_turn e u = Running v"
        using cc_turn_running [of e u] Cons.prems(1) by auto
      have "closes (trace v) = closes (trace u)" "\<not> cc_listening v"
        "cc_sent v = cc_sent u @ (if cc_writes e then cc_pending u else [])"
        "cc_pending v = (if cc_writes e then [] else cc_pending u)"
        using cc_turn_obs [of e u] cc_turn_closes [of e u] v Cons.prems(2) by simp_all
      with Cons.IH [of v] Cons.prems(1) Turn v show ?thesis by auto
    qed
  qed simp
  from this [of "cc_inputListener ''exit'' s"] show ?thesis
    by (simp add: cc_inputListener_obs)
qed

lemma chat_client_never_quits_witness:
  "\<exists>t. cc_run (Typed ''exit'' # [Typed ''hi'', Turn sample_cc_env]) sample_cc = Running t \<and>
    closes (trace t) = closes (trace sample_cc) \<and>
    (cc_sent t = cc_sent sample_cc \<or> cc_sent t = cc_sent sample_cc @ cc_pending sample_cc)"
  by (rule chat_client_never_quits) (simp add: sample_cc_env_def)

end
