(* ===== verification/ChatSession.thy ===== *)
theory ChatSession
  imports ChatClient
begin

text \<open>
  Two chat clients and the chat server together (\<open>chat-server/Client.cpp\<close>, \<open>Server.cpp\<close>): a line
  typed at one client goes through its loop, the network, two rounds of the server (one in which
  the speaker is readable, one in which the hearer is writable), the network again, and the other
  client's loop.  A \<open>send\<close> of 255 bytes from a shorter object takes whatever lies behind the object;
  these foreign bytes are inputs, as is the memory behind the receiving buffers.
\<close>

section \<open>One line\<close>

text \<open>The bytes a call of \<open>send\<close> hands to the network.\<close>

definition carried :: "string \<Rightarrow> fd \<times> string \<times> nat \<Rightarrow> string" where
  "carried foreign c = (case c of (f, object, len) \<Rightarrow> take len (object @ foreign))"

record utterance =
  u_line :: string
  u_foreign1 :: string
  u_stack1 :: string
  u_foreign2 :: string
  u_stack2 :: string

definition write_turn :: cc_event where
  "write_turn = Turn \<lparr>ce_ready = 1, ce_readable = False, ce_writable = True, ce_recv = REof, ce_stack = []\<rparr>"

definition read_turn :: "string \<Rightarrow> string \<Rightarrow> cc_event" where
  "read_turn d stk = Turn \<lparr>ce_ready = 1, ce_readable = True, ce_writable = False, ce_recv = RData d, ce_stack = stk\<rparr>"

definition read_round :: "fd \<Rightarrow> string \<Rightarrow> string \<Rightarrow> round_env" where
  "read_round f d stk = \<lparr>r_ready = 1, r_readable = [f], r_writable = [], r_accept = 0,
     r_recv = (\<lambda>i. RData d), r_stack = (\<lambda>i. stk)\<rparr>"

definition write_round :: "fd \<Rightarrow> round_env" where
  "write_round g = \<lparr>r_ready = 1, r_readable = [], r_writable = [g], r_accept = 0, r_recv = (\<lambda>i. REof), r_stack = (\<lambda>i. [])\<rparr>"

text \<open>The speaker is on the server's descriptor \<open>f\<close>, the hearer on \<open>g\<close>.\<close>

definition exchange ::
  "fd \<Rightarrow> fd \<Rightarrow> utterance \<Rightarrow> chat_client \<times> chat_globals \<times> chat_client \<Rightarrow> chat_client \<times> chat_globals \<times> chat_client" where
  "exchange f g u z =
     (case z of (x, s, y) \<Rightarrow>
        let x1 = final_state (cc_run [Typed (u_line u), write_turn] x);
            d = carried (u_foreign1 u) (last (sends (trace x1)));
            s1 = final_state (chat_run [read_round f d (u_stack1 u), write_round g] s);
            e = carried (u_foreign2 u) (last (sends (trace s1)));
            y1 = final_state (cc_run [read_turn e (u_stack2 u)] y)
        in (x1, s1, y1))"

text \<open>A dialogue: who speaks (\<open>True\<close> is the first client), and what.\<close>

fun dialogue ::
  "fd \<Rightarrow> fd \<Rightarrow> (bool \<times> utterance) list \<Rightarrow> chat_client \<times> chat_globals \<times> chat_client \<Rightarrow>
   chat_client \<times> chat_globals \<times> chat_client" where
  "dialogue f g [] z = z"
| "dialogue f g ((True, u) # us) z = dialogue f g us (exchange f g u z)"
| "dialogue f g ((False, u) # us) (a, s, b) =
     (case exchange g f u (b, s, a) of (b1, s1, a1) \<Rightarrow> dialogue f g us (a1, s1, b1))"

section \<open>The network carries a line whole\<close>

definition plain :: "utterance \<Rightarrow> bool" where
  "plain u \<longleftrightarrow> length (u_line u) < 255 \<and> NUL \<notin> set (u_line u) \<and> u_line u \<noteq> ''exit''"

lemma carried_line:
  assumes "length l < 255" "NUL \<notin> set l"
  shows "c_str (filled_buffer 255 (carried foreign (f, l @ [NUL], 255)) @ stk) = l"
    and "carried foreign (f, l @ [NUL], 255) \<noteq> []"
proof -
  have "carried foreign (f, l @ [NUL], 255) = l @ NUL # take (254 - length l) foreign"
    using assms(1) by (simp add: carried_def Suc_diff_le take_Cons' diff_diff_eq)
  moreover obtain rest where "filled_buffer 255 (l @ NUL # take (254 - length l) foreign) = l @ NUL # rest"
    using assms(1) by (simp add: filled_buffer_def take_Cons')
  ultimately show "c_str (filled_buffer 255 (carried foreign (f, l @ [NUL], 255)) @ stk) = l"
    "carried foreign (f, l @ [NUL], 255) \<noteq> []"
    using assms(2) by (simp_all add: c_str_cut c_str_id)
qed

section \<open>The clients' part\<close>

definition ready_to_talk :: "chat_client \<Rightarrow> bool" where
  "ready_to_talk a \<longleftrightarrow> cc_listening a \<and> cc_queue a (cc_sock a) = None"

lemma speaks:
  assumes "ready_to_talk x" "l \<noteq> ''exit''"
  shows "\<exists>x1. cc_run [Typed l, write_turn] x = Running x1 \<and> ready_to_talk x1 \<and> cc_shown x1 = cc_shown x \<and>
    sends (trace x1) = sends (trace x) @ [(cc_sock x, l @ [NUL], 255)]"
  using assms
  by (simp add: ready_to_talk_def write_turn_def cc_inputListener_def cc_turn_def cc_processRequest_def cc_sendRequest_def
      std_insert_def std_index_def FD_ISSET_def fd_select_def emit_def Let_def)

lemma hears:
  assumes "ready_to_talk y" "d \<noteq> []"
  shows "\<exists>y1. cc_run [read_turn d stk] y = Running y1 \<and> ready_to_talk y1 \<and>
    cc_shown y1 = cc_shown y @ [c_str (filled_buffer 255 d @ stk)]"
  using assms
  by (simp add: ready_to_talk_def read_turn_def cc_turn_def cc_processRequest_def
      FD_ISSET_def fd_select_def emit_def Let_def)

section \<open>The server's part\<close>

definition paired :: "fd \<Rightarrow> fd \<Rightarrow> chat_globals \<Rightarrow> bool" where
  "paired f g s \<longleftrightarrow> slot_wf 0 (client_socket_fd_map s) \<and> {f, g} \<subseteq> set (client_socket_fd_map s) \<and>
     0 < f \<and> 0 < g \<and> f \<noteq> g \<and> sock_file_descriptor s \<notin> {f, g} \<and>
     client_to_client_map s f = Some g \<and> client_to_client_map s g = Some f \<and>
     client_messages_queue s f = None \<and> client_messages_queue s g = None"

lemma paired_sym: "paired f g s \<longleftrightarrow> paired g f s"
  by (auto simp: paired_def)

text \<open>A loop over the entries in which only the entry of \<open>f\<close> has something to do.\<close>

lemma fold_idle: "(\<And>j. j \<in> set js \<Longrightarrow> F j s = s) \<Longrightarrow> fold F js s = s"
  by (induction js) simp_all

lemma fold_only:
  assumes "k \<in> set is" "distinct is"
    and "\<And>j. j \<in> set is \<Longrightarrow> j \<noteq> k \<Longrightarrow> F j s = s"
    and "\<And>j. j \<in> set is \<Longrightarrow> j \<noteq> k \<Longrightarrow> F j (F k s) = F k s"
  shows "fold F is s = F k s"
proof -
  obtain js ls where split: "is = js @ k # ls" using assms(1) by (auto simp: in_set_conv_decomp)
  have "fold F js s = s" by (rule fold_idle, rule assms(3)) (use split assms(2) in auto)
  moreover have "fold F ls (F k s) = F k s" by (rule fold_idle, rule assms(4)) (use split assms(2) in auto)
  ultimately show ?thesis by (simp add: split)
qed

lemma table_entry:
  assumes "slot_wf 0 tab" "f \<in> set tab"
  obtains k where "k < MAX_CONNECTIONS" "tab ! k = f"
  using assms by (auto simp: in_set_conv_nth slot_wf_def)

lemma table_other:
  assumes "slot_wf 0 tab" "k < MAX_CONNECTIONS" "tab ! k = f" "f \<noteq> 0" "j < MAX_CONNECTIONS" "j \<noteq> k"
  shows "tab ! j \<noteq> f"
  using slot_wf_entries [OF assms(1)] assms by metis

lemma server_reads:
  assumes "paired f g s" "d \<noteq> []"
  shows "\<exists>s1. chat_run [read_round f d stk] s = Running s1 \<and> sends (trace s1) = sends (trace s) \<and>
    client_socket_fd_map s1 = client_socket_fd_map s \<and> sock_file_descriptor s1 = sock_file_descriptor s \<and>
    client_to_client_map s1 = client_to_client_map s \<and>
    client_messages_queue s1 = (client_messages_queue s)(g \<mapsto> c_str (filled_buffer 255 d @ stk))"
proof -
  let ?e = "read_round f d stk" and ?tab = "client_socket_fd_map s" and ?u = "chat_selected (read_round f d stk) s"
  define rd where "rd = fd_select (chat_read_set s) (r_readable ?e)"
  define wr where "wr = fd_select (chat_write_set s) (r_writable ?e)"
  let ?F = "chat_slot ?e rd wr"
  have p: "slot_wf 0 ?tab" "f \<in> set ?tab" "0 < f" "0 < g" "sock_file_descriptor s \<noteq> f"
    "client_to_client_map s f = Some g" "client_messages_queue s g = None"
    using assms(1) by (auto simp: paired_def)
  obtain k where k: "k < MAX_CONNECTIONS" "?tab ! k = f" using table_entry [OF p(1,2)] by blast
  have sets: "FD_ISSET x rd \<longleftrightarrow> x = f" "\<not> FD_ISSET x wr" for x
    using p(2,3) by (auto simp: rd_def wr_def FD_ISSET_def read_round_def chat_read_set_def)
  have acc: "\<not> chat_accepts ?e s" using p(5) by (simp add: chat_accepts_def read_round_def)
  have u: "client_socket_fd_map ?u = ?tab" "client_messages_queue ?u = client_messages_queue s"
    "client_to_client_map ?u = client_to_client_map s" "sends (trace ?u) = sends (trace s)"
    "sock_file_descriptor ?u = sock_file_descriptor s"
    using acc by (simp_all add: chat_selected_def emit_def Let_def)
  have idle: "?F j v = v" if "client_socket_fd_map v = ?tab" "j < MAX_CONNECTIONS" "j \<noteq> k" for j v
    using table_other [OF p(1) k, of j] that p(3) by (simp add: chat_slot_def chat_write_def sets Let_def)
  have up: "\<not> chat_hangs_up (RData d)" using assms(2) by (simp add: chat_hangs_up_def)
  have Fk: "?F k ?u = chat_processClient (RData d) stk f ?u"
    using k p(3) u(1) by (simp add: chat_slot_def chat_write_def sets Let_def) (simp add: read_round_def)
  have "fold ?F [0..<MAX_CONNECTIONS] ?u = ?F k ?u"
    by (rule fold_only) (use k idle u(1) up in \<open>auto simp: Fk\<close>)
  then show ?thesis
    using p u up by (simp add: Fk chat_round_split rd_def [symmetric] wr_def [symmetric] chat_recipient_def chat_text_def std_insert_fresh)
      (simp add: read_round_def)
qed

lemma server_writes:
  assumes "slot_wf 0 (client_socket_fd_map s)" "g \<in> set (client_socket_fd_map s)" "g \<noteq> 0"
    and "client_messages_queue s g = Some m"
  shows "\<exists>s1. chat_run [write_round g] s = Running s1 \<and> sends (trace s1) = sends (trace s) @ [(g, m @ [NUL], 255)] \<and>
    client_socket_fd_map s1 = client_socket_fd_map s \<and> sock_file_descriptor s1 = sock_file_descriptor s \<and>
    client_to_client_map s1 = client_to_client_map s \<and>
    client_messages_queue s1 = (client_messages_queue s)(g := None)"
proof -
  let ?e = "write_round g" and ?tab = "client_socket_fd_map s" and ?u = "chat_selected (write_round g) s"
  define rd where "rd = fd_select (chat_read_set s) (r_readable ?e)"
  define wr where "wr = fd_select (chat_write_set s) (r_writable ?e)"
  let ?F = "chat_slot ?e rd wr"
  obtain k where k: "k < MAX_CONNECTIONS" "?tab ! k = g" using table_entry [OF assms(1,2)] by blast
  have sets: "\<not> FD_ISSET x rd" "FD_ISSET x wr \<longleftrightarrow> x = g" for x
    using assms by (auto simp: rd_def wr_def FD_ISSET_def write_round_def chat_write_set_def)
  have u: "client_socket_fd_map ?u = ?tab" "client_messages_queue ?u = client_messages_queue s"
    "client_to_client_map ?u = client_to_client_map s" "sends (trace ?u) = sends (trace s)"
    "sock_file_descriptor ?u = sock_file_descriptor s"
    by (simp_all add: chat_selected_def chat_accepts_def write_round_def emit_def Let_def)
  have idle: "?F j v = v" if "client_socket_fd_map v = ?tab" "j < MAX_CONNECTIONS" "j \<noteq> k" for j v
    using table_other [OF assms(1) k assms(3), of j] that by (simp add: chat_slot_def chat_write_def sets Let_def)
  have Fk: "?F k ?u = chat_write wr k ?u"
    using k u(1) assms(3) by (simp add: chat_slot_def sets Let_def)
  have "fold ?F [0..<MAX_CONNECTIONS] ?u = ?F k ?u"
    by (rule fold_only) (use k idle u(1) in \<open>auto simp: Fk\<close>)
  then show ?thesis
    using k u assms(4) by (simp add: Fk chat_round_split rd_def [symmetric] wr_def [symmetric] chat_write_sends sets) (simp add: write_round_def)
qed

section \<open>A dialogue\<close>

lemma exchange_plain:
  assumes "paired f g s" "ready_to_talk x" "ready_to_talk y" "plain u"
  shows "\<exists>x1 s1 y1. exchange f g u (x, s, y) = (x1, s1, y1) \<and> paired f g s1 \<and> ready_to_talk x1 \<and> ready_to_talk y1 \<and>
    cc_shown x1 = cc_shown x \<and> cc_shown y1 = cc_shown y @ [u_line u]"
proof -
  let ?l = "u_line u"
  have l: "length ?l < 255" "NUL \<notin> set ?l" "?l \<noteq> ''exit''" using assms(4) by (auto simp: plain_def)
  obtain x1 where x1: "cc_run [Typed ?l, write_turn] x = Running x1" "ready_to_talk x1" "cc_shown x1 = cc_shown x"
    "sends (trace x1) = sends (trace x) @ [(cc_sock x, ?l @ [NUL], 255)]"
    using speaks [OF assms(2) l(3)] by blast
  define d where "d = carried (u_foreign1 u) (cc_sock x, ?l @ [NUL], 255)"
  have d: "d \<noteq> []" "c_str (filled_buffer 255 d @ u_stack1 u) = ?l"
    using carried_line [OF l(1,2)] by (simp_all add: d_def)
  obtain r where r: "chat_run [read_round f d (u_stack1 u)] s = Running r" "sends (trace r) = sends (trace s)"
    "client_socket_fd_map r = client_socket_fd_map s" "sock_file_descriptor r = sock_file_descriptor s"
    "client_to_client_map r = client_to_client_map s" "client_messages_queue r = (client_messages_queue s)(g \<mapsto> ?l)"
    using server_reads [OF assms(1) d(1), of "u_stack1 u"] d(2) by auto
  have "slot_wf 0 (client_socket_fd_map r)" "g \<in> set (client_socket_fd_map r)" "g \<noteq> 0" "client_messages_queue r g = Some ?l"
    using assms(1) r by (auto simp: paired_def)
  from server_writes [OF this] obtain s1 where s1: "chat_run [write_round g] r = Running s1"
    "sends (trace s1) = sends (trace r) @ [(g, ?l @ [NUL], 255)]" "client_socket_fd_map s1 = client_socket_fd_map r"
    "sock_file_descriptor s1 = sock_file_descriptor r" "client_to_client_map s1 = client_to_client_map r"
    "client_messages_queue s1 = (client_messages_queue r)(g := None)" by blast
  define e where "e = carried (u_foreign2 u) (g, ?l @ [NUL], 255)"
  have e: "e \<noteq> []" "c_str (filled_buffer 255 e @ u_stack2 u) = ?l"
    using carried_line [OF l(1,2)] by (simp_all add: e_def)
  obtain y1 where y1: "cc_run [read_turn e (u_stack2 u)] y = Running y1" "ready_to_talk y1" "cc_shown y1 = cc_shown y @ [?l]"
    using hears [OF assms(3) e(1), of "u_stack2 u"] e(2) by auto
  have run: "chat_run [read_round f d (u_stack1 u), write_round g] s = Running s1"
    using r(1) s1(1) by (cases "chat_round (read_round f d (u_stack1 u)) s") simp_all
  have "exchange f g u (x, s, y) = (x1, s1, y1)"
    using x1(1,4) run s1(2) y1(1) by (simp add: exchange_def d_def [symmetric] e_def [symmetric] Let_def del: cc_run.simps chat_run.simps)
  moreover have "paired f g s1"
    using assms(1) r s1 by (auto simp: paired_def)
  ultimately show ?thesis using x1 y1 by blast
qed

text \<open>Two people can talk.  For two clients the server has paired, with nothing pending, each line of a
  dialogue - in whatever order the two speak, each line short enough for the buffer - appears at
  the other client, unchanged, in order and once, whatever lies in memory behind the messages and
  the buffers, of which 255 bytes are sent each time.\<close>

theorem chat_dialogue:
  assumes "paired f g s" "ready_to_talk a" "ready_to_talk b" "list_all (\<lambda>(first, u). plain u) us"
  shows "\<exists>a1 s1 b1. dialogue f g us (a, s, b) = (a1, s1, b1) \<and> paired f g s1 \<and>
    cc_shown a1 = cc_shown a @ map (u_line \<circ> snd) (filter (\<lambda>(first, u). \<not> first) us) \<and>
    cc_shown b1 = cc_shown b @ map (u_line \<circ> snd) (filter fst us)"
  using assms
proof (induction us arbitrary: a s b)
  case (Cons v us)
  obtain first u where v: "v = (first, u)" by (cases v)
  show ?case
  proof (cases first)
    case True
    obtain a1 s1 b1 where "exchange f g u (a, s, b) = (a1, s1, b1)" "paired f g s1" "ready_to_talk a1" "ready_to_talk b1"
      "cc_shown a1 = cc_shown a" "cc_shown b1 = cc_shown b @ [u_line u]"
      using exchange_plain [OF Cons.prems(1-3), of u] Cons.prems(4) v by auto
    with Cons.IH [of s1 a1 b1] Cons.prems(4) v True show ?thesis by auto
  next
    case False
    have "paired g f s" using Cons.prems(1) paired_sym by blast
    then obtain b1 s1 a1 where "exchange g f u (b, s, a) = (b1, s1, a1)" "paired g f s1" "ready_to_talk b1" "ready_to_talk a1"
      "cc_shown b1 = cc_shown b" "cc_shown a1 = cc_shown a @ [u_line u]"
      using exchange_plain [OF _ Cons.prems(3,2), of g f s u] Cons.prems(4) v by auto
    moreover from this have "paired f g s1" using paired_sym by blast
    ultimately show ?thesis using Cons.IH [of s1 a1 b1] Cons.prems(4) v False by auto
  qed
qed simp

lemma chat_dialogue_witness:
  "\<exists>a1 s1 b1. dialogue 4 5 [(True, \<lparr>u_line = ''hi'', u_foreign1 = replicate 300 (CHR ''x''), u_stack1 = [],
      u_foreign2 = replicate 300 (CHR ''y''), u_stack2 = []\<rparr>),
     (False, \<lparr>u_line = ''ho'', u_foreign1 = [], u_stack1 = [], u_foreign2 = [], u_stack2 = []\<rparr>)]
     (sample_cc, sample_chat [4,5,0,0,0] [4 \<mapsto> 5, 5 \<mapsto> 4] Map.empty, sample_cc) = (a1, s1, b1) \<and>
   cc_shown a1 = [''ho''] \<and> cc_shown b1 = [''hi'']"
proof -
  let ?us = "[(True, \<lparr>u_line = ''hi'', u_foreign1 = replicate 300 (CHR ''x''), u_stack1 = [],
      u_foreign2 = replicate 300 (CHR ''y''), u_stack2 = []\<rparr>),
     (False, \<lparr>u_line = ''ho'', u_foreign1 = [], u_stack1 = [], u_foreign2 = [], u_stack2 = []\<rparr>)]"
  have "paired 4 5 (sample_chat [4,5,0,0,0] [4 \<mapsto> 5, 5 \<mapsto> 4] Map.empty)"
    by (simp add: paired_def sample_chat_def slot_wf_def MAX_CONNECTIONS_def)
  moreover have "ready_to_talk sample_cc" by (simp add: ready_to_talk_def sample_cc_def)
  moreover have "list_all (\<lambda>(first, u). plain u) ?us" by (simp add: plain_def)
  ultimately have "\<exists>a1 s1 b1. dialogue 4 5 ?us (sample_cc, sample_chat [4,5,0,0,0] [4 \<mapsto> 5, 5 \<mapsto> 4] Map.empty, sample_cc) =
      (a1, s1, b1) \<and> paired 4 5 s1 \<and>
    cc_shown a1 = cc_shown sample_cc @ map (u_line \<circ> snd) (filter (\<lambda>(first, u). \<not> first) ?us) \<and>
    cc_shown b1 = cc_shown sample_cc @ map (u_line \<circ> snd) (filter fst ?us)"
    using chat_dialogue by blast
  then show ?thesis by (auto simp del: dialogue.simps simp: sample_cc_def)
qed

end
