(* ===== verification/ChatNetwork.thy ===== *)
theory ChatNetwork
  imports ChatSession
begin

text \<open>
  The chat server and all its clients as one system (\<open>chat-server/Server.cpp\<close>, \<open>Client.cpp\<close>):
  clients connect and leave, their users type, their loops and the server's loop turn, in any order.  Between
  them are the connections, as the bytes on their way in each direction: a \<open>send\<close> appends what it
  transmits, a \<open>recv\<close> takes at most its buffer's size from the front, and a descriptor is reported
  readable only if something is there, or if its peer has left and everything of it is read.  No client leaves
  on its own (typing \<open>exit\<close> only ends its input): its process is ended, when it has read what was sent to it,
  and its kernel closes the connection.  The server answers with \<open>shutdown\<close> and never with \<open>close\<close>, so that
  the descriptor of a client that has left is not given again.  What a kernel does when the server still writes to
  a client that has left (a reset, then a signal) is not described: such a round is no event.
\<close>

section \<open>The connections\<close>

text \<open>What a call does to the bytes towards and from the caller's peer; \<open>foreign\<close> is what lies
  behind the object sent (255 bytes are sent of each).\<close>

fun traffic :: "(fd \<Rightarrow> string) \<Rightarrow> syscall \<Rightarrow> (fd \<Rightarrow> string) \<times> (fd \<Rightarrow> string) \<Rightarrow> (fd \<Rightarrow> string) \<times> (fd \<Rightarrow> string)" where
  "traffic foreign (Call_recv f n) (inc, out) = (inc(f := drop n (inc f)), out)"
| "traffic foreign (Call_send f object n) (inc, out) =
     (inc, out(f := out f @ carried (filled_buffer 255 (foreign f)) (f, object, n)))"
| "traffic foreign c (inc, out) = (inc, out)"

text \<open>The calls made since the trace was \<open>old\<close>.\<close>

definition traffics ::
  "(fd \<Rightarrow> string) \<Rightarrow> syscall list \<Rightarrow> syscall list \<Rightarrow> (fd \<Rightarrow> string) \<times> (fd \<Rightarrow> string) \<Rightarrow> (fd \<Rightarrow> string) \<times> (fd \<Rightarrow> string)" where
  "traffics foreign old now = fold (traffic foreign) (drop (length old) now)"

section \<open>The system\<close>

text \<open>
  A client is named by the descriptor its connection gets at the server.  \<open>nt_up\<close> are the bytes on
  their way to the server, \<open>nt_down\<close> those to the client; \<open>nt_backlog\<close> are the connections not yet
  accepted, \<open>nt_left\<close> are the clients that have left, and \<open>nt_typed\<close> is what each user has typed while the
  client listened.
\<close>

record chat_net =
  nt_server :: chat_globals
  nt_clients :: "fd \<rightharpoonup> chat_client"
  nt_up :: "fd \<Rightarrow> string"
  nt_down :: "fd \<Rightarrow> string"
  nt_backlog :: "fd list"
  nt_left :: "fd set"
  nt_typed :: "fd \<Rightarrow> string list"

definition net_initial :: "chat_globals \<Rightarrow> chat_net" where
  "net_initial s = \<lparr>nt_server = s, nt_clients = Map.empty, nt_up = (\<lambda>_. []), nt_down = (\<lambda>_. []),
     nt_backlog = [], nt_left = {}, nt_typed = (\<lambda>_. [])\<rparr>"

definition fresh_client :: chat_client where
  "fresh_client = \<lparr>trace = [], cc_sock = 0, cc_queue = Map.empty, cc_listening = False, cc_shown = []\<rparr>"

text \<open>A client starts: \<open>main\<close> up to its loop, with the socket's own number \<open>sock\<close>.\<close>

definition net_connect :: "fd \<Rightarrow> fd \<Rightarrow> string \<Rightarrow> int \<Rightarrow> int \<Rightarrow> chat_net \<Rightarrow> chat_net option" where
  "net_connect f sock port getfl setfl z =
     (if f \<le> 0 \<or> f = sock_file_descriptor (nt_server z) \<or> nt_clients z f \<noteq> None then None
      else
        (case cc_setup 3 port sock True 0 getfl setfl fresh_client of
           Some (Running c) \<Rightarrow> Some (z\<lparr>nt_clients := (nt_clients z)(f \<mapsto> c), nt_backlog := nt_backlog z @ [f]\<rparr>)
         | _ \<Rightarrow> None))"

definition net_leave :: "fd \<Rightarrow> chat_net \<Rightarrow> chat_net option" where
  "net_leave f z =
     (if nt_clients z f = None \<or> f \<in> nt_left z \<or> f \<in> set (nt_backlog z) \<or> nt_down z f \<noteq> [] then None
      else Some (z\<lparr>nt_left := insert f (nt_left z)\<rparr>))"

definition net_type :: "fd \<Rightarrow> string \<Rightarrow> chat_net \<Rightarrow> chat_net option" where
  "net_type f l z =
     (case nt_clients z f of
        None \<Rightarrow> None
      | Some c \<Rightarrow>
          if f \<in> nt_left z then None
          else
            Some (z\<lparr>nt_clients := (nt_clients z)(f \<mapsto> cc_inputListener l c),
              nt_typed := (nt_typed z)(f := nt_typed z f @ (if cc_listening c \<and> l \<noteq> ''exit'' then [l] else []))\<rparr>))"

text \<open>A turn of a client's loop; \<open>stack\<close> is the memory behind its buffer.\<close>

definition net_client_env :: "bool \<Rightarrow> bool \<Rightarrow> string \<Rightarrow> string \<Rightarrow> cc_env" where
  "net_client_env readable writable arrived stack =
     \<lparr>ce_ready = of_bool readable + of_bool writable, ce_readable = readable, ce_writable = writable,
      ce_recv = RData (take 255 arrived), ce_stack = stack\<rparr>"

definition net_client_turn :: "fd \<Rightarrow> bool \<Rightarrow> bool \<Rightarrow> string \<Rightarrow> string \<Rightarrow> chat_net \<Rightarrow> chat_net option" where
  "net_client_turn f readable writable foreign stack z =
     (case nt_clients z f of
        None \<Rightarrow> None
      | Some c \<Rightarrow>
          if f \<in> nt_left z \<or> readable \<and> nt_down z f = [] then None
          else
            (case cc_turn (net_client_env readable writable (nt_down z f) stack) c of
               Exited _ _ \<Rightarrow> None
             | Running c1 \<Rightarrow>
                 let (inc, out) = traffics (\<lambda>_. foreign) (trace c) (trace c1)
                       ((\<lambda>_. nt_down z f), (\<lambda>_. nt_up z f))
                 in Some (z\<lparr>nt_clients := (nt_clients z)(f \<mapsto> c1),
                      nt_down := (nt_down z)(f := inc (cc_sock c)), nt_up := (nt_up z)(f := out (cc_sock c))\<rparr>)))"

text \<open>A round of the server: which connections are reported readable and writable, and whether a
  waiting client is accepted.  An empty connection whose client has left is readable, and ends.\<close>

definition net_server_env :: "bool \<Rightarrow> fd list \<Rightarrow> fd list \<Rightarrow> (nat \<Rightarrow> string) \<Rightarrow> chat_net \<Rightarrow> round_env" where
  "net_server_env acc readable writable stack z =
     \<lparr>r_ready = int (of_bool acc + length readable + length writable),
      r_readable = (if acc then [sock_file_descriptor (nt_server z)] else []) @ readable,
      r_writable = writable, r_accept = (if acc then hd (nt_backlog z) else -1),
      r_recv = (\<lambda>i. let f = client_socket_fd_map (nt_server z) ! i in
        if nt_up z f = [] then REof else RData (take 255 (nt_up z f))), r_stack = stack\<rparr>"

definition net_server_round ::
  "bool \<Rightarrow> fd list \<Rightarrow> fd list \<Rightarrow> (fd \<Rightarrow> string) \<Rightarrow> (nat \<Rightarrow> string) \<Rightarrow> chat_net \<Rightarrow> chat_net option" where
  "net_server_round acc readable writable foreign stack z =
     (if acc \<and> nt_backlog z = [] \<or> set writable \<inter> nt_left z \<noteq> {} \<or>
         (\<exists>f \<in> set readable. nt_up z f = [] \<and> f \<notin> nt_left z \<or> f = sock_file_descriptor (nt_server z)) then None
      else
        (case chat_round (net_server_env acc readable writable stack z) (nt_server z) of
           Exited _ _ \<Rightarrow> None
         | Running s \<Rightarrow>
             let (up, down) = traffics foreign (trace (nt_server z)) (trace s) (nt_up z, nt_down z)
             in Some (z\<lparr>nt_server := s, nt_up := up, nt_down := down,
                  nt_backlog := (if acc then tl (nt_backlog z) else nt_backlog z)\<rparr>)))"

datatype net_event =
    Connect fd fd string int int
  | Leave fd
  | Type_line fd string
  | Client_turn fd bool bool string string
  | Server_round bool "fd list" "fd list" "fd \<Rightarrow> string" "nat \<Rightarrow> string"

fun net_step :: "net_event \<Rightarrow> chat_net \<Rightarrow> chat_net option" where
  "net_step (Connect f sock port getfl setfl) z = net_connect f sock port getfl setfl z"
| "net_step (Leave f) z = net_leave f z"
| "net_step (Type_line f l) z = net_type f l z"
| "net_step (Client_turn f readable writable foreign stack) z = net_client_turn f readable writable foreign stack z"
| "net_step (Server_round acc readable writable foreign stack) z = net_server_round acc readable writable foreign stack z"

fun net_run :: "net_event list \<Rightarrow> chat_net \<Rightarrow> chat_net option" where
  "net_run [] z = Some z"
| "net_run (e # es) z = Option.bind (net_step e z) (net_run es)"

section \<open>Messages on a connection\<close>

definition short_line :: "string \<Rightarrow> bool" where
  "short_line l \<longleftrightarrow> length l < 255 \<and> NUL \<notin> set l"

text \<open>The bytes are a sequence of 255-byte messages that begin with these lines.\<close>

fun carries :: "string \<Rightarrow> string list \<Rightarrow> bool" where
  "carries b [] \<longleftrightarrow> b = []"
| "carries b (l # ls) \<longleftrightarrow> short_line l \<and> (\<exists>r rest. b = l @ NUL # r @ rest \<and> length (l @ NUL # r) = 255 \<and> carries rest ls)"

lemma carries_snoc:
  assumes "carries b ls" "short_line l"
  shows "carries (b @ carried (filled_buffer 255 mem) (f, l @ [NUL], 255)) (ls @ [l])"
  using assms(1)
proof (induction ls arbitrary: b)
  case Nil
  have "carried (filled_buffer 255 mem) (f, l @ [NUL], 255) = l @ NUL # take (254 - length l) (filled_buffer 255 mem)"
    using assms(2) by (simp add: carried_def short_line_def Suc_diff_le take_Cons' diff_diff_eq)
  then show ?case using Nil assms(2) by (auto simp: short_line_def)
next
  case (Cons x ls)
  then show ?case by fastforce
qed

lemma carries_recv:
  assumes "carries b ls" "b \<noteq> []"
  obtains l ls' where "ls = l # ls'" "short_line l" "carries (drop 255 b) ls'" "take 255 b \<noteq> []"
    "c_str (filled_buffer 255 (take 255 b) @ mem) = l"
proof -
  from assms obtain l ls' r rest where b: "ls = l # ls'" "short_line l" "b = (l @ NUL # r) @ rest"
    "length (l @ NUL # r) = 255" "carries rest ls'"
    by (cases ls) auto
  have t: "take 255 b = l @ NUL # r" "drop 255 b = rest" unfolding b(3) b(4) [symmetric] by simp_all
  have "filled_buffer 255 d = d" if "length d = 255" for d using that by (simp add: filled_buffer_def)
  from this [OF b(4)] have "c_str (filled_buffer 255 (take 255 b) @ mem) = l"
    using b(2) by (simp add: t c_str_cut c_str_id short_line_def)
  then show ?thesis using that [OF b(1,2)] b(5) assms(2) by (simp add: t)
qed

section \<open>What is on its way\<close>

text \<open>
  Each line is somewhere between the terminal it was typed at and the one it is shown at.  For a
  client \<open>g\<close>, \<open>T g\<close> are the lines the server has taken for it, with their senders; \<open>U f\<close> and
  \<open>D g\<close> are those in the connections.  The lines of one sender that are at or behind the server,
  those in its connection and its pending one are all it has typed, in order, where nothing may be
  lost (\<open>strict\<close>), and a subsequence otherwise.
\<close>

definition related :: "bool \<Rightarrow> string list \<Rightarrow> string list \<Rightarrow> bool" where
  "related strict xs ys \<longleftrightarrow> (if strict then xs = ys else subseq xs ys)"

lemma related_skip: "related b (xs @ l # ys) zs \<Longrightarrow> \<not> b \<Longrightarrow> related b (xs @ ys) zs"
  by (auto simp: related_def intro: subseq_order.trans [rotated] list_emb_append_mono)

lemma related_snoc: "related b xs ys \<Longrightarrow> related b (xs @ [l]) (ys @ [l])"
  by (auto simp: related_def intro: list_emb_append_mono)

lemma related_more: "related b xs ys \<Longrightarrow> \<not> b \<Longrightarrow> related b xs (ys @ [l])"
  by (simp add: related_def list_emb_prefix)

definition of_sender :: "fd \<Rightarrow> (fd \<times> string) list \<Rightarrow> string list" where
  "of_sender f T = map snd (filter (\<lambda>x. fst x = f) T)"

lemma of_sender_simps [simp]:
  "of_sender f [] = []" "of_sender f (T @ T') = of_sender f T @ of_sender f T'"
  "of_sender f (x # T) = (if fst x = f then snd x # of_sender f T else of_sender f T)"
  by (simp_all add: of_sender_def)

definition taken_from :: "fd \<Rightarrow> (fd \<Rightarrow> (fd \<times> string) list) \<Rightarrow> (fd \<rightharpoonup> fd) \<Rightarrow> string list" where
  "taken_from f T partner = (case partner f of None \<Rightarrow> [] | Some g \<Rightarrow> of_sender f (T g))"

definition greeting :: string where
  "greeting = ''Connected Successfully!'' @ [CHR 0x0A]"

text \<open>\<open>G\<close> are the clients that have ever come into the table.\<close>

definition greeted :: "fd \<Rightarrow> fd set \<Rightarrow> string list" where
  "greeted g G = (if g \<in> G then [greeting] else [])"

type_synonym ghosts = "(fd \<Rightarrow> (fd \<times> string) list) \<times> (fd \<Rightarrow> string list) \<times> (fd \<Rightarrow> string list)"

fun flow ::
  "bool \<Rightarrow> fd set \<Rightarrow> (fd \<Rightarrow> string list) \<Rightarrow> (fd \<Rightarrow> string list) \<Rightarrow> (fd \<Rightarrow> string list) \<Rightarrow> chat_globals \<Rightarrow>
   (fd \<Rightarrow> string) \<times> (fd \<Rightarrow> string) \<Rightarrow> ghosts \<Rightarrow> bool" where
  "flow b G shown pend typed s (up, down) (T, U, D) \<longleftrightarrow>
     (\<forall>f. carries (up f) (U f)) \<and> (\<forall>g. carries (down g) (D g)) \<and>
     (\<forall>g. shown g @ D g @ (case client_messages_queue s g of None \<Rightarrow> [] | Some m \<Rightarrow> [m]) = greeted g G @ map snd (T g)) \<and>
     (\<forall>g. \<forall>x \<in> set (T g). client_to_client_map s (fst x) = Some g) \<and>
     (\<forall>f. related b (taken_from f T (client_to_client_map s) @ U f @ pend f) (typed f)) \<and>
     (\<forall>g l. client_messages_queue s g = Some l \<longrightarrow> short_line l)"

text \<open>The server takes a message from the connection of \<open>f\<close>.\<close>

lemma flow_read:
  assumes "flow b G sh pe ty s (up, down) (T, U, D)" "up f \<noteq> []" "f = client_socket_fd_map s ! i" "FD_ISSET f rd"
    and "r_recv e i = RData (take 255 (up f))" "\<forall>f g. client_to_client_map s f = Some g \<longrightarrow> 0 < g"
    and "b \<longrightarrow> (\<exists>g. client_to_client_map s f = Some g \<and> client_messages_queue s g = None)"
  obtains T' U' where "trace (chat_read e rd i s) = trace s @ [Call_recv f 255]"
    "flow b G sh pe ty (chat_read e rd i s) (up(f := drop 255 (up f)), down) (T', U', D)"
    "client_socket_fd_map (chat_read e rd i s) = client_socket_fd_map s"
    "client_to_client_map (chat_read e rd i s) = client_to_client_map s"
    "\<And>g. client_to_client_map s f \<noteq> Some g \<Longrightarrow> client_messages_queue (chat_read e rd i s) g = client_messages_queue s g"
proof -
  have fl: "carries (up f) (U f)" using assms(1) by simp
  obtain l ls where l: "U f = l # ls" "short_line l" "carries (drop 255 (up f)) ls" "take 255 (up f) \<noteq> []"
    "c_str (filled_buffer 255 (take 255 (up f)) @ r_stack e i) = l"
    using carries_recv [OF fl assms(2)] by metis
  let ?t = "chat_read e rd i s"
  have up: "\<not> chat_hangs_up (r_recv e i)" using assms(2,5) by (simp add: chat_hangs_up_def)
  have t: "?t = chat_processClient (r_recv e i) (r_stack e i) f s"
    using assms(3,4) by (simp add: chat_read_def)
  have tab: "client_socket_fd_map ?t = client_socket_fd_map s" "client_to_client_map ?t = client_to_client_map s"
    using up by (simp_all add: t)
  have q: "client_messages_queue ?t = (case client_to_client_map s f of None \<Rightarrow> client_messages_queue s
      | Some g \<Rightarrow> std_insert g l (client_messages_queue s))"
    using up assms(6) l(5) by (auto simp: t chat_recipient_def chat_text_def assms(5) split: option.splits)
  have "0 < min (length (up f)) 255" using assms(2) by simp
  then have tr: "trace ?t = trace s @ [Call_recv f 255]"
    using up by (auto simp: t chat_processClient_def chat_hangs_up_def assms(5) Let_def min_def split: if_splits)
  have rest: "client_messages_queue ?t g = client_messages_queue s g" if "client_to_client_map s f \<noteq> Some g" for g
    using that by (auto simp: q std_insert_other split: option.split)
  show ?thesis
  proof (cases "\<exists>g. client_to_client_map s f = Some g \<and> client_messages_queue s g = None")
    case True
    then obtain g where g: "client_to_client_map s f = Some g" "client_messages_queue s g = None" by blast
    let ?T = "T(g := T g @ [(f, l)])"
    have q': "client_messages_queue ?t = (client_messages_queue s)(g \<mapsto> l)" using g by (simp add: q std_insert_fresh)
    have same: "taken_from h ?T (client_to_client_map s) @ (U(f := ls)) h = taken_from h T (client_to_client_map s) @ U h" for h
      using g(1) l(1) by (auto simp: taken_from_def split: option.splits)
    have rel: "related b (taken_from h T (client_to_client_map s) @ U h @ pe h) (ty h)" for h using assms(1) by simp
    have "related b (taken_from h ?T (client_to_client_map s) @ (U(f := ls)) h @ pe h) (ty h)" for h
      using rel [of h] unfolding append_assoc [symmetric] same .
    moreover have "sh h @ D h @ (case ((client_messages_queue s)(g \<mapsto> l)) h of None \<Rightarrow> [] | Some m \<Rightarrow> [m]) =
        greeted h G @ map snd (?T h)" for h
    proof -
      have "sh h @ D h @ (case client_messages_queue s h of None \<Rightarrow> [] | Some m \<Rightarrow> [m]) = greeted h G @ map snd (T h)"
        using assms(1) by simp
      then show ?thesis using g(2) by (cases "h = g") simp_all
    qed
    ultimately have "flow b G sh pe ty ?t (up(f := drop 255 (up f)), down) (?T, U(f := ls), D)"
      unfolding flow.simps tab q' greeted_def using assms(1) l(2,3) g(1) by simp
    then show ?thesis using that tr tab rest by blast
  next
    case False
    then have nb: "\<not> b" and q': "client_messages_queue ?t = client_messages_queue s"
      using assms(7) by (auto simp: q std_insert_present split: option.split)
    have "related b (taken_from f T (client_to_client_map s) @ U f @ pe f) (ty f)" using assms(1) by simp
    then have "related b (taken_from f T (client_to_client_map s) @ ls @ pe f) (ty f)"
      using related_skip [of b "taken_from f T (client_to_client_map s)" l "ls @ pe f" "ty f"] nb l(1) by simp
    then have "flow b G sh pe ty ?t (up(f := drop 255 (up f)), down) (T, U(f := ls), D)"
      using assms(1) l(3) by (simp add: tab q' greeted_def)
    then show ?thesis using that tr tab rest by blast
  qed
qed

lemma flow_cong:
  "client_to_client_map t = client_to_client_map s \<Longrightarrow> client_messages_queue t = client_messages_queue s \<Longrightarrow>
   flow b G sh pe ty t (up, down) (T, U, D) = flow b G sh pe ty s (up, down) (T, U, D)"
  by simp

text \<open>It finds that \<open>f\<close> has left.\<close>

lemma slot_evict_at:
  assumes "slot_wf 0 tab" "i < MAX_CONNECTIONS" "tab ! i \<noteq> 0"
  shows "slot_evict 0 (tab ! i) tab = tab[i := 0]"
proof (cases "first_index (\<lambda>y. y = tab ! i) tab")
  case None
  then show ?thesis using assms by (auto simp: first_index_None slot_wf_def)
next
  case (Some k)
  then have "tab ! k = tab ! i" "k < MAX_CONNECTIONS"
    using first_index_hit [OF Some] first_index_bound [OF Some] assms(1) by (auto simp: slot_wf_def)
  then have "k = i" using slot_wf_entries [OF assms(1,2) _ _ assms(3)] by metis
  then show ?thesis using Some by (simp add: slot_evict_def)
qed

lemma chat_read_end:
  assumes "f = client_socket_fd_map s ! i" "FD_ISSET f rd" "r_recv e i = REof" "f \<noteq> 0"
    and "slot_wf 0 (client_socket_fd_map s)" "i < MAX_CONNECTIONS"
  shows "trace (chat_read e rd i s) = trace s @ [Call_recv f 255, Call_shutdown f]"
    "client_socket_fd_map (chat_read e rd i s) = (client_socket_fd_map s)[i := 0]"
    "client_to_client_map (chat_read e rd i s) = client_to_client_map s"
    "client_messages_queue (chat_read e rd i s) = client_messages_queue s"
proof -
  have h: "chat_hangs_up (r_recv e i)" using assms(3) by (simp add: chat_hangs_up_def)
  have t: "chat_read e rd i s = chat_processClient (r_recv e i) (r_stack e i) f s"
    using assms(1,2) by (simp add: chat_read_def)
  show "client_socket_fd_map (chat_read e rd i s) = (client_socket_fd_map s)[i := 0]"
    using slot_evict_at [OF assms(5,6)] assms(1,4) h by (simp add: t)
  show "trace (chat_read e rd i s) = trace s @ [Call_recv f 255, Call_shutdown f]"
    by (simp add: t chat_processClient_def chat_closeClientConnection_def CloseSocket_def assms(3) Let_def split: option.split)
qed (use assms in \<open>simp_all add: chat_read_def chat_hangs_up_def\<close>)

text \<open>The server sends the message pending for \<open>g\<close>.\<close>

lemma flow_write:
  assumes "flow b G sh pe ty s (up, down) (T, U, D)" "g = client_socket_fd_map s ! i" "FD_ISSET g wr"
    and "client_messages_queue s g = Some m"
  shows "trace (chat_write wr i s) = trace s @ [Call_send g (m @ [NUL]) 255]"
    and "flow b G sh pe ty (chat_write wr i s)
      (up, down(g := down g @ carried (filled_buffer 255 mem) (g, m @ [NUL], 255))) (T, U, D(g := D g @ [m]))"
proof -
  show "trace (chat_write wr i s) = trace s @ [Call_send g (m @ [NUL]) 255]"
    using assms(2-4) by (simp add: chat_write_def chat_sendRequest_def std_index_def Let_def)
  have 1: "carries (down g @ carried (filled_buffer 255 mem) (g, m @ [NUL], 255)) (D g @ [m])"
    using assms(1,4) by (intro carries_snoc) simp_all
  have 2: "client_messages_queue (chat_write wr i s) = (client_messages_queue s)(g := None)"
    using assms(2,3) by simp
  have 3: "sh h @ (D(g := D g @ [m])) h @ (case ((client_messages_queue s)(g := None)) h of None \<Rightarrow> [] | Some m \<Rightarrow> [m]) =
      greeted h G @ map snd (T h)" for h
  proof -
    have "sh h @ D h @ (case client_messages_queue s h of None \<Rightarrow> [] | Some m \<Rightarrow> [m]) = greeted h G @ map snd (T h)"
      using assms(1) by simp
    then show ?thesis using assms(4) by (cases "h = g") simp_all
  qed
  show "flow b G sh pe ty (chat_write wr i s)
      (up, down(g := down g @ carried (filled_buffer 255 mem) (g, m @ [NUL], 255))) (T, U, D(g := D g @ [m]))"
    unfolding flow.simps chat_write_rest greeted_def 2
    using assms(1) 1 3 by (simp add: greeted_def)
qed

text \<open>The conditions under which the round's loop may work on an entry: what is there to read (or that its
  client has left), and, where nothing may be lost, that there is room for it.\<close>

definition slot_serves ::
  "bool \<Rightarrow> round_env \<Rightarrow> fd list \<Rightarrow> fd list \<Rightarrow> (fd \<Rightarrow> string) \<Rightarrow> chat_globals \<Rightarrow> nat \<Rightarrow> bool" where
  "slot_serves b e rd wr up s i \<longleftrightarrow>
     (let f = client_socket_fd_map s ! i in f \<noteq> 0 \<longrightarrow>
        (f \<in> set rd \<longrightarrow> (if up f = [] then r_recv e i = REof else r_recv e i = RData (take 255 (up f)) \<and>
           (b \<longrightarrow> (\<exists>g. client_to_client_map s f = Some g \<and> client_messages_queue s g = None)))) \<and>
        (f \<in> set wr \<longrightarrow> client_messages_queue s f \<noteq> None))"

text \<open>The reading half of the loop's body.\<close>

lemma flow_slot_read:
  assumes "flow b G sh pe ty s (up, down) (T, U, D)" "slot_serves b e rd wr up s i" "f = client_socket_fd_map s ! i" "f \<noteq> 0"
    and "\<forall>f g. client_to_client_map s f = Some g \<longrightarrow> 0 < g" "slot_wf 0 (client_socket_fd_map s)" "i < MAX_CONNECTIONS"
  obtains cs up' T' U' where "trace (chat_read e rd i s) = trace s @ cs" "fold (traffic mem) cs (up, down) = (up', down)"
    "flow b G sh pe ty (chat_read e rd i s) (up', down) (T', U', D)" "\<And>h. h \<noteq> f \<Longrightarrow> up' h = up h"
    "client_to_client_map (chat_read e rd i s) = client_to_client_map s"
    "client_socket_fd_map (chat_read e rd i s) =
       (if f \<in> set rd \<and> up f = [] then (client_socket_fd_map s)[i := 0] else client_socket_fd_map s)"
    "\<And>g. \<not> (f \<in> set rd \<and> up f \<noteq> [] \<and> client_to_client_map s f = Some g) \<Longrightarrow>
       client_messages_queue (chat_read e rd i s) g = client_messages_queue s g"
proof (cases "f \<in> set rd")
  case False
  then have "chat_read e rd i s = s" using assms(3) by (simp add: chat_read_def FD_ISSET_def)
  then show ?thesis using that [of "[]" up T U] assms(1) False by (simp del: flow.simps)
next
  case rd: True
  then have set: "FD_ISSET f rd" by (simp add: FD_ISSET_def)
  show ?thesis
  proof (cases "up f = []")
    case True
    then have "r_recv e i = REof" using assms(2-4) rd by (auto simp: slot_serves_def Let_def)
    note r = chat_read_end [OF assms(3) set this assms(4,6,7)]
    have "flow b G sh pe ty (chat_read e rd i s) (up, down) (T, U, D)"
      using assms(1) by (subst flow_cong [OF r(3,4)])
    moreover have "up(f := []) = up" using True by auto
    ultimately show ?thesis using that [of "[Call_recv f 255, Call_shutdown f]" up T U] r True rd by (simp del: flow.simps)
  next
    case False
    then have c: "r_recv e i = RData (take 255 (up f))"
      "b \<longrightarrow> (\<exists>g. client_to_client_map s f = Some g \<and> client_messages_queue s g = None)"
      using assms(2-4) rd by (auto simp: slot_serves_def Let_def)
    obtain T' U' where r: "trace (chat_read e rd i s) = trace s @ [Call_recv f 255]"
      "flow b G sh pe ty (chat_read e rd i s) (up(f := drop 255 (up f)), down) (T', U', D)"
      "client_socket_fd_map (chat_read e rd i s) = client_socket_fd_map s"
      "client_to_client_map (chat_read e rd i s) = client_to_client_map s"
      "\<And>g. client_to_client_map s f \<noteq> Some g \<Longrightarrow> client_messages_queue (chat_read e rd i s) g = client_messages_queue s g"
      using flow_read [OF assms(1) False assms(3) set c(1) assms(5) c(2)] by blast
    show ?thesis
      by (rule that [OF r(1) _ r(2)]) (use r(3-5) rd False in simp_all)
  qed
qed

lemma flow_slot:
  assumes "flow b G sh pe ty s (up, down) (T, U, D)" "slot_serves b e rd wr up s i" "0 \<notin> set wr"
    and "\<forall>f g. client_to_client_map s f = Some g \<longrightarrow> 0 < g" "slot_wf 0 (client_socket_fd_map s)" "i < MAX_CONNECTIONS"
    and "f = client_socket_fd_map s ! i"
  obtains cs up' down' T' U' D' where "trace (chat_slot e rd wr i s) = trace s @ cs"
    "fold (traffic mem) cs (up, down) = (up', down')" "flow b G sh pe ty (chat_slot e rd wr i s) (up', down') (T', U', D')"
    "client_socket_fd_map (chat_slot e rd wr i s) =
       (if f \<noteq> 0 \<and> f \<in> set rd \<and> up f = [] then (client_socket_fd_map s)[i := 0] else client_socket_fd_map s)"
    "\<And>h. h \<noteq> f \<Longrightarrow> up' h = up h"
    "\<And>g. g \<noteq> f \<Longrightarrow> client_messages_queue s g \<noteq> None \<Longrightarrow> client_messages_queue (chat_slot e rd wr i s) g \<noteq> None"
    "\<And>g. \<not> (f \<in> set rd \<and> up f \<noteq> [] \<and> client_to_client_map s f = Some g) \<Longrightarrow>
       client_messages_queue s g = None \<Longrightarrow> client_messages_queue (chat_slot e rd wr i s) g = None"
proof (cases "f = 0")
  case True
  then have "chat_slot e rd wr i s = s" using assms(7) by (simp add: chat_slot_def)
  then show ?thesis using that [of "[]" up down T U D] assms(1) True by (simp del: flow.simps)
next
  case False
  let ?t = "chat_read e rd i s"
  have slot: "chat_slot e rd wr i s = chat_write wr i ?t" using False assms(7) by (simp add: chat_slot_halves)
  obtain cs up' T' U' where t: "trace ?t = trace s @ cs" "fold (traffic mem) cs (up, down) = (up', down)"
    "flow b G sh pe ty ?t (up', down) (T', U', D)" "\<And>h. h \<noteq> f \<Longrightarrow> up' h = up h"
    "client_to_client_map ?t = client_to_client_map s"
    "client_socket_fd_map ?t = (if f \<in> set rd \<and> up f = [] then (client_socket_fd_map s)[i := 0] else client_socket_fd_map s)"
    "\<And>g. \<not> (f \<in> set rd \<and> up f \<noteq> [] \<and> client_to_client_map s f = Some g) \<Longrightarrow> client_messages_queue ?t g = client_messages_queue s g"
    using flow_slot_read [OF assms(1,2,7) False assms(4-6)] by blast
  have keeps: "client_messages_queue ?t g \<noteq> None" if "client_messages_queue s g \<noteq> None" for g
    using chat_read_keeps [of s g _ e rd i] that by auto
  show ?thesis
  proof (cases "FD_ISSET (client_socket_fd_map ?t ! i) wr")
    case True
    then have f: "f = client_socket_fd_map ?t ! i" "f \<in> set wr" "\<not> (f \<in> set rd \<and> up f = [])"
      using assms(3,5,6,7) t(6) by (auto simp: FD_ISSET_def slot_wf_def split: if_splits)
    then obtain m where m: "client_messages_queue ?t f = Some m"
      using keeps [of f] assms(2,7) False by (auto simp: slot_serves_def Let_def)
    have wr: "FD_ISSET f wr" using True f(1) by simp
    note w = flow_write(1) [OF t(3) f(1) wr m] flow_write(2) [OF t(3) f(1) wr m, where mem = "mem f"]
    show ?thesis
    proof (rule that [of "cs @ [Call_send f (m @ [NUL]) 255]"])
      show "flow b G sh pe ty (chat_slot e rd wr i s)
        (up', down(f := down f @ carried (filled_buffer 255 (mem f)) (f, m @ [NUL], 255))) (T', U', D(f := D f @ [m]))"
        unfolding slot by (rule w(2))
    qed (use w(1) t(1,2,4-7) f(3) keeps False f(1) [symmetric] in \<open>auto simp: slot\<close>)
  next
    case no: False
    then have "chat_write wr i ?t = ?t" by (simp add: chat_write_def Let_def)
    then show ?thesis using that [of cs up' down T' U' D] t keeps False by (simp add: slot del: flow.simps)
  qed
qed

text \<open>\<open>R\<close> are the clients that something may be read from.\<close>

lemma flow_slots:
  assumes "flow b G sh pe ty s (up, down) (T, U, D)" "slot_wf 0 (client_socket_fd_map s)" "0 \<notin> set wr"
    and "distinct is" "set is \<subseteq> {..<MAX_CONNECTIONS}" "\<forall>f g. client_to_client_map s f = Some g \<longrightarrow> 0 < g"
    and "\<forall>i \<in> set is. slot_serves b e rd wr up s i"
    and "b \<longrightarrow> inj_on (client_to_client_map s) R"
    and "\<forall>i \<in> set is. let f = client_socket_fd_map s ! i in f \<noteq> 0 \<and> f \<in> set rd \<and> up f \<noteq> [] \<longrightarrow> f \<in> R"
    and "client_to_client_map s 0 = None"
  shows "\<exists>cs up' down' T' U' D'. trace (fold (chat_slot e rd wr) is s) = trace s @ cs \<and>
    fold (traffic mem) cs (up, down) = (up', down') \<and>
    flow b G sh pe ty (fold (chat_slot e rd wr) is s) (up', down') (T', U', D') \<and>
    ((\<forall>i \<in> set is. let f = client_socket_fd_map s ! i in f \<noteq> 0 \<and> f \<in> set rd \<longrightarrow> up f \<noteq> []) \<longrightarrow>
       client_socket_fd_map (fold (chat_slot e rd wr) is s) = client_socket_fd_map s)"
  using assms
proof (induction "is" arbitrary: s up down T U D)
  case Nil
  then show ?case by (intro exI [of _ "[]"]) (auto simp del: flow.simps)
next
  case (Cons i "is")
  let ?t = "chat_slot e rd wr i s" and ?tab = "client_socket_fd_map s"
  let ?f = "?tab ! i"
  have i: "slot_serves b e rd wr up s i" "i < MAX_CONNECTIONS" using Cons.prems(5,7) by auto
  from flow_slot [OF Cons.prems(1) i(1) Cons.prems(3,6,2) i(2) refl, where mem = mem] obtain cs up1 down1 T1 U1 D1 where
    t: "trace ?t = trace s @ cs" "fold (traffic mem) cs (up, down) = (up1, down1)"
    "flow b G sh pe ty ?t (up1, down1) (T1, U1, D1)"
    "client_socket_fd_map ?t = (if ?f \<noteq> 0 \<and> ?f \<in> set rd \<and> up ?f = [] then ?tab[i := 0] else ?tab)"
    "\<And>h. h \<noteq> ?f \<Longrightarrow> up1 h = up h"
    "\<And>g. g \<noteq> ?f \<Longrightarrow> client_messages_queue s g \<noteq> None \<Longrightarrow> client_messages_queue ?t g \<noteq> None"
    "\<And>g. \<not> (?f \<in> set rd \<and> up ?f \<noteq> [] \<and> client_to_client_map s ?f = Some g) \<Longrightarrow>
       client_messages_queue s g = None \<Longrightarrow> client_messages_queue ?t g = None" by blast
  have entry: "client_socket_fd_map ?t ! k = ?tab ! k" "?tab ! k \<noteq> 0 \<Longrightarrow> ?tab ! k \<noteq> ?f" "?tab ! k \<noteq> 0 \<Longrightarrow> up1 (?tab ! k) = up (?tab ! k)"
    if k: "k \<in> set is" for k
  proof -
    have "k \<noteq> i" using Cons.prems(4) k by auto
    then show "client_socket_fd_map ?t ! k = ?tab ! k" using t(4) by simp
    show other: "?tab ! k \<noteq> ?f" if "?tab ! k \<noteq> 0"
      using slot_wf_entries [OF Cons.prems(2), of k i] Cons.prems(4,5) k that by auto
    show "up1 (?tab ! k) = up (?tab ! k)" if "?tab ! k \<noteq> 0" using t(5) other [OF that] by blast
  qed
  have serves: "slot_serves b e rd wr up1 ?t k" if k: "k \<in> set is" for k
  proof (cases "?tab ! k = 0")
    case False
    note en = entry(1) [OF k] entry(2,3) [OF k False]
    have old: "slot_serves b e rd wr up s k" using Cons.prems(7) k by simp
    have free: "\<exists>g. client_to_client_map s (?tab ! k) = Some g \<and> client_messages_queue ?t g = None"
      if strict: b "?tab ! k \<in> set rd" "up (?tab ! k) \<noteq> []"
    proof -
      obtain g where g: "client_to_client_map s (?tab ! k) = Some g" "client_messages_queue s g = None"
        using old False strict by (auto simp: slot_serves_def Let_def)
      have R: "?tab ! k \<in> R" using Cons.prems(9) k False strict by (simp add: Let_def)
      have "\<not> (?f \<in> set rd \<and> up ?f \<noteq> [] \<and> client_to_client_map s ?f = Some g)"
      proof
        assume i: "?f \<in> set rd \<and> up ?f \<noteq> [] \<and> client_to_client_map s ?f = Some g"
        then have "?f \<noteq> 0" using Cons.prems(10) by auto
        then have "?f \<in> R" using Cons.prems(9) i by (simp add: Let_def)
        then have "?tab ! k = ?f" using inj_onD [of "client_to_client_map s" R "?tab ! k" ?f] Cons.prems(8) strict(1) g(1) i R by simp
        with en(2) show False ..
      qed
      then show ?thesis using t(7) g by blast
    qed
    then show ?thesis
      using old False en t(6) [OF en(2)] by (auto simp: slot_serves_def Let_def)
  qed (use entry(1) [OF k] in \<open>simp add: slot_serves_def\<close>)
  have wf: "slot_wf 0 (client_socket_fd_map ?t)" using chat_slot_wf [OF Cons.prems(2)] by blast
  have inR: "\<forall>k \<in> set is. let f = client_socket_fd_map ?t ! k in f \<noteq> 0 \<and> f \<in> set rd \<and> up1 f \<noteq> [] \<longrightarrow> f \<in> R"
    using Cons.prems(9) entry by (auto simp: Let_def)
  have p: "distinct is" "set is \<subseteq> {..<MAX_CONNECTIONS}" "\<forall>f g. client_to_client_map ?t f = Some g \<longrightarrow> 0 < g"
    "\<forall>k \<in> set is. slot_serves b e rd wr up1 ?t k" "b \<longrightarrow> inj_on (client_to_client_map ?t) R" "client_to_client_map ?t 0 = None"
    using Cons.prems(4-6,8,10) serves by auto
  obtain cs' up' down' T' U' D' where r: "trace (fold (chat_slot e rd wr) is ?t) = trace ?t @ cs'"
    "fold (traffic mem) cs' (up1, down1) = (up', down')"
    "flow b G sh pe ty (fold (chat_slot e rd wr) is ?t) (up', down') (T', U', D')"
    "(\<forall>k \<in> set is. let f = client_socket_fd_map ?t ! k in f \<noteq> 0 \<and> f \<in> set rd \<longrightarrow> up1 f \<noteq> []) \<longrightarrow>
       client_socket_fd_map (fold (chat_slot e rd wr) is ?t) = client_socket_fd_map ?t"
    using Cons.IH [OF t(3) wf Cons.prems(3) p(1-5) inR p(6)] by blast
  have "trace (fold (chat_slot e rd wr) (i # is) s) = trace s @ cs @ cs'"
    "fold (traffic mem) (cs @ cs') (up, down) = (up', down')"
    using t(1,2) r(1,2) by simp_all
  moreover have "flow b G sh pe ty (fold (chat_slot e rd wr) (i # is) s) (up', down') (T', U', D')"
    using r(3) by (simp del: flow.simps)
  moreover have "client_socket_fd_map (fold (chat_slot e rd wr) (i # is) s) = ?tab"
    if "\<forall>i \<in> set (i # is). let f = ?tab ! i in f \<noteq> 0 \<and> f \<in> set rd \<longrightarrow> up f \<noteq> []"
  proof -
    have same: "client_socket_fd_map ?t = ?tab" using that t(4) by (auto simp: Let_def)
    moreover have "\<forall>k \<in> set is. let f = client_socket_fd_map ?t ! k in f \<noteq> 0 \<and> f \<in> set rd \<longrightarrow> up1 f \<noteq> []"
      using that entry(3) by (auto simp: same Let_def)
    ultimately show ?thesis using r(4) by simp
  qed
  ultimately show ?case by blast
qed

text \<open>The round's beginning: \<open>select\<close>, and the client accepted, if any, which is greeted.\<close>

lemma short_greeting: "short_line greeting"
  by (simp add: short_line_def greeting_def)

lemma welcome_greeting: "welcome_message = greeting @ [NUL]"
  by (simp add: welcome_message_def greeting_def)

lemma chat_selected_traffic:
  "\<exists>cs. trace (chat_selected e s) = trace s @ cs \<and>
     fold (traffic mem) cs (up, down) =
       (up, if chat_accepts e s \<and> 0 \<in> set (client_socket_fd_map s)
            then down(r_accept e := down (r_accept e) @
              carried (filled_buffer 255 (mem (r_accept e))) (r_accept e, greeting @ [NUL], 255)) else down)"
proof -
  define n where "n = fold max (filter (\<lambda>f. f \<noteq> 0) (client_socket_fd_map s)) (max_file_descriptor s)"
  define s2 where "s2 = emit (Call_select (n + 1) (chat_read_set s) (chat_write_set s)) (s\<lparr>max_file_descriptor := n\<rparr>)"
  have t: "chat_selected e s = (if chat_accepts e s then chat_accept (r_accept e) s2 else s2)"
    by (simp add: chat_selected_def s2_def n_def Let_def)
  have s2: "trace s2 = trace s @ [Call_select (n + 1) (chat_read_set s) (chat_write_set s)]"
    "client_socket_fd_map s2 = client_socket_fd_map s" by (simp_all add: s2_def emit_def)
  have acc: "trace (chat_accept c s2) = trace s2 @ Call_accept (sock_file_descriptor s2) #
      (if 0 \<in> set (client_socket_fd_map s) then [Call_send c welcome_message 255] else [])" for c
    by (auto simp: chat_accept_def s2(2) emit_def Let_def first_index_SomeD split: option.splits
        dest: first_index_SomeD) (auto simp: table_simps)
  show ?thesis
    unfolding t by (cases "chat_accepts e s") (simp_all add: acc s2(1) welcome_greeting)
qed

lemma slot_admit_members:
  assumes "x \<noteq> 0"
  shows "slot_members 0 (slot_admit 0 x tab) = (if 0 \<in> set tab then insert x (slot_members 0 tab) else slot_members 0 tab)"
proof (cases "0 \<in> set tab")
  case True
  then obtain xs ys where "tab = xs @ 0 # ys" "slot_admit 0 x tab = xs @ x # ys" using slot_admit_split by blast
  then show ?thesis using assms by (auto simp: slot_members_def)
qed (simp add: slot_admit_full)

lemma chat_selected_pairs: "client_to_client_map s \<subseteq>\<^sub>m client_to_client_map (chat_selected e s)"
  using chat_accept_pairs [of "emit c (s\<lparr>max_file_descriptor := m\<rparr>)" "r_accept e" for c m]
  by (simp add: chat_selected_def emit_def Let_def)

lemma flow_selected:
  assumes "flow b G sh pe ty s (up, down) (T, U, D)"
    and "chat_accepts e s \<longrightarrow> r_accept e \<notin> G \<and> (\<forall>x. client_to_client_map s x \<noteq> Some (r_accept e))"
    and "G' = (if chat_accepts e s \<and> 0 \<in> set (client_socket_fd_map s) then insert (r_accept e) G else G)"
  shows "\<exists>cs down' D'. trace (chat_selected e s) = trace s @ cs \<and>
    fold (traffic mem) cs (up, down) = (up, down') \<and> flow b G' sh pe ty (chat_selected e s) (up, down') (T, U, D')"
proof -
  let ?c = "r_accept e" and ?t = "chat_selected e s" and ?adm = "chat_accepts e s \<and> 0 \<in> set (client_socket_fd_map s)"
  let ?down = "if ?adm then down(?c := down ?c @ carried (filled_buffer 255 (mem ?c)) (?c, greeting @ [NUL], 255)) else down"
  let ?D = "if ?adm then D(?c := D ?c @ [greeting]) else D"
  have f: "\<And>f. carries (up f) (U f)" "\<And>g. carries (down g) (D g)"
    "\<And>g. sh g @ D g @ (case client_messages_queue s g of None \<Rightarrow> [] | Some m \<Rightarrow> [m]) = greeted g G @ map snd (T g)"
    "\<And>g x. x \<in> set (T g) \<Longrightarrow> client_to_client_map s (fst x) = Some g"
    "\<And>f. related b (taken_from f T (client_to_client_map s) @ U f @ pe f) (ty f)"
    "\<And>g l. client_messages_queue s g = Some l \<Longrightarrow> short_line l"
    using assms(1) by auto
  have more: "client_to_client_map ?t f = Some g" if "client_to_client_map s f = Some g" for f g
    using chat_selected_pairs [of s e] that by (auto simp: map_le_def dom_def)
  have taken: "taken_from f T (client_to_client_map ?t) = taken_from f T (client_to_client_map s)" for f
  proof (cases "client_to_client_map s f")
    case None
    then have "of_sender f (T g) = []" for g using f(4) [of _ g] by (auto simp: of_sender_def filter_empty_conv)
    then show ?thesis using None by (simp add: taken_from_def split: option.split)
  qed (simp add: taken_from_def more)
  have blank: "T ?c = []" "sh ?c = []" "D ?c = []" "client_messages_queue s ?c = None" if ?adm
  proof -
    show T: "T ?c = []" using f(4) [of _ ?c] assms(2) that by (cases "T ?c") auto
    have "greeted ?c G = []" using assms(2) that by (simp add: greeted_def)
    then show "sh ?c = []" "D ?c = []" "client_messages_queue s ?c = None"
      using f(3) [of ?c] by (simp_all add: T split: option.splits)
  qed
  have greet: "greeted g G' = (if ?adm \<and> g = ?c then [greeting] else greeted g G)" for g
    using assms(2) by (auto simp: greeted_def assms(3))
  have "sh g @ ?D g @ (case client_messages_queue s g of None \<Rightarrow> [] | Some m \<Rightarrow> [m]) = greeted g G' @ map snd (T g)" for g
  proof (cases "?adm \<and> g = ?c")
    case True
    then have adm: ?adm by blast
    have g: "g = ?c" using True by blast
    have "greeted ?c G' = [greeting]" using greet [of ?c] adm by simp
    then show ?thesis using blank [OF adm] adm unfolding g by simp
  next
    case False
    then show ?thesis using f(3) [of g] greet [of g] by auto
  qed
  moreover have "carries (?down g) (?D g)" for g
    using f(2) [of g] carries_snoc [OF f(2) [of ?c] short_greeting] by simp
  ultimately have "flow b G' sh pe ty ?t (up, ?down) (T, U, ?D)"
    unfolding flow.simps taken chat_selected_simps using f(1,4,5,6) more by blast
  then show ?thesis using chat_selected_traffic [of e s mem up down] by blast
qed

end
