(* ===== verification/ChatRuns.thy ===== *)
theory ChatRuns
  imports ChatNetwork
begin

text \<open>
  What follows for every run of the chat system of \<open>ChatNetwork\<close>: each event keeps the account of the lines
  that are on their way, so nothing is invented or reordered, nothing is lost when everyone is careful,
  and who hears whom depends on the order in which the clients were accepted.
\<close>

section \<open>Every step keeps the account\<close>

definition shown_at :: "chat_net \<Rightarrow> fd \<Rightarrow> string list" where
  "shown_at z f = (case nt_clients z f of None \<Rightarrow> [] | Some c \<Rightarrow> cc_shown c)"

definition pending_at :: "chat_net \<Rightarrow> fd \<Rightarrow> string list" where
  "pending_at z f = (case nt_clients z f of None \<Rightarrow> [] | Some c \<Rightarrow> cc_pending c)"

text \<open>The structure of the system: the table, the clients and the connections fit together.  \<open>G\<close> are the
  clients that have ever been in the table.\<close>

definition net_ok :: "fd set \<Rightarrow> chat_net \<Rightarrow> bool" where
  "net_ok G z \<longleftrightarrow>
     (let s = nt_server z in
      slot_wf 0 (client_socket_fd_map s) \<and> slot_members 0 (client_socket_fd_map s) \<subseteq> G \<and> G \<subseteq> dom (nt_clients z) \<and>
      (\<forall>f \<in> dom (nt_clients z). 0 < f \<and> f \<noteq> sock_file_descriptor s) \<and>
      distinct (nt_backlog z) \<and> set (nt_backlog z) \<subseteq> dom (nt_clients z) - G \<and>
      (\<forall>f g. client_to_client_map s f = Some g \<longrightarrow> f \<in> G \<and> g \<in> G) \<and>
      (\<forall>f. \<forall>l \<in> set (pending_at z f). short_line l) \<and> (\<forall>f. nt_clients z f = None \<longrightarrow> nt_typed z f = []))"

definition net_flow :: "bool \<Rightarrow> fd set \<Rightarrow> chat_net \<Rightarrow> bool" where
  "net_flow b G z \<longleftrightarrow> (\<exists>T U D. flow b G (shown_at z) (pending_at z) (nt_typed z) (nt_server z) (nt_up z, nt_down z) (T, U, D))"

text \<open>A careful event: the user waits until the line before has gone out, and the server takes a
  message only when its speaker has a partner with nothing pending (one message per partner).\<close>

fun careful :: "net_event \<Rightarrow> chat_net \<Rightarrow> bool" where
  "careful (Type_line f l) z \<longleftrightarrow> pending_at z f = []"
| "careful (Server_round acc readable writable foreign stack) z \<longleftrightarrow>
     (let s = nt_server z; R = set (filter (\<lambda>f. f \<noteq> 0 \<and> f \<in> set (client_socket_fd_map s) \<and> nt_up z f \<noteq> []) readable) in
      (\<forall>f \<in> R. case client_to_client_map s f of None \<Rightarrow> False | Some g \<Rightarrow> client_messages_queue s g = None) \<and>
      (\<forall>f \<in> R. \<forall>h \<in> R. client_to_client_map s f = client_to_client_map s h \<longrightarrow> f = h))"
| "careful _ z \<longleftrightarrow> True"

fun short_event :: "net_event \<Rightarrow> bool" where
  "short_event (Type_line f l) \<longleftrightarrow> short_line l"
| "short_event _ \<longleftrightarrow> True"

lemma traffics_append [simp]: "traffics mem old (old @ cs) = fold (traffic mem) cs"
  by (simp add: traffics_def)

lemma net_connect_keeps:
  assumes "net_connect f sock port getfl setfl z = Some z'" "net_ok G z" "net_flow b G z"
  shows "net_ok G z' \<and> net_flow b G z'"
proof -
  obtain c where f: "0 < f" "f \<noteq> sock_file_descriptor (nt_server z)" "nt_clients z f = None"
    and c: "cc_setup 3 port sock True 0 getfl setfl fresh_client = Some (Running c)"
    and z': "z' = z\<lparr>nt_clients := (nt_clients z)(f \<mapsto> c), nt_backlog := nt_backlog z @ [f]\<rparr>"
    using assms(1) by (auto simp: net_connect_def split: if_splits option.splits outcome.splits)
  have "cc_shown c = []" "cc_pending c = []"
    using c by (auto simp: cc_setup_def fresh_client_def make_nonblocking_def emit_def cc_pending_def Let_def split: if_splits)
  then have same: "shown_at z' = shown_at z" "pending_at z' = pending_at z"
    using f(3) by (auto simp: shown_at_def pending_at_def z' fun_eq_iff)
  have "net_flow b G z'" using assms(3) unfolding net_flow_def same by (simp add: z' del: flow.simps)
  moreover have "net_ok G z'"
    using assms(2) f unfolding net_ok_def Let_def same by (auto simp: z')
  ultimately show ?thesis by simp
qed

lemma net_type_keeps:
  assumes "net_type f l z = Some z'" "net_ok G z" "net_flow b G z" "short_line l" "b \<longrightarrow> pending_at z f = []"
  shows "net_ok G z' \<and> net_flow b G z'"
proof -
  obtain c where c: "nt_clients z f = Some c"
    and z': "z' = z\<lparr>nt_clients := (nt_clients z)(f \<mapsto> cc_inputListener l c),
      nt_typed := (nt_typed z)(f := nt_typed z f @ (if cc_listening c \<and> l \<noteq> ''exit'' then [l] else []))\<rparr>"
    using assms(1) by (auto simp: net_type_def split: option.splits if_splits)
  have shown: "shown_at z' = shown_at z"
    using c by (auto simp: shown_at_def z' fun_eq_iff cc_inputListener_def)
  have pend: "pending_at z' = (pending_at z)(f := (if cc_listening c \<and> l \<noteq> ''exit'' \<and> pending_at z f = [] then [l] else pending_at z f))"
    using c by (auto simp: pending_at_def z' fun_eq_iff cc_inputListener_obs)
  have typed: "nt_typed z' = (nt_typed z)(f := nt_typed z f @ (if cc_listening c \<and> l \<noteq> ''exit'' then [l] else []))"
    by (simp add: z')
  obtain T U D where fl: "flow b G (shown_at z) (pending_at z) (nt_typed z) (nt_server z) (nt_up z, nt_down z) (T, U, D)"
    using assms(3) by (auto simp: net_flow_def)
  let ?x = "taken_from f T (client_to_client_map (nt_server z)) @ U f"
  have "related b (?x @ pending_at z f) (nt_typed z f)" using fl by simp
  then have "related b (?x @ pending_at z' f) (nt_typed z' f)"
    using assms(5) related_snoc [of b ?x "nt_typed z f" l] related_more [of b "?x @ pending_at z f" "nt_typed z f" l]
    unfolding pend typed by (cases "pending_at z f = []") auto
  moreover have "pending_at z' h = pending_at z h" "nt_typed z' h = nt_typed z h" if "h \<noteq> f" for h
    using that by (simp_all add: pend typed)
  ultimately have "related b (taken_from h T (client_to_client_map (nt_server z)) @ U h @ pending_at z' h) (nt_typed z' h)" for h
    using fl by (cases "h = f") simp_all
  moreover have "nt_server z' = nt_server z" "nt_up z' = nt_up z" "nt_down z' = nt_down z" by (simp_all add: z')
  ultimately have "flow b G (shown_at z') (pending_at z') (nt_typed z') (nt_server z') (nt_up z', nt_down z') (T, U, D)"
    using fl by (simp add: shown)
  moreover have "\<forall>h. \<forall>m \<in> set (pending_at z' h). short_line m" "\<forall>h. nt_clients z' h = None \<longrightarrow> nt_typed z' h = []"
    using assms(2,4) c by (auto simp: pend typed net_ok_def Let_def) (simp_all add: z' split: if_splits)
  then have "net_ok G z'"
    using assms(2) c unfolding net_ok_def Let_def by (simp add: z' insert_absorb domI)
  ultimately show ?thesis by (auto simp: net_flow_def simp del: flow.simps)
qed

lemma net_leave_keeps:
  assumes "net_leave f z = Some z'" "net_ok G z" "net_flow b G z"
  shows "net_ok G z' \<and> net_flow b G z'"
proof -
  have z': "z' = z\<lparr>nt_left := insert f (nt_left z)\<rparr>" using assms(1) by (auto simp: net_leave_def split: if_splits)
  have same: "shown_at z' = shown_at z" "pending_at z' = pending_at z" by (simp_all add: shown_at_def pending_at_def z' fun_eq_iff)
  show ?thesis using assms(2,3) unfolding net_ok_def net_flow_def Let_def same by (simp add: z' del: flow.simps)
qed

text \<open>A turn of a client: it shows a message that has arrived, then sends its pending line.\<close>

lemma cc_turn_effect:
  assumes "cc_turn (net_client_env rd wr arrived stack) c = Running c1" "rd \<longrightarrow> arrived \<noteq> []"
  obtains cs where "trace c1 = trace c @ Call_select (cc_sock c + 1) [cc_sock c]
      (if cc_queue c (cc_sock c) = None then [] else [cc_sock c]) # cs"
    "cs = (if rd then [Call_recv (cc_sock c) 255] else []) @
      (case cc_pending c of m # _ \<Rightarrow> if wr then [Call_send (cc_sock c) (m @ [NUL]) 255] else [] | [] \<Rightarrow> [])"
    "cc_shown c1 = cc_shown c @ (if rd then [c_str (filled_buffer 255 (take 255 arrived) @ stack)] else [])"
    "cc_pending c1 = (if wr then [] else cc_pending c)"
proof -
  have "0 < min (length arrived) 255" if rd using assms(2) that by simp
  then show ?thesis
    using assms that
    by (cases rd; cases wr; cases "cc_queue c (cc_sock c)")
      (auto simp: cc_turn_def net_client_env_def cc_processRequest_def cc_sendRequest_def cc_pending_def std_index_def
        FD_ISSET_def fd_select_def emit_def Let_def min_def split: if_splits)
qed

lemma cc_pending_cases: "cc_pending c = [] \<or> (\<exists>m. cc_pending c = [m])"
  by (simp add: cc_pending_def split: option.split)

lemma net_client_turn_cases:
  assumes "net_client_turn f rd wr foreign stack z = Some z'"
  obtains c c1 where "nt_clients z f = Some c" "rd \<longrightarrow> nt_down z f \<noteq> []" "nt_clients z' = (nt_clients z)(f \<mapsto> c1)"
    "cc_shown c1 = cc_shown c @ (if rd then [c_str (filled_buffer 255 (take 255 (nt_down z f)) @ stack)] else [])"
    "cc_pending c1 = (if wr then [] else cc_pending c)"
    "nt_down z' = (nt_down z)(f := if rd then drop 255 (nt_down z f) else nt_down z f)"
    "nt_up z' = (nt_up z)(f := case cc_pending c of
       m # _ \<Rightarrow> if wr then nt_up z f @ carried (filled_buffer 255 foreign) (cc_sock c, m @ [NUL], 255) else nt_up z f
     | [] \<Rightarrow> nt_up z f)"
    "nt_server z' = nt_server z" "nt_backlog z' = nt_backlog z" "nt_typed z' = nt_typed z" "nt_left z' = nt_left z" "f \<notin> nt_left z"
proof -
  obtain c c1 where c: "nt_clients z f = Some c" "rd \<longrightarrow> nt_down z f \<noteq> []" and left: "f \<notin> nt_left z" and c1:
    "cc_turn (net_client_env rd wr (nt_down z f) stack) c = Running c1"
    and z': "z' = (let (inc, out) = traffics (\<lambda>_. foreign) (trace c) (trace c1) ((\<lambda>_. nt_down z f), (\<lambda>_. nt_up z f))
       in z\<lparr>nt_clients := (nt_clients z)(f \<mapsto> c1), nt_down := (nt_down z)(f := inc (cc_sock c)),
            nt_up := (nt_up z)(f := out (cc_sock c))\<rparr>)"
    using assms by (auto simp: net_client_turn_def Let_def case_prod_beta split: option.splits if_splits outcome.splits)
  obtain cs where e: "trace c1 = trace c @ Call_select (cc_sock c + 1) [cc_sock c]
      (if cc_queue c (cc_sock c) = None then [] else [cc_sock c]) # cs"
    "cs = (if rd then [Call_recv (cc_sock c) 255] else []) @
      (case cc_pending c of m # _ \<Rightarrow> if wr then [Call_send (cc_sock c) (m @ [NUL]) 255] else [] | [] \<Rightarrow> [])"
    "cc_shown c1 = cc_shown c @ (if rd then [c_str (filled_buffer 255 (take 255 (nt_down z f)) @ stack)] else [])"
    "cc_pending c1 = (if wr then [] else cc_pending c)"
    using cc_turn_effect [OF c1 c(2)] by blast
  show ?thesis
    by (rule that [OF c(1,2) _ e(3,4)]) (simp_all add: z' e(1,2) left split: list.split)
qed

lemma net_client_turn_keeps:
  assumes "net_client_turn f rd wr foreign stack z = Some z'" "net_ok G z" "net_flow b G z"
  shows "net_ok G z' \<and> net_flow b G z'"
  using assms(1)
proof (cases rule: net_client_turn_cases)
  case (1 c c1)
  obtain T U D where fl: "flow b G (shown_at z) (pending_at z) (nt_typed z) (nt_server z) (nt_up z, nt_down z) (T, U, D)"
    using assms(3) by (auto simp: net_flow_def)
  have pend: "pending_at z' = (pending_at z)(f := if wr then [] else pending_at z f)"
    using 1(1) by (simp add: pending_at_def 1(3,5) fun_eq_iff)
  have shown: "shown_at z' = (shown_at z)(f := shown_at z f @
      (if rd then [c_str (filled_buffer 255 (take 255 (nt_down z f)) @ stack)] else []))"
    using 1(1) by (simp add: shown_at_def 1(3,4) fun_eq_iff)
  have pf: "pending_at z f = cc_pending c" using 1(1) by (simp add: pending_at_def)
  have short: "short_line m" if "m \<in> set (cc_pending c)" for m
    using assms(2) that by (auto simp: net_ok_def Let_def pf [symmetric])
  have "\<exists>D'. (\<forall>g. carries (nt_down z' g) (D' g)) \<and> (\<forall>g. shown_at z' g @ D' g = shown_at z g @ D g)"
  proof (cases rd)
    case True
    then have "nt_down z f \<noteq> []" "carries (nt_down z f) (D f)" using 1(2) fl by auto
    then obtain l ls where l: "D f = l # ls" "carries (drop 255 (nt_down z f)) ls"
      "c_str (filled_buffer 255 (take 255 (nt_down z f)) @ stack) = l"
      using carries_recv [of "nt_down z f" "D f" stack] by metis
    then show ?thesis using fl True by (intro exI [of _ "D(f := ls)"]) (simp add: 1(6) shown)
  next
    case False
    then show ?thesis using fl by (intro exI [of _ D]) (simp add: 1(6) shown)
  qed
  then obtain D' where D': "\<And>g. carries (nt_down z' g) (D' g)" "\<And>g. shown_at z' g @ D' g = shown_at z g @ D g" by blast
  have "\<exists>U'. (\<forall>g. carries (nt_up z' g) (U' g)) \<and> (\<forall>g. U' g @ pending_at z' g = U g @ pending_at z g)"
  proof (cases "\<exists>m. wr \<and> cc_pending c = [m]")
    case True
    then obtain m where m: wr "cc_pending c = [m]" by blast
    have up: "carries (nt_up z g) (U g)" for g using fl by simp
    have "carries (nt_up z' g) ((U(f := U f @ [m])) g)" for g
      using carries_snoc [OF up [of f] short [of m]] up [of g] m by (simp add: 1(7))
    moreover have "(U(f := U f @ [m])) g @ pending_at z' g = U g @ pending_at z g" for g
      using m by (simp add: pend pf)
    ultimately show ?thesis by blast
  next
    case False
    then have "nt_up z' = nt_up z" "pending_at z' = pending_at z"
      using cc_pending_cases [of c] by (auto simp: 1(7) pend pf)
    then show ?thesis using fl by auto
  qed
  then obtain U' where U': "\<And>g. carries (nt_up z' g) (U' g)" "\<And>g. U' g @ pending_at z' g = U g @ pending_at z g" by blast
  have D2: "shown_at z' g @ D' g @ xs = shown_at z g @ D g @ xs" for g xs
    using D'(2) [of g] by (metis append.assoc)
  have "flow b G (shown_at z') (pending_at z') (nt_typed z') (nt_server z') (nt_up z', nt_down z') (T, U', D')"
    using fl U' D'(1) by (simp add: 1(8,10) D2)
  moreover have "\<forall>h. \<forall>m \<in> set (pending_at z' h). short_line m"
    using assms(2) by (auto simp: pend net_ok_def Let_def)
  then have "net_ok G z'"
    using assms(2) 1(1) unfolding net_ok_def Let_def by (simp add: 1(3,8-10) insert_absorb domI)
  ultimately show ?thesis by (auto simp: net_flow_def simp del: flow.simps)
qed

text \<open>A round of the server.\<close>

lemma chat_accept_members:
  assumes "client_to_client_map (chat_accept c s) f = Some g" "c \<noteq> 0" "length (client_socket_fd_map s) = MAX_CONNECTIONS"
  shows "client_to_client_map s f = Some g \<or> {f, g} \<subseteq> slot_members 0 (client_socket_fd_map (chat_accept c s))"
proof (cases "first_index (\<lambda>y. y = 0) (client_socket_fd_map s)")
  case None
  then show ?thesis using assms by (simp add: chat_accept_def emit_def Let_def)
next
  case (Some i)
  note i = first_index_bound [OF Some]
  let ?tab = "(client_socket_fd_map s)[i := c]"
  have t: "client_socket_fd_map (chat_accept c s) = ?tab" using Some by (simp add: slot_admit_def)
  show ?thesis
  proof (cases "chat_partner i ?tab")
    case None
    then show ?thesis using assms Some by (simp add: chat_accept_def emit_def Let_def)
  next
    case p: (Some p)
    then obtain j where "j < MAX_CONNECTIONS" "?tab ! j \<noteq> 0" "p = ?tab ! j"
      by (auto simp: chat_partner_def find_Some_iff)
    then have "p \<in> slot_members 0 ?tab" "c \<in> slot_members 0 ?tab"
      using assms(2,3) i set_update_memI [OF i, of c] by (auto simp: slot_members_def)
    moreover have "client_to_client_map (chat_accept c s) = std_insert p c (std_insert c p (client_to_client_map s))"
      using Some p by (simp add: chat_accept_def emit_def Let_def)
    ultimately show ?thesis
      using assms(1) unfolding t by (auto simp: std_insert_def split: option.splits if_splits)
  qed
qed

lemma slot_admit_old: "slot_admit 0 c tab ! i = f \<Longrightarrow> f \<noteq> c \<Longrightarrow> tab ! i = f"
  by (auto simp: slot_admit_def nth_list_update first_index_bound split: option.splits)

lemma net_accepts:
  assumes "nt_backlog z \<noteq> [] \<or> \<not> acc" "\<forall>f \<in> set rd. f \<noteq> sock_file_descriptor (nt_server z)"
  shows "chat_accepts (net_server_env acc rd wr stack z) (nt_server z) \<longleftrightarrow> acc"
  using assms(2) by (auto simp: chat_accepts_def net_server_env_def)

text \<open>What the loop over the entries starts from.\<close>

definition joined :: "bool \<Rightarrow> round_env \<Rightarrow> chat_net \<Rightarrow> fd set \<Rightarrow> fd set" where
  "joined acc e z G = (if acc \<and> 0 \<in> set (client_socket_fd_map (nt_server z)) then insert (r_accept e) G else G)"

lemma net_selected:
  assumes "net_ok G z" "acc \<longrightarrow> nt_backlog z \<noteq> []" "\<forall>f \<in> set rd. f \<noteq> sock_file_descriptor (nt_server z)"
    and "e = net_server_env acc rd wr stack z" "u = chat_selected e (nt_server z)"
  shows "chat_accepts e (nt_server z) \<longleftrightarrow> acc"
    and "acc \<longrightarrow> r_accept e = hd (nt_backlog z) \<and> 0 < r_accept e \<and> r_accept e \<notin> G \<and> r_accept e \<notin> set (client_socket_fd_map (nt_server z)) \<and>
      (\<forall>x. client_to_client_map (nt_server z) x \<noteq> Some (r_accept e))"
    and "slot_wf 0 (client_socket_fd_map u)"
    and "slot_members 0 (client_socket_fd_map u) \<subseteq> joined acc e z G" "joined acc e z G \<subseteq> dom (nt_clients z)"
    and "\<forall>f g. client_to_client_map u f = Some g \<longrightarrow> {f, g} \<subseteq> joined acc e z G"
proof -
  let ?s = "nt_server z"
  let ?tab = "client_socket_fd_map ?s"
  have ok: "slot_wf 0 ?tab" "slot_members 0 ?tab \<subseteq> G" "G \<subseteq> dom (nt_clients z)" "\<forall>f \<in> dom (nt_clients z). 0 < f \<and> f \<noteq> sock_file_descriptor ?s"
    "set (nt_backlog z) \<subseteq> dom (nt_clients z) - G" "\<forall>f g. client_to_client_map ?s f = Some g \<longrightarrow> f \<in> G \<and> g \<in> G"
    using assms(1) by (simp_all add: net_ok_def Let_def)
  show acc: "chat_accepts e ?s \<longleftrightarrow> acc"
    unfolding assms(4) by (rule net_accepts) (use assms(2,3) in auto)
  have c: "r_accept e = hd (nt_backlog z)" if acc using that by (simp add: assms(4) net_server_env_def)
  have "hd (nt_backlog z) \<in> set (nt_backlog z)" if acc using assms(2) that by simp
  then have h: "r_accept e \<in> dom (nt_clients z)" "r_accept e \<notin> G" if acc
    using ok(5) c [OF that] that by auto
  show new: "acc \<longrightarrow> r_accept e = hd (nt_backlog z) \<and> 0 < r_accept e \<and> r_accept e \<notin> G \<and> r_accept e \<notin> set ?tab \<and>
      (\<forall>x. client_to_client_map ?s x \<noteq> Some (r_accept e))"
  proof (intro impI conjI)
    assume acc
    note h = h [OF this] c [OF this]
    show "r_accept e = hd (nt_backlog z)" "r_accept e \<notin> G" by fact+
    show "0 < r_accept e" using h ok(4) by simp
    then show "r_accept e \<notin> set ?tab" using h ok(2) by (auto simp: slot_members_def)
    show "\<forall>x. client_to_client_map ?s x \<noteq> Some (r_accept e)" using h ok(6) by auto
  qed
  show "slot_wf 0 (client_socket_fd_map u)"
    unfolding assms(5) by (rule chat_selected_wf [OF ok(1)]) (use acc new in auto)
  have tab: "client_socket_fd_map u = (if acc then slot_admit 0 (r_accept e) ?tab else ?tab)"
    by (simp add: assms(5) acc)
  show mem: "slot_members 0 (client_socket_fd_map u) \<subseteq> joined acc e z G"
    using slot_admit_members [of "r_accept e" ?tab] new ok(2) by (auto simp: tab joined_def split: if_splits)
  show "joined acc e z G \<subseteq> dom (nt_clients z)" using ok(3) h by (auto simp: joined_def)
  show "\<forall>f g. client_to_client_map u f = Some g \<longrightarrow> {f, g} \<subseteq> joined acc e z G"
  proof (intro allI impI)
    fix f g assume u: "client_to_client_map u f = Some g"
    define s2 where "s2 = emit (Call_select (fold max (filter (\<lambda>f. f \<noteq> 0) ?tab) (max_file_descriptor ?s) + 1)
      (chat_read_set ?s) (chat_write_set ?s)) (?s\<lparr>max_file_descriptor := fold max (filter (\<lambda>f. f \<noteq> 0) ?tab) (max_file_descriptor ?s)\<rparr>)"
    have s2: "client_to_client_map s2 = client_to_client_map ?s" "client_socket_fd_map s2 = ?tab" by (simp_all add: s2_def emit_def)
    have t: "u = (if acc then chat_accept (r_accept e) s2 else s2)"
      by (simp add: assms(5) chat_selected_def acc s2_def Let_def)
    have "client_to_client_map ?s f = Some g \<or> {f, g} \<subseteq> slot_members 0 (client_socket_fd_map u)"
    proof (cases acc)
      case True
      then show ?thesis
        using chat_accept_members [of "r_accept e" s2 f g] u new ok(1) by (simp add: t s2 slot_wf_def)
    qed (use u in \<open>simp add: t s2\<close>)
    moreover have "G \<subseteq> joined acc e z G" by (auto simp: joined_def)
    ultimately show "{f, g} \<subseteq> joined acc e z G" using ok(6) mem by blast
  qed
qed

lemma net_server_round_cases:
  assumes "net_server_round acc rd wr mem stack z = Some z'"
  obtains e u where "e = net_server_env acc rd wr stack z" "u = chat_selected e (nt_server z)"
    "acc \<longrightarrow> nt_backlog z \<noteq> []" "\<forall>f \<in> set rd. f \<noteq> sock_file_descriptor (nt_server z)"
    "\<forall>f \<in> set rd. f \<in> nt_left z \<or> nt_up z f \<noteq> []"
    "nt_server z' = fold (chat_slot e (fd_select (chat_read_set (nt_server z)) (r_readable e))
       (fd_select (chat_write_set (nt_server z)) wr)) (if r_ready e > 0 then [0..<MAX_CONNECTIONS] else []) u"
    "(nt_up z', nt_down z') = traffics mem (trace (nt_server z)) (trace (nt_server z')) (nt_up z, nt_down z)"
    "nt_clients z' = nt_clients z" "nt_typed z' = nt_typed z" "nt_left z' = nt_left z"
    "nt_backlog z' = (if acc then tl (nt_backlog z) else nt_backlog z)"
proof -
  define e where "e = net_server_env acc rd wr stack z"
  have guards: "acc \<longrightarrow> nt_backlog z \<noteq> []" "\<forall>f \<in> set rd. f \<noteq> sock_file_descriptor (nt_server z)"
    "\<forall>f \<in> set rd. f \<in> nt_left z \<or> nt_up z f \<noteq> []"
    using assms by (auto simp: net_server_round_def split: if_splits)
  obtain s where s: "chat_round e (nt_server z) = Running s"
    and z': "z' = (let (up, down) = traffics mem (trace (nt_server z)) (trace s) (nt_up z, nt_down z)
       in z\<lparr>nt_server := s, nt_up := up, nt_down := down,
            nt_backlog := (if acc then tl (nt_backlog z) else nt_backlog z)\<rparr>)"
    using assms by (auto simp: net_server_round_def e_def Let_def case_prod_beta split: if_splits outcome.splits)
  have "0 \<le> r_ready e" "r_writable e = wr" by (simp_all add: e_def net_server_env_def)
  then have "s = fold (chat_slot e (fd_select (chat_read_set (nt_server z)) (r_readable e))
      (fd_select (chat_write_set (nt_server z)) wr)) (if r_ready e > 0 then [0..<MAX_CONNECTIONS] else []) (chat_selected e (nt_server z))"
    using s by (auto simp: chat_round_split split: if_splits)
  then show ?thesis using that [OF e_def refl guards] by (simp add: z' case_prod_beta)
qed

text \<open>The loop over the entries is served: what is reported readable was there before, and a client
  accepted in this round is not among it.\<close>

lemma net_round_serves:
  assumes "net_ok G z" "acc \<longrightarrow> nt_backlog z \<noteq> []" "\<forall>f \<in> set rd. f \<noteq> sock_file_descriptor (nt_server z)"
    and "b \<longrightarrow> careful (Server_round acc rd wr mem stack) z"
    and "e = net_server_env acc rd wr stack z" "u = chat_selected e (nt_server z)"
    and "rs = fd_select (chat_read_set (nt_server z)) (r_readable e)" "ws = fd_select (chat_write_set (nt_server z)) wr"
    and "R = {f \<in> set rd \<inter> slot_members 0 (client_socket_fd_map (nt_server z)). nt_up z f \<noteq> []}"
  shows "\<forall>i < MAX_CONNECTIONS. slot_serves b e rs ws (nt_up z) u i"
    and "b \<longrightarrow> inj_on (client_to_client_map u) R"
    and "\<forall>i < MAX_CONNECTIONS. let f = client_socket_fd_map u ! i in f \<noteq> 0 \<and> f \<in> set rs \<longrightarrow>
      f \<in> set rd \<and> (nt_up z f \<noteq> [] \<longrightarrow> f \<in> R)"
proof -
  let ?s = "nt_server z"
  let ?tab = "client_socket_fd_map ?s" and ?tab' = "client_socket_fd_map u"
  note sel = net_selected [OF assms(1-3,5,6)]
  have pos: "f \<noteq> 0 \<and> f \<noteq> sock_file_descriptor ?s" if "f \<in> slot_members 0 ?tab'" for f
  proof -
    have "f \<in> dom (nt_clients z)" using that sel(4,5) by blast
    then show ?thesis using assms(1) by (auto simp: net_ok_def Let_def)
  qed
  have old: "f \<in> set rd \<inter> slot_members 0 ?tab \<and> (acc \<longrightarrow> f \<noteq> r_accept e)" if f: "f \<in> set rs" "f \<in> slot_members 0 ?tab'" for f
  proof -
    have "f \<in> set rd" "f \<in> slot_members 0 ?tab"
      using pos [OF f(2)] f(1) by (auto simp: assms(5,7) chat_read_set_def net_server_env_def slot_members_def)
    then show ?thesis using sel(2) by (auto simp: slot_members_def)
  qed
  have pm: "client_to_client_map u f = Some g" if "client_to_client_map ?s f = Some g" for f g
    using chat_selected_pairs [of ?s e] that by (auto simp: assms(6) map_le_def dom_def)
  have q: "client_messages_queue u = client_messages_queue ?s" by (simp add: assms(6))
  have strict: "\<forall>f \<in> R. \<exists>g. client_to_client_map ?s f = Some g \<and> client_messages_queue ?s g = None"
    "inj_on (client_to_client_map ?s) R" if b
  proof -
    have R: "set (filter (\<lambda>f. f \<noteq> 0 \<and> f \<in> set ?tab \<and> nt_up z f \<noteq> []) rd) = R" by (auto simp: slot_members_def assms(9))
    have c: "\<forall>f \<in> R. case client_to_client_map ?s f of None \<Rightarrow> False | Some g \<Rightarrow> client_messages_queue ?s g = None"
      "\<forall>f \<in> R. \<forall>h \<in> R. client_to_client_map ?s f = client_to_client_map ?s h \<longrightarrow> f = h"
      using assms(4) that unfolding careful.simps Let_def R by blast+
    show "\<forall>f \<in> R. \<exists>g. client_to_client_map ?s f = Some g \<and> client_messages_queue ?s g = None"
      using c(1) by (auto split: option.splits)
    show "inj_on (client_to_client_map ?s) R" using c(2) by (simp add: inj_on_def)
  qed
  have m: "?tab' ! i \<in> slot_members 0 ?tab'" if "i < MAX_CONNECTIONS" "?tab' ! i \<noteq> 0" for i
    using sel(3) that by (simp add: slot_members_def slot_wf_def)
  have inR: "?tab' ! i \<in> set rd \<and> (nt_up z (?tab' ! i) \<noteq> [] \<longrightarrow> ?tab' ! i \<in> R)"
    if "i < MAX_CONNECTIONS" "?tab' ! i \<noteq> 0" "?tab' ! i \<in> set rs" for i
    using old [OF that(3) m [OF that(1,2)]] by (auto simp: assms(9))
  then show "\<forall>i < MAX_CONNECTIONS. let f = ?tab' ! i in f \<noteq> 0 \<and> f \<in> set rs \<longrightarrow> f \<in> set rd \<and> (nt_up z f \<noteq> [] \<longrightarrow> f \<in> R)"
    by (simp add: Let_def)
  show "\<forall>i < MAX_CONNECTIONS. slot_serves b e rs ws (nt_up z) u i"
  proof (intro allI impI)
    fix i assume i: "i < MAX_CONNECTIONS"
    let ?f = "?tab' ! i"
    have read: "if nt_up z ?f = [] then r_recv e i = REof else r_recv e i = RData (take 255 (nt_up z ?f)) \<and>
        (b \<longrightarrow> (\<exists>g. client_to_client_map u ?f = Some g \<and> client_messages_queue u g = None))" if r: "?f \<in> set rs" "?f \<noteq> 0"
    proof -
      note o = old [OF r(1) m [OF i r(2)]]
      have "?tab ! i = ?f"
        using o slot_admit_old [of "r_accept e" ?tab i ?f] sel(1) by (auto simp: assms(6) split: if_splits)
      then have recv: "r_recv e i = (if nt_up z ?f = [] then REof else RData (take 255 (nt_up z ?f)))"
        by (simp add: assms(5) net_server_env_def Let_def)
      moreover have "\<exists>g. client_to_client_map u ?f = Some g \<and> client_messages_queue u g = None" if b "nt_up z ?f \<noteq> []"
      proof -
        have "?f \<in> R" using inR [OF i r(2,1)] that(2) by blast
        then show ?thesis using strict(1) [OF that(1)] pm by (auto simp: q)
      qed
      ultimately show ?thesis by simp
    qed
    have "?f \<in> set ws \<Longrightarrow> client_messages_queue u ?f \<noteq> None" by (auto simp: assms(8) chat_write_set_def q)
    with read show "slot_serves b e rs ws (nt_up z) u i" by (simp add: slot_serves_def Let_def)
  qed
  show "b \<longrightarrow> inj_on (client_to_client_map u) R"
  proof
    assume b
    have "client_to_client_map u f = client_to_client_map ?s f" if "f \<in> R" for f
      using strict(1) [OF \<open>b\<close>] that pm by force
    then show "inj_on (client_to_client_map u) R"
      using strict(2) [OF \<open>b\<close>] by (simp add: inj_on_def)
  qed
qed

lemma net_server_round_flow:
  assumes "net_server_round acc rd wr mem stack z = Some z'" "net_ok G z" "net_flow b G z"
    and "b \<longrightarrow> careful (Server_round acc rd wr mem stack) z"
  obtains e where "net_flow b (joined acc e z G) z'" "e = net_server_env acc rd wr stack z" "acc \<longrightarrow> nt_backlog z \<noteq> []"
    "\<forall>f \<in> set rd. f \<noteq> sock_file_descriptor (nt_server z)"
    "slot_wf 0 (client_socket_fd_map (nt_server z'))"
    "slot_members 0 (client_socket_fd_map (nt_server z')) \<subseteq> slot_members 0 (client_socket_fd_map (chat_selected e (nt_server z)))"
    "nt_left z = {} \<Longrightarrow> client_socket_fd_map (nt_server z') = client_socket_fd_map (chat_selected e (nt_server z))"
    "client_to_client_map (nt_server z') = client_to_client_map (chat_selected e (nt_server z))"
  using assms(1)
proof (cases rule: net_server_round_cases)
  case (1 e u)
  let ?s = "nt_server z" and ?s' = "nt_server z'" and ?G = "joined acc e z G"
  let ?rs = "fd_select (chat_read_set ?s) (r_readable e)" and ?ws = "fd_select (chat_write_set ?s) wr"
  note sel = net_selected [OF assms(2) 1(3,4,1,2)]
  note serves = net_round_serves [OF assms(2) 1(3,4) assms(4) 1(1,2) refl refl refl]
  obtain T U D where fl: "flow b G (shown_at z) (pending_at z) (nt_typed z) ?s (nt_up z, nt_down z) (T, U, D)"
    using assms(3) by (auto simp: net_flow_def)
  have G: "?G = (if chat_accepts e ?s \<and> 0 \<in> set (client_socket_fd_map ?s) then insert (r_accept e) G else G)"
    by (simp add: joined_def sel(1))
  have new: "chat_accepts e ?s \<longrightarrow> r_accept e \<notin> G \<and> (\<forall>x. client_to_client_map ?s x \<noteq> Some (r_accept e))"
    unfolding sel(1) using sel(2) by blast
  obtain cs0 down0 D0 where u: "trace u = trace ?s @ cs0" "fold (traffic mem) cs0 (nt_up z, nt_down z) = (nt_up z, down0)"
    "flow b ?G (shown_at z) (pending_at z) (nt_typed z) u (nt_up z, down0) (T, U, D0)"
    using flow_selected [OF fl new G, of mem] unfolding 1(2) [symmetric] by blast
  have partner: "0 < f" "0 < g" if "client_to_client_map u f = Some g" for f g
  proof -
    have "\<forall>h \<in> dom (nt_clients z). 0 < h" using assms(2) by (simp add: net_ok_def Let_def)
    moreover have "f \<in> dom (nt_clients z)" "g \<in> dom (nt_clients z)" using sel(5,6) that by blast+
    ultimately show "0 < f" "0 < g" by blast+
  qed
  let ?is = "if r_ready e > 0 then [0..<MAX_CONNECTIONS] else []"
  have empty: "client_to_client_map u 0 = None" using partner(1) [of 0] by (cases "client_to_client_map u 0") auto
  have pos: "\<forall>f g. client_to_client_map u f = Some g \<longrightarrow> 0 < g" using partner(2) by blast
  have idx: "distinct ?is" "set ?is \<subseteq> {..<MAX_CONNECTIONS}" by auto
  have slots: "\<forall>i \<in> set ?is. slot_serves b e ?rs ?ws (nt_up z) u i" using serves(1) by auto
  have ws: "0 \<notin> set ?ws" by (auto simp: chat_write_set_def)
  have reads: "\<forall>i \<in> set ?is. let f = client_socket_fd_map u ! i in f \<noteq> 0 \<and> f \<in> set ?rs \<and> nt_up z f \<noteq> [] \<longrightarrow>
      f \<in> {f \<in> set rd \<inter> slot_members 0 (client_socket_fd_map ?s). nt_up z f \<noteq> []}"
    using serves(3) by (simp add: Let_def)
  obtain cs up' down' T' U' D' where r: "trace ?s' = trace u @ cs" "fold (traffic mem) cs (nt_up z, down0) = (up', down')"
    "flow b ?G (shown_at z) (pending_at z) (nt_typed z) ?s' (up', down') (T', U', D')"
    "(\<forall>i \<in> set ?is. let f = client_socket_fd_map u ! i in f \<noteq> 0 \<and> f \<in> set ?rs \<longrightarrow> nt_up z f \<noteq> []) \<longrightarrow>
       client_socket_fd_map ?s' = client_socket_fd_map u"
    using flow_slots [OF u(3) sel(3) ws idx pos slots serves(2) reads empty, of mem] unfolding 1(6) by blast
  have same: "client_socket_fd_map ?s' = client_socket_fd_map u" if "nt_left z = {}"
  proof (rule r(4) [rule_format])
    fix i assume "i \<in> set ?is"
    then show "let f = client_socket_fd_map u ! i in f \<noteq> 0 \<and> f \<in> set ?rs \<longrightarrow> nt_up z f \<noteq> []"
      using serves(3) 1(5) that by (auto simp: Let_def split: if_splits)
  qed
  have "nt_up z' = up'" "nt_down z' = down'" using 1(7) u(1,2) r(1,2) by simp_all
  moreover have "shown_at z' = shown_at z" "pending_at z' = pending_at z" by (simp_all add: fun_eq_iff shown_at_def pending_at_def 1(8))
  ultimately have "net_flow b ?G z'" using r(3) 1(9) by (auto simp: net_flow_def simp del: flow.simps)
  then show ?thesis
    using that [OF _ 1(1,3,4)] same chat_slots_wf [OF sel(3), of e ?rs ?ws ?is] 1(2) by (simp add: 1(6))
qed

lemma net_server_round_keeps:
  assumes "net_server_round acc rd wr mem stack z = Some z'" "net_ok G z" "net_flow b G z"
    and "b \<longrightarrow> careful (Server_round acc rd wr mem stack) z"
  shows "\<exists>G'. net_ok G' z' \<and> net_flow b G' z'"
proof -
  obtain e where e: "net_flow b (joined acc e z G) z'" "e = net_server_env acc rd wr stack z" "acc \<longrightarrow> nt_backlog z \<noteq> []"
    "\<forall>f \<in> set rd. f \<noteq> sock_file_descriptor (nt_server z)" "slot_wf 0 (client_socket_fd_map (nt_server z'))"
    "slot_members 0 (client_socket_fd_map (nt_server z')) \<subseteq> slot_members 0 (client_socket_fd_map (chat_selected e (nt_server z)))"
    "client_to_client_map (nt_server z') = client_to_client_map (chat_selected e (nt_server z))"
    using net_server_round_flow [OF assms] by blast
  note sel = net_selected [OF assms(2) e(3,4,2) refl]
  let ?G = "joined acc e z G"
  from assms(1) have same: "nt_clients z' = nt_clients z" "nt_typed z' = nt_typed z"
    "nt_backlog z' = (if acc then tl (nt_backlog z) else nt_backlog z)"
    "sock_file_descriptor (nt_server z') = sock_file_descriptor (nt_server z)"
    by (cases rule: net_server_round_cases; simp add: chat_selected_def emit_def Let_def)+
  have ok: "distinct (nt_backlog z)" "set (nt_backlog z) \<subseteq> dom (nt_clients z) - G" using assms(2) by (simp_all add: net_ok_def Let_def)
  have "set (nt_backlog z') \<subseteq> dom (nt_clients z) - ?G"
  proof (cases acc)
    case True
    then have b: "nt_backlog z = r_accept e # tl (nt_backlog z)" using e(3) sel(2) by simp
    then have "r_accept e \<notin> set (tl (nt_backlog z))" "set (tl (nt_backlog z)) \<subseteq> set (nt_backlog z)"
      using ok(1) by (metis distinct.simps(2), metis set_subset_Cons)
    then show ?thesis using ok(2) by (auto simp: same True joined_def)
  qed (use ok(2) in \<open>simp add: same joined_def\<close>)
  moreover have "distinct (nt_backlog z')" using ok(1) by (simp add: same distinct_tl)
  moreover have "pending_at z' = pending_at z" by (simp add: fun_eq_iff pending_at_def same)
  ultimately have "net_ok ?G z'"
    using assms(2) sel(4-6) e(5,6) unfolding net_ok_def Let_def by (simp add: e(7) same)
  then show ?thesis using e(1) by blast
qed

text \<open>The invariant of the system.\<close>

definition net_inv :: "bool \<Rightarrow> chat_net \<Rightarrow> bool" where
  "net_inv b z \<longleftrightarrow> (\<exists>G. net_ok G z \<and> net_flow b G z)"

lemma net_step_keeps:
  assumes "net_step e z = Some z'" "net_inv b z" "short_event e" "b \<longrightarrow> careful e z"
  shows "net_inv b z'"
proof -
  obtain G where G: "net_ok G z" "net_flow b G z" using assms(2) by (auto simp: net_inv_def)
  have "\<exists>G'. net_ok G' z' \<and> net_flow b G' z'"
  proof (cases e)
    case (Connect f sock port getfl setfl)
    then show ?thesis using net_connect_keeps [OF _ G] assms(1) by (metis net_step.simps(1))
  next
    case (Leave f)
    then show ?thesis using net_leave_keeps [OF _ G] assms(1) by (metis net_step.simps(2))
  next
    case (Type_line f l)
    then show ?thesis using net_type_keeps [OF _ G, of f l z'] assms(1,3,4) by (metis careful.simps(1) net_step.simps(3) short_event.simps(1))
  next
    case (Client_turn f rd wr foreign stack)
    then show ?thesis using net_client_turn_keeps [OF _ G] assms(1) by (metis net_step.simps(4))
  next
    case (Server_round acc rd wr mem stack)
    then show ?thesis using net_server_round_keeps [OF _ G] assms(1,4) by (metis net_step.simps(5))
  qed
  then show ?thesis by (simp add: net_inv_def)
qed

text \<open>A run each of whose events is careful.\<close>

fun careful_run :: "net_event list \<Rightarrow> chat_net \<Rightarrow> bool" where
  "careful_run [] z = True"
| "careful_run (e # es) z = (careful e z \<and> (case net_step e z of None \<Rightarrow> True | Some z' \<Rightarrow> careful_run es z'))"

lemma net_run_keeps:
  assumes "net_run es z = Some z'" "net_inv b z" "list_all short_event es" "b \<longrightarrow> careful_run es z"
  shows "net_inv b z'"
  using assms
proof (induction es arbitrary: z)
  case (Cons e es)
  then obtain y where y: "net_step e z = Some y" "net_run es y = Some z'" by (auto simp: bind_eq_Some_conv)
  have "net_inv b y" using net_step_keeps [OF y(1)] Cons.prems by simp
  then show ?case using Cons.IH [OF y(2)] Cons.prems y(1) by simp
qed simp

text \<open>The server when it has started: nobody has connected.\<close>

definition started_server :: "chat_globals \<Rightarrow> bool" where
  "started_server s \<longleftrightarrow> client_socket_fd_map s = replicate MAX_CONNECTIONS 0 \<and>
     client_to_client_map s = Map.empty \<and> client_messages_queue s = Map.empty"

lemma net_initial_ok:
  assumes "started_server s"
  shows "net_inv b (net_initial s)"
proof -
  have "flow b {} (\<lambda>_. []) (\<lambda>_. []) (\<lambda>_. []) s (\<lambda>_. [], \<lambda>_. []) (\<lambda>_. [], \<lambda>_. [], \<lambda>_. [])"
    using assms by (simp add: started_server_def greeted_def slot_members_def taken_from_def related_def)
  then have "net_flow b {} (net_initial s)"
    unfolding net_flow_def net_initial_def shown_at_def pending_at_def by (auto simp del: flow.simps)
  then show ?thesis
    unfolding net_inv_def
    using assms by (intro exI [of _ "{}"]) (simp add: net_ok_def net_initial_def started_server_def slot_wf_def slot_members_def pending_at_def)
qed

text \<open>That \<open>main\<close> comes to its loop in such a state.\<close>

lemma setup_started:
  "chat_main_setup argc port e chat_initial = Running s \<Longrightarrow> started_server s"
  by (auto simp: chat_main_setup_def chat_initial_def initial_globals_def make_nonblocking_def emit_def started_server_def
      server_globals.defs chat_globals.defs MAX_CONNECTIONS_def Let_def split: if_splits)

section \<open>Who talks to whom\<close>

text \<open>
  The clients \<open>ms\<close> accepted so far lie in the table in their order; the first two are each other's
  partners, and everyone after them talks to the first.
\<close>

definition star :: "fd list \<Rightarrow> chat_globals \<Rightarrow> bool" where
  "star ms s \<longleftrightarrow> length ms \<le> MAX_CONNECTIONS \<and> 0 \<notin> set ms \<and> distinct ms \<and>
     client_socket_fd_map s = ms @ replicate (MAX_CONNECTIONS - length ms) 0 \<and>
     client_to_client_map s = (case ms of
        a # b # rest \<Rightarrow> (\<lambda>f. if f = a then Some b else if f \<in> set (b # rest) then Some a else None)
      | _ \<Rightarrow> Map.empty)"

lemma first_index_zero:
  "0 \<notin> set ms \<Longrightarrow> first_index (\<lambda>y. y = (0::int)) (ms @ replicate n 0) = (if n = 0 then None else Some (length ms))"
  by (induction ms) (cases n, auto)

lemma chat_partner_first:
  assumes "0 \<notin> set ms" "length ms < MAX_CONNECTIONS" "c \<noteq> 0"
  shows "chat_partner (length ms) (ms @ c # replicate (MAX_CONNECTIONS - Suc (length ms)) 0) = (if ms = [] then None else Some (hd ms))"
proof (cases ms)
  case Nil
  have "List.find (\<lambda>j. (c # replicate 4 (0::int)) ! j \<noteq> 0 \<and> j \<noteq> 0) [0..<5] = None"
    by (simp add: find_None_iff nth_Cons' less_Suc_eq)
  then show ?thesis using Nil by (simp add: chat_partner_def MAX_CONNECTIONS_def)
next
  case (Cons a as)
  then show ?thesis using assms by (simp add: chat_partner_def MAX_CONNECTIONS_def upt_conv_Cons)
qed

lemma star_accept:
  assumes "star ms s" "0 < c" "c \<notin> set ms"
  shows "star (if length ms < MAX_CONNECTIONS then ms @ [c] else ms) (chat_accept c s)"
proof (cases "length ms < MAX_CONNECTIONS")
  case False
  then have "first_index (\<lambda>y. y = 0) (client_socket_fd_map s) = None"
    using assms(1) first_index_zero [of ms 0] by (simp add: star_def)
  then show ?thesis using assms(1) False by (simp add: star_def chat_accept_def emit_def Let_def)
next
  case True
  let ?n = "MAX_CONNECTIONS - Suc (length ms)"
  have tab: "client_socket_fd_map s = ms @ 0 # replicate ?n 0" "0 \<notin> set ms"
    using assms(1) True by (simp_all add: star_def Suc_diff_Suc flip: replicate_Suc)
  have i: "first_index (\<lambda>y. y = 0) (client_socket_fd_map s) = Some (length ms)"
    using first_index_zero [of ms "Suc ?n"] tab by simp
  have upd: "(client_socket_fd_map s)[length ms := c] = ms @ c # replicate ?n 0" by (simp add: tab)
  have p: "chat_partner (length ms) (ms @ c # replicate ?n 0) = (if ms = [] then None else Some (hd ms))"
    by (rule chat_partner_first) (use tab True assms(2) in auto)
  have "client_socket_fd_map (chat_accept c s) = (ms @ [c]) @ replicate (MAX_CONNECTIONS - length (ms @ [c])) 0"
    using i upd by (simp add: slot_admit_def)
  moreover have "client_to_client_map (chat_accept c s) =
      (if ms = [] then client_to_client_map s else std_insert (hd ms) c (std_insert c (hd ms) (client_to_client_map s)))"
    using i upd p by (simp add: chat_accept_def emit_def Let_def)
  then have "client_to_client_map (chat_accept c s) = (case ms @ [c] of
        a # b # rest \<Rightarrow> (\<lambda>f. if f = a then Some b else if f \<in> set (b # rest) then Some a else None)
      | _ \<Rightarrow> Map.empty)"
    using assms by (cases ms rule: list.exhaust [case_product list.exhaust [of "tl ms"]])
      (auto simp: star_def std_insert_def fun_eq_iff split: list.splits option.splits)
  ultimately show ?thesis using assms True by (simp add: star_def)
qed

lemma star_selected:
  assumes "star ms s" "chat_accepts e s \<longrightarrow> 0 < r_accept e \<and> r_accept e \<notin> set (client_socket_fd_map s)"
  shows "\<exists>ms'. star ms' (chat_selected e s) \<and> prefix ms ms'"
proof -
  define n where "n = fold max (filter (\<lambda>f. f \<noteq> 0) (client_socket_fd_map s)) (max_file_descriptor s)"
  define s2 where "s2 = emit (Call_select (n + 1) (chat_read_set s) (chat_write_set s)) (s\<lparr>max_file_descriptor := n\<rparr>)"
  have t: "chat_selected e s = (if chat_accepts e s then chat_accept (r_accept e) s2 else s2)"
    by (simp add: chat_selected_def s2_def n_def Let_def)
  have s2: "star ms s2" using assms(1) by (simp add: star_def s2_def emit_def)
  show ?thesis
  proof (cases "chat_accepts e s")
    case True
    then have "0 < r_accept e" "r_accept e \<notin> set ms" using assms by (auto simp: star_def)
    from star_accept [OF s2 this] show ?thesis using True unfolding t by (metis prefix_def append_Nil2)
  qed (use s2 t in auto)
qed

lemma star_cong:
  "star ms s \<Longrightarrow> client_socket_fd_map t = client_socket_fd_map s \<Longrightarrow> client_to_client_map t = client_to_client_map s \<Longrightarrow> star ms t"
  by (simp add: star_def)

text \<open>A run in which nobody leaves.\<close>

fun staying :: "net_event \<Rightarrow> bool" where
  "staying (Leave f) \<longleftrightarrow> False"
| "staying _ \<longleftrightarrow> True"

lemma star_step:
  assumes "net_step e z = Some z'" "net_inv False z" "star ms (nt_server z)" "staying e" "nt_left z = {}"
  shows "nt_left z' = {} \<and> (\<exists>ms'. star ms' (nt_server z') \<and> prefix ms ms')"
proof -
  obtain G where G: "net_ok G z" "net_flow False G z" using assms(2) by (auto simp: net_inv_def)
  show ?thesis
  proof (cases e)
    case (Server_round acc rd wr mem stack)
    then have step: "net_server_round acc rd wr mem stack z = Some z'" using assms(1) by simp
    obtain e where e: "e = net_server_env acc rd wr stack z" "acc \<longrightarrow> nt_backlog z \<noteq> []"
      "\<forall>f \<in> set rd. f \<noteq> sock_file_descriptor (nt_server z)"
      "client_socket_fd_map (nt_server z') = client_socket_fd_map (chat_selected e (nt_server z))"
      "client_to_client_map (nt_server z') = client_to_client_map (chat_selected e (nt_server z))"
      using net_server_round_flow [OF step G] assms(5) by (metis (no_types))
    obtain ms' where "star ms' (chat_selected e (nt_server z))" "prefix ms ms'"
      using star_selected [OF assms(3), of e] net_selected(1,2) [OF G(1) e(2,3,1) refl] by blast
    moreover from step have "nt_left z' = {}" by (cases rule: net_server_round_cases) (simp add: assms(5))
    ultimately show ?thesis using star_cong e(4,5) by blast
  next
    case (Client_turn f rd wr foreign stack)
    then have "net_client_turn f rd wr foreign stack z = Some z'" using assms(1) by simp
    then have "nt_server z' = nt_server z \<and> nt_left z' = nt_left z" by (cases rule: net_client_turn_cases) simp
    then show ?thesis using assms(3,5) by auto
  qed (use assms(1,3-5) in \<open>auto simp: net_connect_def net_type_def split: if_splits option.splits outcome.splits\<close>)
qed

lemma star_run:
  assumes "net_run es z = Some z'" "net_inv False z" "list_all short_event es" "list_all staying es" "star ms (nt_server z)" "nt_left z = {}"
  shows "\<exists>ms'. star ms' (nt_server z') \<and> prefix ms ms'"
  using assms
proof (induction es arbitrary: z ms)
  case (Cons e es)
  then obtain y where y: "net_step e z = Some y" "net_run es y = Some z'" by (auto simp: bind_eq_Some_conv)
  have "nt_left y = {} \<and> (\<exists>ms'. star ms' (nt_server y) \<and> prefix ms ms')"
    using star_step [OF y(1)] Cons.prems by simp
  then obtain ms1 where ms1: "star ms1 (nt_server y)" "prefix ms ms1" "nt_left y = {}" by blast
  have "net_inv False y" using net_step_keeps [OF y(1), of False] Cons.prems by simp
  then obtain ms2 where "star ms2 (nt_server z')" "prefix ms1 ms2"
    using Cons.IH [OF y(2) _ _ _ ms1(1,3)] Cons.prems(3,4) by auto
  then show ?case using ms1(2) prefix_order.trans by blast
qed auto

section \<open>A run\<close>

text \<open>Three clients connect; the first one's user types a line.\<close>

definition sample_setup :: setup_env where
  "sample_setup = \<lparr>e_socket = 3, e_setsockopt = 0, e_bind = 0, e_listen = 0, e_getfl = 0, e_setfl = 0\<rparr>"

definition sample_events :: "net_event list" where
  "sample_events = [Connect 4 3 ''80'' 0 0, Server_round True [] [] (\<lambda>_. []) (\<lambda>_. []), Connect 5 3 ''80'' 0 0,
     Connect 6 3 ''80'' 0 0, Server_round True [] [] (\<lambda>_. []) (\<lambda>_. []), Server_round True [] [] (\<lambda>_. []) (\<lambda>_. []),
     Type_line 4 ''hi'', Client_turn 4 False True [] [], Server_round False [4] [] (\<lambda>_. []) (\<lambda>_. []),
     Server_round False [] [5] (\<lambda>_. []) (\<lambda>_. []), Client_turn 5 True False [] [], Client_turn 5 True False [] []]"

definition observed :: "chat_net \<Rightarrow> _" where
  "observed z = ((shown_at z 5, shown_at z 6, nt_typed z 4, client_socket_fd_map (nt_server z)),
     (client_to_client_map (nt_server z) 4, nt_up z 4, pending_at z 4, nt_down z 5, client_messages_queue (nt_server z) 5))"

lemma sample_run:
  "\<exists>s z. chat_main_setup 2 ''80'' sample_setup chat_initial = Running s \<and> net_run sample_events (net_initial s) = Some z \<and>
     careful_run sample_events (net_initial s) \<and> list_all short_event sample_events \<and>
     observed z = (([greeting, ''hi''], [], [''hi''], [4, 5, 6, 0, 0]), (Some 5, [], [], [], None))"
proof -
  have "(case chat_main_setup 2 ''80'' sample_setup chat_initial of Exited _ _ \<Rightarrow> False | Running s \<Rightarrow>
      (case net_run sample_events (net_initial s) of None \<Rightarrow> False | Some z \<Rightarrow>
         careful_run sample_events (net_initial s) \<and> list_all short_event sample_events \<and>
         observed z = (([greeting, ''hi''], [], [''hi''], [4, 5, 6, 0, 0]), (Some 5, [], [], [], None))))"
    by code_simp
  then show ?thesis by (auto split: outcome.splits option.splits)
qed

section \<open>Properties\<close>

lemma network_account:
  assumes "chat_main_setup argc port e chat_initial = Running s" "net_run es (net_initial s) = Some z" "list_all short_event es"
  shows "\<exists>T. prefix (shown_at z g) (greeting # map snd T) \<and>
    (\<forall>x \<in> set T. client_to_client_map (nt_server z) (fst x) = Some g) \<and>
    (\<forall>f. subseq (of_sender f T) (nt_typed z f))"
proof -
  have "net_inv False z"
    using net_run_keeps [OF assms(2), where b = False] net_initial_ok [OF setup_started [OF assms(1)]] assms(3) by simp
  then obtain G T U D where ok: "net_ok G z" and fl: "flow False G (shown_at z) (pending_at z) (nt_typed z) (nt_server z) (nt_up z, nt_down z) (T, U, D)"
    by (auto simp: net_flow_def net_inv_def)
  have tags: "\<forall>x \<in> set (T g). client_to_client_map (nt_server z) (fst x) = Some g" using fl by simp
  have eq: "shown_at z g @ D g @ (case client_messages_queue (nt_server z) g of None \<Rightarrow> [] | Some m \<Rightarrow> [m]) =
      greeted g G @ map snd (T g)" using fl by simp
  have rel: "subseq (taken_from f T (client_to_client_map (nt_server z)) @ U f @ pending_at z f) (nt_typed z f)" for f
    using fl by (simp add: related_def)
  have "subseq (of_sender f (T g)) (nt_typed z f)" for f
  proof (cases "client_to_client_map (nt_server z) f = Some g")
    case True
    then show ?thesis using rel [of f] by (auto simp: taken_from_def dest: list_emb_appendD intro: subseq_order.trans)
  next
    case False
    then have "of_sender f (T g) = []" using tags by (auto simp: of_sender_def filter_empty_conv)
    then show ?thesis by simp
  qed
  moreover have "prefix (shown_at z g) (greeting # map snd (T g))"
  proof (cases "g \<in> G")
    case True
    then show ?thesis using eq by (simp add: greeted_def prefix_def) metis
  next
    case False
    then have "T g = []" using tags ok by (cases "T g") (auto simp: net_ok_def Let_def)
    then show ?thesis using eq False by (simp add: greeted_def)
  qed
  ultimately show ?thesis using tags by blast
qed

text \<open>C3: If every line typed is shorter than 255 characters and has no NUL, if the kernel gives a \<open>recv\<close> that asks for
  255 bytes as many as have been sent and not yet read, up to 255 (so that, as all messages are 255 bytes long, each
  arrives whole), if no call on a connection fails and nothing is written to a client that has left, then:
  however the clients, their users and the server interleave, and whoever connects or leaves when, a client
  shows a beginning of the server's greeting followed by lines that its partners have typed.  Nothing is invented,
  altered or shown twice, nobody sees lines of someone who is not paired with him, and the lines of
  each partner appear in the order in which he typed them (some may be missing).  When the kernel delivers a message in
  two parts, or a connection is reset, this is false: \<open>split_message_loses_rest\<close> and \<open>reset_sends_empty_line\<close>.\<close>

theorem chat_network_order:
  assumes "chat_main_setup argc port e chat_initial = Running s" "net_run es (net_initial s) = Some z" "list_all short_event es"
  shows "\<exists>T. prefix (shown_at z g) (greeting # map snd T) \<and>
    (\<forall>x \<in> set T. client_to_client_map (nt_server z) (fst x) = Some g) \<and>
    (\<forall>f. subseq (of_sender f T) (nt_typed z f))"
  using assms by (rule network_account)

lemma chat_network_order_witness:
  "\<exists>s z T. net_run sample_events (net_initial s) = Some z \<and> prefix (shown_at z 5) (greeting # map snd T) \<and>
    (\<forall>x \<in> set T. client_to_client_map (nt_server z) (fst x) = Some 5) \<and> subseq (of_sender 4 T) [''hi'']"
proof -
  obtain s z where r: "chat_main_setup 2 ''80'' sample_setup chat_initial = Running s" "net_run sample_events (net_initial s) = Some z"
    "list_all short_event sample_events" "nt_typed z 4 = [''hi'']"
    using sample_run by (auto simp: observed_def)
  from chat_network_order [OF r(1-3), of 5] show ?thesis using r(2) by (metis r(4))
qed

text \<open>C4: When nothing is lost.  The lines and the network are as before: lines shorter than 255 characters without NUL,
  messages delivered whole, no failing call, no write to a client that has left.  And in each event of the run
  (\<open>careful_run\<close>): a user types a line only when his client has sent the line before; and the server - which no user
  controls - is told that a message is there to be read only when the speaker has a partner for whom nothing is
  pending, and never of two speakers with the same partner at once.  Then, whenever a speaker \<open>f\<close>
  is paired to \<open>g\<close>, no line of \<open>f\<close> waits in its client or in its connection, and nothing
  for \<open>g\<close> waits at the server or in \<open>g\<close>'s connection: \<open>g\<close> has been shown the greeting and all that \<open>f\<close> typed, in
  order, and otherwise only lines of those paired to \<open>g\<close>; so exactly the greeting and \<open>f\<close>'s lines, if \<open>f\<close> alone is.\<close>

theorem chat_network_complete:
  assumes "chat_main_setup argc port e chat_initial = Running s" "net_run es (net_initial s) = Some z"
    and "list_all short_event es" "careful_run es (net_initial s)"
    and "client_to_client_map (nt_server z) f = Some g" "nt_up z f = []" "pending_at z f = []"
    and "nt_down z g = []" "client_messages_queue (nt_server z) g = None"
  shows "\<exists>T. shown_at z g = greeting # map snd T \<and> (\<forall>x \<in> set T. client_to_client_map (nt_server z) (fst x) = Some g) \<and>
    of_sender f T = nt_typed z f \<and>
    ((\<forall>h. client_to_client_map (nt_server z) h = Some g \<longrightarrow> h = f) \<longrightarrow> shown_at z g = greeting # nt_typed z f)"
proof -
  have "net_inv True z"
    using net_run_keeps [OF assms(2), where b = True] net_initial_ok [OF setup_started [OF assms(1)]] assms(3,4) by simp
  then obtain G T U D where ok: "net_ok G z" and fl: "flow True G (shown_at z) (pending_at z) (nt_typed z) (nt_server z) (nt_up z, nt_down z) (T, U, D)"
    by (auto simp: net_flow_def net_inv_def)
  have tags: "\<forall>x \<in> set (T g). client_to_client_map (nt_server z) (fst x) = Some g" using fl by simp
  have eq: "shown_at z g @ D g @ (case client_messages_queue (nt_server z) g of None \<Rightarrow> [] | Some m \<Rightarrow> [m]) =
      greeted g G @ map snd (T g)" using fl by simp
  have "carries (nt_up z f) (U f)" "carries (nt_down z g) (D g)" using fl by simp_all
  then have empty: "U f = []" "D g = []" using assms(6,8) by (cases "U f"; cases "D g"; simp)+
  have "taken_from f T (client_to_client_map (nt_server z)) @ U f @ pending_at z f = nt_typed z f"
    using fl by (simp add: related_def)
  then have typed: "of_sender f (T g) = nt_typed z f" using assms(5,7) empty by (simp add: taken_from_def)
  have "g \<in> G" using ok assms(5) by (auto simp: net_ok_def Let_def)
  then have shown: "shown_at z g = greeting # map snd (T g)" using eq assms(9) empty by (simp add: greeted_def)
  have "of_sender f (T g) = map snd (T g)" if "\<forall>h. client_to_client_map (nt_server z) h = Some g \<longrightarrow> h = f"
    using tags that by (auto simp: of_sender_def filter_id_conv)
  then show ?thesis using shown typed tags by auto
qed

lemma chat_network_complete_witness:
  "\<exists>s z T. net_run sample_events (net_initial s) = Some z \<and> shown_at z 5 = greeting # map snd T \<and>
    (\<forall>x \<in> set T. client_to_client_map (nt_server z) (fst x) = Some 5) \<and> of_sender 4 T = [''hi'']"
proof -
  obtain s z where r: "chat_main_setup 2 ''80'' sample_setup chat_initial = Running s" "net_run sample_events (net_initial s) = Some z"
    "list_all short_event sample_events" "careful_run sample_events (net_initial s)" "client_to_client_map (nt_server z) 4 = Some 5"
    "nt_up z 4 = []" "pending_at z 4 = []" "nt_down z 5 = []" "client_messages_queue (nt_server z) 5 = None" "nt_typed z 4 = [''hi'']"
    using sample_run by (auto simp: observed_def)
  from chat_network_complete [OF r(1-9)] show ?thesis using r(2) by (metis r(10))
qed

text \<open>A third client can talk but never hears anybody.  In every run the clients lie in the table in the
  order in which they were accepted; the first two are partners, all later ones talk to the first, and
  whatever anybody types, they are shown at most the greeting.\<close>

theorem chat_third_hears_nothing:
  assumes "chat_main_setup argc port e chat_initial = Running s" "net_run es (net_initial s) = Some z" "list_all short_event es"
    and "list_all staying es" "client_socket_fd_map (nt_server z) = a # b # rest" "c \<in> set rest" "c \<noteq> 0"
  shows "client_to_client_map (nt_server z) a = Some b \<and> client_to_client_map (nt_server z) b = Some a \<and>
    client_to_client_map (nt_server z) c = Some a \<and> prefix (shown_at z c) [greeting]"
proof -
  note init = net_initial_ok [OF setup_started [OF assms(1)]]
  have "star [] (nt_server (net_initial s))"
    using setup_started [OF assms(1)] by (simp add: star_def net_initial_def started_server_def)
  moreover have "nt_left (net_initial s) = {}" by (simp add: net_initial_def)
  ultimately obtain ms where ms: "star ms (nt_server z)" using star_run [OF assms(2)] init assms(3,4) by blast
  then have tab: "ms @ replicate (MAX_CONNECTIONS - length ms) 0 = a # b # rest" using assms(5) by (simp add: star_def)
  obtain rest' where m: "ms = a # b # rest'" "c \<in> set rest'"
  proof (cases ms rule: list.exhaust [case_product list.exhaust [of "tl ms"]])
    case (Cons_Cons x xs y ys)
    then have "ms = a # b # ys" "rest = ys @ replicate (MAX_CONNECTIONS - length ms) 0" using tab by auto
    then show ?thesis using that [of ys] assms(6,7) by auto
  next
    case (Cons_Nil x xs)
    then have "a # b # rest = x # replicate (MAX_CONNECTIONS - 1) 0" using tab by simp
    then have "set rest \<subseteq> {0}" by (metis list.sel(3) list.set_sel(2) set_replicate_conv_if subsetI list.simps(3) empty_iff insert_iff)
    then show ?thesis using assms(6,7) by auto
  next
    case (Nil_Cons x xs)
    then show ?thesis by simp
  next
    case Nil_Nil
    then have "set (a # b # rest) \<subseteq> {0}" using tab [symmetric] by auto
    then show ?thesis using assms(6,7) by auto
  qed
  have d: "distinct (a # b # rest')" using ms m by (simp add: star_def)
  have pm: "client_to_client_map (nt_server z) = (\<lambda>f. if f = a then Some b else if f \<in> set (b # rest') then Some a else None)"
    using ms m by (simp add: star_def)
  obtain T where T: "prefix (shown_at z c) (greeting # map snd T)" "\<forall>x \<in> set T. client_to_client_map (nt_server z) (fst x) = Some c"
    using network_account [OF assms(1-3)] by blast
  have "T = []" using T(2) m(2) d by (cases T) (auto simp: pm split: if_splits)
  then show ?thesis using T(1) m(2) d by (auto simp: pm)
qed

lemma chat_third_hears_nothing_witness:
  "\<exists>s z. net_run sample_events (net_initial s) = Some z \<and> client_to_client_map (nt_server z) 4 = Some 5 \<and>
    client_to_client_map (nt_server z) 5 = Some 4 \<and> client_to_client_map (nt_server z) 6 = Some 4 \<and> prefix (shown_at z 6) [greeting]"
proof -
  obtain s z where r: "chat_main_setup 2 ''80'' sample_setup chat_initial = Running s" "net_run sample_events (net_initial s) = Some z"
    "list_all short_event sample_events" "list_all staying sample_events" "client_socket_fd_map (nt_server z) = 4 # 5 # [6, 0, 0]"
    using sample_run by (auto simp: observed_def sample_events_def)
  from chat_third_hears_nothing [OF r, of 6] show ?thesis using r(2) by auto
qed

end
