(* ===== verification/ChatFailures.thy ===== *)
theory ChatFailures
  imports ChatRuns
begin

text \<open>
  What the chat server (\<open>chat-server/Server.cpp\<close>) does with clients that leave, with connections that are reset
  and with messages that arrive in parts.  The first is about every run of the system of \<open>ChatNetwork\<close>; the
  other two are about the server's handling of one \<open>recv\<close>, as those runs have neither.
\<close>

section \<open>Clients that leave\<close>

lemma net_server_round_pairs:
  assumes "net_server_round acc rd wr mem stack z = Some z'"
  shows "client_to_client_map (nt_server z) \<subseteq>\<^sub>m client_to_client_map (nt_server z')"
proof -
  let ?e = "net_server_env acc rd wr stack z"
  have "chat_round ?e (nt_server z) = Running (nt_server z')"
    using assms by (auto simp: net_server_round_def Let_def case_prod_beta split: if_splits outcome.splits)
  then show ?thesis using chat_round_pairs [of "nt_server z" ?e] by simp
qed

text \<open>What is settled: who has left, what those were shown, and who talks to whom.\<close>

definition settles :: "chat_net \<Rightarrow> chat_net \<Rightarrow> bool" where
  "settles z z' \<longleftrightarrow> nt_left z \<subseteq> nt_left z' \<and> (\<forall>g \<in> nt_left z. shown_at z' g = shown_at z g) \<and>
     client_to_client_map (nt_server z) \<subseteq>\<^sub>m client_to_client_map (nt_server z')"

lemma settles_refl: "settles z z"
  by (simp add: settles_def)

lemma settles_trans: "settles x y \<Longrightarrow> settles y z \<Longrightarrow> settles x z"
  by (auto simp: settles_def map_le_trans)

lemma net_step_settles:
  assumes "net_step e z = Some z'" "nt_left z \<subseteq> dom (nt_clients z)"
  shows "settles z z' \<and> nt_left z' \<subseteq> dom (nt_clients z')"
proof (cases e)
  case (Connect f sock port getfl setfl)
  then obtain c where c: "nt_clients z f = None" "z' = z\<lparr>nt_clients := (nt_clients z)(f \<mapsto> c), nt_backlog := nt_backlog z @ [f]\<rparr>"
    using assms(1) by (auto simp: net_connect_def split: if_splits option.splits outcome.splits)
  then have "f \<notin> nt_left z" using assms(2) by auto
  then show ?thesis using c assms(2) by (auto simp: settles_def shown_at_def)
next
  case (Leave f)
  then show ?thesis using assms by (auto simp: net_leave_def settles_def shown_at_def split: if_splits)
next
  case (Type_line f l)
  then show ?thesis
    using assms by (auto simp: net_type_def settles_def shown_at_def cc_inputListener_def split: if_splits option.splits)
next
  case (Client_turn f rd wr foreign stack)
  then have "net_client_turn f rd wr foreign stack z = Some z'" using assms(1) by simp
  then show ?thesis by (cases rule: net_client_turn_cases) (use assms(2) in \<open>auto simp: settles_def shown_at_def\<close>)
next
  case (Server_round acc rd wr mem stack)
  then have step: "net_server_round acc rd wr mem stack z = Some z'" using assms(1) by simp
  then have "nt_left z' = nt_left z \<and> nt_clients z' = nt_clients z" by (cases rule: net_server_round_cases) simp
  then show ?thesis using net_server_round_pairs [OF step] assms(2) by (auto simp: settles_def shown_at_def)
qed

lemma net_run_settles:
  "net_run es z = Some z' \<Longrightarrow> nt_left z \<subseteq> dom (nt_clients z) \<Longrightarrow> settles z z' \<and> nt_left z' \<subseteq> dom (nt_clients z')"
proof (induction es arbitrary: z)
  case (Cons e es)
  then obtain y where y: "net_step e z = Some y" "net_run es y = Some z'" by (auto simp: bind_eq_Some_conv)
  then show ?case using net_step_settles [OF y(1)] Cons.IH [OF y(2)] Cons.prems(2) settles_trans by blast
qed (simp add: settles_refl)

lemma net_run_append: "net_run (es @ es') z = Option.bind (net_run es z) (net_run es')"
proof (induction es arbitrary: z)
  case (Cons e es)
  then show ?case by (cases "net_step e z") simp_all
qed simp

text \<open>C5: Who has lost the partner is alone for ever.  Once a client's partner has left, the server keeps sending to that
  partner whatever the client says, in every continuation and whoever else connects: the partner's terminal shows
  nothing more, and what any other client is shown after the greeting are lines of clients paired with it, of whom
  he is none.\<close>

theorem partner_of_departed_is_alone:
  assumes "chat_main_setup argc port e chat_initial = Running s" "net_run es (net_initial s) = Some y"
    and "client_to_client_map (nt_server y) f = Some g" "g \<in> nt_left y"
    and "net_run later y = Some z" "list_all short_event (es @ later)"
  shows "client_to_client_map (nt_server z) f = Some g \<and> shown_at z g = shown_at y g \<and>
    (\<forall>h. h \<noteq> g \<longrightarrow> (\<exists>T. prefix (shown_at z h) (greeting # map snd T) \<and> (\<forall>x \<in> set T. fst x \<noteq> f) \<and>
       (\<forall>k. subseq (of_sender k T) (nt_typed z k))))"
proof -
  have "nt_left (net_initial s) \<subseteq> dom (nt_clients (net_initial s))" by (simp add: net_initial_def)
  then have "settles y z" using net_run_settles [OF assms(2)] net_run_settles [OF assms(5)] by blast
  then have z: "client_to_client_map (nt_server z) f = Some g" "shown_at z g = shown_at y g"
    using assms(3,4) by (auto simp: settles_def map_le_def dom_def)
  have run: "net_run (es @ later) (net_initial s) = Some z" using assms(2,5) by (simp add: net_run_append)
  have "\<exists>T. prefix (shown_at z h) (greeting # map snd T) \<and> (\<forall>x \<in> set T. fst x \<noteq> f) \<and> (\<forall>k. subseq (of_sender k T) (nt_typed z k))"
    if "h \<noteq> g" for h
    using network_account [OF assms(1) run assms(6), of h] z(1) that by fastforce
  then show ?thesis using z by blast
qed

text \<open>The two clients of the sample run: the second leaves, its end is seen, somebody new connects, and the first types.\<close>

definition later_events :: "net_event list" where
  "later_events = [Server_round False [5] [] (\<lambda>_. []) (\<lambda>_. []), Connect 7 3 ''80'' 0 0, Server_round True [] [] (\<lambda>_. []) (\<lambda>_. []),
     Type_line 4 ''more'', Client_turn 4 False True [] [], Server_round False [4] [] (\<lambda>_. []) (\<lambda>_. []),
     Server_round False [] [] (\<lambda>_. []) (\<lambda>_. []), Client_turn 7 True False [] []]"

lemma later_run:
  "\<exists>s y z. chat_main_setup 2 ''80'' sample_setup chat_initial = Running s \<and> net_run (sample_events @ [Leave 5]) (net_initial s) = Some y \<and>
     client_to_client_map (nt_server y) 4 = Some 5 \<and> 5 \<in> nt_left y \<and> net_run later_events y = Some z \<and>
     list_all short_event ((sample_events @ [Leave 5]) @ later_events) \<and>
     client_socket_fd_map (nt_server z) = [4, 7, 6, 0, 0] \<and> nt_typed z 4 = [''hi'', ''more''] \<and>
     client_messages_queue (nt_server z) 5 = Some ''more'' \<and> shown_at z 7 = [greeting]"
proof -
  have "(case chat_main_setup 2 ''80'' sample_setup chat_initial of Exited _ _ \<Rightarrow> False | Running s \<Rightarrow>
      (case net_run (sample_events @ [Leave 5]) (net_initial s) of None \<Rightarrow> False | Some y \<Rightarrow>
      (case net_run later_events y of None \<Rightarrow> False | Some z \<Rightarrow>
         client_to_client_map (nt_server y) 4 = Some 5 \<and> 5 \<in> nt_left y \<and>
         list_all short_event ((sample_events @ [Leave 5]) @ later_events) \<and>
         client_socket_fd_map (nt_server z) = [4, 7, 6, 0, 0] \<and> nt_typed z 4 = [''hi'', ''more''] \<and>
         client_messages_queue (nt_server z) 5 = Some ''more'' \<and> shown_at z 7 = [greeting])))"
    by code_simp
  then show ?thesis by (auto split: outcome.splits option.splits)
qed

lemma partner_of_departed_is_alone_witness:
  "\<exists>y z T. net_run later_events y = Some z \<and> 5 \<in> nt_left y \<and> shown_at z 5 = shown_at y 5 \<and> nt_typed z 4 = [''hi'', ''more''] \<and>
     prefix [greeting] (greeting # map snd T) \<and> (\<forall>x \<in> set T. fst x \<noteq> (4 :: fd))"
proof -
  obtain s y z where r: "chat_main_setup 2 ''80'' sample_setup chat_initial = Running s"
    "net_run (sample_events @ [Leave 5]) (net_initial s) = Some y" "client_to_client_map (nt_server y) 4 = Some 5" "5 \<in> nt_left y"
    "net_run later_events y = Some z" "list_all short_event ((sample_events @ [Leave 5]) @ later_events)"
    "nt_typed z 4 = [''hi'', ''more'']" "shown_at z 7 = [greeting]" using later_run by blast
  note alone = partner_of_departed_is_alone [OF r(1-6)]
  have "shown_at z 5 = shown_at y 5" using alone by blast
  moreover have "\<exists>T. prefix (shown_at z 7) (greeting # map snd T) \<and> (\<forall>x \<in> set T. fst x \<noteq> (4 :: fd))"
    using alone [THEN conjunct2, THEN conjunct2, rule_format, of 7] by auto
  ultimately show ?thesis using r by metis
qed

section \<open>Connections that are reset\<close>

text \<open>A reset is a message.  When \<open>recv\<close> fails with anything but \<open>EAGAIN\<close>, the connection stays in the table, and the
  partner of the client, if nothing is pending for him, is sent an empty line that nobody typed.\<close>

theorem reset_sends_empty_line:
  assumes "err \<noteq> EAGAIN" "client_to_client_map s f = Some g" "0 < g" "client_messages_queue s g = None"
    and "client_socket_fd_map s ! j = g" "g \<in> set w"
  shows "client_socket_fd_map (chat_processClient (RErr err) stack f s) = client_socket_fd_map s \<and>
    client_messages_queue (chat_processClient (RErr err) stack f s) g = Some [] \<and>
    sends (trace (chat_write w j (chat_processClient (RErr err) stack f s))) = sends (trace s) @ [(g, [NUL], 255)]"
proof -
  have "recv_status (RErr err) = -1" by simp
  then have h: "\<not> chat_hangs_up (RErr err)" using assms(1) by (simp add: chat_hangs_up_def)
  have empty: "chat_text (RErr err) stack = []"
    by (simp add: chat_text_def filled_buffer_def c_str_def)
  have "client_messages_queue (chat_processClient (RErr err) stack f s) = (client_messages_queue s)(g \<mapsto> [])"
    using h assms(2-4) by (simp add: chat_recipient_def empty std_insert_fresh)
  then show ?thesis using h assms(5,6) by (simp add: chat_write_sends FD_ISSET_def)
qed

lemma reset_sends_empty_line_witness:
  "sends (trace (chat_write [5] 1 (chat_processClient (RErr (EOTHER 104)) [] 4
      (chat_initial\<lparr>client_socket_fd_map := [4, 5, 0, 0, 0], client_to_client_map := [4 \<mapsto> 5, 5 \<mapsto> 4]\<rparr>)))) = [(5, [NUL], 255)]"
  using reset_sends_empty_line [of "EOTHER 104" "chat_initial\<lparr>client_socket_fd_map := [4, 5, 0, 0, 0], client_to_client_map := [4 \<mapsto> 5, 5 \<mapsto> 4]\<rparr>"
      4 5 1 "[5]" "[]"]
  by (simp add: chat_initial_def server_globals.defs chat_globals.defs initial_globals_def)

section \<open>Messages that arrive in parts\<close>

text \<open>The server takes what one \<open>recv\<close> gives for a message.  When the 255 bytes of a line come in two parts, the first
  part is the message and the rest of the line is lost, if the first part is still pending for the partner.\<close>

theorem split_message_loses_rest:
  assumes "short_line l" "0 < k" "k \<le> length l" "b = carried (filled_buffer 255 mem) (h, l @ [NUL], 255)"
    and "client_to_client_map s f = Some g" "0 < g" "client_messages_queue s g = None"
  shows "chat_text (RData (take k b)) stack = take k l \<and> chat_text (RData (drop k b)) stack' = drop k l \<and>
    client_messages_queue (chat_processClient (RData (drop k b)) stack' f (chat_processClient (RData (take k b)) stack f s)) g =
      Some (take k l)"
proof -
  have l: "length l < 255" "NUL \<notin> set l" using assms(1) by (simp_all add: short_line_def)
  have b: "b = l @ NUL # take (254 - length l) (filled_buffer 255 mem)"
    using l(1) by (simp add: assms(4) carried_def Suc_diff_le take_Cons' diff_diff_eq)
  have NULs: "NUL \<notin> set (take k l)" "NUL \<notin> set (drop k l)" using l(2) by (meson in_set_takeD, meson in_set_dropD)
  have first: "chat_text (RData (take k b)) stack = take k l"
  proof -
    have "filled_buffer 255 (take k l) @ stack = take k l @ NUL # (replicate (254 - k) NUL @ stack)"
      using l(1) assms(3) by (simp add: filled_buffer_def min_def Suc_diff_Suc flip: replicate_Suc append_Cons)
    then show ?thesis using assms(3) NULs(1) by (simp add: chat_text_def b c_str_cut c_str_id)
  qed
  moreover have "chat_text (RData (drop k b)) stack' = drop k l"
  proof -
    have "length (drop k b) \<le> 255" using l(1) by (simp add: b filled_buffer_def)
    then obtain pad where "filled_buffer 255 (drop k b) = drop k b @ pad" by (simp add: filled_buffer_def)
    then show ?thesis using assms(3) NULs(2) by (simp add: chat_text_def b c_str_cut c_str_id)
  qed
  moreover have "\<not> chat_hangs_up (RData (take k b))" "\<not> chat_hangs_up (RData (drop k b))"
    using assms(2,3) l(1) by (simp_all add: chat_hangs_up_def b)
  ultimately show ?thesis using assms(5-7) by (simp add: chat_recipient_def std_insert_fresh std_insert_present)
qed

lemma split_message_loses_rest_witness:
  "client_messages_queue (chat_processClient (RData (drop 2 (carried (filled_buffer 255 []) (3, ''hello'' @ [NUL], 255)))) [] 4
     (chat_processClient (RData (take 2 (carried (filled_buffer 255 []) (3, ''hello'' @ [NUL], 255)))) [] 4
       (chat_initial\<lparr>client_to_client_map := [4 \<mapsto> 5]\<rparr>))) 5 = Some ''he''"
  using split_message_loses_rest [of "''hello''" 2 "carried (filled_buffer 255 []) (3, ''hello'' @ [NUL], 255)" "[]" 3
      "chat_initial\<lparr>client_to_client_map := [4 \<mapsto> 5]\<rparr>" 4 5 "[]" "[]"]
  by (simp add: short_line_def chat_initial_def server_globals.defs chat_globals.defs initial_globals_def)

end
