(* ===== verification/PollServer.thy ===== *)
theory PollServer
  imports SelectServer
begin

text \<open>
  \<open>multiple-client-single-thread/Server_poll.cpp\<close>: the same server written with \<open>poll\<close>.
  Its clients live in \<open>fds[1..5]\<close> (\<open>client_fds\<close> here, -1 marks a free entry; \<open>fds[0]\<close> is the
  listening socket); the array \<open>client_socket_fd_map\<close> it shares by name with the select server
  stays zero for ever.  The main result is that the poll server and the select server behave
  alike: the same environment makes them issue the same socket calls.
\<close>

section \<open>The program\<close>

record poll_globals = server_globals +
  client_fds :: "fd list"

definition poll_initial :: poll_globals where
  "poll_initial = server_globals.extend initial_globals
     (poll_globals.fields (replicate MAX_CONNECTIONS (-1)))"

definition pollfds :: "poll_globals \<Rightarrow> fd list" where
  "pollfds s = sock_file_descriptor s # client_fds s"

text \<open>\<open>fds[i].revents & POLLIN\<close> after the call: \<open>poll\<close> reports nothing for a negative entry.\<close>

definition poll_revents :: "round_env \<Rightarrow> fd list \<Rightarrow> nat \<Rightarrow> bool" where
  "poll_revents e fds i = (0 \<le> fds ! i \<and> fds ! i \<in> set (r_readable e))"

definition poll_main_setup :: "nat \<Rightarrow> string \<Rightarrow> setup_env \<Rightarrow> poll_globals \<Rightarrow> poll_globals outcome" where
  "poll_main_setup argc argv1 e s =
     (if argc < 2 then Exited 1 s
      else
        let s1 = (emit Call_socket s)\<lparr>sock_file_descriptor := e_socket e\<rparr>; sock = e_socket e in
        if sock = -1 then Exited 1 s1
        else
          let s2 = emit (Call_setsockopt sock) s1 in
          if e_setsockopt e \<noteq> 0 then Exited 1 s2
          else
            let s3 = emit (Call_bind sock (port_of (atoi argv1))) s2 in
            if e_bind e = -1 then Exited 1 s3
            else
              let s4 = emit (Call_listen sock MAX_CONNECTIONS) s3 in
              if e_listen e = -1 then Exited 1 s4
              else
                let s5 = snd (make_nonblocking sock (e_getfl e) (e_setfl e) s4) in
                Running (s5\<lparr>client_fds := replicate MAX_CONNECTIONS (-1)\<rparr>))"

definition poll_processClient :: "recv_res \<Rightarrow> fd \<Rightarrow> poll_globals \<Rightarrow> poll_globals outcome" where
  "poll_processClient r f s =
     (let s1 = emit (Call_recv f 255) s in
      case r of RErr e \<Rightarrow> Exited 1 s1 | REof \<Rightarrow> Running s1 | RData d \<Rightarrow> Running s1)"

definition poll_accept :: "fd \<Rightarrow> poll_globals \<Rightarrow> poll_globals" where
  "poll_accept c s =
     (let s1 = emit (Call_accept (sock_file_descriptor s)) s in
      case first_index (\<lambda>y. y = -1) (client_fds s1) of
        None \<Rightarrow> s1
      | Some i \<Rightarrow> emit (Call_send c welcome_message 255)
                    (s1\<lparr>client_fds := (client_fds s1)[i := c]\<rparr>))"

text \<open>Client \<open>i\<close> of the second loop is \<open>fds[i + 1]\<close>; \<open>pollin\<close> are the flags the call left.\<close>

definition poll_slot :: "round_env \<Rightarrow> (nat \<Rightarrow> bool) \<Rightarrow> nat \<Rightarrow> poll_globals \<Rightarrow> poll_globals outcome" where
  "poll_slot e pollin i s =
     (let f = client_fds s ! i in
      if f \<noteq> -1 \<and> pollin (Suc i) then poll_processClient (r_recv e i) f s else Running s)"

fun poll_slots ::
  "round_env \<Rightarrow> (nat \<Rightarrow> bool) \<Rightarrow> nat list \<Rightarrow> poll_globals \<Rightarrow> poll_globals outcome" where
  "poll_slots e pollin [] s = Running s"
| "poll_slots e pollin (i # is) s = bind_outcome (poll_slot e pollin i s) (poll_slots e pollin is)"

definition poll_round :: "round_env \<Rightarrow> poll_globals \<Rightarrow> poll_globals outcome" where
  "poll_round e s =
     (let pollin = poll_revents e (pollfds s);
          s1 = emit (Call_poll (pollfds s)) s in
      if r_ready e > 0 then
        let s2 = (if pollin 0 then poll_accept (r_accept e) s1 else s1)
        in poll_slots e pollin [0..<MAX_CONNECTIONS] s2
      else if r_ready e = 0 then Running s1
      else Exited 1 s1)"

fun poll_run :: "round_env list \<Rightarrow> poll_globals \<Rightarrow> poll_globals outcome" where
  "poll_run [] s = Running s"
| "poll_run (e # es) s = bind_outcome (poll_round e s) (poll_run es)"

section \<open>The select server as its specification\<close>

text \<open>The abstraction renames the free marker and forgets which waiting call was used.\<close>

definition unmark :: "fd \<Rightarrow> fd" where
  "unmark f = (if f = -1 then 0 else f)"

fun io_calls :: "syscall list \<Rightarrow> syscall list" where
  "io_calls [] = []"
| "io_calls (Call_select n r w # cs) = io_calls cs"
| "io_calls (Call_poll r # cs) = io_calls cs"
| "io_calls (c # cs) = c # io_calls cs"

lemma io_calls_append [simp]: "io_calls (xs @ ys) = io_calls xs @ io_calls ys"
  by (induction xs rule: io_calls.induct) auto

definition abs_poll :: "poll_globals \<Rightarrow> fd \<times> fd list \<times> syscall list" where
  "abs_poll s = (sock_file_descriptor s, map unmark (client_fds s), io_calls (trace s))"

definition abs_select :: "server_globals \<Rightarrow> fd \<times> fd list \<times> syscall list" where
  "abs_select t = (sock_file_descriptor t, client_socket_fd_map t, io_calls (trace t))"

text \<open>Ordinary descriptors: the listening socket is not negative, no entry is 0 or below -1, and the select
  server's \<open>select\<close> would examine them all.\<close>

definition select_bound :: "fd \<Rightarrow> fd" where
  "select_bound sock = sock + int MAX_CONNECTIONS"

definition poll_wf :: "poll_globals \<Rightarrow> bool" where
  "poll_wf s \<longleftrightarrow> 0 \<le> sock_file_descriptor s \<and> length (client_fds s) = MAX_CONNECTIONS \<and>
     (\<forall>f \<in> set (client_fds s). f = -1 \<or> 0 < f \<and> f \<le> select_bound (sock_file_descriptor s))"

fun same_outcome :: "poll_globals outcome \<Rightarrow> server_globals outcome \<Rightarrow> bool" where
  "same_outcome (Running s) (Running t) = (abs_poll s = abs_select t)"
| "same_outcome (Exited c s) (Exited d t) = (c = d \<and> abs_poll s = abs_select t)"
| "same_outcome _ _ = False"

lemma first_index_unmark:
  "(\<forall>f \<in> set fs. f \<noteq> 0) \<Longrightarrow>
   first_index (\<lambda>y. y = 0) (map unmark fs) = first_index (\<lambda>y. y = -1) fs"
  by (induction fs) (auto simp: unmark_def)

lemma poll_wf_no_zero: "poll_wf s \<Longrightarrow> \<forall>f \<in> set (client_fds s). f \<noteq> 0"
  by (auto simp: poll_wf_def)

lemma poll_accept_abs:
  assumes "poll_wf s" "0 < c" "abs_poll s = abs_select t"
  shows "abs_poll (poll_accept c s) = abs_select (sel_accept c t)"
proof -
  have tab: "client_socket_fd_map t = map unmark (client_fds s)"
    using assms(3) by (simp add: abs_poll_def abs_select_def)
  show ?thesis
    using assms(2,3) first_index_unmark [OF poll_wf_no_zero [OF assms(1)]]
    by (auto simp: poll_accept_def sel_accept_def abs_poll_def abs_select_def emit_def Let_def
        tab map_update unmark_def split: option.splits)
qed

lemma poll_accept_entry:
  assumes "i < length (client_fds s)"
  shows "client_fds (poll_accept c s) ! i = client_fds s ! i \<or>
    client_fds s ! i = -1 \<and> client_fds (poll_accept c s) ! i = c"
proof (cases "first_index (\<lambda>y. y = -1) (client_fds s)")
  case None
  then show ?thesis by (simp add: poll_accept_def emit_def Let_def)
next
  case (Some k)
  then show ?thesis
    using first_index_SomeD [OF Some] assms
    by (auto simp: poll_accept_def emit_def Let_def nth_list_update)
qed

lemma poll_wf_accept:
  "poll_wf s \<Longrightarrow> 0 < c \<Longrightarrow> c \<le> select_bound (sock_file_descriptor s) \<Longrightarrow> poll_wf (poll_accept c s)"
  by (auto simp: poll_wf_def poll_accept_def emit_def Let_def split: option.splits
      dest!: set_update_subset_insert [THEN subsetD])

lemma poll_processClient_abs:
  "abs_poll s = abs_select t \<Longrightarrow>
   same_outcome (poll_processClient r f s) (sel_processClient r f t)"
  by (auto simp: poll_processClient_def sel_processClient_def abs_poll_def abs_select_def
      emit_def Let_def split: recv_res.splits)

lemma poll_processClient_fds [simp]:
  "client_fds (final_state (poll_processClient r f s)) = client_fds s"
  by (simp add: poll_processClient_def emit_def Let_def split: recv_res.splits)

lemma poll_slot_fds [simp]:
  "client_fds (final_state (poll_slot e pollin i s)) = client_fds s"
  by (simp add: poll_slot_def Let_def)

text \<open>The second loop, entry by entry: both programs look at the same client or at none.\<close>

lemma poll_slots_abs:
  "abs_poll s = abs_select t \<Longrightarrow>
   (\<forall>i \<in> set is. i < length (client_fds s) \<and>
      (client_fds s ! i \<noteq> -1 \<and> pollin (Suc i) \<longleftrightarrow>
       unmark (client_fds s ! i) \<noteq> 0 \<and> FD_ISSET (unmark (client_fds s ! i)) fds)) \<Longrightarrow>
   same_outcome (poll_slots e pollin is s) (sel_slots e fds is t)"
proof (induction "is" arbitrary: s t)
  case (Cons i "is")
  have tab: "client_socket_fd_map t ! i = unmark (client_fds s ! i)"
    using Cons.prems by (simp add: abs_poll_def abs_select_def) (metis nth_map)
  have one: "same_outcome (poll_slot e pollin i s) (sel_slot e fds i t)"
    using Cons.prems poll_processClient_abs [OF Cons.prems(1)]
    by (auto simp: poll_slot_def sel_slot_def Let_def tab unmark_def)
  show ?case
  proof (cases "poll_slot e pollin i s")
    case (Running s')
    then obtain t' where t': "sel_slot e fds i t = Running t'" "abs_poll s' = abs_select t'"
      using one by (cases "sel_slot e fds i t") auto
    have "client_fds s' = client_fds s"
      using poll_slot_fds [of e pollin i s] Running by simp
    with Cons.IH [OF t'(2)] Cons.prems(2) Running t'(1) show ?thesis by simp
  next
    case (Exited c s')
    then show ?thesis
      using one by (cases "sel_slot e fds i t") auto
  qed
qed simp

lemma poll_emit_abs:
  "abs_poll s = abs_select t \<Longrightarrow>
   abs_poll (emit (Call_poll p) s) = abs_select (emit (Call_select n r w) t)"
  by (simp add: abs_poll_def abs_select_def emit_def)

lemma entry_agree:
  assumes "f = -1 \<or> 0 < f" and "g = f \<or> f = -1 \<and> g = c \<and> 0 < c \<and> c \<notin> set fds"
    and "0 < f \<Longrightarrow> f \<in> set fds \<longleftrightarrow> f \<in> set rd"
  shows "g \<noteq> -1 \<and> 0 \<le> f \<and> f \<in> set rd \<longleftrightarrow> unmark g \<noteq> 0 \<and> FD_ISSET (unmark g) fds"
  using assms by (auto simp: unmark_def FD_ISSET_def)

text \<open>One round.  The client admitted in this very round is read by neither program: \<open>poll\<close> saw a
  negative entry, \<open>select\<close> was not asked about the new descriptor.\<close>

lemma poll_round_abs:
  assumes wf: "poll_wf s" and abs: "abs_poll s = abs_select t"
    and fresh: "round_ops e t \<noteq> [] \<Longrightarrow> 0 < r_accept e \<and> r_accept e \<notin> set (pollfds s)"
  shows "same_outcome (poll_round e s) (sel_round e t)"
proof -
  define nfds where "nfds = sock_file_descriptor t + int MAX_CONNECTIONS + 1"
  define fds where "fds = fd_select (sel_read_set t) (examined nfds (r_readable e))"
  define pollin where "pollin = poll_revents e (pollfds s)"
  define s1 where "s1 = emit (Call_poll (pollfds s)) s"
  define t1 where
    "t1 = emit (Call_select nfds (sel_read_set t) []) t"
  define s2 where "s2 = (if pollin 0 then poll_accept (r_accept e) s1 else s1)"
  define t2 where
    "t2 = (if FD_ISSET (sock_file_descriptor t1) fds then sel_accept (r_accept e) t1 else t1)"
  have sock: "sock_file_descriptor t = sock_file_descriptor s" "sock_file_descriptor t1 = sock_file_descriptor s"
    and tab: "client_socket_fd_map t = map unmark (client_fds s)"
    using abs by (simp_all add: abs_poll_def abs_select_def t1_def emit_def)
  have wf1: "poll_wf s1" and abs1: "abs_poll s1 = abs_select t1"
    using wf poll_emit_abs [OF abs] by (simp_all add: s1_def t1_def poll_wf_def emit_def)
  have listen: "FD_ISSET (sock_file_descriptor t1) fds \<longleftrightarrow> pollin 0"
    using wf by (auto simp: fds_def nfds_def sock sel_read_set_def pollin_def poll_revents_def pollfds_def
        poll_wf_def)
  have fresh1: "0 < r_accept e \<and> r_accept e \<notin> set (pollfds s)" if "0 < r_ready e" "pollin 0"
    using fresh that by (auto simp: round_ops_def sock pollin_def poll_revents_def pollfds_def)
  have abs2: "abs_poll s2 = abs_select t2" if "0 < r_ready e"
    using poll_accept_abs [OF wf1 _ abs1] fresh1 abs1 that by (simp add: s2_def t2_def listen)
  have entry: "client_fds s2 ! i = client_fds s ! i \<or>
      client_fds s ! i = -1 \<and> client_fds s2 ! i = r_accept e \<and> pollin 0"
    if "i < length (client_fds s)" for i
    using poll_accept_entry [of i s1 "r_accept e"] that by (simp add: s2_def s1_def emit_def)
  have slots: "\<forall>i \<in> set [0..<MAX_CONNECTIONS]. i < length (client_fds s2) \<and>
      (client_fds s2 ! i \<noteq> -1 \<and> pollin (Suc i) \<longleftrightarrow>
       unmark (client_fds s2 ! i) \<noteq> 0 \<and> FD_ISSET (unmark (client_fds s2 ! i)) fds)"
    if ready: "0 < r_ready e"
  proof
    fix i assume i: "i \<in> set [0..<MAX_CONNECTIONS]"
    have len: "i < length (client_fds s)" "i < length (client_fds s2)"
      using wf i by (auto simp: poll_wf_def s2_def s1_def poll_accept_def emit_def Let_def
          split: option.splits)
    then have f: "client_fds s ! i = -1 \<or> 0 < client_fds s ! i" "client_fds s ! i \<in> set (client_fds s)"
      and low: "client_fds s ! i \<noteq> -1 \<Longrightarrow> client_fds s ! i < nfds"
      using wf nth_mem by (auto simp: poll_wf_def nfds_def sock select_bound_def)
    have new: "0 < r_accept e \<and> r_accept e \<notin> set fds" if "pollin 0"
      using fresh1 [OF ready that]
      by (auto simp: fds_def sel_read_set_def tab sock pollfds_def unmark_def)
    have same: "client_fds s ! i \<in> set fds \<longleftrightarrow> client_fds s ! i \<in> set (r_readable e)"
      if "0 < client_fds s ! i"
      using f low that by (force simp: fds_def sel_read_set_def tab sock unmark_def)
    have "pollin (Suc i) \<longleftrightarrow> 0 \<le> client_fds s ! i \<and> client_fds s ! i \<in> set (r_readable e)"
      by (simp add: pollin_def poll_revents_def pollfds_def)
    then show "i < length (client_fds s2) \<and>
      (client_fds s2 ! i \<noteq> -1 \<and> pollin (Suc i) \<longleftrightarrow>
       unmark (client_fds s2 ! i) \<noteq> 0 \<and> FD_ISSET (unmark (client_fds s2 ! i)) fds)"
      using entry_agree [OF f(1) _ same] entry [OF len(1)] new len(2) by blast
  qed
  show ?thesis
  proof (cases "0 < r_ready e")
    case True
    then have "poll_round e s = poll_slots e pollin [0..<MAX_CONNECTIONS] s2"
      and "sel_round e t = sel_slots e fds [0..<MAX_CONNECTIONS] t2"
      by (simp_all add: poll_round_def sel_round_def sel_processRequest_def Let_def
          pollin_def s1_def s2_def t1_def t2_def fds_def nfds_def)
    then show ?thesis
      using poll_slots_abs [OF abs2 [OF True] slots [OF True]] by simp
  next
    case False
    then show ?thesis
      using abs1 by (auto simp: poll_round_def sel_round_def Let_def s1_def t1_def nfds_def)
  qed
qed

section \<open>Whole runs\<close>

lemma poll_slots_keeps:
  "poll_slots e pollin is s = Running u \<Longrightarrow>
   client_fds u = client_fds s \<and> sock_file_descriptor u = sock_file_descriptor s"
proof (induction "is" arbitrary: s)
  case (Cons i "is")
  then obtain v where v: "poll_slot e pollin i s = Running v" "poll_slots e pollin is v = Running u"
    by (cases "poll_slot e pollin i s") auto
  then have "client_fds v = client_fds s \<and> sock_file_descriptor v = sock_file_descriptor s"
    by (auto simp: poll_slot_def poll_processClient_def emit_def Let_def
        split: if_splits recv_res.splits)
  with Cons.IH [OF v(2)] show ?case by simp
qed simp

lemma poll_accept_sock [simp]: "sock_file_descriptor (poll_accept c s) = sock_file_descriptor s"
  by (simp add: poll_accept_def emit_def Let_def split: option.splits)

lemma poll_accept_fds: "set (client_fds (poll_accept c s)) \<subseteq> insert c (set (client_fds s))"
  by (auto simp: poll_accept_def emit_def Let_def split: option.splits
      dest!: set_update_subset_insert [THEN subsetD])

lemma poll_round_keeps:
  assumes "poll_wf s" "sock_file_descriptor t = sock_file_descriptor s"
    and "round_ops e t \<noteq> [] \<Longrightarrow> 0 < r_accept e \<and> r_accept e \<le> select_bound (sock_file_descriptor s)"
    and run: "poll_round e s = Running u"
  shows "poll_wf u \<and> sock_file_descriptor u = sock_file_descriptor s \<and>
    set (pollfds u) \<subseteq> set (pollfds s) \<union> (if round_ops e t = [] then {} else {r_accept e})"
proof -
  have listens: "poll_revents e (pollfds s) 0 \<longleftrightarrow> sock_file_descriptor s \<in> set (r_readable e)"
    using assms(1) by (simp add: poll_revents_def pollfds_def poll_wf_def)
  obtain v where v: "client_fds u = client_fds v" "sock_file_descriptor u = sock_file_descriptor v"
    "v = emit (Call_poll (pollfds s)) s \<and> (0 < r_ready e \<longrightarrow> round_ops e t = []) \<or>
     v = poll_accept (r_accept e) (emit (Call_poll (pollfds s)) s) \<and> round_ops e t \<noteq> []"
    using run poll_slots_keeps
    by (auto simp: poll_round_def Let_def round_ops_def assms(2) listens split: if_splits)
  have wf1: "poll_wf (emit (Call_poll (pollfds s)) s)"
    using assms(1) by (simp add: poll_wf_def emit_def)
  let ?w = "emit (Call_poll (pollfds s)) s"
  show ?thesis
    using v(3)
  proof
    assume "v = ?w \<and> (0 < r_ready e \<longrightarrow> round_ops e t = [])"
    with v wf1 show ?thesis by (auto simp: poll_wf_def pollfds_def emit_def)
  next
    assume w: "v = poll_accept (r_accept e) ?w \<and> round_ops e t \<noteq> []"
    with assms(3) have "poll_wf v" using poll_wf_accept [OF wf1] by (simp add: emit_def)
    moreover have "set (client_fds v) \<subseteq> insert (r_accept e) (set (client_fds s))"
      using w poll_accept_fds [of "r_accept e" ?w] by (simp add: emit_def)
    ultimately show ?thesis
      using v w by (auto simp: poll_wf_def pollfds_def emit_def)
  qed
qed

text \<open>C13: As long as \<open>accept\<close> does not fail and gives numbers of at most the listening socket's plus five, the poll
  server and the select server are the same server.  Started in corresponding
  states and driven by the same environment (same readiness reports, accepted descriptors and
  received data; every accepted descriptor positive, not in use, and within that bound), they end alike - both still
  running, or both exited with the same status -, hold the same clients in the same entries, and have issued exactly the
  same sequence of accept, recv, send and other calls; only the waiting call differs.  (After a failed \<open>accept\<close>, or
  with a larger number, they part: \<open>poll_select_part\<close>.)\<close>

theorem poll_equals_select:
  assumes "poll_wf s" "abs_poll s = abs_select t"
    and "fresh_history (\<lambda>x. 0 < x \<and> x \<le> select_bound (sock_file_descriptor s)) (set (pollfds s)) (sel_history es t)"
  shows "same_outcome (poll_run es s) (sel_run es t)"
proof -
  define ok where "ok = (\<lambda>x. 0 < x \<and> x \<le> select_bound (sock_file_descriptor s))"
  have "same_outcome (poll_run es u) (sel_run es t)"
    if "set (pollfds u) \<subseteq> A" "fresh_history ok A (sel_history es t)"
      "poll_wf u" "abs_poll u = abs_select t" "sock_file_descriptor u = sock_file_descriptor s" for A u t
    using that
  proof (induction es arbitrary: u t A)
    case Nil
    then show ?case by simp
  next
    case (Cons e es)
    have sock: "sock_file_descriptor t = sock_file_descriptor u"
      using Cons.prems(4) by (simp add: abs_poll_def abs_select_def)
    have new: "ok (r_accept e) \<and> r_accept e \<notin> A" if "round_ops e t \<noteq> []"
      using Cons.prems(2) that by (auto simp: sel_history_def round_ops_def split: if_splits)
    then have pos: "round_ops e t \<noteq> [] \<Longrightarrow> 0 < r_accept e \<and> r_accept e \<le> select_bound (sock_file_descriptor u)"
      by (simp add: ok_def Cons.prems(5))
    have one: "same_outcome (poll_round e u) (sel_round e t)"
      using poll_round_abs [OF Cons.prems(3,4)] new pos Cons.prems(1) by blast
    show ?case
    proof (cases "poll_round e u")
      case (Running v)
      then obtain w where w: "sel_round e t = Running w" "abs_poll v = abs_select w"
        using one by (cases "sel_round e t") auto
      define B where "B = A \<union> (if round_ops e t = [] then {} else {r_accept e})"
      have keep: "poll_wf v" "set (pollfds v) \<subseteq> B" "sock_file_descriptor v = sock_file_descriptor s"
        using poll_round_keeps [OF Cons.prems(3) sock pos Running] Cons.prems(1,5)
        by (auto simp: B_def split: if_splits)
      have "fresh_history ok B (sel_history es t)"
        using Cons.prems(2) by (auto simp: B_def sel_history_def round_ops_def split: if_splits)
      moreover have "sel_history es w = sel_history es t"
        using sel_round_sock [of e t] w(1) by (intro sel_history_sock) simp
      ultimately show ?thesis
        using Cons.IH [OF keep(2) _ keep(1) w(2) keep(3)] Running w(1) by simp
    next
      case (Exited c v)
      with one show ?thesis by (cases "sel_round e t") auto
    qed
  qed
  then show ?thesis using assms by (auto simp: ok_def)
qed

definition sample_poll_server :: "fd list \<Rightarrow> poll_globals" where
  "sample_poll_server fds = \<lparr>trace = [], sock_file_descriptor = 3,
     client_socket_fd_map = [0,0,0,0,0], client_fds = fds\<rparr>"

lemma poll_equals_select_witness:
  "same_outcome (poll_run [sample_round] (sample_poll_server [4,-1,6,-1,-1]))
     (sel_run [sample_round] (sample_server [4,0,6,0,0]))"
  by (rule poll_equals_select)
    (simp_all add: sample_defs sample_poll_server_def poll_wf_def MAX_CONNECTIONS_def abs_poll_def
      abs_select_def unmark_def pollfds_def select_bound_def sel_history_def round_ops_def)

text \<open>Where they part: after a failed \<open>accept\<close> the select server keeps -1 as a client and the poll server a free
  entry; and a client whose descriptor is too large for \<open>select\<close> is read by the poll server only.\<close>

lemma poll_select_part:
  "abs_poll (sample_poll_server [-1,-1,-1,-1,-1]) = abs_select (sample_server [0,0,0,0,0]) \<and>
   \<not> same_outcome (poll_run [sample_round\<lparr>r_accept := -1\<rparr>] (sample_poll_server [-1,-1,-1,-1,-1]))
       (sel_run [sample_round\<lparr>r_accept := -1\<rparr>] (sample_server [0,0,0,0,0]))"
  "abs_poll (sample_poll_server [9,-1,-1,-1,-1]) = abs_select (sample_server [9,0,0,0,0]) \<and>
   \<not> same_outcome (poll_run [sample_round\<lparr>r_readable := [9]\<rparr>] (sample_poll_server [9,-1,-1,-1,-1]))
       (sel_run [sample_round\<lparr>r_readable := [9]\<rparr>] (sample_server [9,0,0,0,0]))"
  by code_simp+


end
