(* ===== verification/Terminals.thy ===== *)
theory Terminals
  imports Posix
begin

text \<open>
  The programs that talk to a person at a terminal: the turn-based pair
  \<open>single-client-turn-based/Server.cpp\<close> and \<open>Client.cpp\<close>, and the client of the select and
  poll servers, \<open>multiple-client-single-thread/Client.cpp\<close>.  Their state records what is left of
  standard input and the peer's messages shown on the terminal.  Each program is its start-up,
  one turn of its loop, and the loop over the turns its environment supplies; a turn ends the
  program (\<open>Exited 0\<close>) when the loop breaks.
\<close>

section \<open>Standard input and C strings\<close>

record terminal = os +
  stdin_left :: string
  shown :: "string list"

abbreviation NL :: char where
  "NL \<equiv> CHR 0x0A"

text \<open>The bytes of one \<open>fgets\<close>: up to and including a newline, at most \<open>n\<close> of them.\<close>

fun line_chunk :: "nat \<Rightarrow> string \<Rightarrow> string \<times> string" where
  "line_chunk 0 s = ([], s)"
| "line_chunk (Suc n) [] = ([], [])"
| "line_chunk (Suc n) (c # s) =
     (if c = NL then ([c], s) else let (l, r) = line_chunk n s in (c # l, r))"

text \<open>\<open>fgets(buffer, n, stdin)\<close>: at the end of the input the buffer is left as it was.\<close>

definition fgets :: "nat \<Rightarrow> string \<Rightarrow> string \<Rightarrow> string \<times> string" where
  "fgets n buffer s =
     (let (l, r) = line_chunk (n - 1) s in
      if l = [] then (buffer, r) else (l @ NUL # drop (Suc (length l)) buffer, r))"

text \<open>\<open>strncmp("exit", buffer, 4) == 0\<close>\<close>

definition exit_command :: "string \<Rightarrow> bool" where
  "exit_command buffer \<longleftrightarrow> take 4 buffer = ''exit''"

text \<open>What a person can type as one message: a line that fits the buffer.\<close>

definition typed_line :: "string \<Rightarrow> bool" where
  "typed_line l \<longleftrightarrow> (\<exists>w. l = w @ [NL] \<and> NL \<notin> set w \<and> NUL \<notin> set w \<and> length l \<le> 254)"

lemma line_chunk_line:
  "NL \<notin> set w \<Longrightarrow> length w < n \<Longrightarrow> line_chunk n (w @ NL # s) = (w @ [NL], s)"
proof (induction w arbitrary: n)
  case Nil
  then show ?case by (cases n) simp_all
next
  case (Cons c w)
  then show ?case by (cases n) auto
qed

lemma length_line_chunk: "length (fst (line_chunk n s)) \<le> n"
  by (induction n s rule: line_chunk.induct) (auto split: prod.splits if_splits)

lemma fgets_line:
  assumes "typed_line l"
  shows "fgets 255 buffer (l @ s) = (l @ NUL # drop (Suc (length l)) buffer, s)"
proof -
  obtain w where w: "l = w @ [NL]" "NL \<notin> set w" "length w < 254"
    using assms by (auto simp: typed_line_def)
  have "line_chunk 254 (l @ s) = (l, s)"
    using line_chunk_line [OF w(2,3), of s] w(1) by simp
  then show ?thesis using w(1) by (simp add: fgets_def)
qed

lemma typed_line_props:
  "typed_line l \<Longrightarrow> NUL \<notin> set l" "typed_line l \<Longrightarrow> l \<noteq> []" "typed_line l \<Longrightarrow> length l < 255"
  by (auto simp: typed_line_def)

section \<open>The turn-based server\<close>

text \<open>The descriptor the accepted connection gets, and the answers of the start-up calls.\<close>

record turn_setup =
  t_socket :: int
  t_bind :: int
  t_listen :: int
  t_accept :: int

text \<open>What the peer and the kernel do in one turn.\<close>

record turn_env =
  t_recv :: recv_res
  t_stack :: string
  t_send :: int

definition turn_server_setup ::
  "nat \<Rightarrow> string \<Rightarrow> turn_setup \<Rightarrow> terminal \<Rightarrow> terminal outcome" where
  "turn_server_setup argc argv1 e s =
     (if argc < 2 then Exited 1 s
      else
        let s1 = emit Call_socket s in
        if t_socket e = -1 then Exited 1 s1
        else
          let s2 = emit (Call_bind (t_socket e) (port_of (atoi argv1))) s1 in
          if t_bind e = -1 then Exited 1 s2
          else
            let s3 = emit (Call_listen (t_socket e) 5) s2 in
            if t_listen e = -1 then Exited 1 s3
            else
              let s4 = emit (Call_accept (t_socket e)) s3 in
              if t_accept e < 0 then Exited 1 s4 else Running s4)"

definition turn_server_turn :: "turn_env \<Rightarrow> fd \<Rightarrow> fd \<Rightarrow> terminal \<Rightarrow> terminal outcome" where
  "turn_server_turn e sock newsock s =
     (let s1 = emit (Call_recv newsock 255) s in
      if recv_status (t_recv e) < 0 then Exited 1 s1
      else
        let buffer = filled_buffer 255 (recv_bytes (t_recv e));
            s2 = s1\<lparr>shown := shown s1 @ [c_str (buffer @ t_stack e)]\<rparr>;
            (reply, rest) = fgets 255 (replicate 255 NUL) (stdin_left s2);
            s3 = emit (Call_send newsock reply (length (c_str reply))) (s2\<lparr>stdin_left := rest\<rparr>) in
        if t_send e < 0 then Exited 1 s3
        else if exit_command reply then
          Exited 0 (emit (Call_close newsock) (emit (Call_close sock) s3))
        else Running s3)"

fun turn_server_run :: "turn_env list \<Rightarrow> fd \<Rightarrow> fd \<Rightarrow> terminal \<Rightarrow> terminal outcome" where
  "turn_server_run [] sock newsock s = Running s"
| "turn_server_run (e # es) sock newsock s =
     bind_outcome (turn_server_turn e sock newsock s) (turn_server_run es sock newsock)"

section \<open>The turn-based client\<close>

text \<open>
  \<open>gethostbyname\<close> may return a null pointer; the program prints a message and then reads
  through it.  \<open>None\<close> is that undefined behaviour.
\<close>

definition turn_client_setup ::
  "nat \<Rightarrow> string \<Rightarrow> int \<Rightarrow> bool \<Rightarrow> int \<Rightarrow> terminal \<Rightarrow> terminal outcome option" where
  "turn_client_setup argc argv2 sock host_found connected s =
     (if argc < 3 then Some (Exited 1 s)
      else
        let s1 = emit Call_socket s in
        if sock = -1 then Some (Exited 1 s1)
        else if \<not> host_found then None
        else
          let s2 = emit (Call_connect sock (port_of (atoi argv2))) s1 in
          if connected < 0 then Some (Exited 1 s2) else Some (Running s2))"

text \<open>The two halves of a turn: type and send, then wait for the answer.\<close>

definition turn_client_say :: "turn_env \<Rightarrow> fd \<Rightarrow> terminal \<Rightarrow> terminal outcome" where
  "turn_client_say e sock s =
     (let (buffer, rest) = fgets 255 (replicate 255 NUL) (stdin_left s);
          s1 = emit (Call_send sock buffer (length (c_str buffer))) (s\<lparr>stdin_left := rest\<rparr>) in
      if t_send e < 0 then Exited 1 s1 else Running s1)"

definition turn_client_hear :: "turn_env \<Rightarrow> fd \<Rightarrow> terminal \<Rightarrow> terminal outcome" where
  "turn_client_hear e sock s =
     (let s1 = emit (Call_recv sock 255) s in
      if recv_status (t_recv e) < 0 then Exited 1 s1
      else
        let buffer = filled_buffer 255 (recv_bytes (t_recv e));
            s2 = s1\<lparr>shown := shown s1 @ [c_str (buffer @ t_stack e)]\<rparr> in
        if exit_command buffer then Exited 0 (emit (Call_close sock) s2) else Running s2)"

definition turn_client_turn :: "turn_env \<Rightarrow> fd \<Rightarrow> terminal \<Rightarrow> terminal outcome" where
  "turn_client_turn e sock s = bind_outcome (turn_client_say e sock s) (turn_client_hear e sock)"

fun turn_client_run :: "turn_env list \<Rightarrow> fd \<Rightarrow> terminal \<Rightarrow> terminal outcome" where
  "turn_client_run [] sock s = Running s"
| "turn_client_run (e # es) sock s =
     bind_outcome (turn_client_turn e sock s) (turn_client_run es sock)"

section \<open>The client of the select and poll servers\<close>

definition multi_client_setup ::
  "nat \<Rightarrow> string \<Rightarrow> int \<Rightarrow> bool \<Rightarrow> int \<Rightarrow> recv_res \<Rightarrow> string \<Rightarrow> terminal \<Rightarrow> terminal outcome option" where
  "multi_client_setup argc argv2 sock host_found connected greeting stack s =
     (if argc < 3 then Some (Exited 1 s)
      else
        let s1 = emit Call_socket s in
        if sock = -1 then Some (Exited 1 s1)
        else if \<not> host_found then None
        else
          let s2 = emit (Call_connect sock (port_of (atoi argv2))) s1 in
          if connected < 0 then Some (Exited 1 s2)
          else
            let s3 = emit (Call_recv sock 255) s2 in
            if recv_status greeting < 0 then Some (Exited 1 s3)
            else Some (Running (s3\<lparr>shown := shown s3 @
                   [c_str (filled_buffer 255 (recv_bytes greeting) @ stack)]\<rparr>)))"

definition multi_client_turn :: "int \<Rightarrow> fd \<Rightarrow> terminal \<Rightarrow> terminal outcome" where
  "multi_client_turn sent sock s =
     (let (buffer, rest) = fgets 255 (replicate 255 NUL) (stdin_left s);
          s1 = emit (Call_send sock buffer (length (c_str buffer))) (s\<lparr>stdin_left := rest\<rparr>) in
      if sent < 0 then Exited 1 s1
      else if exit_command buffer then Exited 0 (emit (Call_close sock) s1)
      else Running s1)"

fun multi_client_run :: "int list \<Rightarrow> fd \<Rightarrow> terminal \<Rightarrow> terminal outcome" where
  "multi_client_run [] sock s = Running s"
| "multi_client_run (r # rs) sock s =
     bind_outcome (multi_client_turn r sock s) (multi_client_run rs sock)"


section \<open>What goes over the wire\<close>

lemma exit_command_line:
  assumes "NUL \<notin> set l"
  shows "exit_command (l @ NUL # t) = exit_command l"
proof (cases "length l < 4")
  case True
  then have "NUL \<in> set (take 4 (l @ NUL # t))" "length (take 4 l) \<noteq> length ''exit''"
    by (auto simp: take_Cons' split: if_splits)
  moreover have "NUL \<notin> set ''exit''" by simp
  ultimately show ?thesis unfolding exit_command_def by metis
next
  case False
  then show ?thesis by (simp add: exit_command_def)
qed

lemma exit_command_received:
  assumes "NUL \<notin> set l" "length l < 255"
  shows "exit_command (filled_buffer 255 l) = exit_command l"
proof -
  obtain m where "255 = length l + Suc m" using assms(2) less_iff_Suc_add by auto
  then have "255 - length l = Suc m" by simp
  then have "filled_buffer 255 l = l @ NUL # replicate m NUL"
    using assms(2) by (simp add: filled_buffer_def)
  then show ?thesis using exit_command_line [OF assms(1)] by simp
qed

text \<open>Typing a line sends exactly that line.\<close>

lemma typed_line_buffer:
  assumes "typed_line l" "stdin_left s = l @ rest"
  shows "fgets 255 (replicate 255 NUL) (stdin_left s) = (l @ NUL # replicate (254 - length l) NUL, rest)"
    and "length (c_str (l @ NUL # replicate (254 - length l) NUL)) = length l"
  using assms(2) fgets_line [OF assms(1), of "replicate 255 NUL" rest] typed_line_props [OF assms(1)]
  by (simp_all add: c_str_cut c_str_id)

lemma shown_line: "typed_line l \<Longrightarrow> c_str (filled_buffer 255 l @ stk) = l"
  by (simp add: c_str_filled_buffer c_str_id typed_line_props)

section \<open>A conversation\<close>

text \<open>
  The two turn-based programs on one connection that delivers each message whole: the client
  types and sends, the server shows it, types and sends, the client shows the answer.  \<open>stk\<close>
  are the bytes behind the receive buffers.
\<close>

definition turn_of :: "string \<Rightarrow> recv_res \<Rightarrow> turn_env" where
  "turn_of stk r = \<lparr>t_recv = r, t_stack = stk, t_send = 0\<rparr>"

fun conversation ::
  "nat \<Rightarrow> string \<Rightarrow> fd \<Rightarrow> fd \<Rightarrow> fd \<Rightarrow> terminal \<Rightarrow> terminal \<Rightarrow> terminal outcome \<times> terminal outcome" where
  "conversation 0 stk csock sock newsock c s = (Running c, Running s)"
| "conversation (Suc n) stk csock sock newsock c s =
     (case turn_client_say (turn_of stk REof) csock c of
        Exited k c1 \<Rightarrow> (Exited k c1, Running s)
      | Running c1 \<Rightarrow>
          (let server = turn_server_turn (turn_of stk (RData (last (wire c1)))) sock newsock s;
               client = turn_client_hear
                 (turn_of stk (RData (last (wire (final_state server))))) csock c1
           in case (client, server) of
                (Running c2, Running s2) \<Rightarrow> conversation n stk csock sock newsock c2 s2
              | _ \<Rightarrow> (client, server)))"

lemma turn_client_say_line:
  assumes "typed_line l" "stdin_left c = l @ rest" "t_send e = 0"
  shows "\<exists>c1. turn_client_say e csock c = Running c1 \<and> stdin_left c1 = rest \<and>
    shown c1 = shown c \<and> wire c1 = wire c @ [l]"
  using assms(3) typed_line_buffer [OF assms(1,2)]
  by (simp add: turn_client_say_def wire_def)
    (simp add: emit_def)

lemma turn_client_hear_line:
  assumes "typed_line l" "t_recv e = RData l"
  shows "\<exists>c2. turn_client_hear e csock c = (if exit_command l then Exited 0 c2 else Running c2) \<and>
    stdin_left c2 = stdin_left c \<and> shown c2 = shown c @ [l] \<and> wire c2 = wire c"
  using assms typed_line_props [OF assms(1)]
  by (simp add: turn_client_hear_def wire_def shown_line exit_command_received Let_def)
    (simp add: emit_def)

lemma turn_server_turn_line:
  assumes "typed_line l" "t_recv e = RData l" "t_send e = 0"
    and "typed_line a" "stdin_left s = a @ rest"
  shows "\<exists>s2. turn_server_turn e sock newsock s = (if exit_command a then Exited 0 s2 else Running s2) \<and>
    stdin_left s2 = rest \<and> shown s2 = shown s @ [l] \<and> wire s2 = wire s @ [a]"
  using assms(1-3) typed_line_buffer [OF assms(4,5)] typed_line_props [OF assms(4)]
  by (simp add: turn_server_turn_def wire_def shown_line exit_command_line emit_def Let_def)

section \<open>Properties\<close>

text \<open>The turn-based dialogue, client and server together.  If both people type lines that fit
  the buffer, then each program shows exactly the lines the other person typed, in order and
  unaltered, for as long as the server's person does not say exit; with the first answer that
  begins with exit both programs end with status 0.  (What the client's person types never ends
  anything, not even exit.)\<close>

theorem turn_conversation:
  assumes "length cs = length ss" "\<forall>l \<in> set cs. typed_line l" "\<forall>l \<in> set ss. typed_line l"
    and "ss \<noteq> []" "\<forall>l \<in> set (butlast ss). \<not> exit_command l" "exit_command (last ss)"
    and "stdin_left c = concat cs @ crest" "stdin_left s = concat ss @ srest"
  shows "\<exists>c' s'. conversation (length cs) stk csock sock newsock c s = (Exited 0 c', Exited 0 s') \<and>
    shown c' = shown c @ ss \<and> shown s' = shown s @ cs \<and> stdin_left c' = crest \<and> stdin_left s' = srest"
  using assms
proof (induction cs ss arbitrary: c s rule: list_induct2)
  case (Cons l cs a ss)
  have in_c: "stdin_left c = l @ (concat cs @ crest)" and in_s: "stdin_left s = a @ (concat ss @ srest)"
    using Cons.prems by simp_all
  have l: "typed_line l" and a: "typed_line a" using Cons.prems by simp_all
  obtain c1 where c1: "turn_client_say (turn_of stk REof) csock c = Running c1"
      "stdin_left c1 = concat cs @ crest" "shown c1 = shown c" "wire c1 = wire c @ [l]"
    using turn_client_say_line [OF l in_c, of "turn_of stk REof"] by (auto simp: turn_of_def)
  obtain s2 where s2: "turn_server_turn (turn_of stk (RData l)) sock newsock s =
        (if exit_command a then Exited 0 s2 else Running s2)"
      "stdin_left s2 = concat ss @ srest" "shown s2 = shown s @ [l]" "wire s2 = wire s @ [a]"
    using turn_server_turn_line [OF l _ _ a in_s, of "turn_of stk (RData l)"] by (auto simp: turn_of_def)
  obtain c2 where c2: "turn_client_hear (turn_of stk (RData a)) csock c1 =
        (if exit_command a then Exited 0 c2 else Running c2)"
      "stdin_left c2 = stdin_left c1" "shown c2 = shown c1 @ [a]" "wire c2 = wire c1"
    using turn_client_hear_line [OF a, of "turn_of stk (RData a)"] by (auto simp: turn_of_def)
  show ?case
  proof (cases "ss = []")
    case True
    then show ?thesis
      using Cons.prems(5) Cons.hyps c1 s2 c2 by (simp add: Let_def)
  next
    case False
    then have "\<not> exit_command a" using Cons.prems(4) by simp
    then show ?thesis
      using Cons.IH [of c2 s2] Cons.prems False c1 s2 c2 by (simp add: Let_def)
  qed
qed simp

definition sample_terminal :: "string \<Rightarrow> terminal" where
  "sample_terminal s = \<lparr>trace = [], stdin_left = s, shown = []\<rparr>"

lemma typed_line_sample: "typed_line (''hi'' @ [NL])" "typed_line (''exit'' @ [NL])"
  by (simp_all add: typed_line_def)

lemma turn_conversation_witness:
  "\<exists>c' s'. conversation (length [''hi'' @ [NL], ''hi'' @ [NL]]) [] 4 3 5
      (sample_terminal (concat [''hi'' @ [NL], ''hi'' @ [NL]] @ []))
      (sample_terminal (concat [''hi'' @ [NL], ''exit'' @ [NL]] @ [])) = (Exited 0 c', Exited 0 s') \<and>
    shown c' = shown (sample_terminal (concat [''hi'' @ [NL], ''hi'' @ [NL]] @ [])) @
      [''hi'' @ [NL], ''exit'' @ [NL]] \<and>
    shown s' = shown (sample_terminal (concat [''hi'' @ [NL], ''exit'' @ [NL]] @ [])) @
      [''hi'' @ [NL], ''hi'' @ [NL]] \<and> stdin_left c' = [] \<and> stdin_left s' = []"
  by (rule turn_conversation)
    (use typed_line_sample in \<open>simp_all add: sample_terminal_def exit_command_def\<close>)

text \<open>The client of the select and poll servers sends exactly what is typed, line by line and
  without reading past its buffer, up to and including the first line that begins with exit;
  then it closes its socket and ends with status 0, and the rest of the input stays unread.\<close>

theorem multi_client_session:
  assumes "\<forall>l \<in> set ls. typed_line l" "ls \<noteq> []" "\<forall>l \<in> set (butlast ls). \<not> exit_command l"
    and "exit_command (last ls)" "\<forall>r \<in> set rs. 0 \<le> r" "length ls \<le> length rs"
    and "stdin_left s = concat ls @ rest"
  shows "\<exists>t. multi_client_run rs sock s = Exited 0 t \<and> wire t = wire s @ ls \<and>
    stdin_left t = rest \<and> hangups (trace t) = hangups (trace s) @ [sock] \<and>
    (\<forall>c \<in> set (trace t). overreads c \<longrightarrow> c \<in> set (trace s))"
  using assms
proof (induction ls arbitrary: s rs)
  case (Cons l ls)
  then obtain r rs' where rs: "rs = r # rs'" "0 \<le> r" by (cases rs) auto
  have l: "typed_line l" and in_s: "stdin_left s = l @ (concat ls @ rest)"
    using Cons.prems by simp_all
  define s1 where "s1 = emit (Call_send sock (l @ NUL # replicate (254 - length l) NUL) (length l))
    (s\<lparr>stdin_left := concat ls @ rest\<rparr>)"
  have turn: "multi_client_turn r sock s =
      (if exit_command l then Exited 0 (emit (Call_close sock) s1) else Running s1)"
    using typed_line_buffer [OF l in_s] typed_line_props [OF l] rs(2)
    by (simp add: multi_client_turn_def s1_def exit_command_line)
  have s1: "wire s1 = wire s @ [l]" "stdin_left s1 = concat ls @ rest"
    "hangups (trace s1) = hangups (trace s)"
    "\<forall>c \<in> set (trace s1). overreads c \<longrightarrow> c \<in> set (trace s)"
    by (simp_all add: s1_def wire_def) (simp add: emit_def)
  show ?case
  proof (cases "ls = []")
    case True
    then show ?thesis
      using Cons.prems(4) rs turn s1 by (simp add: wire_def) (simp add: emit_def)
  next
    case False
    then have "\<not> exit_command l" using Cons.prems(3) by simp
    moreover obtain t where "multi_client_run rs' sock s1 = Exited 0 t" "wire t = wire s1 @ ls"
      "stdin_left t = rest" "hangups (trace t) = hangups (trace s1) @ [sock]"
      "\<forall>c \<in> set (trace t). overreads c \<longrightarrow> c \<in> set (trace s1)"
      using Cons.IH [of rs' s1] Cons.prems False rs s1(2) by auto
    ultimately show ?thesis using rs turn s1 by auto
  qed
qed simp

lemma multi_client_session_witness:
  "\<exists>t. multi_client_run [0, 0, 0] 4 (sample_terminal (concat [''hi'' @ [NL], ''exit'' @ [NL]] @ ''x'')) =
      Exited 0 t \<and>
    wire t = wire (sample_terminal (concat [''hi'' @ [NL], ''exit'' @ [NL]] @ ''x'')) @
      [''hi'' @ [NL], ''exit'' @ [NL]] \<and>
    stdin_left t = ''x'' \<and>
    hangups (trace t) = hangups (trace (sample_terminal (concat [''hi'' @ [NL], ''exit'' @ [NL]] @ ''x''))) @ [4] \<and>
    (\<forall>c \<in> set (trace t). overreads c \<longrightarrow>
       c \<in> set (trace (sample_terminal (concat [''hi'' @ [NL], ''exit'' @ [NL]] @ ''x''))))"
  by (rule multi_client_session)
    (use typed_line_sample in \<open>simp_all add: sample_terminal_def exit_command_def\<close>)

end
