(* ===== verification/SocketObject.thy ===== *)
theory SocketObject
  imports Posix
begin

text \<open>
  The life of \<open>Socket\<close> objects (\<open>protocol-server/src/engine/socket/Socket.cpp\<close>; the copies in
  the other programs differ only in layout): constructors, copy constructor, assignment and
  destructor, with the reference counter on the heap that copies share and the static counter
  \<open>nofSockets_\<close>.  An object is an entry \<open>(address, descriptor, counter cell)\<close> of \<open>sock_objs\<close>; a
  cell that is not in \<open>ref_cells\<close> is unallocated, and touching it is undefined behaviour
  (\<open>None\<close>).

  The reference counting is specified by ownership groups: the objects that share a cell own the
  descriptor together, and it is closed when the last of them dies; but the share of an object that is
  assigned to is overwritten and never given back, so the descriptor of its old group stays open for ever.
\<close>

section \<open>The heap of sockets\<close>

record sock_heap = os +
  sock_objs :: "(nat \<times> fd \<times> nat) list"
  ref_cells :: "nat \<rightharpoonup> int"
  next_cell :: nat
  nofSockets :: int

definition empty_heap :: sock_heap where
  "empty_heap = \<lparr>trace = [], sock_objs = [], ref_cells = Map.empty, next_cell = 0, nofSockets = 0\<rparr>"

definition drop_obj :: "nat \<Rightarrow> (nat \<times> fd \<times> nat) list \<Rightarrow> (nat \<times> fd \<times> nat) list" where
  "drop_obj a objs = filter (\<lambda>x. fst x \<noteq> a) objs"

text \<open>\<open>Start\<close> and \<open>End\<close> on POSIX only count.\<close>

definition socket_start :: "sock_heap \<Rightarrow> sock_heap" where
  "socket_start s = s\<lparr>nofSockets := nofSockets s + 1\<rparr>"

definition new_counter :: "nat \<Rightarrow> fd \<Rightarrow> sock_heap \<Rightarrow> sock_heap" where
  "new_counter a f s =
     s\<lparr>sock_objs := (a, f, next_cell s) # sock_objs s,
       ref_cells := (ref_cells s)(next_cell s \<mapsto> 1),
       next_cell := Suc (next_cell s)\<rparr>"

text \<open>\<open>Socket()\<close>: \<open>sock\<close> is what \<open>socket\<close> returns.  When it fails the exception leaves an
  object that was never constructed, and the count of sockets stays too high.\<close>

definition socket_create :: "nat \<Rightarrow> int \<Rightarrow> sock_heap \<Rightarrow> sock_heap completion" where
  "socket_create a sock s =
     (let s1 = emit Call_socket (socket_start s) in
      if sock = -1 then Raised ''INVALID_SOCKET'' s1 else Done (new_counter a sock s1))"

text \<open>\<open>Socket(SOCKET s)\<close>\<close>

definition socket_wrap :: "nat \<Rightarrow> fd \<Rightarrow> sock_heap \<Rightarrow> sock_heap" where
  "socket_wrap a f s = new_counter a f (socket_start s)"

text \<open>\<open>Socket(const Socket &o)\<close>\<close>

definition socket_copy :: "nat \<Rightarrow> nat \<Rightarrow> sock_heap \<Rightarrow> sock_heap option" where
  "socket_copy a b s =
     (case map_of (sock_objs s) b of
        None \<Rightarrow> None
      | Some (f, k) \<Rightarrow>
          (case ref_cells s k of
             None \<Rightarrow> None
           | Some n \<Rightarrow> Some (s\<lparr>sock_objs := (a, f, k) # sock_objs s,
                              ref_cells := (ref_cells s)(k \<mapsto> n + 1),
                              nofSockets := nofSockets s + 1\<rparr>)))"

text \<open>\<open>operator=\<close>: the counter and descriptor the object had before are simply overwritten.\<close>

definition socket_assign :: "nat \<Rightarrow> nat \<Rightarrow> sock_heap \<Rightarrow> sock_heap option" where
  "socket_assign a b s =
     (case (map_of (sock_objs s) a, map_of (sock_objs s) b) of
        (Some _, Some (f, k)) \<Rightarrow>
          (case ref_cells s k of
             None \<Rightarrow> None
           | Some n \<Rightarrow> Some (s\<lparr>sock_objs := (a, f, k) # drop_obj a (sock_objs s),
                              ref_cells := (ref_cells s)(k \<mapsto> n + 1),
                              nofSockets := nofSockets s + 1\<rparr>))
      | _ \<Rightarrow> None)"

definition socket_Close :: "fd \<Rightarrow> sock_heap \<Rightarrow> sock_heap" where
  "socket_Close f s = emit (Call_close f) s"

text \<open>\<open>~Socket\<close>\<close>

definition socket_destroy :: "nat \<Rightarrow> sock_heap \<Rightarrow> sock_heap option" where
  "socket_destroy a s =
     (case map_of (sock_objs s) a of
        None \<Rightarrow> None
      | Some (f, k) \<Rightarrow>
          (case ref_cells s k of
             None \<Rightarrow> None
           | Some n \<Rightarrow>
               let s1 = s\<lparr>ref_cells := (ref_cells s)(k \<mapsto> n - 1)\<rparr>;
                   s2 = (if n - 1 = 0
                         then (socket_Close f s1)\<lparr>ref_cells := (ref_cells s1)(k := None)\<rparr>
                         else s1)
               in Some (s2\<lparr>sock_objs := drop_obj a (sock_objs s2),
                           nofSockets := nofSockets s2 - 1\<rparr>)))"

text \<open>\<open>~CClientSocket() { Close(); }\<close>, followed by the destructor of its base class.\<close>

definition client_socket_destroy :: "nat \<Rightarrow> sock_heap \<Rightarrow> sock_heap option" where
  "client_socket_destroy a s =
     (case map_of (sock_objs s) a of
        None \<Rightarrow> None
      | Some (f, k) \<Rightarrow> socket_destroy a (socket_Close f s))"

datatype sock_op = Create nat fd | Wrap nat fd | Copy nat nat | Assign nat nat | Destroy nat

fun sock_step :: "sock_op \<Rightarrow> sock_heap \<Rightarrow> sock_heap option" where
  "sock_step (Create a f) s = Some (state_of (socket_create a f s))"
| "sock_step (Wrap a f) s = Some (socket_wrap a f s)"
| "sock_step (Copy a b) s = socket_copy a b s"
| "sock_step (Assign a b) s = socket_assign a b s"
| "sock_step (Destroy a) s = socket_destroy a s"

fun sock_run :: "sock_op list \<Rightarrow> sock_heap \<Rightarrow> sock_heap option" where
  "sock_run [] s = Some s"
| "sock_run (op # ops) s = (case sock_step op s of None \<Rightarrow> None | Some t \<Rightarrow> sock_run ops t)"

section \<open>Ownership groups as the specification\<close>

text \<open>
  The specification has no counters: it knows the live objects, the descriptor and the group of
  each, the next group name, the descriptors closed so far, and the groups of which a share was
  overwritten by an assignment, once for each share.
\<close>

type_synonym owners = "(nat \<times> fd \<times> nat) list \<times> nat \<times> fd list \<times> nat list"

fun owner_step :: "sock_op \<Rightarrow> owners \<Rightarrow> owners" where
  "owner_step (Create a f) (objs, n, closed, lost) =
     (if f = -1 then (objs, n, closed, lost) else ((a, f, n) # objs, Suc n, closed, lost))"
| "owner_step (Wrap a f) (objs, n, closed, lost) = ((a, f, n) # objs, Suc n, closed, lost)"
| "owner_step (Copy a b) (objs, n, closed, lost) =
     (case map_of objs b of None \<Rightarrow> (objs, n, closed, lost) | Some fk \<Rightarrow> ((a, fk) # objs, n, closed, lost))"
| "owner_step (Assign a b) (objs, n, closed, lost) =
     (case (map_of objs a, map_of objs b) of
        (Some (_, k), Some fk) \<Rightarrow> ((a, fk) # drop_obj a objs, n, closed, k # lost)
      | _ \<Rightarrow> (objs, n, closed, lost))"
| "owner_step (Destroy a) (objs, n, closed, lost) =
     (case map_of objs a of
        None \<Rightarrow> (objs, n, closed, lost)
      | Some (f, k) \<Rightarrow>
          let rest = drop_obj a objs in
          (rest, n, if k \<in> set lost \<or> (\<exists>x \<in> set rest. snd (snd x) = k) then closed else closed @ [f], lost))"

definition owners_of :: "nat list \<Rightarrow> sock_heap \<Rightarrow> owners" where
  "owners_of lost s = (sock_objs s, next_cell s, closes (trace s), lost)"

text \<open>The operations a program can meaningfully perform: constructed at a fresh address, copied from,
  assigned and destroyed where an object lives.\<close>

fun proper_op :: "sock_op \<Rightarrow> sock_heap \<Rightarrow> bool" where
  "proper_op (Create a f) s = (a \<notin> fst ` set (sock_objs s))"
| "proper_op (Wrap a f) s = (a \<notin> fst ` set (sock_objs s))"
| "proper_op (Copy a b) s = (a \<notin> fst ` set (sock_objs s) \<and> b \<in> fst ` set (sock_objs s))"
| "proper_op (Assign a b) s = (a \<in> fst ` set (sock_objs s) \<and> b \<in> fst ` set (sock_objs s))"
| "proper_op (Destroy a) s = (a \<in> fst ` set (sock_objs s))"

fun proper_run :: "sock_op list \<Rightarrow> sock_heap \<Rightarrow> bool" where
  "proper_run [] s = True"
| "proper_run (op # ops) s =
     (proper_op op s \<and> (case sock_step op s of None \<Rightarrow> False | Some t \<Rightarrow> proper_run ops t))"

text \<open>Every counter counts exactly the objects that share it and the shares that were overwritten.\<close>

definition group_size :: "nat \<Rightarrow> (nat \<times> fd \<times> nat) list \<Rightarrow> nat" where
  "group_size k objs = length (filter (\<lambda>x. snd (snd x) = k) objs)"

definition shares :: "nat list \<Rightarrow> nat \<Rightarrow> sock_heap \<Rightarrow> nat" where
  "shares lost k s = group_size k (sock_objs s) + count_list lost k"

definition heap_counts :: "nat list \<Rightarrow> sock_heap \<Rightarrow> bool" where
  "heap_counts lost s \<longleftrightarrow> distinct (map fst (sock_objs s)) \<and>
     (\<forall>x \<in> set (sock_objs s). snd (snd x) < next_cell s) \<and> (\<forall>k \<in> set lost. k < next_cell s) \<and>
     (\<forall>k. ref_cells s k = (if shares lost k s = 0 then None else Some (int (shares lost k s))))"

definition heap_wf :: "sock_heap \<Rightarrow> bool" where
  "heap_wf s \<longleftrightarrow> heap_counts [] s"

lemma group_size_Cons [simp]:
  "group_size k (x # objs) = (if snd (snd x) = k then Suc (group_size k objs) else group_size k objs)"
  by (simp add: group_size_def)

lemma group_size_0: "group_size k objs = 0 \<longleftrightarrow> (\<forall>x \<in> set objs. snd (snd x) \<noteq> k)"
  by (simp add: group_size_def filter_empty_conv)

lemma drop_obj_absent: "a \<notin> fst ` set objs \<Longrightarrow> drop_obj a objs = objs"
  by (auto simp: drop_obj_def filter_id_conv)

lemma group_size_drop:
  "distinct (map fst objs) \<Longrightarrow> map_of objs a = Some (f, k) \<Longrightarrow>
   group_size j objs = group_size j (drop_obj a objs) + (if j = k then 1 else 0)"
proof (induction objs)
  case (Cons x objs)
  show ?case
  proof (cases "fst x = a")
    case True
    with Cons.prems have "drop_obj a objs = objs" "x = (a, f, k)"
      by (auto simp: drop_obj_absent prod_eq_iff)
    then show ?thesis by (simp add: drop_obj_def)
  next
    case False
    with Cons show ?thesis by (cases x) (simp add: drop_obj_def)
  qed
qed simp

lemma map_of_live: "a \<in> fst ` set objs \<Longrightarrow> \<exists>f k. map_of objs a = Some (f, k)"
  by (metis map_of_eq_None_iff not_None_eq surj_pair)

lemma heap_counts_cell:
  assumes "heap_counts lost s" "map_of (sock_objs s) a = Some (f, k)"
  shows "ref_cells s k = Some (int (shares lost k s))" "group_size k (sock_objs s) > 0" "k < next_cell s"
  using assms map_of_SomeD [OF assms(2)] group_size_0 [of k "sock_objs s"]
  by (auto simp: heap_counts_def shares_def)

lemma heap_wf_cell:
  assumes "heap_wf s" "map_of (sock_objs s) a = Some (f, k)"
  shows "ref_cells s k = Some (int (group_size k (sock_objs s)))" "group_size k (sock_objs s) > 0" "k < next_cell s"
  using heap_counts_cell [OF assms(1) [unfolded heap_wf_def] assms(2)] by (simp_all add: shares_def)

lemma heap_counts_new:
  assumes "heap_counts lost s"
  shows "shares lost (next_cell s) s = 0"
  using assms by (auto simp: heap_counts_def shares_def group_size_0 count_list_0_iff)

text \<open>One operation of the counted heap is one operation of the specification.\<close>

lemma new_counter_counts:
  assumes "heap_counts lost s" "a \<notin> fst ` set (sock_objs s)"
  shows "heap_counts lost (new_counter a f s)"
  using assms heap_counts_new [OF assms(1)]
  by (auto simp: heap_counts_def shares_def new_counter_def less_Suc_eq)

lemma sock_step_Create:
  assumes "heap_counts lost s" "a \<notin> fst ` set (sock_objs s)"
  shows "heap_counts lost (state_of (socket_create a f s)) \<and>
    owners_of lost (state_of (socket_create a f s)) = owner_step (Create a f) (owners_of lost s)"
proof -
  let ?s = "emit Call_socket (socket_start s)"
  have same: "heap_counts lost ?s" using assms(1) by (simp add: heap_counts_def shares_def emit_def socket_start_def)
  have "heap_counts lost (new_counter a f ?s)"
    using new_counter_counts [OF same] assms(2) by (simp add: emit_def socket_start_def)
  with same show ?thesis
    by (auto simp: socket_create_def socket_start_def new_counter_def owners_of_def emit_def Let_def)
qed

lemma sock_step_Wrap:
  assumes "heap_counts lost s" "a \<notin> fst ` set (sock_objs s)"
  shows "heap_counts lost (socket_wrap a f s) \<and>
    owners_of lost (socket_wrap a f s) = owner_step (Wrap a f) (owners_of lost s)"
proof -
  have same: "heap_counts lost (socket_start s)" using assms(1) by (simp add: heap_counts_def shares_def socket_start_def)
  have "heap_counts lost (new_counter a f (socket_start s))"
    using new_counter_counts [OF same] assms(2) by (simp add: socket_start_def)
  then show ?thesis by (simp add: socket_wrap_def new_counter_def socket_start_def owners_of_def)
qed

lemma sock_step_Copy:
  assumes wf: "heap_counts lost s" and a: "a \<notin> fst ` set (sock_objs s)" and b: "b \<in> fst ` set (sock_objs s)"
  shows "\<exists>t. socket_copy a b s = Some t \<and> heap_counts lost t \<and> owners_of lost t = owner_step (Copy a b) (owners_of lost s)"
proof -
  obtain f k where fk: "map_of (sock_objs s) b = Some (f, k)" using map_of_live [OF b] by blast
  show ?thesis
    using wf a fk heap_counts_cell [OF wf fk] by (auto simp: socket_copy_def heap_counts_def shares_def owners_of_def)
qed

lemma drop_obj_counts:
  assumes "heap_counts lost s" "map_of (sock_objs s) a = Some (f, k)"
  shows "distinct (map fst (drop_obj a (sock_objs s)))" "a \<notin> fst ` set (drop_obj a (sock_objs s))"
    "\<forall>x \<in> set (drop_obj a (sock_objs s)). snd (snd x) < next_cell s"
    "group_size j (sock_objs s) = group_size j (drop_obj a (sock_objs s)) + (if j = k then 1 else 0)"
  using assms(1) group_size_drop [OF _ assms(2), of j]
  by (auto simp: heap_counts_def drop_obj_def distinct_map_filter)

lemma sock_step_Assign:
  assumes wf: "heap_counts lost s" and a: "a \<in> fst ` set (sock_objs s)" and b: "b \<in> fst ` set (sock_objs s)"
  shows "\<exists>t k. socket_assign a b s = Some t \<and> heap_counts (k # lost) t \<and>
    owners_of (k # lost) t = owner_step (Assign a b) (owners_of lost s)"
proof -
  obtain f k g j where fk: "map_of (sock_objs s) a = Some (f, k)" and gj: "map_of (sock_objs s) b = Some (g, j)"
    using map_of_live [OF a] map_of_live [OF b] by blast
  let ?t = "s\<lparr>sock_objs := (a, g, j) # drop_obj a (sock_objs s),
    ref_cells := (ref_cells s)(j \<mapsto> int (shares lost j s) + 1), nofSockets := nofSockets s + 1\<rparr>"
  note rest = drop_obj_counts [OF wf fk]
  have "shares (k # lost) i ?t = shares lost i s + (if i = j then 1 else 0)" for i
    using rest(4) [of i] by (simp add: shares_def)
  then have "heap_counts (k # lost) ?t"
    using wf rest(1-3) heap_counts_cell(3) [OF wf fk] heap_counts_cell(3) [OF wf gj] by (simp add: heap_counts_def)
  moreover have "socket_assign a b s = Some ?t" "owners_of (k # lost) ?t = owner_step (Assign a b) (owners_of lost s)"
    using fk gj heap_counts_cell(1) [OF wf gj] by (simp_all add: socket_assign_def owners_of_def)
  ultimately show ?thesis by blast
qed

lemma sock_step_Destroy:
  assumes wf: "heap_counts lost s" and a: "a \<in> fst ` set (sock_objs s)"
  shows "\<exists>t. socket_destroy a s = Some t \<and> heap_counts lost t \<and> owners_of lost t = owner_step (Destroy a) (owners_of lost s)"
proof -
  obtain f k where fk: "map_of (sock_objs s) a = Some (f, k)" using map_of_live [OF a] by blast
  note cell = heap_counts_cell [OF wf fk]
  let ?rest = "drop_obj a (sock_objs s)" and ?n = "shares lost k s"
  note rest = drop_obj_counts [OF wf fk]
  have last: "int ?n - 1 = 0 \<longleftrightarrow> \<not> (k \<in> set lost \<or> (\<exists>x \<in> set ?rest. snd (snd x) = k))"
    using rest(4) [of k] group_size_0 [of k ?rest] count_list_0_iff [of lost k] by (auto simp: shares_def)
  obtain t where t: "socket_destroy a s = Some t" "sock_objs t = ?rest" "next_cell t = next_cell s"
    "ref_cells t = (if int ?n - 1 = 0 then (ref_cells s)(k := None) else (ref_cells s)(k \<mapsto> int ?n - 1))"
    "closes (trace t) = closes (trace s) @ (if int ?n - 1 = 0 then [f] else [])"
    using fk cell(1) by (simp add: socket_destroy_def socket_Close_def emit_def Let_def)
  have "shares lost i s = shares lost i t + (if i = k then 1 else 0)" for i
    using rest(4) [of i] by (simp add: shares_def t)
  then have "ref_cells t i = (if shares lost i t = 0 then None else Some (int (shares lost i t)))" for i
    using wf t(4) by (auto simp: heap_counts_def)
  then have "heap_counts lost t" using wf rest(1,3) by (simp add: heap_counts_def t(2,3))
  then show ?thesis using t fk last by (auto simp: owners_of_def Let_def)
qed

lemma sock_step_refines:
  assumes "heap_counts lost s" "proper_op op s"
  shows "\<exists>t lost'. sock_step op s = Some t \<and> heap_counts lost' t \<and> owners_of lost' t = owner_step op (owners_of lost s)"
proof (cases op)
  case (Create a f)
  with assms sock_step_Create [of lost s a f] show ?thesis by auto
next
  case (Wrap a f)
  with assms sock_step_Wrap [of lost s a f] show ?thesis by auto
next
  case (Copy a b)
  with assms sock_step_Copy [of lost s a b] show ?thesis by auto
next
  case (Assign a b)
  with assms sock_step_Assign [of lost s a b] show ?thesis by auto
next
  case (Destroy a)
  with assms sock_step_Destroy [of lost s a] show ?thesis by auto
qed

lemma proper_run_refines:
  "heap_counts lost s \<Longrightarrow> proper_run ops s \<Longrightarrow>
   \<exists>t lost'. sock_run ops s = Some t \<and> heap_counts lost' t \<and> owners_of lost' t = fold owner_step ops (owners_of lost s)"
proof (induction ops arbitrary: s lost)
  case (Cons op ops)
  obtain u l where u: "sock_step op s = Some u" "heap_counts l u" "owners_of l u = owner_step op (owners_of lost s)"
    using sock_step_refines [OF Cons.prems(1), of op] Cons.prems(2) by auto
  with Cons.IH [of l u] Cons.prems(2) show ?case by auto
qed auto

text \<open>A cell whose owners were overwritten is never looked at again.\<close>

definition orphan :: "nat \<Rightarrow> sock_heap \<Rightarrow> bool" where
  "orphan k s \<longleftrightarrow> ref_cells s k \<noteq> None \<and> k < next_cell s \<and> (\<forall>a f. (a, f, k) \<notin> set (sock_objs s))"

lemma orphan_step:
  assumes o: "orphan k s" and step: "sock_step op s = Some t"
  shows "orphan k t"
proof -
  have [simp]: "map_of (sock_objs s) b \<noteq> Some (f, k)" for b f
    using o by (auto simp: orphan_def dest: map_of_SomeD)
  show ?thesis
    using o step
    by (cases op)
      (auto simp: orphan_def socket_create_def socket_start_def new_counter_def socket_wrap_def
        socket_copy_def socket_assign_def socket_destroy_def socket_Close_def drop_obj_def emit_def
        Let_def split: option.splits if_splits prod.splits)
qed

lemma orphan_run: "orphan k s \<Longrightarrow> sock_run ops s = Some t \<Longrightarrow> orphan k t"
  by (induction ops arbitrary: s) (auto dest: orphan_step split: option.splits)

text \<open>Assignment leaks.  After \<open>a = b\<close> for two sockets with counters of their own, where
  \<open>a\<close> was the only owner of its descriptor, the counter \<open>a\<close> had stays allocated for ever and
  belongs to nobody, whatever is done with sockets afterwards; so the old descriptor is not
  closed by the assignment, nor by any destructor later on.\<close>

theorem assignment_leaks:
  assumes "heap_wf s" "map_of (sock_objs s) a = Some (f, k)" "map_of (sock_objs s) b = Some (g, j)"
    and "j \<noteq> k" "group_size k (sock_objs s) = 1"
  shows "\<exists>t. socket_assign a b s = Some t \<and> closes (trace t) = closes (trace s) \<and>
    (\<forall>ops u. sock_run ops t = Some u \<longrightarrow>
       ref_cells u k \<noteq> None \<and> (\<forall>x \<in> set (sock_objs u). snd (snd x) \<noteq> k))"
proof -
  note cell = heap_wf_cell [OF assms(1)]
  obtain t where t: "socket_assign a b s = Some t"
    "t = s\<lparr>sock_objs := (a, g, j) # drop_obj a (sock_objs s),
          ref_cells := (ref_cells s)(j \<mapsto> int (group_size j (sock_objs s)) + 1),
          nofSockets := nofSockets s + 1\<rparr>"
    using assms cell [OF assms(3)] by (simp add: socket_assign_def)
  have "group_size k (drop_obj a (sock_objs s)) = 0"
    using group_size_drop [OF _ assms(2), of k] assms(1,5) by (simp add: heap_wf_def heap_counts_def)
  then have "orphan k t"
    using assms(4) cell [OF assms(2)] by (auto simp: orphan_def t group_size_0)
  then have "ref_cells u k \<noteq> None \<and> (\<forall>x \<in> set (sock_objs u). snd (snd x) \<noteq> k)"
    if "sock_run ops t = Some u" for ops u
    using orphan_run [OF _ that] by (force simp: orphan_def)
  then show ?thesis
    using t by simp
qed

lemma assignment_leaks_witness:
  "\<exists>t u. socket_assign 1 2 (socket_wrap 2 8 (socket_wrap 1 7 empty_heap)) = Some t \<and>
    sock_run [Destroy 1, Destroy 2] t = Some u \<and> ref_cells u 0 \<noteq> None"
proof -
  let ?s = "socket_wrap 2 8 (socket_wrap 1 7 empty_heap)"
  have "heap_wf ?s" "map_of (sock_objs ?s) 1 = Some (7, 0)" "map_of (sock_objs ?s) 2 = Some (8, 1)"
    "group_size 0 (sock_objs ?s) = 1"
    by (simp_all add: empty_heap_def heap_wf_def heap_counts_def shares_def group_size_def socket_wrap_def socket_start_def
        new_counter_def)
  from assignment_leaks [OF this(1,2,3) _ this(4)] obtain t where
    t: "socket_assign 1 2 ?s = Some t" and
    leak: "\<And>ops u. sock_run ops t = Some u \<Longrightarrow> ref_cells u 0 \<noteq> None" by auto
  have "\<exists>u. sock_run [Destroy 1, Destroy 2] t = Some u"
    using t by (auto simp: socket_assign_def empty_heap_def socket_wrap_def socket_start_def
        new_counter_def socket_destroy_def socket_Close_def drop_obj_def emit_def Let_def)
  then show ?thesis using t leak by blast
qed

text \<open>A client socket closes its descriptor twice.  Destroying the only owner of a descriptor
  issues \<open>close\<close> on it in the derived destructor and again in the base destructor; and while a
  copy is alive the derived destructor closes the descriptor under the copy's feet.\<close>

theorem client_socket_double_close:
  assumes "heap_wf s" "map_of (sock_objs s) a = Some (f, k)"
  shows "\<exists>t. client_socket_destroy a s = Some t \<and>
    closes (trace t) = closes (trace s) @ (if group_size k (sock_objs s) = 1 then [f, f] else [f]) \<and>
    (\<forall>b \<noteq> a. map_of (sock_objs t) b = map_of (sock_objs s) b)"
proof -
  have "map_of (drop_obj a objs) b = map_of objs b" if "b \<noteq> a" for b and objs :: "(nat \<times> fd \<times> nat) list"
    using that by (induction objs) (auto simp: drop_obj_def)
  then show ?thesis
    using heap_wf_cell [OF assms] assms(2)
    by (auto simp: client_socket_destroy_def socket_destroy_def socket_Close_def emit_def Let_def)
qed

lemma client_socket_double_close_witness:
  "\<exists>t. client_socket_destroy 1 (socket_wrap 1 7 empty_heap) = Some t \<and>
    closes (trace t) = closes (trace (socket_wrap 1 7 empty_heap)) @
      (if group_size 0 (sock_objs (socket_wrap 1 7 empty_heap)) = 1 then [7, 7] else [7]) \<and>
    (\<forall>b \<noteq> 1. map_of (sock_objs t) b = map_of (sock_objs (socket_wrap 1 7 empty_heap)) b)"
  by (rule client_socket_double_close)
    (simp_all add: empty_heap_def heap_wf_def heap_counts_def shares_def group_size_def socket_wrap_def socket_start_def
      new_counter_def)

end
