(* ===== verification/SocketIO.thy ===== *)
theory SocketIO
  imports Posix
begin

text \<open>
  Reading from and writing to a \<open>Socket\<close> (\<open>Socket.cpp\<close> of the protocol server, the connection
  pool and the pass-through proxy).  What the kernel answers to the successive \<open>recv\<close> and
  \<open>ioctl(FIONREAD)\<close> calls of a routine is a list of answers; a routine that needs an answer the
  list does not hold blocks (\<open>None\<close>).  The calls are recorded in the trace as everywhere.
\<close>

datatype answer = ARecv recv_res | AIoctl int nat  \<comment> \<open>return value, bytes available\<close>

section \<open>ReceiveBytes\<close>

text \<open>\<open>IsSerialDataAvailable\<close>: 0 when the \<open>ioctl\<close> fails.\<close>

definition IsSerialDataAvailable :: "int \<Rightarrow> nat \<Rightarrow> nat" where
  "IsSerialDataAvailable rc avail = (if rc \<noteq> 0 then 0 else avail)"

text \<open>The protocol server's version: read first (retrying when interrupted), ask afterwards.\<close>

fun receiveBytes ::
  "fd \<Rightarrow> nat \<Rightarrow> string \<Rightarrow> answer list \<Rightarrow> 'a os_scheme \<Rightarrow> (string \<times> answer list \<times> 'a os_scheme) option" where
  "receiveBytes f arg ret (ARecv r # as) s =
     (let s1 = emit (Call_recv f arg) s in
      if r = RErr EINTR then receiveBytes f arg ret as s1
      else if recv_status r < 0 then Some (ret, as, s1)
      else if recv_status r = 0 then Some (ret, as, s1)
      else
        (case as of
           AIoctl rc avail # as1 \<Rightarrow>
             let ret1 = ret @ recv_bytes r;
                 s2 = emit (Call_ioctl_fionread f) s1;
                 arg1 = IsSerialDataAvailable rc avail
             in if arg1 = 0 then Some (ret1, as1, s2)
                else receiveBytes f (if arg1 > 1024 then 1024 else arg1) ret1 as1 s2
         | _ \<Rightarrow> None))"
| "receiveBytes f arg ret _ s = None"

definition ReceiveBytes ::
  "fd \<Rightarrow> answer list \<Rightarrow> 'a os_scheme \<Rightarrow> (string \<times> answer list \<times> 'a os_scheme) option" where
  "ReceiveBytes f as s = receiveBytes f 1024 [] as s"

text \<open>The connection pool's version: ask first, and read only what is there.\<close>

fun pool_receiveBytes ::
  "fd \<Rightarrow> string \<Rightarrow> answer list \<Rightarrow> 'a os_scheme \<Rightarrow> (string \<times> answer list \<times> 'a os_scheme) option" where
  "pool_receiveBytes f ret (AIoctl rc avail # as) s =
     (let s1 = emit (Call_ioctl_fionread f) s in
      if rc \<noteq> 0 then Some (ret, as, s1)
      else if avail = 0 then Some (ret, as, s1)
      else
        (case as of
           ARecv r # as1 \<Rightarrow>
             let s2 = emit (Call_recv f (if avail > 1024 then 1024 else avail)) s1
             in if recv_status r < 0 then Some (ret, as1, s2)
                else if recv_status r = 0 then Some (ret, as1, s2)
                else pool_receiveBytes f (ret @ recv_bytes r) as1 s2
         | _ \<Rightarrow> None))"
| "pool_receiveBytes f ret _ s = None"

text \<open>The pass-through proxy's version: the two ways of ending are one test.\<close>

fun proxy_receiveBytes ::
  "fd \<Rightarrow> string \<Rightarrow> answer list \<Rightarrow> 'a os_scheme \<Rightarrow> (string \<times> answer list \<times> 'a os_scheme) option" where
  "proxy_receiveBytes f ret (AIoctl rc avail # as) s =
     (let s1 = emit (Call_ioctl_fionread f) s in
      if rc \<noteq> 0 \<or> avail = 0 then Some (ret, as, s1)
      else
        (case as of
           ARecv r # as1 \<Rightarrow>
             let s2 = emit (Call_recv f (if avail > 1024 then 1024 else avail)) s1
             in if recv_status r \<le> 0 then Some (ret, as1, s2)
                else proxy_receiveBytes f (ret @ recv_bytes r) as1 s2
         | _ \<Rightarrow> None))"
| "proxy_receiveBytes f ret _ s = None"

section \<open>Lines\<close>

text \<open>\<open>ReceiveLine\<close> reads a byte at a time; an error throws away what was read.\<close>

fun receiveLine :: "fd \<Rightarrow> string \<Rightarrow> recv_res list \<Rightarrow> 'a os_scheme \<Rightarrow>
    (string \<times> recv_res list \<times> 'a os_scheme) option" where
  "receiveLine f ret [] s = None"
| "receiveLine f ret (r # rs) s =
     (let s1 = emit (Call_recv f 1) s in
      if recv_status r = 0 then Some (ret, rs, s1)
      else if recv_status r = -1 then Some ([], rs, s1)
      else
        let c = hd (recv_bytes r); ret1 = ret @ [c] in
        if c = CHR 0x0A then Some (ret1, rs, s1) else receiveLine f ret1 rs s1)"

definition ReceiveLine ::
  "fd \<Rightarrow> recv_res list \<Rightarrow> 'a os_scheme \<Rightarrow> (string \<times> recv_res list \<times> 'a os_scheme) option" where
  "ReceiveLine f rs s = receiveLine f [] rs s"

definition SendLine :: "fd \<Rightarrow> string \<Rightarrow> 'a os_scheme \<Rightarrow> 'a os_scheme" where
  "SendLine f str s =
     (let str1 = str @ [CHR 0x0A] in emit (Call_send f (str1 @ [NUL]) (length str1)) s)"

text \<open>The proxy's \<open>SendBytes(const std::string &)\<close>.\<close>

definition SendString :: "fd \<Rightarrow> string \<Rightarrow> 'a os_scheme \<Rightarrow> 'a os_scheme" where
  "SendString f str s = emit (Call_send f (str @ [NUL]) (length str)) s"

text \<open>\<open>SendBytes(char *, int)\<close>: \<open>buf\<close> is the object the pointer leads to.\<close>

definition SendBytes :: "fd \<Rightarrow> string \<Rightarrow> nat \<Rightarrow> 'a os_scheme \<Rightarrow> 'a os_scheme" where
  "SendBytes f buf len s = emit (Call_send f buf len) s"

text \<open>\<open>SendBytes(void *, int)\<close>; \<open>ret\<close> is what \<open>send\<close> returns.\<close>

definition SendBytes_checked ::
  "fd \<Rightarrow> string \<Rightarrow> nat \<Rightarrow> int \<Rightarrow> 'a os_scheme \<Rightarrow> bool \<times> 'a os_scheme" where
  "SendBytes_checked f buf len ret s = (ret \<noteq> -1, emit (Call_send f buf len) s)"

section \<open>Receive, RecvBlocking, Peek, isConnected\<close>

text \<open>The bytes stored in the caller's buffer and the new length, on success.\<close>

definition Receive :: "fd \<Rightarrow> nat \<Rightarrow> recv_res \<Rightarrow> 'a os_scheme \<Rightarrow> (string \<times> nat) option \<times> 'a os_scheme" where
  "Receive f len r s =
     (let s1 = emit (Call_recv f len) s in
      if recv_status r = 0 \<or> recv_status r = -1 then (None, s1)
      else (Some (recv_bytes r, nat (recv_status r)), s1))"

text \<open>
  \<open>RecvBlocking\<close> keeps the result of \<open>recv\<close> in a \<open>size_t\<close>: -1 becomes \<open>2 ^ 64 - 1\<close>, which is
  neither 0 nor negative.  \<open>writes\<close> lists what has been stored, with its offset from the start
  of the caller's buffer; adding \<open>2 ^ 64 - 1\<close> to the pointer moves it one byte back.
\<close>

fun recvBlocking ::
  "64 word \<Rightarrow> 64 word \<Rightarrow> int \<Rightarrow> (int \<times> string) list \<Rightarrow> recv_res list \<Rightarrow>
   (int \<times> (int \<times> string) list \<times> recv_res list) option" where
  "recvBlocking len remaining offset writes [] = None"
| "recvBlocking len remaining offset writes (r # rs) =
     (let this = word_of_int (recv_status r) :: 64 word;
          writes1 = (if recv_bytes r = [] then writes else writes @ [(offset, recv_bytes r)]) in
      if this \<le> 0 then Some (sint (ucast this :: 32 word), writes1, rs)
      else
        let remaining1 = remaining - this; offset1 = offset + sint this in
        if remaining1 > 0 then recvBlocking len remaining1 offset1 writes1 rs
        else Some (sint (ucast len :: 32 word), writes1, rs))"

definition RecvBlocking ::
  "64 word \<Rightarrow> recv_res list \<Rightarrow> (int \<times> (int \<times> string) list \<times> recv_res list) option" where
  "RecvBlocking len rs = recvBlocking len len 0 [] rs"

text \<open>\<open>Peek\<close>: without an iteration the result is read uninitialised.\<close>

fun peek :: "int option \<Rightarrow> recv_res list \<Rightarrow> int option" where
  "peek result [] = result"
| "peek result (r # rs) = (if recv_status r = 1 then Some 1 else peek (Some (recv_status r)) rs)"

definition Peek :: "nat \<Rightarrow> recv_res list \<Rightarrow> int option" where
  "Peek iterations rs = peek None (take iterations rs)"

definition isConnected :: "int \<Rightarrow> int \<Rightarrow> bool" where
  "isConnected ret error \<longleftrightarrow> ret = 0 \<and> error = 0"

section \<open>What a kernel with buffered data answers\<close>

text \<open>
  A kernel that holds \<open>p\<close> and gets nothing more: it may interrupt a \<open>recv\<close>, and gives any
  nonempty part of what it holds, no more than asked for; \<open>FIONREAD\<close> reports what is left.
\<close>

inductive serves :: "nat \<Rightarrow> string \<Rightarrow> answer list \<Rightarrow> bool" where
  interrupted: "serves arg p as \<Longrightarrow> serves arg p (ARecv (RErr EINTR) # as)"
| last: "p \<noteq> [] \<Longrightarrow> length p \<le> arg \<Longrightarrow> serves arg p [ARecv (RData p), AIoctl 0 0]"
| part: "d \<noteq> [] \<Longrightarrow> p \<noteq> [] \<Longrightarrow> length d \<le> arg \<Longrightarrow> serves (min 1024 (length p)) p as \<Longrightarrow>
    serves arg (d @ p) (ARecv (RData d) # AIoctl 0 (length p) # as)"

inductive serves_asked :: "string \<Rightarrow> answer list \<Rightarrow> bool" where
  empty: "serves_asked [] [AIoctl 0 0]"
| chunk: "d \<noteq> [] \<Longrightarrow> length d \<le> 1024 \<Longrightarrow> serves_asked p as \<Longrightarrow>
    serves_asked (d @ p) (AIoctl 0 (length (d @ p)) # ARecv (RData d) # as)"

lemma receiveBytes_drains:
  "serves arg p as \<Longrightarrow>
   \<exists>t. receiveBytes f arg ret (as @ later) s = Some (ret @ p, later, t)"
proof (induction arbitrary: ret s rule: serves.induct)
  case (part d p arg as)
  then have "(if length p > 1024 then 1024 else length p) = min 1024 (length p)" by simp
  then show ?case
    using part.hyps part.IH [of "ret @ d"] by (auto simp: IsSerialDataAvailable_def Let_def)
qed (auto simp: IsSerialDataAvailable_def Let_def)

lemma pool_receiveBytes_drains:
  "serves_asked p as \<Longrightarrow>
   \<exists>t. pool_receiveBytes f ret (as @ later) s = Some (ret @ p, later, t)"
proof (induction arbitrary: ret s rule: serves_asked.induct)
  case (chunk d p as)
  then show ?case using chunk.IH [of "ret @ d"] by (auto simp: Let_def)
qed (simp add: Let_def)

lemma recv_status_cases: "recv_status r = 0 \<or> recv_status r = -1 \<or> recv_status r > 0"
  by (cases r) auto

lemma proxy_is_pool: "proxy_receiveBytes f ret as s = pool_receiveBytes f ret as s"
proof (induction f ret as s rule: proxy_receiveBytes.induct)
  case (1 f ret rc avail as s)
  then show ?case
    by (cases as) (auto simp: Let_def split: answer.splits)
qed (simp_all)


section \<open>Reading exactly a given number of bytes\<close>

text \<open>Where the chunks of a transfer belong in the buffer.\<close>

fun placed :: "int \<Rightarrow> string list \<Rightarrow> (int \<times> string) list" where
  "placed offset [] = []"
| "placed offset (d # ds) = (offset, d) # placed (offset + int (length d)) ds"

lemma word_length_props:
  assumes "n < 2 ^ 63"
  shows "sint (word_of_nat n :: 64 word) = int n" "uint (word_of_nat n :: 64 word) = int n"
proof -
  have n: "int n < 9223372036854775808" using assms by simp
  then show "uint (word_of_nat n :: 64 word) = int n"
    using assms by (simp add: uint_nat unat_of_nat)
  show "sint (word_of_nat n :: 64 word) = int n"
    using n by (simp add: signed_of_nat signed_take_bit_int_eq_self)
qed

lemma recvBlocking_step:
  assumes "length d \<le> m" "m < 2 ^ 63" "d \<noteq> []"
  shows "recvBlocking len (word_of_nat m) offset ws (RData d # rs) =
     (if length d < m
      then recvBlocking len (word_of_nat (m - length d)) (offset + int (length d)) (ws @ [(offset, d)]) rs
      else Some (sint (ucast len :: 32 word), ws @ [(offset, d)], rs))"
proof -
  have d: "length d < 2 ^ 63" and r: "m - length d < 2 ^ 63" using assms by linarith+
  have got: "(word_of_int (int (length d)) :: 64 word) = word_of_nat (length d)" by simp
  have pos: "\<not> (word_of_nat (length d) :: 64 word) \<le> 0"
    using word_length_props(2) [OF d] assms(3) by (simp add: word_le_def)
  have rem: "(word_of_nat m :: 64 word) - word_of_nat (length d) = word_of_nat (m - length d)"
    using assms(1) by (simp add: of_nat_diff)
  have rest: "(word_of_nat (m - length d) :: 64 word) > 0 \<longleftrightarrow> length d < m"
    using word_length_props(2) [OF r] by (simp add: word_less_def)
  show ?thesis
    using pos rest assms(3) word_length_props(1) [OF d]
    by (simp add: got rem Let_def)
qed

lemma recvBlocking_chunks:
  "ds \<noteq> [] \<Longrightarrow> \<forall>d \<in> set ds. d \<noteq> [] \<Longrightarrow> length (concat ds) < 2 ^ 63 \<Longrightarrow>
   recvBlocking len (word_of_nat (length (concat ds))) offset ws (map RData ds @ rs) =
     Some (sint (ucast len :: 32 word), ws @ placed offset ds, rs)"
proof (induction ds arbitrary: offset ws)
  case (Cons d ds)
  show ?case
  proof (cases "ds = []")
    case True
    with Cons.prems show ?thesis using recvBlocking_step [of d "length d" len offset ws rs] by simp
  next
    case False
    then have pos: "0 < length (concat ds)" using Cons.prems(2) by (cases ds) auto
    with False Cons show ?thesis
      using recvBlocking_step [of d "length (concat (d # ds))" len offset ws "map RData ds @ rs"] by simp
  qed
qed simp

section \<open>Properties\<close>

text \<open>C27: \<open>ReceiveBytes\<close> drains the socket.  Whatever sizes the kernel hands its buffered data out
  in, and however often it interrupts the reads, all three versions of the routine return exactly
  the buffered bytes, in order, and stop; the protocol server's version needs the buffer to be
  nonempty (it blocks otherwise), the other two return the empty string at once when it is
  empty.\<close>

theorem receive_bytes_drains:
  assumes "serves 1024 p as" "serves_asked q bs"
  shows "(\<exists>t. ReceiveBytes f (as @ later) s = Some (p, later, t)) \<and>
    (\<exists>t. pool_receiveBytes f [] (bs @ later) s = Some (q, later, t)) \<and>
    (\<exists>t. proxy_receiveBytes f [] (bs @ later) s = Some (q, later, t))"
  using receiveBytes_drains [OF assms(1), of f "[]" later s]
    pool_receiveBytes_drains [OF assms(2), of f "[]" later s]
  by (simp add: ReceiveBytes_def proxy_is_pool)

lemma receive_bytes_drains_witness:
  "(\<exists>t. ReceiveBytes 4 ([ARecv (RErr EINTR), ARecv (RData ''ab''), AIoctl 0 1, ARecv (RData ''c''), AIoctl 0 0]
        @ []) \<lparr>trace = []\<rparr> = Some (''abc'', [], t)) \<and>
    (\<exists>t. pool_receiveBytes 4 [] ([AIoctl 0 2, ARecv (RData ''xy''), AIoctl 0 0] @ []) \<lparr>trace = []\<rparr> =
       Some (''xy'', [], t)) \<and>
    (\<exists>t. proxy_receiveBytes 4 [] ([AIoctl 0 2, ARecv (RData ''xy''), AIoctl 0 0] @ []) \<lparr>trace = []\<rparr> =
       Some (''xy'', [], t))"
proof (rule receive_bytes_drains)
  have "serves (min 1024 (length ''c'')) ''c'' [ARecv (RData ''c''), AIoctl 0 0]"
    by (rule serves.last) simp_all
  then have "serves 1024 (''ab'' @ ''c'') (ARecv (RData ''ab'') # AIoctl 0 (length ''c'') # [ARecv (RData ''c''), AIoctl 0 0])"
    by (intro serves.part) simp_all
  then show "serves 1024 ''abc'' [ARecv (RErr EINTR), ARecv (RData ''ab''), AIoctl 0 1, ARecv (RData ''c''), AIoctl 0 0]"
    by (intro serves.interrupted) simp
  show "serves_asked ''xy'' [AIoctl 0 2, ARecv (RData ''xy''), AIoctl 0 0]"
    using serves_asked.chunk [OF _ _ serves_asked.empty, of "''xy''"] by (simp add: numeral_2_eq_2)
qed

text \<open>Reading several lines, one after the other.\<close>

fun read_lines ::
  "nat \<Rightarrow> fd \<Rightarrow> recv_res list \<Rightarrow> 'a os_scheme \<Rightarrow> (string list \<times> recv_res list \<times> 'a os_scheme) option" where
  "read_lines 0 f rs s = Some ([], rs, s)"
| "read_lines (Suc n) f rs s =
     (case ReceiveLine f rs s of
        None \<Rightarrow> None
      | Some (l, rs1, s1) \<Rightarrow>
          (case read_lines n f rs1 s1 of
             None \<Rightarrow> None
           | Some (ls, rs2, s2) \<Rightarrow> Some (l # ls, rs2, s2)))"

text \<open>A byte stream, delivered to reads of one byte.\<close>

definition byte_by_byte :: "string \<Rightarrow> recv_res list" where
  "byte_by_byte bs = map (\<lambda>c. RData [c]) bs"

lemma receiveLine_line:
  "CHR 0x0A \<notin> set l \<Longrightarrow>
   \<exists>t. receiveLine f ret (byte_by_byte (l @ [CHR 0x0A]) @ rs) s = Some (ret @ l @ [CHR 0x0A], rs, t)"
proof (induction l arbitrary: ret s)
  case (Cons c l)
  then show ?case using Cons.IH [of "ret @ [c]"] by (auto simp: byte_by_byte_def Let_def)
qed (simp add: byte_by_byte_def Let_def)

text \<open>C28: \<open>SendLine\<close> and \<open>ReceiveLine\<close> are inverse: if the bytes one side puts on the wire by sending
  lines (without newlines in them) reach the other side, reading that many lines there yields
  the same lines, each with its newline, and consumes exactly those bytes.\<close>

theorem lines_round_trip:
  assumes "\<forall>l \<in> set ls. CHR 0x0A \<notin> set l"
  shows "\<exists>sent t. wire (fold (SendLine f) ls s) = wire s @ sent \<and>
    read_lines (length ls) g (byte_by_byte (concat sent) @ rs) r =
      Some (map (\<lambda>l. l @ [CHR 0x0A]) ls, rs, t)"
proof -
  have "wire (fold (SendLine f) ls s) = wire s @ map (\<lambda>l. l @ [CHR 0x0A]) ls"
    by (induction ls arbitrary: s) (simp_all add: SendLine_def Let_def)
  moreover have "\<exists>t. read_lines (length ls) g
      (byte_by_byte (concat (map (\<lambda>l. l @ [CHR 0x0A]) ls)) @ rs) r =
        Some (map (\<lambda>l. l @ [CHR 0x0A]) ls, rs, t)"
    using assms
  proof (induction ls arbitrary: r)
    case (Cons l ls)
    let ?more = "byte_by_byte (concat (map (\<lambda>l. l @ [CHR 0x0A]) ls)) @ rs"
    obtain u where u: "receiveLine g [] (byte_by_byte (l @ [CHR 0x0A]) @ ?more) r =
        Some ([] @ l @ [CHR 0x0A], ?more, u)"
      using receiveLine_line [of l g "[]" ?more r] Cons.prems by auto
    have split: "byte_by_byte (concat (map (\<lambda>l. l @ [CHR 0x0A]) (l # ls))) @ rs =
        byte_by_byte (l @ [CHR 0x0A]) @ ?more"
      by (simp add: byte_by_byte_def)
    obtain t where "read_lines (length ls) g ?more u = Some (map (\<lambda>l. l @ [CHR 0x0A]) ls, rs, t)"
      using Cons.IH [of u] Cons.prems by auto
    then show ?case using u unfolding split by (simp add: ReceiveLine_def)
  qed (simp add: byte_by_byte_def)
  ultimately show ?thesis by blast
qed

lemma lines_round_trip_witness:
  "\<exists>sent t. wire (fold (SendLine 4) [''ab'', [], ''c''] \<lparr>trace = []\<rparr>) = wire \<lparr>trace = []\<rparr> @ sent \<and>
    read_lines (length [''ab'', [], ''c'']) 5 (byte_by_byte (concat sent) @ [REof]) \<lparr>trace = []\<rparr> =
      Some (map (\<lambda>l. l @ [CHR 0x0A]) [''ab'', [], ''c''], [REof], t)"
  by (rule lines_round_trip) simp

text \<open>\<open>RecvBlocking\<close> on a healthy connection fills the buffer exactly: the chunks are stored one
  behind the other from the start of the buffer, without gap or overlap, and the length asked
  for is returned.\<close>

theorem recv_blocking_exact:
  assumes "ds \<noteq> []" "\<forall>d \<in> set ds. d \<noteq> []" "length (concat ds) < 2 ^ 31"
  shows "RecvBlocking (word_of_nat (length (concat ds))) (map RData ds @ rs) =
    Some (int (length (concat ds)), placed 0 ds, rs)"
proof -
  have "length (concat ds) < 2 ^ 63" using assms(3) by simp
  moreover have "sint (ucast (word_of_nat (length (concat ds)) :: 64 word) :: 32 word) = int (length (concat ds))"
    using assms(3) by (simp add: unsigned_of_nat signed_take_bit_int_eq_self take_bit_nat_eq_self
        signed_of_nat del: length_concat)
  ultimately show ?thesis
    using recvBlocking_chunks [OF assms(1,2), of "word_of_nat (length (concat ds))" 0 "[]" rs]
    by (simp add: RecvBlocking_def)
qed

lemma recv_blocking_exact_witness:
  "RecvBlocking (word_of_nat (length (concat [''ab'', ''c'']))) (map RData [''ab'', ''c''] @ []) =
    Some (int (length (concat [''ab'', ''c''])), placed 0 [''ab'', ''c''], [])"
  by (rule recv_blocking_exact) simp_all

text \<open>\<open>RecvBlocking\<close> does not notice an error: its result is kept unsigned, so after a failed
  \<open>recv\<close> the routine goes on with a pointer one byte before the buffer and one byte more to
  read.  A sender that then delivers one byte too many has it all stored, starting at offset -1,
  and the routine reports success.\<close>

theorem recv_blocking_underflow:
  assumes "length d = Suc n" "0 < n" "n < 2 ^ 31 - 1"
  shows "RecvBlocking (word_of_nat n) (RErr e # RData d # rs) = Some (int n, [(-1, d)], rs)"
proof -
  have n: "sint (ucast (word_of_nat n :: 64 word) :: 32 word) = int n"
    using assms(3) by (simp add: unsigned_of_nat signed_take_bit_int_eq_self take_bit_nat_eq_self
        signed_of_nat)
  have big: "Suc n < 2 ^ 63" using assms(3) by simp
  have pos: "(word_of_nat (Suc n) :: 64 word) > 0"
    using word_length_props(2) [OF big] by (simp only: word_less_def) simp
  have "recvBlocking (word_of_nat n) (word_of_nat n) 0 [] (RErr e # RData d # rs) =
      recvBlocking (word_of_nat n) (word_of_nat (Suc n)) (-1) [] (RData d # rs)"
    using pos by (simp add: Let_def add.commute)
  then show ?thesis
    using recvBlocking_step [of d "Suc n" "word_of_nat n" "-1" "[]" rs] assms big n
    by (cases d) (simp_all add: RecvBlocking_def del: recvBlocking.simps of_nat_Suc)
qed

lemma recv_blocking_underflow_witness:
  "RecvBlocking (word_of_nat 2) (RErr EINTR # RData ''abc'' # []) = Some (int 2, [(-1, ''abc'')], [])"
  by (rule recv_blocking_underflow) simp_all

end
