(* ===== verification/SocketConn.thy ===== *)
theory SocketConn
  imports SocketIO
begin

text \<open>
  Setting up and waiting on connections: \<open>SocketSelect\<close>, \<open>CClientSocket\<close>,
  \<open>CServerSocket\<close> (protocol server and connection pool) and the classes of the pass-through
  proxy's \<open>Socket.cpp\<close>, with \<open>ProtocolHelper\<close> of the pool.  A constructor or method takes the
  answers of the calls it makes, and yields the object's descriptor \<open>s_\<close> afterwards with the
  new state; an exception is \<open>Inl\<close>, a null pointer dereferenced is \<open>None\<close>.
\<close>

section \<open>SocketSelect\<close>

definition select_request :: "fd \<Rightarrow> fd option \<Rightarrow> fd list" where
  "select_request s1 s2 = s1 # (case s2 of None \<Rightarrow> [] | Some f \<Rightarrow> [f])"

definition select_max :: "fd \<Rightarrow> fd option \<Rightarrow> fd" where
  "select_max s1 s2 = (case s2 of None \<Rightarrow> s1 | Some f \<Rightarrow> max s1 f)"

text \<open>
  The protocol server's constructor catches its own exception, and \<open>fds_\<close> keeps the requested
  members: a failed \<open>select\<close> leaves the sets unmodified.
\<close>

definition server_SocketSelect ::
  "fd \<Rightarrow> fd option \<Rightarrow> int \<Rightarrow> fd list \<Rightarrow> 'a os_scheme \<Rightarrow> fd list \<times> 'a os_scheme" where
  "server_SocketSelect s1 s2 rv ready s =
     (let req = select_request s1 s2;
          st = emit (Call_select (select_max s1 s2 + 1) req []) s in
      if rv = -1 then (req, st) else (fd_select req ready, st))"

text \<open>The connection pool's constructor throws.\<close>

definition pool_SocketSelect ::
  "fd \<Rightarrow> fd option \<Rightarrow> int \<Rightarrow> fd list \<Rightarrow> 'a os_scheme \<Rightarrow> (string + fd list) \<times> 'a os_scheme" where
  "pool_SocketSelect s1 s2 rv ready s =
     (let req = select_request s1 s2;
          st = emit (Call_select (select_max s1 s2 + 1) req []) s in
      if rv = -1 then (Inl ''Error in select'', st) else (Inr (fd_select req ready), st))"

text \<open>The proxy's constructor reads \<open>s2->s_\<close> whether or not there is a second socket.\<close>

definition proxy_SocketSelect ::
  "fd \<Rightarrow> fd option \<Rightarrow> int \<Rightarrow> fd list \<Rightarrow> 'a os_scheme \<Rightarrow> ((string + fd list) \<times> 'a os_scheme) option" where
  "proxy_SocketSelect s1 s2 rv ready s =
     (case s2 of
        None \<Rightarrow> None
      | Some f \<Rightarrow>
          let st = emit (Call_select (max s1 f + 1) [s1, f] []) s in
          if rv = -1 then Some (Inl ''Error in select'', st)
          else Some (Inr (fd_select [s1, f] ready), st))"

definition Readable :: "fd \<Rightarrow> fd list \<Rightarrow> bool" where
  "Readable f fds = FD_ISSET f fds"

section \<open>ProtocolHelper of the pool\<close>

definition SetReadTimeOut :: "fd \<Rightarrow> int \<Rightarrow> 'a os_scheme \<Rightarrow> bool \<times> 'a os_scheme" where
  "SetReadTimeOut f rv s = (rv \<noteq> -1, emit (Call_setsockopt f) s)"

definition SetKeepAlive :: "fd \<Rightarrow> int \<Rightarrow> 'a os_scheme \<Rightarrow> bool \<times> 'a os_scheme" where
  "SetKeepAlive f rv s = (rv \<noteq> -1, emit (Call_setsockopt f) s)"

definition ReadSocketBuffer :: "fd \<Rightarrow> nat \<Rightarrow> recv_res \<Rightarrow> 'a os_scheme \<Rightarrow> bool \<times> int \<times> 'a os_scheme" where
  "ReadSocketBuffer f len r s =
     (let s1 = emit (Call_recv f len) s; rv = recv_status r in
      if rv = 0 \<or> rv = -1 then (False, rv, s1) else (True, rv, s1))"

definition WriteSocketBuffer :: "fd \<Rightarrow> string \<Rightarrow> nat \<Rightarrow> int \<Rightarrow> 'a os_scheme \<Rightarrow> bool \<times> 'a os_scheme" where
  "WriteSocketBuffer f bfr len rv s = (\<not> (rv = 0 \<or> rv = -1), emit (Call_send f bfr len) s)"

text \<open>\<open>GetIPPortAsString\<close> prints \<open>sin_port\<close>, which is in network byte order.\<close>

definition htons :: "16 word \<Rightarrow> 16 word" where
  "htons p = or (push_bit 8 p) (drop_bit 8 p)"

definition GetIPPort :: "16 word \<Rightarrow> nat" where
  "GetIPPort sin_port = unat sin_port"

section \<open>CClientSocket\<close>

text \<open>The resolver's two calls: whether they return a host entry.\<close>

record resolver =
  by_name :: bool
  by_addr :: bool

definition is_alpha :: "char \<Rightarrow> bool" where
  "is_alpha c \<longleftrightarrow> (of_char c :: nat) \<in> {65..90} \<union> {97..122}"

text \<open>Whether \<open>m_HostPointer\<close> points anywhere afterwards: the result of \<open>gethostbyaddr\<close> is not
  looked at.  \<open>host[0]\<close> of an empty string is NUL.\<close>

definition Resolve :: "string \<Rightarrow> resolver \<Rightarrow> string + bool" where
  "Resolve host r =
     (if is_alpha (hd (host @ [NUL])) then
        (if by_name r then Inr True else Inl ''Unable to get host endpoint by name'')
      else Inr (by_addr r))"

definition server_Connect ::
  "string \<Rightarrow> int \<Rightarrow> resolver \<Rightarrow> int \<Rightarrow> fd \<Rightarrow> 'a os_scheme \<Rightarrow> 'a os_scheme completion option" where
  "server_Connect name port r rv f s =
     (case Resolve (c_str name) r of
        Inl e \<Rightarrow> Some (Raised e s)
      | Inr False \<Rightarrow> None
      | Inr True \<Rightarrow>
          let s1 = emit (Call_connect f (port_of port)) s in
          if rv \<noteq> 0 then Some (Raised ''connect'' s1) else Some (Done s1))"

text \<open>The pool's version sets two options on the connected socket and ignores their failure.\<close>

definition pool_Connect ::
  "string \<Rightarrow> int \<Rightarrow> resolver \<Rightarrow> int \<Rightarrow> fd \<Rightarrow> 'a os_scheme \<Rightarrow> 'a os_scheme completion option" where
  "pool_Connect name port r rv f s =
     (case Resolve (c_str name) r of
        Inl e \<Rightarrow> Some (Raised e s)
      | Inr False \<Rightarrow> None
      | Inr True \<Rightarrow>
          let s1 = emit (Call_connect f (port_of port)) s in
          if rv \<noteq> 0 then Some (Raised ''connect'' s1)
          else
            let s2 = snd (SetReadTimeOut f 0 s1)
            in Some (Done (snd (SetKeepAlive f 0 s2))))"

text \<open>\<open>CreateSocket\<close> stores whatever \<open>socket\<close> returned before it checks it.\<close>

definition CreateSocket :: "int \<Rightarrow> 'a os_scheme \<Rightarrow> fd \<times> 'a os_scheme completion" where
  "CreateSocket sock s =
     (let s1 = emit Call_socket s in
      (sock, if sock = -1 then Raised ''INVALID_SOCKET'' s1 else Done s1))"

text \<open>\<open>Reconnect\<close>: \<open>connect\<close> is \<open>server_Connect\<close> or \<open>pool_Connect\<close> with its arguments.\<close>

definition Reconnect ::
  "(fd \<Rightarrow> 'a os_scheme \<Rightarrow> 'a os_scheme completion option) \<Rightarrow> int \<Rightarrow> fd \<Rightarrow> 'a os_scheme \<Rightarrow>
   (fd \<times> 'a os_scheme completion) option" where
  "Reconnect connect sock f s =
     (let s1 = emit (Call_close f) s in
      case CreateSocket sock s1 of
        (g, Raised e s2) \<Rightarrow> Some (g, Raised e s2)
      | (g, Done s2) \<Rightarrow> map_option (\<lambda>c. (g, c)) (connect g s2))"

text \<open>
  The constructor: the base class creates the socket, \<open>strcpy\<close> copies the name into 255 bytes
  (\<open>None\<close> when it does not fit), and an exception of \<open>Connect\<close> runs the base destructor, which
  closes the socket.
\<close>

definition client_ctor ::
  "(fd \<Rightarrow> 'a os_scheme \<Rightarrow> 'a os_scheme completion option) \<Rightarrow> string \<Rightarrow> int \<Rightarrow> 'a os_scheme \<Rightarrow>
   (fd \<times> 'a os_scheme completion) option" where
  "client_ctor connect name sock s =
     (case CreateSocket sock s of
        (f, Raised e s1) \<Rightarrow> Some (f, Raised e s1)
      | (f, Done s1) \<Rightarrow>
          if 255 \<le> length (c_str name) then None
          else (case connect f s1 of
                  None \<Rightarrow> None
                | Some (Done s2) \<Rightarrow> Some (f, Done s2)
                | Some (Raised e s2) \<Rightarrow> Some (f, Raised e (emit (Call_close f) s2))))"

section \<open>CServerSocket\<close>

record listen_env =
  l_base :: int  \<comment> \<open>the socket the base-class constructor creates\<close>
  l_socket :: int
  l_setsockopt :: int
  l_getfl :: int
  l_setfl :: int
  l_bind :: int
  l_listen :: int

text \<open>
  The constructor of the protocol server's \<open>CServerSocket\<close>: the base class \<open>Socket()\<close> has already
  created a socket; \<open>s_\<close> is overwritten with a second one.  An exception runs \<open>~Socket\<close>.
\<close>

definition server_ctor ::
  "bool \<Rightarrow> listen_env \<Rightarrow> 'a os_scheme \<Rightarrow> fd \<times> 'a os_scheme completion" where
  "server_ctor nonblocking e s =
     (case CreateSocket (l_base e) s of
        (f, Raised m s1) \<Rightarrow> (f, Raised m s1)
      | (f, Done s1) \<Rightarrow>
          let g = l_socket e; s2 = emit Call_socket s1 in
          if g = -1 then (g, Raised ''INVALID_SOCKET'' (emit (Call_close g) s2))
          else
            let s3 = emit (Call_setsockopt g) s2 in
            if l_setsockopt e < 0
            then (g, Raised ''setsockopt(SO_REUSEADDR) failed'' (emit (Call_close g) s3))
            else if nonblocking then (g, Done (snd (make_nonblocking g (l_getfl e) (l_setfl e) s3)))
            else (g, Done s3))"

text \<open>\<open>Open\<close>: bind, listen, and start the listening thread (the thread is modelled with the
  server's dispatch).\<close>

definition server_Open :: "listen_env \<Rightarrow> int \<Rightarrow> nat \<Rightarrow> fd \<Rightarrow> 'a os_scheme \<Rightarrow> 'a os_scheme completion" where
  "server_Open e port max_connections f s =
     (let s1 = emit (Call_bind f (port_of port)) s in
      if l_bind e = -1 then Raised ''INVALID_SOCKET'' (emit (Call_close f) s1)
      else
        let s2 = emit (Call_listen f max_connections) s1 in
        if l_listen e = -1 then Raised ''LISTEN_ERROR'' s2 else Done s2)"

text \<open>The pool's constructor does both; its exceptions run \<open>~Socket\<close> too.\<close>

definition pool_server_ctor ::
  "int \<Rightarrow> nat \<Rightarrow> bool \<Rightarrow> listen_env \<Rightarrow> 'a os_scheme \<Rightarrow> fd \<times> 'a os_scheme completion" where
  "pool_server_ctor port max_connections nonblocking e s =
     (case server_ctor nonblocking e s of
        (f, Raised m s1) \<Rightarrow> (f, Raised m s1)
      | (f, Done s1) \<Rightarrow>
          let s2 = emit (Call_bind f (port_of port)) s1 in
          if l_bind e = -1 then
            (f, Raised ''INVALID_SOCKET'' (emit (Call_close f) (emit (Call_close f) s2)))
          else
            let s3 = emit (Call_listen f max_connections) s2 in
            if l_listen e = -1 then (f, Raised ''LISTEN_ERROR'' (emit (Call_close f) s3))
            else (f, Done s3))"

text \<open>\<open>Accept\<close>: a null pointer (\<open>Inr None\<close>) when nobody is waiting on a non-blocking socket.\<close>

definition server_Accept ::
  "fd \<Rightarrow> int \<Rightarrow> errno \<Rightarrow> 'a os_scheme \<Rightarrow> (string + fd option) \<times> 'a os_scheme" where
  "server_Accept f c err s =
     (let s1 = emit (Call_accept f) s in
      if c = -1 then (if err = EAGAIN then (Inr None, s1) else (Inl ''Invalid Socket'', s1))
      else (Inr (Some c), s1))"

definition pool_Accept ::
  "fd \<Rightarrow> int \<Rightarrow> errno \<Rightarrow> 'a os_scheme \<Rightarrow> (string + fd option) \<times> 'a os_scheme" where
  "pool_Accept f c err s =
     (let s1 = emit (Call_accept f) s in
      if c = -1 then (if err = EAGAIN then (Inr None, s1) else (Inl ''Invalid Socket'', s1))
      else (Inr (Some c), snd (SetKeepAlive c 0 (snd (SetReadTimeOut c 0 s1)))))"

definition proxy_Accept ::
  "fd \<Rightarrow> int \<Rightarrow> errno \<Rightarrow> int \<Rightarrow> int \<Rightarrow> 'a os_scheme \<Rightarrow> (string + fd option) \<times> 'a os_scheme" where
  "proxy_Accept f c err getfl setfl s =
     (let s1 = emit (Call_accept f) s in
      if c = -1 then (if err = EAGAIN then (Inr None, s1) else (Inl ''Invalid Socket'', s1))
      else (Inr (Some c), snd (make_nonblocking c getfl setfl s1)))"

text \<open>The proxy's \<open>SocketServer\<close> and \<open>SocketClient\<close>; the result of \<open>listen\<close> is not looked at.\<close>

definition proxy_server_ctor ::
  "int \<Rightarrow> nat \<Rightarrow> bool \<Rightarrow> listen_env \<Rightarrow> 'a os_scheme \<Rightarrow> fd \<times> 'a os_scheme completion" where
  "proxy_server_ctor port n nonblocking e s =
     (case CreateSocket (l_base e) s of
        (f, Raised m s1) \<Rightarrow> (f, Raised m s1)
      | (f, Done s1) \<Rightarrow>
          let g = l_socket e; s2 = emit Call_socket s1 in
          if g = -1 then (g, Raised ''INVALID_SOCKET'' (emit (Call_close g) s2))
          else
            let s3 = (if nonblocking then snd (make_nonblocking g (l_getfl e) (l_setfl e) s2) else s2);
                s4 = emit (Call_bind g (port_of port)) s3 in
            if l_bind e = -1 then
              (g, Raised ''INVALID_SOCKET'' (emit (Call_close g) (emit (Call_close g) s4)))
            else (g, Done (emit (Call_listen g n) s4)))"

definition proxy_client_ctor ::
  "int \<Rightarrow> bool \<Rightarrow> int \<Rightarrow> int \<Rightarrow> 'a os_scheme \<Rightarrow> fd \<times> 'a os_scheme completion" where
  "proxy_client_ctor sock found rv port s =
     (case CreateSocket sock s of
        (f, Raised m s1) \<Rightarrow> (f, Raised m s1)
      | (f, Done s1) \<Rightarrow>
          if \<not> found then (f, Raised ''gethostbyname'' (emit (Call_close f) s1))
          else
            let s2 = emit (Call_connect f (port_of port)) s1 in
            if rv \<noteq> 0 then (f, Raised ''connect'' (emit (Call_close f) s2)) else (f, Done s2))"

section \<open>Properties\<close>

text \<open>The three \<open>SocketSelect\<close> constructors.  When \<open>select\<close> succeeds, exactly the requested
  descriptors the kernel reports are \<open>Readable\<close> afterwards in all three; when it fails, the pool
  and the proxy throw, while the protocol server goes on and finds every requested socket
  readable; and the proxy's version needs its second socket although it is declared optional.\<close>

theorem socket_select_versions:
  "(rv \<noteq> -1 \<longrightarrow>
      (\<forall>f. Readable f (fst (server_SocketSelect s1 s2 rv ready s)) \<longleftrightarrow>
           f \<in> set (select_request s1 s2) \<and> f \<in> set ready) \<and>
      fst (pool_SocketSelect s1 s2 rv ready s) = Inr (fst (server_SocketSelect s1 s2 rv ready s)) \<and>
      (\<forall>g. s2 = Some g \<longrightarrow> proxy_SocketSelect s1 s2 rv ready s = Some (pool_SocketSelect s1 s2 rv ready s))) \<and>
   (rv = -1 \<longrightarrow>
      (\<forall>f \<in> set (select_request s1 s2). Readable f (fst (server_SocketSelect s1 s2 rv ready s))) \<and>
      (\<exists>m. fst (pool_SocketSelect s1 s2 rv ready s) = Inl m) \<and>
      (\<forall>g. s2 = Some g \<longrightarrow> proxy_SocketSelect s1 s2 rv ready s = Some (pool_SocketSelect s1 s2 rv ready s))) \<and>
   proxy_SocketSelect s1 None rv ready s = None"
  by (auto simp: Readable_def server_SocketSelect_def pool_SocketSelect_def proxy_SocketSelect_def
      select_request_def select_max_def FD_ISSET_def Let_def split: option.splits)

lemma socket_select_versions_witness:
  "Readable 4 (fst (server_SocketSelect 4 (Some 5) (-1) [] \<lparr>trace = []\<rparr>)) \<and>
   \<not> Readable 5 (fst (server_SocketSelect 4 (Some 5) 1 [4] \<lparr>trace = []\<rparr>))"
  using socket_select_versions [of "-1" 4 "Some 5" "[]" "\<lparr>trace = []\<rparr>"]
    socket_select_versions [of 1 4 "Some 5" "[4]" "\<lparr>trace = []\<rparr>"]
  by (simp add: select_request_def)

text \<open>Repeated calls of \<open>Reconnect\<close>, each with its own environment; an exception leaves the
  object in place and the caller tries again.\<close>

fun reconnects ::
  "((fd \<Rightarrow> 'a os_scheme \<Rightarrow> 'a os_scheme completion option) \<times> int) list \<Rightarrow> fd \<Rightarrow> 'a os_scheme \<Rightarrow>
   (fd \<times> 'a os_scheme) option" where
  "reconnects [] f s = Some (f, s)"
| "reconnects ((connect, sock) # es) f s =
     (case Reconnect connect sock f s of
        None \<Rightarrow> None
      | Some (g, c) \<Rightarrow> reconnects es g (state_of c))"

lemma server_Connect_closes:
  "server_Connect name port r rv f s = Some c \<Longrightarrow> closes (trace (state_of c)) = closes (trace s)"
  by (auto simp: server_Connect_def Let_def split: sum.splits bool.splits if_splits)

lemma pool_Connect_closes:
  "pool_Connect name port r rv f s = Some c \<Longrightarrow> closes (trace (state_of c)) = closes (trace s)"
  by (auto simp: pool_Connect_def SetReadTimeOut_def SetKeepAlive_def Let_def
      split: sum.splits bool.splits if_splits)

text \<open>\<open>Reconnect\<close> does not leak descriptors: over any sequence of reconnections to any hosts,
  successful or failing at whatever point, each descriptor the object has had is closed exactly
  once, when it is replaced, and the object holds the newest one.\<close>

theorem reconnect_swaps_descriptors:
  assumes "\<forall>(connect, sock) \<in> set es. \<exists>name port r rv.
      connect = server_Connect name port r rv \<or> connect = pool_Connect name port r rv"
    and "reconnects es f s = Some (g, t)"
  shows "closes (trace t) = closes (trace s) @ butlast (f # map snd es) \<and> g = last (f # map snd es)"
  using assms
proof (induction es arbitrary: f s)
  case (Cons e es)
  obtain connect sock where e: "e = (connect, sock)" by (cases e) auto
  obtain h c where step: "Reconnect connect sock f s = Some (h, c)" and rest: "reconnects es h (state_of c) = Some (g, t)"
    using Cons.prems(2) by (auto simp: e split: option.splits prod.splits)
  have connect: "closes (trace (state_of d)) = closes (trace u)" if "connect x u = Some d" for x u d
    using Cons.prems(1) that by (auto simp: e dest: server_Connect_closes pool_Connect_closes)
  have "h = sock" "closes (trace (state_of c)) = closes (trace s) @ [f]"
    using step connect by (auto simp: Reconnect_def CreateSocket_def Let_def split: if_splits)
  with Cons.IH [of h "state_of c"] Cons.prems(1) rest show ?case by (auto simp: e)
qed simp

lemma reconnect_swaps_descriptors_witness:
  "\<exists>t. reconnects [(server_Connect ''db'' 1234 \<lparr>by_name = True, by_addr = True\<rparr> 0, 8),
        (pool_Connect ''db'' 1234 \<lparr>by_name = True, by_addr = True\<rparr> 1, 9)] 7 \<lparr>trace = []\<rparr> = Some (9, t) \<and>
     closes (trace t) = closes (trace \<lparr>trace = []\<rparr>) @ butlast (7 # map snd
       [(server_Connect ''db'' 1234 \<lparr>by_name = True, by_addr = True\<rparr> 0 :: fd \<Rightarrow> os \<Rightarrow> os completion option, 8),
        (pool_Connect ''db'' 1234 \<lparr>by_name = True, by_addr = True\<rparr> 1, 9)])"
proof -
  let ?es = "[(server_Connect ''db'' 1234 \<lparr>by_name = True, by_addr = True\<rparr> 0 :: fd \<Rightarrow> os \<Rightarrow> os completion option, 8),
    (pool_Connect ''db'' 1234 \<lparr>by_name = True, by_addr = True\<rparr> 1, 9)]"
  have host: "Resolve (c_str ''db'') \<lparr>by_name = True, by_addr = True\<rparr> = Inr True"
    by (simp add: Resolve_def is_alpha_def c_str_def)
  obtain t where t: "reconnects ?es 7 \<lparr>trace = []\<rparr> = Some (9, t)"
    by (simp add: Reconnect_def CreateSocket_def server_Connect_def pool_Connect_def host Let_def)
  moreover have "\<forall>(connect, sock) \<in> set ?es. \<exists>name port r rv.
      connect = server_Connect name port r rv \<or> connect = pool_Connect name port r rv"
    by auto
  ultimately show ?thesis
    using reconnect_swaps_descriptors [of ?es 7 "\<lparr>trace = []\<rparr>" 9 t] by blast
qed

text \<open>Every \<open>CServerSocket\<close> and \<open>SocketServer\<close> leaks a descriptor: the constructor of the base
  class opens one socket, the derived constructor overwrites \<open>s_\<close> with a second one, so whether
  the constructor succeeds or throws, the first socket is never closed by it, and the object
  that results does not know it any more.\<close>

theorem server_ctor_leaks:
  assumes "l_base e \<noteq> -1" "l_base e \<noteq> l_socket e"
    and "(f, c) \<in> {server_ctor nb e s, pool_server_ctor port n nb e s, proxy_server_ctor port n nb e s}"
  shows "f = l_socket e \<and> (\<exists>cs. closes (trace (state_of c)) = closes (trace s) @ cs \<and> l_base e \<notin> set cs)"
proof -
  have base: "f = l_socket e \<and> (\<exists>cs. closes (trace (state_of c)) = closes (trace s) @ cs \<and> l_base e \<notin> set cs)"
    if "server_ctor nb e s = (f, c)" for f c
    using that assms(1,2)
    by (auto simp: server_ctor_def CreateSocket_def make_nonblocking_closes Let_def split: if_splits)
  have proxy: "f = l_socket e \<and> (\<exists>cs. closes (trace (state_of c)) = closes (trace s) @ cs \<and> l_base e \<notin> set cs)"
    if "proxy_server_ctor port n nb e s = (f, c)" for f c
    using that assms(1,2)
    by (auto simp: proxy_server_ctor_def CreateSocket_def make_nonblocking_closes Let_def
        split: if_splits)
  have pool: "f = l_socket e \<and> (\<exists>cs. closes (trace (state_of c)) = closes (trace s) @ cs \<and> l_base e \<notin> set cs)"
    if "pool_server_ctor port n nb e s = (f, c)" for f c
  proof -
    obtain g d where gd: "server_ctor nb e s = (g, d)" by (cases "server_ctor nb e s") auto
    from base [OF gd] that show ?thesis
      using assms(2) by (cases d) (auto simp: pool_server_ctor_def gd Let_def split: if_splits)
  qed
  show ?thesis using assms(3) base [of f c] proxy [of f c] pool [of f c] by auto
qed

definition sample_listen :: listen_env where
  "sample_listen = \<lparr>l_base = 3, l_socket = 4, l_setsockopt = 0, l_getfl = 0, l_setfl = 0,
     l_bind = 0, l_listen = 0\<rparr>"

lemma server_ctor_leaks_witness:
  "fst (server_ctor False sample_listen \<lparr>trace = []\<rparr>) = l_socket sample_listen \<and>
   (\<exists>cs. closes (trace (state_of (snd (server_ctor False sample_listen \<lparr>trace = []\<rparr>)))) =
      closes (trace \<lparr>trace = []\<rparr>) @ cs \<and> l_base sample_listen \<notin> set cs)"
  by (rule server_ctor_leaks [where nb = False and port = 80 and n = 5])
    (simp_all add: sample_listen_def)

end
