(* ===== verification/Proxies.thy ===== *)
theory Proxies
  imports SocketConn
begin

text \<open>
  The blocking proxies.  \<open>passthrough-proxy/Proxy.cpp\<close> runs one thread per client that waits in
  \<open>SocketSelect\<close> and relays bytes both ways; \<open>ssl-proxy/Proxy.cpp\<close> serves one client after the
  other over TLS, first all of the client's data, then all of the target's.  The TLS library is
  not part of the repository: what its calls return is input, and what is handed to
  \<open>SSL_write\<close> is recorded.
\<close>

section \<open>Command line\<close>

text \<open>\<open>stream >> int\<close>: the number read and what stays in the stream.\<close>

definition extract_int :: "string \<Rightarrow> int \<times> string" where
  "extract_int st =
     (let t = dropWhile is_space st;
          u = (if t \<noteq> [] \<and> (hd t = CHR ''-'' \<or> hd t = CHR ''+'') then tl t else t)
      in (atoi st, dropWhile (\<lambda>c. digit_val c \<noteq> None) u))"

text \<open>Both ports go through one stream: \<open>clear\<close> resets its flags but keeps unread characters.\<close>

definition parse_ports :: "string \<Rightarrow> string \<Rightarrow> int \<times> int" where
  "parse_ports arg1 arg3 =
     (let (proxy_port, left) = extract_int arg1 in (proxy_port, fst (extract_int (left @ arg3))))"

section \<open>The pass-through proxy\<close>

text \<open>One turn's environment: the answers of \<open>select\<close> and of the reads on either socket.\<close>

record relay_env =
  re_select :: int
  re_ready :: "fd list"
  re_client :: "answer list"
  re_target :: "answer list"

text \<open>Read everything from one socket and send it to the other; \<open>False\<close> when there was nothing.\<close>

definition relay_side ::
  "fd \<Rightarrow> fd \<Rightarrow> bool \<Rightarrow> answer list \<Rightarrow> os \<Rightarrow> (bool \<times> os) option" where
  "relay_side from_fd to_fd readable as s =
     (if readable then
        (case proxy_receiveBytes from_fd [] as s of
           None \<Rightarrow> None
         | Some (bytes, as1, s1) \<Rightarrow> Some (bytes \<noteq> [], SendString to_fd bytes s1))
      else Some (True, s))"

text \<open>The body of the loop: an exception of \<open>SocketSelect\<close>, or whether both are still connected.\<close>

definition relay_turn :: "relay_env \<Rightarrow> fd \<Rightarrow> fd \<Rightarrow> os \<Rightarrow> ((string + bool) \<times> os) option" where
  "relay_turn e c t s =
     (case proxy_SocketSelect c (Some t) (re_select e) (re_ready e) s of
        None \<Rightarrow> None
      | Some (Inl m, s1) \<Rightarrow> Some (Inl m, s1)
      | Some (Inr fds, s1) \<Rightarrow>
          (case relay_side c t (Readable c fds) (re_client e) s1 of
             None \<Rightarrow> None
           | Some (ok1, s2) \<Rightarrow>
               (case relay_side t c (Readable t fds) (re_target e) s2 of
                  None \<Rightarrow> None
                | Some (ok2, s3) \<Rightarrow> Some (Inr (ok1 \<and> ok2), s3))))"

text \<open>The thread's loop.  An uncaught exception aborts the process (status 134); otherwise the
  thread deletes the client socket and the target socket's destructor runs.\<close>

fun relay_loop :: "relay_env list \<Rightarrow> fd \<Rightarrow> fd \<Rightarrow> os \<Rightarrow> os outcome option" where
  "relay_loop [] c t s = Some (Running s)"
| "relay_loop (e # es) c t s =
     (case relay_turn e c t s of
        None \<Rightarrow> None
      | Some (Inl m, s1) \<Rightarrow> Some (Exited 134 s1)
      | Some (Inr still_connected, s1) \<Rightarrow>
          if still_connected then relay_loop es c t s1
          else Some (Exited 0 (emit (Call_close t) (emit (Call_close c) s1))))"

definition RunProxyThread ::
  "int \<Rightarrow> bool \<Rightarrow> int \<Rightarrow> int \<Rightarrow> relay_env list \<Rightarrow> fd \<Rightarrow> os \<Rightarrow> os outcome option" where
  "RunProxyThread sock found connected server_port es c s =
     (case proxy_client_ctor sock found connected server_port s of
        (t, Raised m s1) \<Rightarrow> Some (Exited 134 s1)
      | (t, Done s1) \<Rightarrow> relay_loop es c t s1)"

text \<open>\<open>main\<close> up to its loop, and the loop: every accepted socket becomes a thread's argument, a null
  pointer (nobody waiting) included.\<close>

definition proxy_main_setup ::
  "nat \<Rightarrow> string \<Rightarrow> string \<Rightarrow> listen_env \<Rightarrow> os \<Rightarrow> (fd \<times> int) option \<times> os outcome" where
  "proxy_main_setup argc arg1 arg3 e s =
     (if argc < 4 then (None, Exited (-1) s)
      else
        let (proxy_port, server_port) = parse_ports arg1 arg3 in
        case proxy_server_ctor proxy_port 5 False e s of
          (f, Raised m s1) \<Rightarrow> (None, Exited 134 s1)
        | (f, Done s1) \<Rightarrow> (Some (f, server_port), Running s1))"

fun proxy_main_loop ::
  "(int \<times> errno \<times> int \<times> int) list \<Rightarrow> fd \<Rightarrow> os \<Rightarrow> fd option list \<times> os outcome" where
  "proxy_main_loop [] f s = ([], Running s)"
| "proxy_main_loop ((c, err, getfl, setfl) # es) f s =
     (case proxy_Accept f c err getfl setfl s of
        (Inl m, s1) \<Rightarrow> ([], Exited 134 s1)
      | (Inr client, s1) \<Rightarrow>
          let (rest, out) = proxy_main_loop es f s1 in (client # rest, out))"

section \<open>The TLS proxy\<close>

datatype tls_side = To_target | To_client

record tls_state = os +
  tls_written :: "(tls_side \<times> string) list"

text \<open>
  \<open>while ((bytes = SSL_read(...) > 0))\<close>: \<open>bytes\<close> is the truth value of the comparison, so
  every successful read is followed by writing one byte.  The list gives the result of each read
  and of the write after it.
\<close>

fun tls_pump ::
  "tls_side \<Rightarrow> (recv_res \<times> int) list \<Rightarrow> tls_state \<Rightarrow> ((recv_res \<times> int) list \<times> tls_state outcome) option" where
  "tls_pump side [] s = None"
| "tls_pump side ((r, w) # rws) s =
     (let bytes = (if recv_status r > 0 then 1 else 0 :: nat) in
      if bytes \<noteq> 0 then
        let s1 = s\<lparr>tls_written := tls_written s @ [(side, take bytes (recv_bytes r))]\<rparr> in
        if w < 0 then Some (rws, Exited 1 s1) else tls_pump side rws s1
      else Some (rws, Running s))"

record tls_env =
  tl_accept :: int
  tl_ssl_accept :: int
  tl_socket :: int
  tl_connect :: int
  tl_ssl_connect :: int
  tl_client :: "(recv_res \<times> int) list"
  tl_target :: "(recv_res \<times> int) list"

record tls_setup =
  ts_socket :: int
  ts_bind :: int
  ts_listen :: int

definition tls_proxy_setup ::
  "nat \<Rightarrow> string \<Rightarrow> string \<Rightarrow> bool \<Rightarrow> tls_setup \<Rightarrow> tls_state \<Rightarrow> tls_state outcome" where
  "tls_proxy_setup argc arg1 arg3 ctx_ok e s =
     (if argc < 4 then Exited (-1) s
      else if \<not> ctx_ok then Exited 1 s
      else
        let s1 = emit Call_socket s; sock = ts_socket e in
        if sock < 0 then Exited 1 s1
        else
          let s2 = emit (Call_bind sock (port_of (fst (parse_ports arg1 arg3)))) s1 in
          if ts_bind e < 0 then Exited 1 s2
          else
            let s3 = emit (Call_listen sock 5) s2 in
            if ts_listen e < 0 then Exited 1 s3 else Running s3)"

text \<open>One client, from \<open>accept\<close> to the two \<open>close\<close> calls.\<close>

definition tls_session :: "tls_env \<Rightarrow> fd \<Rightarrow> int \<Rightarrow> tls_state \<Rightarrow> tls_state outcome option" where
  "tls_session e server_socket server_port s =
     (let s1 = emit (Call_accept server_socket) s; c = tl_accept e; t = tl_socket e in
      if c < 0 then Some (Exited 1 s1)
      else if tl_ssl_accept e < 0 then Some (Exited 1 s1)
      else
        let s2 = emit Call_socket s1 in
        if t < 0 then Some (Exited 1 s2)
        else
          let s3 = emit (Call_connect t (port_of server_port)) s2 in
          if tl_connect e < 0 then Some (Exited 1 s3)
          else if tl_ssl_connect e < 0 then Some (Exited 1 s3)
          else
            (case tls_pump To_target (tl_client e) s3 of
               None \<Rightarrow> None
             | Some (rest, Exited k s4) \<Rightarrow> Some (Exited k s4)
             | Some (rest, Running s4) \<Rightarrow>
                 (case tls_pump To_client (tl_target e) s4 of
                    None \<Rightarrow> None
                  | Some (rest1, Exited k s5) \<Rightarrow> Some (Exited k s5)
                  | Some (rest1, Running s5) \<Rightarrow>
                      Some (Running (emit (Call_close c) (emit (Call_close t) s5))))))"

section \<open>Properties\<close>

text \<open>The bytes sent to a descriptor, as one stream.\<close>

definition stream_to :: "fd \<Rightarrow> 'a os_scheme \<Rightarrow> string" where
  "stream_to f s = concat (map (\<lambda>(g, object, len). if g = f then take len object else []) (sends (trace s)))"

lemma stream_to_SendString [simp]:
  "stream_to f (SendString g bytes s) = stream_to f s @ (if g = f then bytes else [])"
  by (simp add: stream_to_def SendString_def)

lemma stream_to_select [simp]: "stream_to f (emit (Call_select n r w) s) = stream_to f s"
  by (simp add: stream_to_def)

lemma pool_receiveBytes_sends:
  "pool_receiveBytes f ret as s = Some (b, rest, t) \<Longrightarrow>
   sends (trace t) = sends (trace s) \<and> hangups (trace t) = hangups (trace s)"
proof (induction f ret as s rule: pool_receiveBytes.induct)
  case (1 f ret rc avail as s)
  show ?case
    using "1.prems" "1.IH"
    by (auto simp: Let_def split: list.splits answer.splits if_splits)
qed simp_all

text \<open>One side of a turn, with the kernel holding \<open>p\<close> for it.\<close>

lemma relay_side_serves:
  assumes "serves_asked p as" "from_fd \<noteq> to_fd"
  shows "\<exists>u. relay_side from_fd to_fd readable as s = Some (readable \<longrightarrow> p \<noteq> [], u) \<and>
    stream_to to_fd u = stream_to to_fd s @ (if readable then p else []) \<and>
    stream_to from_fd u = stream_to from_fd s \<and> hangups (trace u) = hangups (trace s)"
proof -
  obtain v where v: "pool_receiveBytes from_fd [] as s = Some (p, [], v)"
    using pool_receiveBytes_drains [OF assms(1), of from_fd "[]" "[]" s] by auto
  have "stream_to g v = stream_to g s" "hangups (trace v) = hangups (trace s)" for g
    using pool_receiveBytes_sends [OF v] by (simp_all add: stream_to_def)
  moreover have "hangups (trace (SendString to_fd p v)) = hangups (trace v)"
    by (simp add: SendString_def)
  ultimately show ?thesis
    using v assms(2) by (auto simp: relay_side_def proxy_is_pool)
qed

lemma relay_turn_serves:
  assumes "re_select e \<noteq> -1" "serves_asked p (re_client e)" "serves_asked q (re_target e)" "c \<noteq> t"
  shows "\<exists>u. relay_turn e c t s =
      Some (Inr ((c \<in> set (re_ready e) \<longrightarrow> p \<noteq> []) \<and> (t \<in> set (re_ready e) \<longrightarrow> q \<noteq> [])), u) \<and>
    stream_to t u = stream_to t s @ (if c \<in> set (re_ready e) then p else []) \<and>
    stream_to c u = stream_to c s @ (if t \<in> set (re_ready e) then q else []) \<and>
    hangups (trace u) = hangups (trace s)"
proof -
  define s1 where "s1 = emit (Call_select (max c t + 1) [c, t] []) s"
  obtain u where u: "relay_side c t (c \<in> set (re_ready e)) (re_client e) s1 =
      Some (c \<in> set (re_ready e) \<longrightarrow> p \<noteq> [], u)"
    "stream_to t u = stream_to t s1 @ (if c \<in> set (re_ready e) then p else [])"
    "stream_to c u = stream_to c s1" "hangups (trace u) = hangups (trace s1)"
    using relay_side_serves [OF assms(2,4)] by blast
  obtain v where v: "relay_side t c (t \<in> set (re_ready e)) (re_target e) u =
      Some (t \<in> set (re_ready e) \<longrightarrow> q \<noteq> [], v)"
    "stream_to c v = stream_to c u @ (if t \<in> set (re_ready e) then q else [])"
    "stream_to t v = stream_to t u" "hangups (trace v) = hangups (trace u)"
    using relay_side_serves [OF assms(3) assms(4) [symmetric]] by blast
  have ready: "Readable c (fd_select [c, t] (re_ready e)) \<longleftrightarrow> c \<in> set (re_ready e)"
    "Readable t (fd_select [c, t] (re_ready e)) \<longleftrightarrow> t \<in> set (re_ready e)"
    by (simp_all add: Readable_def)
  show ?thesis
    using assms(1) u v
    by (simp add: relay_turn_def proxy_SocketSelect_def ready s1_def [symmetric] Let_def)
      (simp add: s1_def)
qed

text \<open>The pass-through proxy is transparent.  In every session, however \<open>select\<close> reports the two
  sockets and however the kernel hands out the data, the target is sent exactly the concatenation
  of what was read from the client, the client exactly what was read from the target, in order;
  the thread ends in the first turn in which a readable side has nothing, still forwards what the
  other side had, and closes both sockets once.\<close>

theorem relay_session:
  assumes "c \<noteq> t"
    and "\<forall>e \<in> set (es @ [e']). re_select e \<noteq> -1 \<and> serves_asked (P e) (re_client e) \<and>
      serves_asked (Q e) (re_target e)"
    and "\<forall>e \<in> set es. (c \<in> set (re_ready e) \<longrightarrow> P e \<noteq> []) \<and> (t \<in> set (re_ready e) \<longrightarrow> Q e \<noteq> [])"
    and "c \<in> set (re_ready e') \<and> P e' = [] \<or> t \<in> set (re_ready e') \<and> Q e' = []"
  shows "\<exists>u. relay_loop (es @ [e']) c t s = Some (Exited 0 u) \<and>
    stream_to t u = stream_to t s @ concat (map P (filter (\<lambda>e. c \<in> set (re_ready e)) (es @ [e']))) \<and>
    stream_to c u = stream_to c s @ concat (map Q (filter (\<lambda>e. t \<in> set (re_ready e)) (es @ [e']))) \<and>
    hangups (trace u) = hangups (trace s) @ [c, t]"
  using assms(2,3)
proof (induction es arbitrary: s)
  case Nil
  obtain u where u: "relay_turn e' c t s = Some (Inr False, u)"
    "stream_to t u = stream_to t s @ (if c \<in> set (re_ready e') then P e' else [])"
    "stream_to c u = stream_to c s @ (if t \<in> set (re_ready e') then Q e' else [])"
    "hangups (trace u) = hangups (trace s)"
    using relay_turn_serves [OF _ _ _ assms(1), of e' "P e'" "Q e'" s] Nil assms(4) by auto
  then show ?case by (auto simp: stream_to_def)
next
  case (Cons e es)
  obtain u where u: "relay_turn e c t s = Some (Inr True, u)"
    "stream_to t u = stream_to t s @ (if c \<in> set (re_ready e) then P e else [])"
    "stream_to c u = stream_to c s @ (if t \<in> set (re_ready e) then Q e else [])"
    "hangups (trace u) = hangups (trace s)"
    using relay_turn_serves [OF _ _ _ assms(1), of e "P e" "Q e" s] Cons.prems by auto
  moreover obtain v where "relay_loop (es @ [e']) c t u = Some (Exited 0 v)"
    "stream_to t v = stream_to t u @ concat (map P (filter (\<lambda>e. c \<in> set (re_ready e)) (es @ [e'])))"
    "stream_to c v = stream_to c u @ concat (map Q (filter (\<lambda>e. t \<in> set (re_ready e)) (es @ [e'])))"
    "hangups (trace v) = hangups (trace u) @ [c, t]"
    using Cons.IH [of u] Cons.prems by auto
  ultimately show ?case by simp
qed

definition sample_relay :: "fd list \<Rightarrow> answer list \<Rightarrow> relay_env" where
  "sample_relay ready as = \<lparr>re_select = 1, re_ready = ready, re_client = as, re_target = [AIoctl 0 0]\<rparr>"

lemma relay_session_witness:
  "\<exists>u. relay_loop ([sample_relay [4] [AIoctl 0 2, ARecv (RData ''hi''), AIoctl 0 0]] @ [sample_relay [5] [AIoctl 0 0]])
      4 5 \<lparr>trace = []\<rparr> = Some (Exited 0 u) \<and>
    stream_to 5 u = stream_to 5 \<lparr>trace = []\<rparr> @ concat (map (\<lambda>e. if re_ready e = [4] then ''hi'' else [])
      (filter (\<lambda>e. 4 \<in> set (re_ready e)) ([sample_relay [4] [AIoctl 0 2, ARecv (RData ''hi''), AIoctl 0 0]] @
        [sample_relay [5] [AIoctl 0 0]]))) \<and>
    stream_to 4 u = stream_to 4 \<lparr>trace = []\<rparr> @ concat (map (\<lambda>e. []) (filter (\<lambda>e. 5 \<in> set (re_ready e))
      ([sample_relay [4] [AIoctl 0 2, ARecv (RData ''hi''), AIoctl 0 0]] @ [sample_relay [5] [AIoctl 0 0]]))) \<and>
    hangups (trace u) = hangups (trace \<lparr>trace = []\<rparr>) @ [4, 5]"
proof (rule relay_session)
  have "serves_asked ''hi'' [AIoctl 0 2, ARecv (RData ''hi''), AIoctl 0 0]"
    using serves_asked.chunk [OF _ _ serves_asked.empty, of "''hi''"] by (simp add: numeral_2_eq_2)
  then show "\<forall>e \<in> set ([sample_relay [4] [AIoctl 0 2, ARecv (RData ''hi''), AIoctl 0 0]] @
      [sample_relay [5] [AIoctl 0 0]]).
    re_select e \<noteq> -1 \<and> serves_asked (if re_ready e = [4] then ''hi'' else []) (re_client e) \<and>
    serves_asked [] (re_target e)"
    by (simp add: sample_relay_def serves_asked.empty)
qed (simp_all add: sample_relay_def)

lemma tls_pump_one_byte:
  "\<forall>d \<in> set ds. d \<noteq> [] \<Longrightarrow> recv_status r \<le> 0 \<Longrightarrow>
   tls_pump side (map (\<lambda>d. (RData d, 1)) ds @ (r, w) # rest) s =
     Some (rest, Running (s\<lparr>tls_written := tls_written s @ map (\<lambda>d. (side, [hd d])) ds\<rparr>))"
proof (induction ds arbitrary: s)
  case (Cons d ds)
  then have "take 1 d = [hd d]" by (cases d) auto
  with Cons show ?case by (simp add: Let_def)
qed (auto simp: Let_def)

text \<open>The TLS proxy forwards one byte per read.  In a session in which the client sends the
  records \<open>ds\<close> and ends, and the target the records \<open>rs\<close> and ends, the target gets only the first
  byte of each of the client's records and the client only the first byte of each of the
  target's; and nothing goes back to the client before it has ended its own side, so no
  request can be answered while the client waits.\<close>

theorem tls_proxy_forwards_one_byte:
  assumes "0 \<le> tl_accept e" "0 \<le> tl_ssl_accept e" "0 \<le> tl_socket e" "0 \<le> tl_connect e" "0 \<le> tl_ssl_connect e"
    and "\<forall>d \<in> set ds. d \<noteq> []" "\<forall>d \<in> set rs. d \<noteq> []"
    and "tl_client e = map (\<lambda>d. (RData d, 1)) ds @ [(REof, 0)]"
    and "tl_target e = map (\<lambda>d. (RData d, 1)) rs @ [(REof, 0)]"
  shows "\<exists>u. tls_session e sock port s = Some (Running u) \<and>
    tls_written u = tls_written s @ map (\<lambda>d. (To_target, [hd d])) ds @ map (\<lambda>d. (To_client, [hd d])) rs"
  using assms by (simp add: tls_session_def tls_pump_one_byte Let_def emit_def)

lemma tls_proxy_forwards_one_byte_witness:
  "\<exists>u. tls_session \<lparr>tl_accept = 5, tl_ssl_accept = 1, tl_socket = 6, tl_connect = 0, tl_ssl_connect = 1,
       tl_client = map (\<lambda>d. (RData d, 1)) [''GET'', ''POST''] @ [(REof, 0)],
       tl_target = map (\<lambda>d. (RData d, 1)) [''ok''] @ [(REof, 0)]\<rparr> 4 443
      \<lparr>trace = [], tls_written = []\<rparr> = Some (Running u) \<and>
    tls_written u = tls_written \<lparr>trace = [], tls_written = []\<rparr> @
      map (\<lambda>d. (To_target, [hd d])) [''GET'', ''POST''] @ map (\<lambda>d. (To_client, [hd d])) [''ok'']"
  by (rule tls_proxy_forwards_one_byte) simp_all

end
