(* ===== verification/TlsEcho.thy ===== *)
theory TlsEcho
  imports Proxies SelectServer
begin

text \<open>
  \<open>ssl-client/Client.cpp\<close>: a TLS echo program that is a server (\<open>s\<close>) or a client.  Both sides
  read into a buffer of 128 bytes and then store a terminating NUL behind what was read; the
  store is checked against the buffer here (\<open>Overflow\<close>).  A routine whose next library or
  kernel answer is not supplied blocks (\<open>Blocked\<close>).
\<close>

section \<open>State\<close>

datatype stuck = Blocked | Overflow

record echo_state = os +
  tls_out :: "string list"
  echo_shown :: "string list"
  server_running :: bool

definition rxcap :: nat where
  "rxcap = 128"

text \<open>\<open>rxbuf[rxlen] = 0\<close> after \<open>rxlen\<close> bytes have been read to the start of the buffer, and
  the string that is then in the buffer.\<close>

definition terminate_rx :: "string \<Rightarrow> string option" where
  "terminate_rx d = (if length d < rxcap then Some (c_str (d @ [NUL])) else None)"

section \<open>Sockets and the resolver\<close>

definition create_socket :: "bool \<Rightarrow> setup_env \<Rightarrow> 'a os_scheme \<Rightarrow> 'a os_scheme outcome" where
  "create_socket isServer e s =
     (let s1 = emit Call_socket s; f = e_socket e in
      if f < 0 then Exited 1 s1
      else if isServer then
        let s2 = emit (Call_setsockopt f) s1 in
        if e_setsockopt e < 0 then Exited 1 s2
        else
          let s3 = emit (Call_bind f (port_of 443)) s2 in
          if e_bind e < 0 then Exited 1 s3
          else
            let s4 = emit (Call_listen f 1) s3 in
            if e_listen e < 0 then Exited 1 s4 else Running s4
      else Running s1)"

definition echo_resolve :: "string \<Rightarrow> resolver \<Rightarrow> string + bool" where
  "echo_resolve host r =
     (if is_alpha (hd (host @ [NUL])) then
        (if by_name r then Inr True else Inl ''Unable to get host endpoint by name'')
      else Inr (by_addr r))"

section \<open>The server\<close>

text \<open>The echo loop of one connection: what each \<open>SSL_read\<close> gives.  The result of
  \<open>SSL_write\<close> is only reported.\<close>

fun echo_loop :: "recv_res list \<Rightarrow> echo_state \<Rightarrow> stuck + (recv_res list \<times> echo_state)" where
  "echo_loop [] s = Inl Blocked"
| "echo_loop (r # rs) s =
     (if recv_status r \<le> 0 then Inr (rs, s)
      else
        (case terminate_rx (recv_bytes r) of
           None \<Rightarrow> Inl Overflow
         | Some str \<Rightarrow>
             if str = ''kill'' @ [CHR 0x0A] then Inr (rs, s\<lparr>server_running := False\<rparr>)
             else echo_loop rs (s\<lparr>echo_shown := echo_shown s @ [str],
                                  tls_out := tls_out s @ [recv_bytes r]\<rparr>)))"

text \<open>The accept loop: for each client the result of \<open>accept\<close>, of \<open>SSL_accept\<close>, and the reads.
  When the server has been told to stop, the last client is cleaned up after the loop.\<close>

fun echo_server ::
  "(int \<times> int \<times> recv_res list) list \<Rightarrow> fd \<Rightarrow> echo_state \<Rightarrow> stuck + echo_state outcome" where
  "echo_server [] sk s = Inr (Running s)"
| "echo_server ((c, hs, rs) # cls) sk s =
     (let s1 = emit (Call_accept sk) s in
      if c < 0 then Inr (Exited 1 s1)
      else if hs \<le> 0 then
        Inr (Exited 0 (emit (Call_close sk) (emit (Call_close c) (s1\<lparr>server_running := False\<rparr>))))
      else
        (case echo_loop rs s1 of
           Inl x \<Rightarrow> Inl x
         | Inr (rest, s2) \<Rightarrow>
             if server_running s2 then echo_server cls sk (emit (Call_close c) s2)
             else Inr (Exited 0 (emit (Call_close sk) (emit (Call_close c) s2)))))"

section \<open>The client\<close>

text \<open>\<open>sendRequest\<close>: a fixed request, one answer.  \<open>w\<close> is the result of \<open>SSL_write\<close>.\<close>

definition echo_sendRequest :: "string \<Rightarrow> int \<Rightarrow> recv_res \<Rightarrow> echo_state \<Rightarrow> stuck + echo_state" where
  "echo_sendRequest request w r s =
     (if w \<le> 0 then Inr s
      else
        let s1 = s\<lparr>tls_out := tls_out s @ [request]\<rparr> in
        if recv_status r \<le> 0 then Inr s1
        else
          (case terminate_rx (recv_bytes r) of
             None \<Rightarrow> Inl Overflow
           | Some str \<Rightarrow> Inr (s1\<lparr>echo_shown := echo_shown s1 @ [str]\<rparr>)))"

text \<open>The keyboard loop: lines as \<open>getline\<close> delivers them (an empty list is the end of input),
  with the results of the write and the read each needs.\<close>

fun echo_client :: "(string \<times> int \<times> recv_res) list \<Rightarrow> echo_state \<Rightarrow> stuck + echo_state" where
  "echo_client [] s = Inr s"
| "echo_client ((l, w, r) # ls) s =
     (if hd (l @ [NUL]) = CHR 0x0A then Inr s
      else if w \<le> 0 then Inr s
      else
        let s1 = s\<lparr>tls_out := tls_out s @ [l]\<rparr> in
        if recv_status r \<le> 0 then Inr s1
        else
          (case terminate_rx (recv_bytes r) of
             None \<Rightarrow> Inl Overflow
           | Some str \<Rightarrow> echo_client ls (s1\<lparr>echo_shown := echo_shown s1 @ [str]\<rparr>)))"

section \<open>Properties\<close>

lemma terminate_rx_small:
  "length d < 128 \<Longrightarrow> terminate_rx d = Some (c_str d)"
  by (simp add: terminate_rx_def rxcap_def c_str_cut)

text \<open>What a sequence of reads says before the connection ends or the kill command comes.\<close>

definition echoable :: "string \<Rightarrow> bool" where
  "echoable d \<longleftrightarrow> d \<noteq> [] \<and> length d < 128 \<and> c_str d \<noteq> ''kill'' @ [CHR 0x0A]"

lemma echo_loop_echoes:
  assumes "\<forall>d \<in> set ds. echoable d"
  shows "echo_loop (map RData ds @ rs) s =
     echo_loop rs (s\<lparr>echo_shown := echo_shown s @ map c_str ds, tls_out := tls_out s @ ds\<rparr>)"
  using assms
proof (induction ds arbitrary: s)
  case (Cons d ds)
  then show ?case by (simp add: echoable_def terminate_rx_small)
qed simp

text \<open>The echo server echoes.  Every record shorter than the buffer that is not the kill command is
  sent back unchanged and in order; a kill record then stops the server, without being echoed,
  and the server closes the client and its listening socket and ends with status 0.\<close>

theorem echo_server_echoes:
  assumes "\<forall>d \<in> set ds. echoable d" "0 \<le> c" "0 < hs" "c_str k = ''kill'' @ [CHR 0x0A]" "length k < 128"
  shows "\<exists>t. echo_server ((c, hs, map RData ds @ RData k # rs) # cls) sk s = Inr (Exited 0 t) \<and>
    tls_out t = tls_out s @ ds \<and> echo_shown t = echo_shown s @ map c_str ds \<and>
    closes (trace t) = closes (trace s) @ [c, sk]"
proof -
  have "k \<noteq> []" using assms(4) by (auto simp: c_str_def)
  then show ?thesis
    using assms terminate_rx_small [OF assms(5)]
    by (simp add: echo_loop_echoes Let_def) (simp add: emit_def)
qed

lemma echo_server_echoes_witness:
  "\<exists>t. echo_server ((5, 1, map RData [''hi'', ''ho''] @ RData (''kill'' @ [CHR 0x0A]) # []) # []) 4
      \<lparr>trace = [], tls_out = [], echo_shown = [], server_running = True\<rparr> = Inr (Exited 0 t) \<and>
    tls_out t = tls_out \<lparr>trace = [], tls_out = [], echo_shown = [], server_running = True\<rparr> @ [''hi'', ''ho''] \<and>
    echo_shown t = echo_shown \<lparr>trace = [], tls_out = [], echo_shown = [], server_running = True\<rparr> @
      map c_str [''hi'', ''ho''] \<and>
    closes (trace t) = closes (trace \<lparr>trace = [], tls_out = [], echo_shown = [], server_running = True\<rparr>) @ [5, 4]"
  by (rule echo_server_echoes) (simp_all add: echoable_def c_str_def)

text \<open>A full record overruns the echo program's buffer.  If a peer sends a record of exactly the
  128 bytes the program asks for, the terminating NUL is stored behind the buffer: in the
  server after any number of harmless records, and in the client for any answer to a line typed.\<close>

theorem echo_full_record_overflows:
  assumes "\<forall>d \<in> set ds. echoable d" "length full = rxcap" "0 \<le> c" "0 < hs" "0 < w" "hd (l @ [NUL]) \<noteq> CHR 0x0A"
  shows "echo_server ((c, hs, map RData ds @ RData full # rs) # cls) sk s = Inl Overflow \<and>
    echo_client ((l, w, RData full) # ls) s = Inl Overflow"
  using assms by (simp add: echo_loop_echoes terminate_rx_def rxcap_def Let_def)

lemma echo_full_record_overflows_witness:
  "echo_server ((5, 1, map RData [''hi''] @ RData (replicate 128 CHR ''x'') # []) # []) 4
      \<lparr>trace = [], tls_out = [], echo_shown = [], server_running = True\<rparr> = Inl Overflow \<and>
    echo_client ((''hi'', 1, RData (replicate 128 CHR ''x'')) # [])
      \<lparr>trace = [], tls_out = [], echo_shown = [], server_running = True\<rparr> = Inl Overflow"
  by (rule echo_full_record_overflows) (simp_all add: echoable_def c_str_def rxcap_def)

end
