(* ===== verification/FileUpload.thy ===== *)
theory FileUpload
  imports Posix
begin

text \<open>
  \<open>file-upload/main.cpp\<close>: an HTTP server that stores the body of a POST request in a file.
  \<open>handleClient\<close> is one connection's thread; it reads the request with one \<open>recv\<close>, looks for
  the Content-Length header and reads the body with a second one.  An exception that leaves the
  thread aborts the process (\<open>Exited 134\<close>).
\<close>

record upload_state = os +
  uploaded_file :: "string option"

section \<open>Reading the request text\<close>

text \<open>\<open>stream >> word\<close>\<close>

definition next_word :: "string \<Rightarrow> string \<times> string" where
  "next_word s =
     (let t = dropWhile is_space s in
      (takeWhile (\<lambda>c. \<not> is_space c) t, dropWhile (\<lambda>c. \<not> is_space c) t))"

text \<open>\<open>while (std::getline(request, line))\<close>: the lines of the rest of the text, without newlines.\<close>

fun split_lines :: "string \<Rightarrow> string \<Rightarrow> string list" where
  "split_lines acc [] = (if acc = [] then [] else [acc])"
| "split_lines acc (c # s) = (if c = CHR 0x0A then acc # split_lines [] s else split_lines (acc @ [c]) s)"

text \<open>\<open>std::stoul\<close>: \<open>None\<close> when it throws (no digits, or out of range); a minus sign negates
  modulo \<open>2 ^ 64\<close>.\<close>

definition stoul :: "string \<Rightarrow> nat option" where
  "stoul s =
     (let t = dropWhile is_space s;
          neg = (t \<noteq> [] \<and> hd t = CHR ''-'');
          u = (if t \<noteq> [] \<and> (hd t = CHR ''-'' \<or> hd t = CHR ''+'') then tl t else t);
          v = read_digits 0 u in
      if u = [] \<or> digit_val (hd u) = None then None
      else if 2 ^ 64 \<le> v then None
      else Some (if neg then (2 ^ 64 - v) mod 2 ^ 64 else v))"

definition length_header :: string where
  "length_header = ''Content-Length: ''"

text \<open>The header loop; the line that should end it carries no newline, so the test against
  CR LF never succeeds.\<close>

fun header_loop :: "nat \<Rightarrow> string list \<Rightarrow> nat option" where
  "header_loop len [] = Some len"
| "header_loop len (line # ls) =
     (if line = [CHR 0x0D, CHR 0x0A] then Some len
      else if take 16 line = length_header then
        (case stoul (drop 16 line) of None \<Rightarrow> None | Some n \<Rightarrow> header_loop n ls)
      else header_loop len ls)"

definition response :: string where
  "response = ''HTTP/1.1 200 OK'' @ [CHR 0x0D, CHR 0x0A] @ ''Content-Type: text/plain'' @ [CHR 0x0D, CHR 0x0A] @
     ''Connection: close'' @ [CHR 0x0D, CHR 0x0A, CHR 0x0D, CHR 0x0A] @
     ''File uploaded successfully.'' @ [CHR 0x0D, CHR 0x0A]"

section \<open>One connection, and the accept loop\<close>

text \<open>A \<open>recv\<close> of no bytes returns 0, whatever has arrived.\<close>

definition handleClient ::
  "recv_res \<Rightarrow> recv_res \<Rightarrow> fd \<Rightarrow> upload_state \<Rightarrow> upload_state outcome" where
  "handleClient r1 r2 f s =
     (let s1 = emit (Call_recv f 8191) s in
      if recv_status r1 \<le> 0 then Running (emit (Call_close f) s1)
      else
        let text = c_str (filled_buffer 8191 (recv_bytes r1) @ [NUL]);
            (method, t1) = next_word text;
            (path, t2) = next_word t1;
            (version, t3) = next_word t2;
            finish = (\<lambda>u. Running (emit (Call_close f) (emit (Call_send f (response @ [NUL]) (length response)) u)))
        in
        if method = ''POST'' then
          (case header_loop 0 (split_lines [] t3) of
             None \<Rightarrow> Exited 134 s1
           | Some len \<Rightarrow>
               if 2 ^ 63 \<le> len then Exited 134 s1
               else
                 let s2 = emit (Call_recv f len) s1 in
                 if len = 0 \<or> recv_status r2 \<le> 0 then Running (emit (Call_close f) s2)
                 else finish (s2\<lparr>uploaded_file := Some (filled_buffer len (recv_bytes r2))\<rparr>))
        else finish s1)"

text \<open>\<open>main\<close>: results of \<open>socket\<close> and \<open>bind\<close>; the result of \<open>listen\<close> is ignored, and a
  failed \<open>accept\<close> is skipped.\<close>

definition upload_main :: "int \<Rightarrow> int \<Rightarrow> upload_state \<Rightarrow> upload_state outcome" where
  "upload_main sock bound s =
     (let s1 = emit Call_socket s in
      if sock < 0 then Exited 1 s1
      else
        let s2 = emit (Call_bind sock (port_of 8080)) s1 in
        if bound < 0 then Exited 1 (emit (Call_close sock) s2)
        else Running (emit (Call_listen sock 5) s2))"

fun upload_accepts :: "(int \<times> recv_res \<times> recv_res) list \<Rightarrow> fd \<Rightarrow> upload_state \<Rightarrow> upload_state outcome" where
  "upload_accepts [] sock s = Running s"
| "upload_accepts ((c, r1, r2) # es) sock s =
     (let s1 = emit (Call_accept sock) s in
      if c < 0 then upload_accepts es sock s1
      else bind_outcome (handleClient r1 r2 c s1) (upload_accepts es sock))"

section \<open>Lemmas on requests\<close>

lemma split_lines_line:
  "CHR 0x0A \<notin> set l \<Longrightarrow> split_lines acc (l @ CHR 0x0A # s) = (acc @ l) # split_lines [] s"
  by (induction l arbitrary: acc) auto

lemma split_lines_concat:
  "\<forall>l \<in> set ls. CHR 0x0A \<notin> set l \<Longrightarrow>
   split_lines [] (concat (map (\<lambda>l. l @ [CHR 0x0A]) ls) @ s) = ls @ split_lines [] s"
  by (induction ls) (simp_all add: split_lines_line)

text \<open>The length a sequence of lines declares: the last Content-Length line wins, wherever it is.\<close>

definition plain_line :: "string \<Rightarrow> bool" where
  "plain_line l \<longleftrightarrow> CHR 0x0A \<notin> set l \<and> take 16 l \<noteq> length_header"

lemma header_loop_plain:
  "\<forall>l \<in> set ls. plain_line l \<Longrightarrow> header_loop len (ls @ rest) = header_loop len rest"
  by (induction ls) (auto simp: plain_line_def)


lemma digits_end:
  assumes "\<forall>c \<in> set ds. digit_val c \<noteq> None" "digit_val x = None"
  shows "read_digits n (ds @ x # t) = read_digits n ds"
  using assms(1)
proof (induction ds arbitrary: n)
  case (Cons c ds)
  then show ?case by (auto split: option.splits simp del: digit_val.simps)
qed (simp add: assms(2) del: digit_val.simps)

lemma stoul_digits:
  assumes "ds \<noteq> []" "\<forall>c \<in> set ds. digit_val c \<noteq> None" "read_digits 0 ds < 2 ^ 64"
  shows "stoul (ds @ [CHR 0x0D]) = Some (read_digits 0 ds)"
proof -
  obtain c cs where c: "ds = c # cs" "digit_val c \<noteq> None" using assms(1,2) by (cases ds) auto
  have "\<not> is_space c" "c \<noteq> CHR ''-''" "c \<noteq> CHR ''+''"
    using c(2) by (auto simp: is_space_def)
  moreover have "read_digits 0 (ds @ [CHR 0x0D]) = read_digits 0 ds"
    by (rule digits_end [OF assms(2)]) simp
  ultimately show ?thesis
    using c assms(3) by (simp add: stoul_def Let_def del: read_digits.simps digit_val.simps)
qed

lemma next_word_space:
  assumes "\<forall>c \<in> set w. \<not> is_space c" "w \<noteq> []" "is_space x" "is_space y"
  shows "next_word (x # w @ y # t) = (w, y # t)" and "next_word (w @ y # t) = (w, y # t)"
proof -
  have skip: "dropWhile is_space (w @ y # t) = w @ y # t"
    using assms(1,2) by (cases w) auto
  have "takeWhile (\<lambda>c. \<not> is_space c) (w @ y # t) = w" "dropWhile (\<lambda>c. \<not> is_space c) (w @ y # t) = y # t"
    using assms(1,4) by (simp_all add: takeWhile_append dropWhile_append)
  with skip assms(3) show "next_word (x # w @ y # t) = (w, y # t)" "next_word (w @ y # t) = (w, y # t)"
    by (simp_all add: next_word_def Let_def)
qed

text \<open>A POST request as a client writes it: request line, header lines (each with the CR that
  precedes its newline), the length among them, an empty line, and what follows.\<close>

definition crlf :: string where
  "crlf = [CHR 0x0D, CHR 0x0A]"

definition post_request :: "string \<Rightarrow> string \<Rightarrow> string list \<Rightarrow> string \<Rightarrow> string list \<Rightarrow> string \<Rightarrow> string" where
  "post_request path version hs1 ds hs2 body =
     ''POST'' @ '' '' @ path @ '' '' @ version @ crlf @
     concat (map (\<lambda>l. l @ [CHR 0x0A]) (hs1 @ [length_header @ ds @ [CHR 0x0D]] @ hs2 @ [[CHR 0x0D]])) @ body"

lemma post_request_lines:
  assumes "\<forall>l \<in> set (hs1 @ hs2). plain_line l" "CHR 0x0A \<notin> set ds"
  shows "split_lines [] ([CHR 0x0D, CHR 0x0A] @
      concat (map (\<lambda>l. l @ [CHR 0x0A]) (hs1 @ [length_header @ ds @ [CHR 0x0D]] @ hs2 @ [[CHR 0x0D]])) @ body) =
    [[CHR 0x0D]] @ (hs1 @ [length_header @ ds @ [CHR 0x0D]] @ hs2 @ [[CHR 0x0D]]) @ split_lines [] body"
proof -
  let ?ls = "[[CHR 0x0D]] @ (hs1 @ [length_header @ ds @ [CHR 0x0D]] @ hs2 @ [[CHR 0x0D]])"
  have "\<forall>l \<in> set ?ls. CHR 0x0A \<notin> set l"
    using assms by (auto simp: plain_line_def length_header_def)
  from split_lines_concat [OF this, of body] show ?thesis by simp
qed

lemma post_request_length:
  assumes hs: "\<forall>l \<in> set (hs1 @ hs2 @ split_lines [] body). plain_line l"
    and ds: "ds \<noteq> []" "\<forall>c \<in> set ds. digit_val c \<noteq> None" "read_digits 0 ds < 2 ^ 64"
  shows "header_loop 0 (split_lines [] ([CHR 0x0D, CHR 0x0A] @
      concat (map (\<lambda>l. l @ [CHR 0x0A]) (hs1 @ [length_header @ ds @ [CHR 0x0D]] @ hs2 @ [[CHR 0x0D]])) @ body)) =
    Some (read_digits 0 ds)"
proof -
  have nl: "CHR 0x0A \<notin> set ds" using ds(2) by auto
  have plain: "\<forall>l \<in> set ([[CHR 0x0D]] @ hs1). plain_line l"
    "\<forall>l \<in> set (hs2 @ [[CHR 0x0D]] @ split_lines [] body). plain_line l"
    using hs by (auto simp: plain_line_def length_header_def)
  have len: "header_loop n ((length_header @ ds @ [CHR 0x0D]) # ls) = header_loop (read_digits 0 ds) ls" for n ls
    using stoul_digits [OF ds] by (simp add: length_header_def)
  have "header_loop 0 (([[CHR 0x0D]] @ hs1) @ (length_header @ ds @ [CHR 0x0D]) #
      (hs2 @ [[CHR 0x0D]] @ split_lines [] body)) = Some (read_digits 0 ds)"
    using header_loop_plain [OF plain(1)] header_loop_plain [OF plain(2), of _ "[]"] len by simp
  moreover have pl: "\<forall>l \<in> set (hs1 @ hs2). plain_line l" using hs by auto
  ultimately show ?thesis
    unfolding post_request_lines [OF pl nl] by (simp only: append_assoc append_Cons append_Nil)
qed

text \<open>C35: What an upload stores.  A POST request of at most 8191 bytes without NUL arrives in one segment: a path and a
  version without white space, any headers, one of them a decimal Content-Length \<open>N\<close> (that fits in memory), and maybe
  a part of the body, with no second line that begins with Content-Length in either; then a segment \<open>d\<close> that is not empty
  arrives.  If \<open>N\<close> is not 0, and if the file can be written,
  the file holds the bytes \<open>d\<close>, cut or padded with zero bytes to length \<open>N\<close>, and
  the client gets the response.  So a body that arrives whole in the second segment is stored
  exactly, and whatever part of the body came along with the headers is lost.  If \<open>N\<close> is 0 nothing is stored and the
  client gets no response, as the program takes the 0 that a read of no bytes returns for an error.  In both cases the
  connection is closed once.\<close>

theorem upload_stores_second_segment:
  assumes "\<forall>c \<in> set path. \<not> is_space c" "path \<noteq> []" "\<forall>c \<in> set version. \<not> is_space c" "version \<noteq> []"
    and "\<forall>l \<in> set (hs1 @ hs2 @ split_lines [] body). plain_line l"
    and "ds \<noteq> []" "\<forall>c \<in> set ds. digit_val c \<noteq> None" "N = read_digits 0 ds" "N < 2 ^ 63"
    and "NUL \<notin> set (post_request path version hs1 ds hs2 body)"
    and "length (post_request path version hs1 ds hs2 body) \<le> 8191" "d \<noteq> []"
  shows "\<exists>t. handleClient (RData (post_request path version hs1 ds hs2 body)) (RData d) f s = Running t \<and>
    uploaded_file t = (if N = 0 then uploaded_file s else Some (filled_buffer N d)) \<and>
    (length d = N \<longrightarrow> uploaded_file t = Some d) \<and>
    wire t = wire s @ (if N = 0 then [] else [response]) \<and> closes (trace t) = closes (trace s) @ [f]"
proof -
  let ?req = "post_request path version hs1 ds hs2 body"
  define L where "L = concat (map (\<lambda>l. l @ [CHR 0x0A])
    (hs1 @ [length_header @ ds @ [CHR 0x0D]] @ hs2 @ [[CHR 0x0D]])) @ body"
  have req_eq: "?req = ''POST'' @ CHR '' '' # path @ CHR '' '' # version @ CHR 0x0D # CHR 0x0A # L"
    by (simp add: post_request_def crlf_def L_def)
  have sp: "is_space CHR '' ''" "is_space CHR 0x0D" by (simp_all add: is_space_def)
  have w1: "next_word ?req = (''POST'', CHR '' '' # path @ CHR '' '' # version @ CHR 0x0D # CHR 0x0A # L)"
    unfolding req_eq by (rule next_word_space(2) [OF _ _ sp(1) sp(1)]) (simp_all add: is_space_def)
  have w2: "next_word (CHR '' '' # path @ CHR '' '' # version @ CHR 0x0D # CHR 0x0A # L) =
      (path, CHR '' '' # version @ CHR 0x0D # CHR 0x0A # L)"
    by (rule next_word_space(1) [OF assms(1,2) sp(1) sp(1)])
  have w3: "next_word (CHR '' '' # version @ CHR 0x0D # CHR 0x0A # L) = (version, CHR 0x0D # CHR 0x0A # L)"
    by (rule next_word_space(1) [OF assms(3,4) sp(1) sp(2)])
  have req: "c_str (filled_buffer 8191 ?req @ [NUL]) = ?req"
  proof -
    obtain m where "filled_buffer 8191 ?req @ [NUL] = ?req @ NUL # m"
      using assms(11) by (cases "8191 - length ?req") (auto simp: filled_buffer_def)
    then show ?thesis by (simp add: c_str_cut c_str_id assms(10))
  qed
  have len: "header_loop 0 (split_lines [] (CHR 0x0D # CHR 0x0A # L)) = Some N"
    using post_request_length [OF assms(5,6,7)] assms(8,9) unfolding L_def by simp
  have nonempty: "0 < int (length ?req)" by (simp add: post_request_def)
  let ?s2 = "emit (Call_recv f N) (emit (Call_recv f 8191) s)"
  define t where "t = (if N = 0 then emit (Call_close f) ?s2
     else emit (Call_close f) (emit (Call_send f (response @ [NUL]) (length response)) (?s2\<lparr>uploaded_file := Some (filled_buffer N d)\<rparr>)))"
  have "handleClient (RData ?req) (RData d) f s = Running t"
    using nonempty assms(9,12) by (simp add: handleClient_def req w1 w2 w3 len t_def Let_def del: split_lines.simps)
  moreover have "uploaded_file t = (if N = 0 then uploaded_file s else Some (filled_buffer N d))"
    "wire t = wire s @ (if N = 0 then [] else [response])" "closes (trace t) = closes (trace s) @ [f]"
    by (simp_all add: t_def emit_def wire_def)
  moreover have "length d = N \<Longrightarrow> N \<noteq> 0 \<and> filled_buffer N d = d" using assms(12) by (auto simp: filled_buffer_def)
  ultimately show ?thesis using assms(12) by auto
qed

lemma upload_stores_second_segment_witness:
  "\<exists>t. handleClient (RData (post_request ''/u'' ''HTTP/1.1'' [''Host: x'' @ [CHR 0x0D]] ''3'' [] []))
      (RData ''abc'') 5 \<lparr>trace = [], uploaded_file = None\<rparr> = Running t \<and>
    uploaded_file t = Some ''abc''"
proof -
  have "\<exists>t. handleClient (RData (post_request ''/u'' ''HTTP/1.1'' [''Host: x'' @ [CHR 0x0D]] ''3'' [] []))
      (RData ''abc'') 5 \<lparr>trace = [], uploaded_file = None\<rparr> = Running t \<and>
    uploaded_file t = (if (3::nat) = 0 then uploaded_file \<lparr>trace = [], uploaded_file = None\<rparr> else Some (filled_buffer 3 ''abc'')) \<and> (length ''abc'' = 3 \<longrightarrow> uploaded_file t = Some ''abc'') \<and>
    wire t = wire \<lparr>trace = [], uploaded_file = None\<rparr> @ (if (3::nat) = 0 then [] else [response]) \<and>
    closes (trace t) = closes (trace \<lparr>trace = [], uploaded_file = None\<rparr>) @ [5]"
    by (rule upload_stores_second_segment)
      (simp_all add: is_space_def plain_line_def length_header_def post_request_def crlf_def)
  moreover have "length ''abc'' = 3" by simp
  ultimately show ?thesis by blast
qed

end
