(* ===== verification/UvProxy.thy ===== *)
theory UvProxy
  imports Proxies "HOL-Library.Sublist"
begin

text \<open>
  \<open>libuv-based/Server.cpp\<close>: the proxy written as libuv callbacks.  libuv itself is not in the
  repository; what the program hands to it (reads started, writes and connects requested, handles
  closed) is recorded, together with the memory each request points to.  libuv's documented
  contract is that this memory stays valid until the request's callback; the theorems show what
  the program does about that.
\<close>

section \<open>State\<close>

type_synonym uv_handle = nat

text \<open>
  \<open>uv_blocks\<close> are the live heap blocks, \<open>uv_writes\<close> the write requests with the block their
  buffer lies in and its length, \<open>uv_connects\<close> the connect requests (whose memory is a local
  variable of the callback that made them), \<open>uv_peer\<close> is \<open>stream->data\<close>, and \<open>uv_pairs\<close> counts the
  \<open>ClientTargetPair\<close>s allocated.
\<close>

record uv_state =
  uv_blocks :: "nat list"
  uv_next :: nat
  uv_writes :: "(uv_handle \<times> nat \<times> nat) list"
  uv_connects :: "uv_handle list"
  uv_closed :: "uv_handle list"
  uv_reading :: "uv_handle list"
  uv_peer :: "uv_handle \<rightharpoonup> uv_handle"
  uv_pairs :: nat

definition uv_initial :: uv_state where
  "uv_initial = \<lparr>uv_blocks = [], uv_next = 0, uv_writes = [], uv_connects = [], uv_closed = [],
     uv_reading = [], uv_peer = Map.empty, uv_pairs = 0\<rparr>"

section \<open>The callbacks\<close>

definition on_alloc :: "uv_state \<Rightarrow> nat \<times> uv_state" where
  "on_alloc s = (uv_next s, s\<lparr>uv_blocks := uv_next s # uv_blocks s, uv_next := Suc (uv_next s)\<rparr>)"

definition uv_free :: "nat \<Rightarrow> uv_state \<Rightarrow> uv_state" where
  "uv_free b s = s\<lparr>uv_blocks := filter (\<lambda>x. x \<noteq> b) (uv_blocks s)\<rparr>"

text \<open>\<open>buf->base\<close> is block \<open>b\<close>; without a peer the null pointer is used (\<open>None\<close>).\<close>

definition on_read :: "uv_handle \<Rightarrow> int \<Rightarrow> nat \<Rightarrow> uv_state \<Rightarrow> uv_state option" where
  "on_read stream nread b s =
     (if nread < 0 then
        (case uv_peer s stream of
           None \<Rightarrow> None
         | Some peer \<Rightarrow> Some (uv_free b (s\<lparr>uv_closed := uv_closed s @ [stream, peer]\<rparr>)))
      else if nread > 0 then
        (case uv_peer s stream of
           None \<Rightarrow> None
         | Some peer \<Rightarrow> Some (uv_free b (s\<lparr>uv_writes := uv_writes s @ [(peer, b, nat nread)]\<rparr>)))
      else Some s)"

text \<open>
  \<open>client\<close> and \<open>target\<close> are the handles in the pair \<open>malloc\<close> returns.  An unknown host
  throws a \<open>std::string\<close>, which the handler for \<open>std::exception\<close> does not catch: the process
  aborts.
\<close>

definition on_new_connection ::
  "int \<Rightarrow> bool \<Rightarrow> bool \<Rightarrow> uv_handle \<Rightarrow> uv_handle \<Rightarrow> uv_state \<Rightarrow> uv_state outcome" where
  "on_new_connection status host_found accepted client target s =
     (if status < 0 then Running s
      else
        let s1 = s\<lparr>uv_pairs := Suc (uv_pairs s)\<rparr> in
        if \<not> host_found then Exited 134 s1
        else if accepted then
          Running (s1\<lparr>uv_connects := uv_connects s1 @ [target],
                      uv_peer := (uv_peer s1)(client \<mapsto> target, target \<mapsto> client),
                      uv_reading := uv_reading s1 @ [client, target]\<rparr>)
        else Running (s1\<lparr>uv_closed := uv_closed s1 @ [client, target]\<rparr>))"

text \<open>\<open>main\<close> up to \<open>uv_run\<close>: the port it binds, or the status it returns.\<close>

definition uv_main :: "nat \<Rightarrow> string \<Rightarrow> string \<Rightarrow> int \<Rightarrow> int + 16 word" where
  "uv_main argc arg1 arg3 listen_result =
     (if argc < 4 then Inl (-1)
      else
        let (proxy_port, server_port) = parse_ports arg1 arg3 in
        if listen_result \<noteq> 0 then Inl 1 else Inr (port_of proxy_port))"

text \<open>The event loop: libuv asks for a buffer before each read it reports.\<close>

datatype uv_event =
    Connection int bool bool uv_handle uv_handle
  | Read_event uv_handle int

fun uv_dispatch :: "uv_event \<Rightarrow> uv_state \<Rightarrow> uv_state outcome option" where
  "uv_dispatch (Connection status found acc c t) s = Some (on_new_connection status found acc c t s)"
| "uv_dispatch (Read_event stream nread) s =
     (let (b, s1) = on_alloc s in map_option Running (on_read stream nread b s1))"

fun uv_run :: "uv_event list \<Rightarrow> uv_state \<Rightarrow> uv_state outcome option" where
  "uv_run [] s = Some (Running s)"
| "uv_run (ev # evs) s =
     (case uv_dispatch ev s of
        None \<Rightarrow> None
      | Some (Running t) \<Rightarrow> uv_run evs t
      | Some (Exited c t) \<Rightarrow> Some (Exited c t))"

section \<open>Properties\<close>

text \<open>The reads of a list of events that reported no data.\<close>

definition empty_reads :: "uv_event list \<Rightarrow> nat" where
  "empty_reads evs = length (filter (\<lambda>ev. case ev of Read_event h n \<Rightarrow> n = 0 | _ \<Rightarrow> False) evs)"

definition uv_wf :: "uv_state \<Rightarrow> bool" where
  "uv_wf s \<longleftrightarrow> distinct (uv_blocks s) \<and> (\<forall>b \<in> set (uv_blocks s). b < uv_next s) \<and>
     (\<forall>(h, b, n) \<in> set (uv_writes s). b \<notin> set (uv_blocks s) \<and> b < uv_next s)"

lemma uv_dispatch_wf:
  assumes "uv_wf s" "uv_dispatch ev s = Some out"
  shows "uv_wf (final_state out) \<and>
    length (uv_blocks (final_state out)) = length (uv_blocks s) + empty_reads [ev]"
proof (cases ev)
  case (Connection st f a c t)
  with assms show ?thesis
    by (auto simp: uv_wf_def empty_reads_def on_new_connection_def Let_def split: if_splits)
next
  case (Read_event h n)
  have keep: "filter (\<lambda>x. x \<noteq> uv_next s) (uv_blocks s) = uv_blocks s"
    using assms(1) by (auto simp: uv_wf_def filter_id_conv)
  show ?thesis
    using assms Read_event
    by (auto simp: uv_wf_def empty_reads_def on_alloc_def on_read_def uv_free_def keep less_Suc_eq
        split: if_splits option.splits)
qed

text \<open>The libuv proxy writes from freed memory and leaks.  Over any run of its callbacks, every
  write request it has handed to libuv points into a block that the program has already freed
  when the callback returned (against libuv's rule that the buffer must live until the write is
  done), and the heap blocks still allocated are exactly those of the reads that reported no
  data, none of which is ever freed.\<close>

theorem uv_writes_point_to_freed_blocks:
  assumes "uv_run evs uv_initial = Some (Running s)"
  shows "(\<forall>(h, b, n) \<in> set (uv_writes s). b \<notin> set (uv_blocks s)) \<and>
    length (uv_blocks s) = empty_reads evs"
proof -
  have "uv_wf s \<and> length (uv_blocks s) = length (uv_blocks u) + empty_reads evs"
    if "uv_wf u" "uv_run evs u = Some (Running s)" for u
    using that
  proof (induction evs arbitrary: u)
    case Nil
    then show ?case by (simp add: empty_reads_def)
  next
    case (Cons ev evs)
    then obtain v where v: "uv_dispatch ev u = Some (Running v)" "uv_run evs v = Some (Running s)"
      by (auto split: option.splits outcome.splits)
    have "empty_reads (ev # evs) = empty_reads [ev] + empty_reads evs"
      by (simp add: empty_reads_def)
    with uv_dispatch_wf [OF Cons.prems(1) v(1)] Cons.IH [of v] v(2) show ?case by simp
  qed
  from this [of uv_initial] assms show ?thesis
    by (auto simp: uv_wf_def uv_initial_def)
qed

lemma uv_writes_point_to_freed_blocks_witness:
  "\<exists>s. uv_run [Connection 0 True True 1 2, Read_event 1 5, Read_event 2 0] uv_initial = Some (Running s) \<and>
    uv_writes s = [(2, 0, 5)] \<and> 0 \<notin> set (uv_blocks s) \<and> length (uv_blocks s) = 1"
proof -
  let ?evs = "[Connection 0 True True 1 2, Read_event 1 5, Read_event 2 0]"
  obtain s where s: "uv_run ?evs uv_initial = Some (Running s)" "uv_writes s = [(2, 0, 5)]"
    by (simp add: uv_initial_def on_new_connection_def on_alloc_def on_read_def uv_free_def)
  from uv_writes_point_to_freed_blocks [OF s(1)] s show ?thesis
    by (auto simp: empty_reads_def)
qed

section \<open>Under libuv's contract\<close>

text \<open>
  What libuv promises: it reports reads only from a handle that has been started and not closed.  And as no pair
  is ever freed, the handles of a new connection are new.
\<close>

fun uv_promised :: "uv_event \<Rightarrow> uv_state \<Rightarrow> bool" where
  "uv_promised (Connection status found acc c t) s \<longleftrightarrow>
     c \<noteq> t \<and> {c, t} \<inter> (dom (uv_peer s) \<union> set (uv_closed s)) = {}"
| "uv_promised (Read_event h n) s \<longleftrightarrow> h \<in> set (uv_reading s) \<and> h \<notin> set (uv_closed s)"

fun uv_legal :: "uv_event list \<Rightarrow> uv_state \<Rightarrow> bool" where
  "uv_legal [] s = True"
| "uv_legal (ev # evs) s = (uv_promised ev s \<and> (case uv_dispatch ev s of Some (Running t) \<Rightarrow> uv_legal evs t | _ \<Rightarrow> True))"

text \<open>Handles come in pairs, are closed in pairs, and only once.\<close>

definition uv_mates :: "(uv_handle \<rightharpoonup> uv_handle) \<Rightarrow> uv_handle list \<Rightarrow> bool" where
  "uv_mates peer closed \<longleftrightarrow> (\<forall>a b. peer a = Some b \<longrightarrow> peer b = Some a \<and> a \<noteq> b \<and> (a \<in> set closed \<longleftrightarrow> b \<in> set closed))"

definition uv_paired :: "uv_state \<Rightarrow> bool" where
  "uv_paired s \<longleftrightarrow> uv_mates (uv_peer s) (uv_closed s) \<and>
     set (uv_reading s) = dom (uv_peer s) \<and> distinct (uv_closed s)"

text \<open>The lengths of the writes requested on a handle, and of the data read from one.\<close>

definition written_to :: "uv_handle \<Rightarrow> uv_state \<Rightarrow> nat list" where
  "written_to h s = map (\<lambda>(g, b, n). n) (filter (\<lambda>(g, b, n). g = h) (uv_writes s))"

fun read_from :: "uv_handle \<Rightarrow> uv_event list \<Rightarrow> nat list" where
  "read_from h [] = []"
| "read_from h (Read_event g n # evs) = (if g = h \<and> 0 < n then [nat n] else []) @ read_from h evs"
| "read_from h (ev # evs) = read_from h evs"

lemma uv_paired_peer:
  assumes "uv_paired s" "uv_peer s a = Some b"
  shows "uv_peer s b = Some a" "a \<noteq> b" "a \<in> set (uv_closed s) \<longleftrightarrow> b \<in> set (uv_closed s)"
  using assms unfolding uv_paired_def uv_mates_def by blast+

lemma uv_paired_join:
  assumes "uv_paired s" "c \<noteq> t" "c \<notin> dom (uv_peer s)" "t \<notin> dom (uv_peer s)" "c \<notin> set (uv_closed s)" "t \<notin> set (uv_closed s)"
    and "uv_peer u = (uv_peer s)(c \<mapsto> t, t \<mapsto> c)" "uv_reading u = uv_reading s @ [c, t]" "uv_closed u = uv_closed s"
  shows "uv_paired u"
  unfolding uv_paired_def uv_mates_def
proof (intro conjI allI impI)
  fix a b assume ab: "uv_peer u a = Some b"
  have old: "uv_peer s x = Some y \<Longrightarrow> y \<noteq> c \<and> y \<noteq> t" for x y
    using uv_paired_peer(1) [OF assms(1), of x y] assms(3,4) by auto
  show "uv_peer u b = Some a" "a \<noteq> b" "a \<in> set (uv_closed u) \<longleftrightarrow> b \<in> set (uv_closed u)"
    using ab assms(2,5,6) old [of a b] uv_paired_peer [OF assms(1), of a b] by (auto simp: assms(7,9) split: if_splits)
qed (use assms(1) in \<open>auto simp: uv_paired_def assms(7-9)\<close>)

lemma uv_paired_refuse:
  assumes "uv_paired s" "c \<noteq> t" "c \<notin> dom (uv_peer s)" "t \<notin> dom (uv_peer s)" "c \<notin> set (uv_closed s)" "t \<notin> set (uv_closed s)"
    and "uv_peer u = uv_peer s" "uv_reading u = uv_reading s" "uv_closed u = uv_closed s @ [c, t]"
  shows "uv_paired u"
  unfolding uv_paired_def uv_mates_def
proof (intro conjI allI impI)
  fix a b assume "uv_peer u a = Some b"
  then have s: "uv_peer s a = Some b" by (simp add: assms(7))
  note ab = uv_paired_peer [OF assms(1) s]
  show "uv_peer u b = Some a" "a \<noteq> b" using ab by (simp_all add: assms(7))
  have "a \<noteq> c" "a \<noteq> t" "b \<noteq> c" "b \<noteq> t" using s ab(1) assms(3,4) by blast+
  then show "a \<in> set (uv_closed u) \<longleftrightarrow> b \<in> set (uv_closed u)" using ab(3) by (simp add: assms(9))
qed (use assms(1,2,5,6) in \<open>auto simp: uv_paired_def assms(7-9)\<close>)

lemma uv_paired_part:
  assumes "uv_paired s" "uv_peer s h = Some p" "h \<notin> set (uv_closed s)"
    and "uv_peer u = uv_peer s" "uv_reading u = uv_reading s" "uv_closed u = uv_closed s @ [h, p]"
  shows "uv_paired u"
  unfolding uv_paired_def uv_mates_def
proof (intro conjI allI impI)
  fix a b assume ab: "uv_peer u a = Some b"
  then have s: "uv_peer s a = Some b" by (simp add: assms(4))
  show "uv_peer u b = Some a" "a \<noteq> b" using uv_paired_peer [OF assms(1) s] by (simp_all add: assms(4))
  have "a = h \<longleftrightarrow> b = p" "a = p \<longleftrightarrow> b = h"
    using s assms(2) uv_paired_peer(1) [OF assms(1) s] uv_paired_peer(1) [OF assms(1,2)] by auto
  then show "a \<in> set (uv_closed u) \<longleftrightarrow> b \<in> set (uv_closed u)"
    using uv_paired_peer(3) [OF assms(1) s] by (auto simp: assms(6))
qed (use assms(1,3) uv_paired_peer(2,3) [OF assms(1,2)] in \<open>auto simp: uv_paired_def assms(4-6)\<close>)

lemma uv_paired_same:
  "uv_paired s \<Longrightarrow> uv_peer u = uv_peer s \<Longrightarrow> uv_reading u = uv_reading s \<Longrightarrow> uv_closed u = uv_closed s \<Longrightarrow> uv_paired u"
  by (simp add: uv_paired_def)

text \<open>One event: what is written to a handle is what its peer has given.\<close>

definition uv_step_ok :: "uv_event list \<Rightarrow> uv_state \<Rightarrow> uv_state \<Rightarrow> bool" where
  "uv_step_ok evs s t \<longleftrightarrow> uv_paired t \<and> uv_peer s \<subseteq>\<^sub>m uv_peer t \<and>
     (\<forall>a. a \<notin> dom (uv_peer t) \<longrightarrow> read_from a evs = []) \<and>
     (\<forall>b. written_to b t = written_to b s @ (case uv_peer t b of None \<Rightarrow> [] | Some a \<Rightarrow> read_from a evs))"

lemma uv_dispatch_paired:
  assumes "uv_paired s" "uv_promised ev s"
  shows "\<exists>out. uv_dispatch ev s = Some out \<and> uv_step_ok [ev] s (final_state out) \<and> (\<forall>c t. out = Exited c t \<longrightarrow> c = 134)"
proof (cases ev)
  case (Connection st found acc c t)
  let ?out = "on_new_connection st found acc c t s"
  have fresh: "c \<noteq> t" "c \<notin> dom (uv_peer s)" "t \<notin> dom (uv_peer s)" "c \<notin> set (uv_closed s)" "t \<notin> set (uv_closed s)"
    using assms(2) Connection by auto
  have "uv_paired (final_state ?out)"
  proof (cases "0 \<le> st \<and> found")
    case False
    then show ?thesis using assms(1) by (auto simp: on_new_connection_def Let_def intro: uv_paired_same)
  next
    case True
    show ?thesis
    proof (cases acc)
      case acc: True
      show ?thesis by (rule uv_paired_join [OF assms(1) fresh]) (use True acc in \<open>simp_all add: on_new_connection_def Let_def\<close>)
    next
      case False
      show ?thesis
        by (rule uv_paired_refuse [OF assms(1) fresh])
          (use True False in \<open>simp_all add: on_new_connection_def Let_def\<close>)
    qed
  qed
  moreover have "uv_peer s \<subseteq>\<^sub>m uv_peer (final_state ?out)" "uv_writes (final_state ?out) = uv_writes s" "\<forall>k u. ?out = Exited k u \<longrightarrow> k = 134"
    using fresh(2,3) by (auto simp: on_new_connection_def Let_def map_le_def)
  ultimately show ?thesis
    using Connection by (simp add: uv_step_ok_def written_to_def split: option.split)
next
  case (Read_event h n)
  then have h: "h \<in> dom (uv_peer s)" "h \<notin> set (uv_closed s)" using assms by (auto simp: uv_paired_def)
  then obtain p where p: "uv_peer s h = Some p" by blast
  have inv: "uv_peer s b = Some h \<longleftrightarrow> b = p" for b
    using uv_paired_peer(1) [OF assms(1), of b h] uv_paired_peer(1) [OF assms(1) p] p by auto
  obtain b0 s1 where a: "on_alloc s = (b0, s1)" "uv_peer s1 = uv_peer s" "uv_reading s1 = uv_reading s" "uv_closed s1 = uv_closed s"
    "uv_writes s1 = uv_writes s" by (simp add: on_alloc_def)
  have "\<exists>u. on_read h n b0 s1 = Some u \<and> uv_paired u \<and> uv_peer u = uv_peer s \<and>
      uv_writes u = uv_writes s @ (if 0 < n then [(p, b0, nat n)] else [])"
  proof -
    consider "n < 0" | "n = 0" | "0 < n" by linarith
    then show ?thesis
    proof cases
      case 1
      have "uv_paired (uv_free b0 (s1\<lparr>uv_closed := uv_closed s1 @ [h, p]\<rparr>))"
        by (rule uv_paired_part [OF assms(1) p h(2)]) (simp_all add: uv_free_def a)
      then show ?thesis using 1 p by (simp add: on_read_def a) (simp add: uv_free_def a)
    next
      case 2
      then show ?thesis using uv_paired_same [OF assms(1), of s1] by (simp add: on_read_def a)
    next
      case 3
      have "uv_paired (uv_free b0 (s1\<lparr>uv_writes := uv_writes s1 @ [(p, b0, nat n)]\<rparr>))"
        by (rule uv_paired_same [OF assms(1)]) (simp_all add: uv_free_def a)
      then show ?thesis using 3 p by (simp add: on_read_def a) (simp add: uv_free_def a)
    qed
  qed
  then obtain u where u: "on_read h n b0 s1 = Some u" "uv_paired u" "uv_peer u = uv_peer s"
    "uv_writes u = uv_writes s @ (if 0 < n then [(p, b0, nat n)] else [])" by blast
  have "written_to b u = written_to b s @ (case uv_peer s b of None \<Rightarrow> [] | Some a \<Rightarrow> read_from a [ev])" for b
    using inv [of b] uv_paired_peer(1) [OF assms(1) p] by (auto simp: Read_event written_to_def u(4) split: option.splits)
  moreover have "read_from a [ev] = []" if "a \<notin> dom (uv_peer s)" for a using h(1) that by (auto simp: Read_event)
  ultimately have "uv_step_ok [ev] s u" using u(2,3) by (simp add: uv_step_ok_def map_le_refl)
  then show ?thesis using u(1) a(1) by (simp add: Read_event)
qed

lemma read_from_append: "read_from a (xs @ ys) = read_from a xs @ read_from a ys"
  by (induction a xs rule: read_from.induct) simp_all

lemma uv_step_ok_trans:
  assumes "uv_step_ok xs s t" "uv_step_ok ys t u"
  shows "uv_step_ok (xs @ ys) s u"
proof -
  have up: "uv_peer s \<subseteq>\<^sub>m uv_peer t" "uv_peer t \<subseteq>\<^sub>m uv_peer u" "uv_paired u" "uv_paired t" using assms by (simp_all add: uv_step_ok_def)
  have more: "uv_peer u a = Some b" if "uv_peer t a = Some b" for a b using up(2) that by (auto simp: map_le_def dom_def)
  have no: "read_from a xs = []" if "a \<notin> dom (uv_peer t)" for a using assms(1) that by (auto simp: uv_step_ok_def)
  have "written_to b u = written_to b s @ (case uv_peer u b of None \<Rightarrow> [] | Some a \<Rightarrow> read_from a (xs @ ys))" for b
  proof -
    have w: "written_to b u = written_to b s @ (case uv_peer t b of None \<Rightarrow> [] | Some a \<Rightarrow> read_from a xs) @
        (case uv_peer u b of None \<Rightarrow> [] | Some a \<Rightarrow> read_from a ys)"
      using assms by (simp add: uv_step_ok_def)
    show ?thesis
    proof (cases "uv_peer t b")
      case (Some a)
      then show ?thesis using w more [OF Some] by (simp add: read_from_append)
    next
      case None
      have "read_from a xs = []" if "uv_peer u b = Some a" for a
      proof (rule no, rule notI)
        assume "a \<in> dom (uv_peer t)"
        then obtain c where c: "uv_peer t a = Some c" by blast
        then have "c = b" using more [OF c] uv_paired_peer(1) [OF up(3) that] by simp
        then show False using uv_paired_peer(1) [OF up(4) c] None by simp
      qed
      then show ?thesis using w None by (simp add: read_from_append split: option.split)
    qed
  qed
  moreover have "read_from a (xs @ ys) = []" if "a \<notin> dom (uv_peer u)" for a
    using assms(2) that no [of a] more by (auto simp: uv_step_ok_def read_from_append)
  ultimately show ?thesis using up map_le_trans unfolding uv_step_ok_def by blast
qed

lemma uv_run_relays:
  assumes "uv_paired s" "uv_legal evs s"
  shows "\<exists>out. uv_run evs s = Some out \<and>
    (case out of Running t \<Rightarrow> uv_step_ok evs s t | Exited c t \<Rightarrow> c = 134 \<and> (\<exists>xs. prefix xs evs \<and> uv_step_ok xs s t))"
  using assms
proof (induction evs arbitrary: s)
  case (Cons ev evs)
  obtain out where d: "uv_dispatch ev s = Some out" "uv_step_ok [ev] s (final_state out)" "\<And>c t. out = Exited c t \<Longrightarrow> c = 134"
    using uv_dispatch_paired [OF Cons.prems(1), of ev] Cons.prems(2) by auto
  show ?case
  proof (cases out)
    case (Exited c t)
    then show ?thesis using d by (auto intro!: exI [of _ "[ev]"])
  next
    case (Running t)
    then have t: "uv_step_ok [ev] s t" "uv_paired t" using d(2) by (simp_all add: uv_step_ok_def)
    obtain out' where r: "uv_run evs t = Some out'"
      "case out' of Running v \<Rightarrow> uv_step_ok evs t v | Exited c v \<Rightarrow> c = 134 \<and> (\<exists>xs. prefix xs evs \<and> uv_step_ok xs t v)"
      using Cons.IH [OF t(2)] Cons.prems(2) d(1) Running by auto
    have "case out' of Running v \<Rightarrow> uv_step_ok (ev # evs) s v
      | Exited c v \<Rightarrow> c = 134 \<and> (\<exists>xs. prefix xs (ev # evs) \<and> uv_step_ok xs s v)"
      using r(2) uv_step_ok_trans [OF t(1)] by (cases out') (auto, metis Cons_prefix_Cons append_Cons append_Nil)
    then show ?thesis using r(1) d(1) Running by simp
  qed
qed (simp add: uv_step_ok_def map_le_refl split: option.split)

text \<open>C34: Under libuv's contract the relay is right but for the memory.  In every run of the callbacks no null pointer
  is followed; on the handle at either end of a connection exactly one write has been requested for every piece of
  data that was read at the other end, in the same order and of the same length; the two ends are closed together, and
  each once.  The process ends only because of an unknown host.\<close>

theorem uv_relays_in_order:
  assumes "uv_legal evs uv_initial"
  shows "\<exists>out. uv_run evs uv_initial = Some out \<and> distinct (uv_closed (final_state out)) \<and>
    (\<forall>a b. uv_peer (final_state out) a = Some b \<longrightarrow>
       uv_peer (final_state out) b = Some a \<and> (a \<in> set (uv_closed (final_state out)) \<longleftrightarrow> b \<in> set (uv_closed (final_state out))) \<and>
       (\<exists>xs. prefix xs evs \<and> (\<forall>t. out = Running t \<longrightarrow> xs = evs) \<and> written_to b (final_state out) = read_from a xs)) \<and>
    (\<forall>c t. out = Exited c t \<longrightarrow> c = 134)"
proof -
  have "uv_paired uv_initial" by (simp add: uv_paired_def uv_mates_def uv_initial_def)
  from uv_run_relays [OF this assms] obtain out where out: "uv_run evs uv_initial = Some out"
    "case out of Running t \<Rightarrow> uv_step_ok evs uv_initial t | Exited c t \<Rightarrow> c = 134 \<and> (\<exists>xs. prefix xs evs \<and> uv_step_ok xs uv_initial t)"
    by blast
  then obtain xs where xs: "prefix xs evs" "\<forall>t. out = Running t \<longrightarrow> xs = evs" "uv_step_ok xs uv_initial (final_state out)"
    "\<forall>c t. out = Exited c t \<longrightarrow> c = 134"
    by (cases out) auto
  then have p: "uv_paired (final_state out)" by (simp add: uv_step_ok_def)
  have empty: "written_to b uv_initial = []" for b by (simp add: written_to_def uv_initial_def)
  have "written_to b (final_state out) = read_from a xs" if "uv_peer (final_state out) a = Some b" for a b
    using xs(3) uv_paired_peer(1) [OF p that] by (simp add: uv_step_ok_def empty)
  with xs have ends: "\<exists>ys. prefix ys evs \<and> (\<forall>t. out = Running t \<longrightarrow> ys = evs) \<and> written_to b (final_state out) = read_from a ys"
    if "uv_peer (final_state out) a = Some b" for a b
    using that by blast
  have "distinct (uv_closed (final_state out))" using p by (simp add: uv_paired_def)
  with out(1) xs(4) ends uv_paired_peer(1,3) [OF p] show ?thesis by blast
qed

lemma uv_relays_in_order_witness:
  "\<exists>out. uv_run [Connection 0 True True 1 2, Read_event 1 5, Read_event 2 7, Read_event 1 3, Read_event 2 (-4095)] uv_initial = Some out \<and>
    distinct (uv_closed (final_state out))"
proof -
  have "uv_legal [Connection 0 True True 1 2, Read_event 1 5, Read_event 2 7, Read_event 1 3, Read_event 2 (-4095)] uv_initial"
    by (simp add: uv_initial_def on_new_connection_def on_alloc_def on_read_def uv_free_def)
  from uv_relays_in_order [OF this] show ?thesis by blast
qed

end
