(* ===== verification/ConnectionPool.thy ===== *)
theory ConnectionPool
  imports SocketConn "HOL-Library.AList"
begin

text \<open>
  \<open>connection-pool\<close>: \<open>pool.h\<close>, \<open>pool.cpp\<close>, \<open>connection.h\<close>, and the two connection classes
  \<open>TestConnection\<close> and \<open>TcpConnection\<close>.  A connection is known by its address (a number); the
  idle and busy maps are association lists from addresses to connection states.  The order in
  which \<open>std::unordered_map\<close> is iterated is unspecified, so \<open>get_connection\<close> takes it as an
  argument.  \<open>'w\<close> is the state of the outside world that virtual methods may change.

  What the pool needs from a connection class is the locale \<open>connection_class\<close>; it is interpreted
  on both classes of the repository.
\<close>

section \<open>The Connection interface\<close>

text \<open>A virtual method takes the connection and the world, and may throw (\<open>Inl\<close>).\<close>

record ('c, 'w) connection_vtable =
  vt_heart_beat :: "'c \<Rightarrow> 'w \<Rightarrow> (string + bool) \<times> 'c \<times> 'w"
  vt_is_healthy :: "'c \<Rightarrow> 'w \<Rightarrow> (string + bool) \<times> 'c \<times> 'w"
  vt_connect :: "'c \<Rightarrow> 'w \<Rightarrow> (string + bool) \<times> 'c \<times> 'w"
  vt_disconnect :: "'c \<Rightarrow> 'w \<Rightarrow> 'c \<times> 'w"

section \<open>The pool\<close>

record 'c pool =
  m_connections_idle :: "(nat \<times> 'c) list"
  m_connections_busy :: "(nat \<times> 'c) list"

definition pool_ctor :: "(nat \<times> 'c) list \<Rightarrow> 'c pool" where
  "pool_ctor connections = \<lparr>m_connections_idle = connections, m_connections_busy = []\<rparr>"

text \<open>\<open>check_connect\<close>: an exception is printed, and the answer is \<open>true\<close>.\<close>

definition check_connect :: "('c, 'w) connection_vtable \<Rightarrow> 'c \<Rightarrow> 'w \<Rightarrow> bool \<times> 'c \<times> 'w" where
  "check_connect vt c w =
     (case vt_is_healthy vt c w of
        (Inl e, c1, w1) \<Rightarrow> (True, c1, w1)
      | (Inr True, c1, w1) \<Rightarrow> (True, c1, w1)
      | (Inr False, c1, w1) \<Rightarrow>
          (case vt_connect vt c1 w1 of
             (Inl e, c2, w2) \<Rightarrow> (True, c2, w2)
           | (Inr b, c2, w2) \<Rightarrow> (b, c2, w2)))"

text \<open>The loop of \<open>get_connection\<close> over the idle connections in the given order.\<close>

fun try_idle ::
  "('c, 'w) connection_vtable \<Rightarrow> nat list \<Rightarrow> 'w \<Rightarrow> 'c pool \<Rightarrow> nat option \<times> 'w \<times> 'c pool" where
  "try_idle vt [] w p = (None, w, p)"
| "try_idle vt (k # ks) w p =
     (case map_of (m_connections_idle p) k of
        None \<Rightarrow> try_idle vt ks w p
      | Some c \<Rightarrow>
          let (ok, c1, w1) = check_connect vt c w;
              p1 = p\<lparr>m_connections_idle := AList.update k c1 (m_connections_idle p)\<rparr>
          in if \<not> ok then try_idle vt ks w1 p1
             else (Some k, w1,
                   p1\<lparr>m_connections_idle := AList.delete k (m_connections_idle p1),
                      m_connections_busy := AList.update k c1 (m_connections_busy p1)\<rparr>))"

definition get_connection ::
  "('c, 'w) connection_vtable \<Rightarrow> nat list \<Rightarrow> 'w \<Rightarrow> 'c pool \<Rightarrow> nat option \<times> 'w \<times> 'c pool" where
  "get_connection vt order w p =
     (if m_connections_idle p = [] then (None, w, p) else try_idle vt order w p)"

definition release_connection :: "nat option \<Rightarrow> 'c pool \<Rightarrow> 'c pool" where
  "release_connection conn p =
     (case conn of
        None \<Rightarrow> p
      | Some k \<Rightarrow>
          (case map_of (m_connections_busy p) k of
             None \<Rightarrow> p
           | Some c \<Rightarrow>
               p\<lparr>m_connections_busy := AList.delete k (m_connections_busy p),
                 m_connections_idle := AList.update k c (m_connections_idle p)\<rparr>))"

definition size_idle :: "'c pool \<Rightarrow> nat" where
  "size_idle p = length (m_connections_idle p)"

definition size_busy :: "'c pool \<Rightarrow> nat" where
  "size_busy p = length (m_connections_busy p)"

definition pool_size :: "'c pool \<Rightarrow> nat" where
  "pool_size p = length (m_connections_busy p) + length (m_connections_idle p)"

text \<open>\<open>heart_beat\<close> visits the idle connections; an exception leaves the loop.\<close>

fun beat_all ::
  "('c, 'w) connection_vtable \<Rightarrow> nat list \<Rightarrow> 'w \<Rightarrow> 'c pool \<Rightarrow> string option \<times> 'w \<times> 'c pool" where
  "beat_all vt [] w p = (None, w, p)"
| "beat_all vt (k # ks) w p =
     (case map_of (m_connections_idle p) k of
        None \<Rightarrow> beat_all vt ks w p
      | Some c \<Rightarrow>
          let (r, c1, w1) = vt_heart_beat vt c w;
              p1 = p\<lparr>m_connections_idle := AList.update k c1 (m_connections_idle p)\<rparr>
          in (case r of Inl e \<Rightarrow> (Some e, w1, p1) | Inr b \<Rightarrow> beat_all vt ks w1 p1))"

section \<open>ConnectionProxy objects\<close>

text \<open>A proxy is the pair of its pool pointer (null or the pool) and its connection pointer.\<close>

record proxy_obj =
  m_pool :: bool
  m_connection :: "nat option"

record ('c, 'w) pool_world =
  the_pool :: "'c pool"
  proxies :: "nat \<rightharpoonup> proxy_obj"
  the_world :: 'w

definition proxy_valid :: "proxy_obj \<Rightarrow> 'c pool \<Rightarrow> bool" where
  "proxy_valid x p =
     (if m_pool x then
        (case m_connection x of
           None \<Rightarrow> False
         | Some k \<Rightarrow> map_of (m_connections_busy p) k \<noteq> None)
      else False)"

text \<open>
  What a program does with proxies (the number is the variable): keep the result of
  \<open>get_connection\<close> in a new variable, move-construct a new variable from another, move-assign,
  hand one to \<open>release_connection(std::move(x))\<close> - which takes the connection from it but does not
  reset it -, and destroy one.
\<close>

datatype pool_op =
    Get nat "nat list"
  | Move_construct nat nat
  | Move_assign nat nat
  | Release nat
  | Destroy_proxy nat
  | Heart_beat "nat list"

definition null_proxy :: proxy_obj where
  "null_proxy = \<lparr>m_pool = False, m_connection = None\<rparr>"

fun pool_step ::
  "('c, 'w) connection_vtable \<Rightarrow> pool_op \<Rightarrow> ('c, 'w) pool_world \<Rightarrow> ('c, 'w) pool_world" where
  "pool_step vt (Get x order) s =
     (let (r, w1, p1) = get_connection vt order (the_world s) (the_pool s)
      in s\<lparr>the_pool := p1, the_world := w1,
           proxies := (proxies s)(x \<mapsto> (case r of None \<Rightarrow> null_proxy
                                        | Some k \<Rightarrow> \<lparr>m_pool = True, m_connection = Some k\<rparr>))\<rparr>)"
| "pool_step vt (Move_construct x y) s =
     (case proxies s y of
        None \<Rightarrow> s
      | Some v \<Rightarrow> s\<lparr>proxies := (proxies s)(x \<mapsto> v, y \<mapsto> null_proxy)\<rparr>)"
| "pool_step vt (Move_assign x y) s =
     (if x = y then s
      else case proxies s y of
        None \<Rightarrow> s
      | Some v \<Rightarrow> s\<lparr>proxies := (proxies s)(x \<mapsto> v, y \<mapsto> null_proxy)\<rparr>)"
| "pool_step vt (Release x) s =
     (case proxies s x of
        None \<Rightarrow> s
      | Some v \<Rightarrow> s\<lparr>the_pool := release_connection (m_connection v) (the_pool s)\<rparr>)"
| "pool_step vt (Destroy_proxy x) s =
     (case proxies s x of
        None \<Rightarrow> s
      | Some v \<Rightarrow>
          s\<lparr>the_pool := (if m_pool v then release_connection (m_connection v) (the_pool s) else the_pool s),
            proxies := (proxies s)(x := None)\<rparr>)"
| "pool_step vt (Heart_beat order) s =
     (let (e, w1, p1) = beat_all vt order (the_world s) (the_pool s)
      in s\<lparr>the_pool := p1, the_world := w1\<rparr>)"

definition pool_run ::
  "('c, 'w) connection_vtable \<Rightarrow> pool_op list \<Rightarrow> ('c, 'w) pool_world \<Rightarrow> ('c, 'w) pool_world" where
  "pool_run vt ops s = fold (pool_step vt) ops s"

section \<open>Where the connections are\<close>

definition idle_keys :: "'c pool \<Rightarrow> nat set" where
  "idle_keys p = fst ` set (m_connections_idle p)"

definition busy_keys :: "'c pool \<Rightarrow> nat set" where
  "busy_keys p = fst ` set (m_connections_busy p)"

text \<open>Each connection is in one of the two maps, once.\<close>

definition pool_wf :: "'c pool \<Rightarrow> bool" where
  "pool_wf p \<longleftrightarrow> distinct (map fst (m_connections_idle p)) \<and> distinct (map fst (m_connections_busy p)) \<and>
     idle_keys p \<inter> busy_keys p = {}"

lemma pool_wf_size: "pool_wf p \<Longrightarrow> pool_size p = card (idle_keys p \<union> busy_keys p)"
  using distinct_card [of "map fst (m_connections_idle p)"] distinct_card [of "map fst (m_connections_busy p)"]
  by (simp add: pool_wf_def pool_size_def idle_keys_def busy_keys_def card_Un_disjoint)

lemma pool_sizes:
  assumes "pool_wf p"
  shows "size_busy p = card (busy_keys p)" "size_idle p = card (idle_keys p)" "pool_size p = size_busy p + size_idle p"
  using assms distinct_card [of "map fst (m_connections_busy p)"] distinct_card [of "map fst (m_connections_idle p)"]
  by (simp_all add: pool_wf_def size_busy_def size_idle_def pool_size_def busy_keys_def idle_keys_def)

lemma keys_delete: "fst ` set (AList.delete k al) = fst ` set al - {k}"
  by (auto simp: AList.delete_eq)

lemma map_of_keys: "map_of al k = None \<longleftrightarrow> k \<notin> fst ` set al"
  by (simp add: map_of_eq_None_iff)

text \<open>\<open>get_connection\<close> either moves one idle connection to the busy ones or moves nothing.\<close>

lemma try_idle_keys:
  assumes "try_idle vt ks w p = (r, w1, p1)" "pool_wf p"
  shows "pool_wf p1 \<and> (case r of
      None \<Rightarrow> idle_keys p1 = idle_keys p \<and> busy_keys p1 = busy_keys p
    | Some k \<Rightarrow> k \<in> idle_keys p \<and> idle_keys p1 = idle_keys p - {k} \<and> busy_keys p1 = insert k (busy_keys p))"
  using assms
proof (induction ks arbitrary: w p)
  case (Cons k ks)
  show ?case
  proof (cases "map_of (m_connections_idle p) k")
    case None
    with Cons show ?thesis by simp
  next
    case (Some c)
    obtain ok c1 w2 where cc: "check_connect vt c w = (ok, c1, w2)" by (cases "check_connect vt c w") auto
    define p2 where "p2 = p\<lparr>m_connections_idle := AList.update k c1 (m_connections_idle p)\<rparr>"
    have k: "k \<in> idle_keys p" using map_of_SomeD [OF Some] by (force simp: idle_keys_def)
    have p2: "pool_wf p2" "idle_keys p2 = idle_keys p" "busy_keys p2 = busy_keys p"
      using Cons.prems(2) k
      by (auto simp: p2_def pool_wf_def idle_keys_def busy_keys_def update_keys dom_update)
    show ?thesis
    proof (cases ok)
      case False
      then have "try_idle vt ks w2 p2 = (r, w1, p1)"
        using Cons.prems(1) Some cc by (simp add: p2_def Let_def)
      from Cons.IH [OF this p2(1)] p2(2,3) show ?thesis by (cases r) simp_all
    next
      case True
      then have r: "r = Some k" and p1: "p1 = p2\<lparr>m_connections_idle := AList.delete k (m_connections_idle p2),
          m_connections_busy := AList.update k c1 (m_connections_busy p2)\<rparr>"
        using Cons.prems(1) Some cc by (auto simp: p2_def Let_def)
      have "idle_keys p1 = idle_keys p2 - {k}" "busy_keys p1 = insert k (busy_keys p2)"
        by (auto simp: p1 idle_keys_def busy_keys_def dom_update keys_delete)
      moreover have "pool_wf p1"
        using p2(1) calculation
        by (auto simp: p1 pool_wf_def distinct_update distinct_delete)
      ultimately show ?thesis using r k p2 by simp
    qed
  qed
qed simp

lemma get_connection_keys:
  assumes "get_connection vt ks w p = (r, w1, p1)" "pool_wf p"
  shows "pool_wf p1 \<and> (case r of
      None \<Rightarrow> idle_keys p1 = idle_keys p \<and> busy_keys p1 = busy_keys p
    | Some k \<Rightarrow> k \<in> idle_keys p \<and> idle_keys p1 = idle_keys p - {k} \<and> busy_keys p1 = insert k (busy_keys p))"
  using assms try_idle_keys [of vt ks w p r w1 p1] by (auto simp: get_connection_def split: if_splits)

lemma release_keys:
  assumes "pool_wf p"
  shows "pool_wf (release_connection conn p) \<and>
    (case conn of
       None \<Rightarrow> release_connection conn p = p
     | Some k \<Rightarrow>
         if k \<in> busy_keys p
         then busy_keys (release_connection conn p) = busy_keys p - {k} \<and>
              idle_keys (release_connection conn p) = insert k (idle_keys p)
         else release_connection conn p = p)"
proof (cases conn)
  case None
  with assms show ?thesis by (simp add: release_connection_def)
next
  case (Some k)
  show ?thesis
  proof (cases "map_of (m_connections_busy p) k")
    case None
    then have "k \<notin> busy_keys p" by (simp add: busy_keys_def map_of_keys)
    moreover have "release_connection conn p = p"
      unfolding release_connection_def Some by (simp only: None option.case)
    ultimately show ?thesis using assms Some by simp
  next
    case (Some c)
    define q where "q = release_connection conn p"
    have q: "q = p\<lparr>m_connections_busy := AList.delete k (m_connections_busy p),
        m_connections_idle := AList.update k c (m_connections_idle p)\<rparr>"
      using Some \<open>conn = Some k\<close> by (simp add: q_def release_connection_def)
    have keys: "busy_keys q = busy_keys p - {k}" "idle_keys q = insert k (idle_keys p)"
      by (auto simp: q idle_keys_def busy_keys_def dom_update keys_delete)
    have "k \<in> busy_keys p" using map_of_SomeD [OF Some] by (force simp: busy_keys_def)
    moreover have "pool_wf q"
      using assms keys by (auto simp: q pool_wf_def distinct_update distinct_delete)
    ultimately show ?thesis using keys \<open>conn = Some k\<close> by (simp add: q_def)
  qed
qed

lemma beat_all_keys:
  assumes "beat_all vt ks w p = (e, w1, p1)" "pool_wf p"
  shows "pool_wf p1 \<and> idle_keys p1 = idle_keys p \<and> busy_keys p1 = busy_keys p"
  using assms
proof (induction ks arbitrary: w p)
  case (Cons k ks)
  show ?case
  proof (cases "map_of (m_connections_idle p) k")
    case None
    with Cons show ?thesis by simp
  next
    case (Some c)
    obtain r c1 w2 where hb: "vt_heart_beat vt c w = (r, c1, w2)" by (cases "vt_heart_beat vt c w") auto
    define p2 where "p2 = p\<lparr>m_connections_idle := AList.update k c1 (m_connections_idle p)\<rparr>"
    have "k \<in> idle_keys p" using map_of_SomeD [OF Some] by (force simp: idle_keys_def)
    then have p2: "pool_wf p2" "idle_keys p2 = idle_keys p" "busy_keys p2 = busy_keys p"
      using Cons.prems(2)
      by (auto simp: p2_def pool_wf_def idle_keys_def busy_keys_def update_keys dom_update)
    show ?thesis
      using Cons.prems(1) Cons.IH [OF _ p2(1)] p2 Some hb
      by (cases r) (auto simp: p2_def [symmetric] Let_def)
  qed
qed simp

text \<open>No operation loses or duplicates a connection.\<close>

definition same_connections :: "'c pool \<Rightarrow> 'c pool \<Rightarrow> bool" where
  "same_connections p q \<longleftrightarrow> pool_wf q \<and> idle_keys q \<union> busy_keys q = idle_keys p \<union> busy_keys p"

lemma same_connections_refl: "pool_wf p \<Longrightarrow> same_connections p p"
  by (simp add: same_connections_def)

lemma same_connections_get:
  "get_connection vt ks w p = (r, w1, p1) \<Longrightarrow> pool_wf p \<Longrightarrow> same_connections p p1"
  using get_connection_keys [of vt ks w p r w1 p1] by (cases r) (auto simp: same_connections_def)

lemma same_connections_release: "pool_wf p \<Longrightarrow> same_connections p (release_connection conn p)"
  using release_keys [of p conn]
  by (cases conn) (auto simp: same_connections_def split: if_splits)

lemma same_connections_beat:
  "beat_all vt ks w p = (e, w1, p1) \<Longrightarrow> pool_wf p \<Longrightarrow> same_connections p p1"
  using beat_all_keys [of vt ks w p e w1 p1] by (simp add: same_connections_def)

lemma pool_step_keys:
  assumes "pool_wf (the_pool s)"
  shows "same_connections (the_pool s) (the_pool (pool_step vt op s))"
proof (cases op)
  case (Get x order)
  then show ?thesis
    using same_connections_get [OF _ assms, of vt order "the_world s"]
    by (cases "get_connection vt order (the_world s) (the_pool s)") simp
next
  case (Release x)
  then show ?thesis
    using same_connections_release [OF assms] same_connections_refl [OF assms]
    by (simp split: option.split)
next
  case (Destroy_proxy x)
  then show ?thesis
    using same_connections_release [OF assms] same_connections_refl [OF assms]
    by (simp split: option.split)
next
  case (Heart_beat order)
  then show ?thesis
    using same_connections_beat [OF _ assms, of vt order "the_world s"]
    by (cases "beat_all vt order (the_world s) (the_pool s)") simp
qed (use same_connections_refl [OF assms] in \<open>simp_all split: option.split\<close>)

section \<open>What the pool promises about a connection class\<close>

text \<open>
  The contract of a connection class: when \<open>is_healthy\<close> or \<open>connect\<close> answers true, the
  connection is usable afterwards.  Under it, a connection the pool hands out is usable, unless
  one of the two methods threw.
\<close>

definition check_throws :: "('c, 'w) connection_vtable \<Rightarrow> 'c \<Rightarrow> 'w \<Rightarrow> bool" where
  "check_throws vt c w =
     (case vt_is_healthy vt c w of
        (Inl e, _) \<Rightarrow> True
      | (Inr True, _) \<Rightarrow> False
      | (Inr False, c1, w1) \<Rightarrow> (case vt_connect vt c1 w1 of (Inl e, _) \<Rightarrow> True | _ \<Rightarrow> False))"

locale connection_class =
  fixes vt :: "('c, 'w) connection_vtable"
    and usable :: "'c \<Rightarrow> bool"
  assumes healthy_usable: "vt_is_healthy vt c w = (Inr True, c', w') \<Longrightarrow> usable c'"
    and connect_usable: "vt_connect vt c w = (Inr True, c', w') \<Longrightarrow> usable c'"
begin

lemma check_connect_usable:
  assumes "check_connect vt c w = (True, c', w')" "\<not> check_throws vt c w"
  shows "usable c'"
proof (cases "vt_is_healthy vt c w")
  case (fields r c1 w1)
  show ?thesis
  proof (cases r)
    case (Inl e)
    with fields assms(2) show ?thesis by (simp add: check_throws_def)
  next
    case (Inr b)
    obtain q c2 w2 where conn: "vt_connect vt c1 w1 = (q, c2, w2)" by (cases "vt_connect vt c1 w1") auto
    show ?thesis
      using assms fields Inr conn healthy_usable [of c w c1 w1] connect_usable [of c1 w1 c2 w2]
      by (cases b; cases q) (auto simp: check_connect_def check_throws_def)
  qed
qed

text \<open>The connection handed out is usable if none of the classes' methods threw.\<close>

lemma get_connection_usable:
  assumes "get_connection vt ks w p = (Some k, w1, p1)" "\<And>c w. \<not> check_throws vt c w"
  shows "\<exists>c. map_of (m_connections_busy p1) k = Some c \<and> usable c"
proof -
  have "try_idle vt ks w p = (Some k, w1, p1)"
    using assms(1) by (simp add: get_connection_def split: if_splits)
  then show ?thesis
  proof (induction ks arbitrary: w p)
    case (Cons j ks)
    show ?case
    proof (cases "map_of (m_connections_idle p) j")
      case None
      have "try_idle vt ks w p = (Some k, w1, p1)"
        using Cons.prems by (simp only: try_idle.simps None option.case)
      then show ?thesis by (rule Cons.IH)
    next
      case (Some c)
      obtain ok c1 w2 where cc: "check_connect vt c w = (ok, c1, w2)" by (cases "check_connect vt c w") auto
      show ?thesis
      proof (cases ok)
        case True
        then show ?thesis
          using Cons.prems Some cc check_connect_usable [of c w c1 w2] assms(2)
          by (auto simp: Let_def update_conv')
      next
        case False
        then show ?thesis
          using Cons.prems Some cc by (auto simp: Let_def intro: Cons.IH)
      qed
    qed
  qed simp
qed

end

text \<open>A class whose check always succeeds: the first idle connection visited is handed out.\<close>

lemma get_connection_finds:
  assumes "\<And>c w. fst (check_connect vt c w)" "k \<in> set order" "k \<in> idle_keys p"
  shows "\<exists>j w1 p1. get_connection vt order w p = (Some j, w1, p1)"
proof -
  have "\<exists>j w1 p1. try_idle vt order w p = (Some j, w1, p1)"
    using assms(2,3)
  proof (induction order)
    case (Cons i "is")
    show ?case
    proof (cases "map_of (m_connections_idle p) i")
      case None
      then have "i \<noteq> k" using Cons.prems(2) by (auto simp: idle_keys_def map_of_keys)
      with Cons have "\<exists>j w1 p1. try_idle vt is w p = (Some j, w1, p1)" by simp
      then show ?thesis by (simp only: try_idle.simps None option.case)
    next
      case (Some c)
      with assms(1) [of c w] show ?thesis by (cases "check_connect vt c w") (simp add: Let_def)
    qed
  qed simp
  moreover have "m_connections_idle p \<noteq> []" using assms(3) by (auto simp: idle_keys_def)
  ultimately show ?thesis by (auto simp: get_connection_def)
qed

section \<open>TestConnection\<close>

record test_connection =
  test_connected :: bool

definition test_vtable :: "(test_connection, 'w) connection_vtable" where
  "test_vtable =
     \<lparr>vt_heart_beat = (\<lambda>c w. (Inr (test_connected c), c, w)),
      vt_is_healthy = (\<lambda>c w. (Inr (test_connected c), c, w)),
      vt_connect = (\<lambda>c w. (Inr True, c\<lparr>test_connected := True\<rparr>, w)),
      vt_disconnect = (\<lambda>c w. (c\<lparr>test_connected := False\<rparr>, w))\<rparr>"

definition test_create :: "nat \<Rightarrow> test_connection pool" where
  "test_create n = pool_ctor (map (\<lambda>k. (k, \<lparr>test_connected = False\<rparr>)) [0..<n])"

interpretation test_class: connection_class test_vtable test_connected
  by unfold_locales (auto simp: test_vtable_def)

lemma test_never_throws: "\<not> check_throws test_vtable c w"
  by (simp add: check_throws_def test_vtable_def split: bool.splits)

lemma test_check_succeeds: "fst (check_connect test_vtable c w)"
  by (simp add: check_connect_def test_vtable_def split: bool.splits)

section \<open>TcpConnection\<close>

text \<open>
  \<open>tc_socket\<close> is the client socket's descriptor.  The world answers the n-th reconnection with
  the resolver, the result of \<open>connect\<close> and the descriptor \<open>socket\<close> returns; behaviour that is
  undefined (a null host pointer) sets \<open>tw_undefined\<close>.
\<close>

record tcp_connection =
  tc_id :: nat
  tc_name :: string
  tc_port :: int
  tc_socket :: fd
  tc_connected :: bool

record tcp_world = os +
  tw_answers :: "nat \<Rightarrow> resolver \<times> int \<times> int"
  tw_count :: nat
  tw_undefined :: bool

definition tcp_connect ::
  "tcp_connection \<Rightarrow> tcp_world \<Rightarrow> (string + bool) \<times> tcp_connection \<times> tcp_world" where
  "tcp_connect c w =
     (let (r, rv, sock) = tw_answers w (tw_count w);
          w1 = w\<lparr>tw_count := Suc (tw_count w)\<rparr> in
      case Reconnect (pool_Connect (tc_name c) (tc_port c) r rv) sock (tc_socket c) w1 of
        None \<Rightarrow> (Inl ''undefined'', c, w1\<lparr>tw_undefined := True\<rparr>)
      | Some (f, Raised e w2) \<Rightarrow> (Inl e, c\<lparr>tc_socket := f\<rparr>, w2)
      | Some (f, Done w2) \<Rightarrow> (Inr True, c\<lparr>tc_socket := f, tc_connected := True\<rparr>, w2))"

text \<open>\<open>disconnect\<close> (and the destructor) of a live connection: \<open>Close\<close>, then \<open>delete\<close>, whose two
  destructors close again.\<close>

definition tcp_disconnect :: "tcp_connection \<Rightarrow> tcp_world \<Rightarrow> tcp_connection \<times> tcp_world" where
  "tcp_disconnect c w =
     (c\<lparr>tc_connected := False\<rparr>,
      emit (Call_close (tc_socket c)) (emit (Call_close (tc_socket c)) (emit (Call_close (tc_socket c)) w)))"

definition tcp_vtable :: "(tcp_connection, tcp_world) connection_vtable" where
  "tcp_vtable =
     \<lparr>vt_heart_beat = (\<lambda>c w. (Inr (tc_connected c), c, w)),
      vt_is_healthy = (\<lambda>c w. (Inr False, c, w)),
      vt_connect = tcp_connect,
      vt_disconnect = tcp_disconnect\<rparr>"

text \<open>\<open>ConnectionPoolFactory<TcpConnection>::create\<close>: one answer per connection; an exception of a
  constructor destroys the connections made so far.\<close>

fun tcp_create_from ::
  "(nat \<times> tcp_connection) list \<Rightarrow> (resolver \<times> int \<times> int) list \<Rightarrow> string \<Rightarrow> int \<Rightarrow> tcp_world \<Rightarrow>
   ((string + (nat \<times> tcp_connection) list) \<times> tcp_world) option" where
  "tcp_create_from made [] name port w = Some (Inr made, w)"
| "tcp_create_from made ((r, rv, sock) # as) name port w =
     (case client_ctor (pool_Connect name port r rv) name sock w of
        None \<Rightarrow> None
      | Some (f, Raised e w1) \<Rightarrow> Some (Inl e, fold (\<lambda>(k, c) w. snd (tcp_disconnect c w)) made w1)
      | Some (f, Done w1) \<Rightarrow>
          let k = length made;
              c = \<lparr>tc_id = k, tc_name = name, tc_port = port, tc_socket = f, tc_connected = False\<rparr>
          in tcp_create_from (made @ [(k, c)]) as name port w1)"

definition tcp_create ::
  "(resolver \<times> int \<times> int) list \<Rightarrow> string \<Rightarrow> int \<Rightarrow> tcp_world \<Rightarrow>
   ((string + tcp_connection pool) \<times> tcp_world) option" where
  "tcp_create as name port w =
     map_option (map_prod (map_sum id pool_ctor) id) (tcp_create_from [] as name port w)"

interpretation tcp_class: connection_class tcp_vtable tc_connected
  by unfold_locales (auto simp: tcp_vtable_def tcp_connect_def Let_def
      split: prod.splits option.splits completion.splits)

text \<open>\<open>is_healthy\<close> is always false, and \<open>connect\<close> returns true or throws: the check never fails.\<close>

lemma tcp_check_succeeds: "fst (check_connect tcp_vtable c w)"
  by (auto simp: check_connect_def tcp_vtable_def tcp_connect_def Let_def
      split: prod.splits option.splits completion.splits)

section \<open>Who holds what\<close>

definition holds :: "('c, 'w) pool_world \<Rightarrow> nat \<Rightarrow> nat \<Rightarrow> bool" where
  "holds s x k \<longleftrightarrow> (\<exists>v. proxies s x = Some v \<and> m_pool v \<and> m_connection v = Some k)"

text \<open>Scoped use of proxies: variables are fresh when they are initialised, a move assignment goes
  to an empty proxy, nothing is given to \<open>release_connection\<close> by hand.\<close>

fun raii_op :: "pool_op \<Rightarrow> ('c, 'w) pool_world \<Rightarrow> bool" where
  "raii_op (Get x order) s = (proxies s x = None)"
| "raii_op (Move_construct x y) s = (proxies s x = None \<and> proxies s y \<noteq> None)"
| "raii_op (Move_assign x y) s = (proxies s x = Some null_proxy \<and> proxies s y \<noteq> None)"
| "raii_op (Release x) s = False"
| "raii_op (Destroy_proxy x) s = (proxies s x \<noteq> None)"
| "raii_op (Heart_beat order) s = True"

fun raii_run :: "('c, 'w) connection_vtable \<Rightarrow> pool_op list \<Rightarrow> ('c, 'w) pool_world \<Rightarrow> bool" where
  "raii_run vt [] s = True"
| "raii_run vt (op # ops) s = (raii_op op s \<and> raii_run vt ops (pool_step vt op s))"

text \<open>The same as a partial function from variables to connections, and what a move, an
  initialisation and a destruction do to one that is injective.\<close>

definition holding :: "('c, 'w) pool_world \<Rightarrow> nat \<rightharpoonup> nat" where
  "holding s x = (case proxies s x of None \<Rightarrow> None | Some v \<Rightarrow> if m_pool v then m_connection v else None)"

lemma holding_upd [simp]: "holding (s\<lparr>the_pool := p, the_world := w\<rparr>) = holding s"
  by (simp add: holding_def fun_eq_iff)

lemma holds_holding: "holds s x k \<longleftrightarrow> holding s x = Some k"
  by (auto simp: holds_def holding_def split: option.splits)

definition partial_inj :: "('a \<rightharpoonup> 'b) \<Rightarrow> bool" where
  "partial_inj h \<longleftrightarrow> (\<forall>x y k. h x = Some k \<longrightarrow> h y = Some k \<longrightarrow> x = y)"

lemma partial_inj_set: "partial_inj h \<Longrightarrow> h x = None \<Longrightarrow> k \<notin> ran h \<Longrightarrow> partial_inj (h(x \<mapsto> k))"
  by (auto simp: partial_inj_def ran_def)

lemma partial_inj_drop: "partial_inj h \<Longrightarrow> partial_inj (h(x := None))"
  by (auto simp: partial_inj_def)

lemma ran_drop:
  assumes "partial_inj h" "h x = Some k"
  shows "ran (h(x := None)) = ran h - {k}"
proof
  show "ran (h(x := None)) \<subseteq> ran h - {k}"
    using assms by (auto simp: partial_inj_def ran_def split: if_splits)
  show "ran h - {k} \<subseteq> ran (h(x := None))"
  proof
    fix j assume "j \<in> ran h - {k}"
    then obtain z where "h z = Some j" "j \<noteq> k" by (auto simp: ran_def)
    then have "(h(x := None)) z = Some j" using assms(2) by auto
    then show "j \<in> ran (h(x := None))" by (rule ranI)
  qed
qed

lemma partial_inj_move:
  assumes "partial_inj h" "h x = None"
  shows "partial_inj (h(x := h y, y := None)) \<and> (x \<noteq> y \<longrightarrow> ran (h(x := h y, y := None)) = ran h)"
proof -
  have "ran (h(x := h y, y := None)) = ran h" if "x \<noteq> y"
  proof
    show "ran h \<subseteq> ran (h(x := h y, y := None))"
    proof
      fix k assume "k \<in> ran h"
      then obtain z where z: "h z = Some k" by (auto simp: ran_def)
      then have "(h(x := h y, y := None)) (if z = y then x else z) = Some k"
        using assms(2) that by auto
      then show "k \<in> ran (h(x := h y, y := None))" by (rule ranI)
    qed
  qed (auto simp: ran_def)
  then show ?thesis using assms by (auto simp: partial_inj_def)
qed

definition owned :: "('c, 'w) pool_world \<Rightarrow> bool" where
  "owned s \<longleftrightarrow> pool_wf (the_pool s) \<and>
     (\<forall>x v. proxies s x = Some v \<longrightarrow> v = null_proxy \<or> (\<exists>k. v = \<lparr>m_pool = True, m_connection = Some k\<rparr>)) \<and>
     partial_inj (holding s) \<and> busy_keys (the_pool s) = ran (holding s)"

lemma owned_get:
  assumes o: "owned s" and x: "proxies s x = None"
  shows "owned (pool_step vt (Get x order) s)"
proof -
  obtain r w1 p1 where g: "get_connection vt order (the_world s) (the_pool s) = (r, w1, p1)"
    by (cases "get_connection vt order (the_world s) (the_pool s)") auto
  have wf: "pool_wf (the_pool s)" and keys: "busy_keys (the_pool s) = ran (holding s)"
    using o by (simp_all add: owned_def)
  note moved = get_connection_keys [OF g wf]
  have h: "holding (pool_step vt (Get x order) s) = (holding s)(x := r)"
    by (auto simp: g holding_def null_proxy_def split: option.splits)
  have none: "holding s x = None" using x by (simp add: holding_def)
  show ?thesis
  proof (cases r)
    case None
    then have "holding (pool_step vt (Get x order) s) = holding s" using h none by auto
    with None o moved show ?thesis
      unfolding owned_def by (simp add: g)
  next
    case (Some k)
    then have "k \<notin> ran (holding s)" using wf keys moved by (auto simp: pool_wf_def)
    with Some o moved none h show ?thesis
      unfolding owned_def by (simp add: g partial_inj_set)
  qed
qed

lemma owned_move:
  assumes o: "owned s" and x: "holding s x = None" and y: "proxies s y = Some v" and neq: "x \<noteq> y"
  shows "owned (s\<lparr>proxies := (proxies s)(x \<mapsto> v, y \<mapsto> null_proxy)\<rparr>)"
proof -
  define t where "t = s\<lparr>proxies := (proxies s)(x \<mapsto> v, y \<mapsto> null_proxy)\<rparr>"
  have h: "holding t = (holding s)(x := holding s y, y := None)"
    using y neq by (auto simp: t_def holding_def null_proxy_def)
  show ?thesis
    using o y neq partial_inj_move [of "holding s" x y] x
    unfolding t_def [symmetric] owned_def h by (auto simp: t_def split: if_splits)
qed

lemma owned_destroy:
  assumes o: "owned s" and x: "proxies s x = Some v"
  shows "owned (pool_step vt (Destroy_proxy x) s)"
proof -
  have h: "holding (pool_step vt (Destroy_proxy x) s) = (holding s)(x := None)"
    using x by (auto simp: holding_def)
  have wf: "pool_wf (the_pool s)" and inj: "partial_inj (holding s)"
    and busy: "busy_keys (the_pool s) = ran (holding s)" using o by (simp_all add: owned_def)
  have "v = null_proxy \<or> (\<exists>k. v = \<lparr>m_pool = True, m_connection = Some k\<rparr>)"
    using o x by (auto simp: owned_def)
  then show ?thesis
  proof
    assume v: "v = null_proxy"
    then have "holding s x = None" using x by (simp add: holding_def null_proxy_def)
    then have "(holding s)(x := None) = holding s" by auto
    with o x v h show ?thesis unfolding owned_def by (simp add: null_proxy_def)
  next
    assume "\<exists>k. v = \<lparr>m_pool = True, m_connection = Some k\<rparr>"
    then obtain k where v: "v = \<lparr>m_pool = True, m_connection = Some k\<rparr>" ..
    then have k: "holding s x = Some k" using x by (simp add: holding_def)
    then have "k \<in> busy_keys (the_pool s)" using busy by (auto simp: ran_def)
    then have "pool_wf (release_connection (Some k) (the_pool s))"
      "busy_keys (release_connection (Some k) (the_pool s)) = ran ((holding s)(x := None))"
      using release_keys [OF wf, of "Some k"] ran_drop [OF inj k] busy by simp_all
    with o x v h partial_inj_drop [OF inj, of x] show ?thesis
      unfolding owned_def by simp
  qed
qed

lemma owned_step:
  assumes o: "owned s" and op: "raii_op op s"
  shows "owned (pool_step vt op s)"
proof (cases op)
  case (Get x order)
  with owned_get [OF o, of x vt order] op show ?thesis by simp
next
  case (Move_construct x y)
  then obtain v where v: "proxies s y = Some v" "proxies s x = None" using op by auto
  then have "holding s x = None" "x \<noteq> y" by (auto simp: holding_def)
  from owned_move [OF o this(1) v(1) this(2)] show ?thesis using v(1) Move_construct by simp
next
  case (Move_assign x y)
  then obtain v where v: "proxies s y = Some v" "proxies s x = Some null_proxy" using op by auto
  then have "holding s x = None" by (simp add: holding_def null_proxy_def)
  from owned_move [OF o this v(1)] show ?thesis using v(1) Move_assign o by (cases "x = y") simp_all
next
  case (Release x)
  with op show ?thesis by simp
next
  case (Destroy_proxy x)
  with owned_destroy [OF o, of x _ vt] op show ?thesis by auto
next
  case (Heart_beat order)
  then show ?thesis
    using beat_all_keys [of vt order "the_world s" "the_pool s"] o
    by (cases "beat_all vt order (the_world s) (the_pool s)") (simp add: owned_def)
qed

section \<open>Properties\<close>

text \<open>C7: The pool conserves its connections.  Whatever a program does with proxies - moves,
  assignments, explicit releases, destructions in any order - and whatever the connections
  answer or throw, every connection of the pool stays in it, in exactly one of the two maps, so
  that \<open>size()\<close> never changes.\<close>

theorem pool_conserves_connections:
  assumes "pool_wf (the_pool s)"
  shows "pool_wf (the_pool (pool_run vt ops s)) \<and>
    idle_keys (the_pool (pool_run vt ops s)) \<union> busy_keys (the_pool (pool_run vt ops s)) =
      idle_keys (the_pool s) \<union> busy_keys (the_pool s) \<and>
    pool_size (the_pool (pool_run vt ops s)) = pool_size (the_pool s)"
proof -
  have "same_connections (the_pool s) (the_pool (pool_run vt ops s))"
    using assms
  proof (induction ops arbitrary: s)
    case Nil
    then show ?case by (simp add: pool_run_def same_connections_refl)
  next
    case (Cons op ops)
    from pool_step_keys [OF Cons.prems, of vt op] Cons.IH [of "pool_step vt op s"]
    show ?case by (simp add: pool_run_def same_connections_def)
  qed
  with assms show ?thesis by (simp add: same_connections_def pool_wf_size)
qed

definition sample_pool :: "nat \<Rightarrow> (test_connection, unit) pool_world" where
  "sample_pool n = \<lparr>the_pool = test_create n, proxies = Map.empty, the_world = ()\<rparr>"

lemma sample_pool_wf: "pool_wf (the_pool (sample_pool n))"
  by (simp add: sample_pool_def test_create_def pool_ctor_def pool_wf_def busy_keys_def comp_def)

lemma pool_conserves_connections_witness:
  "pool_wf (the_pool (pool_run test_vtable [Get 1 [0, 1], Release 1, Get 2 [0, 1], Destroy_proxy 1] (sample_pool 2))) \<and>
    idle_keys (the_pool (pool_run test_vtable [Get 1 [0, 1], Release 1, Get 2 [0, 1], Destroy_proxy 1] (sample_pool 2))) \<union>
    busy_keys (the_pool (pool_run test_vtable [Get 1 [0, 1], Release 1, Get 2 [0, 1], Destroy_proxy 1] (sample_pool 2))) =
      idle_keys (the_pool (sample_pool 2)) \<union> busy_keys (the_pool (sample_pool 2)) \<and>
    pool_size (the_pool (pool_run test_vtable [Get 1 [0, 1], Release 1, Get 2 [0, 1], Destroy_proxy 1] (sample_pool 2))) =
      pool_size (the_pool (sample_pool 2))"
  by (rule pool_conserves_connections) (rule sample_pool_wf)

text \<open>C12: Scoped proxies are exclusive.  If proxies are only obtained, moved into fresh or empty
  variables and destroyed, then at every moment a busy connection is held by exactly one proxy
  variable, and no connection is held by two; so destroying a proxy never takes a connection away
  from another user.\<close>

theorem scoped_proxies_exclusive:
  assumes "pool_wf (the_pool s)" "busy_keys (the_pool s) = {}" "proxies s = Map.empty" "raii_run vt ops s"
  shows "(\<forall>x y k. holds (pool_run vt ops s) x k \<longrightarrow> holds (pool_run vt ops s) y k \<longrightarrow> x = y) \<and>
    busy_keys (the_pool (pool_run vt ops s)) = {k. \<exists>x. holds (pool_run vt ops s) x k}"
proof -
  have "holding s = Map.empty" using assms(3) by (auto simp: holding_def)
  then have "owned s" using assms(1-3) by (simp add: owned_def partial_inj_def)
  then have "owned (pool_run vt ops s)"
    using assms(4) by (induction ops arbitrary: s) (simp_all add: pool_run_def owned_step)
  then show ?thesis by (auto simp: owned_def holds_holding partial_inj_def ran_def)
qed

lemma scoped_proxies_exclusive_witness:
  "busy_keys (the_pool (pool_run test_vtable [Get 1 [0, 1], Get 2 [0, 1], Move_construct 3 1, Destroy_proxy 1] (sample_pool 2))) =
      {k. \<exists>x. holds (pool_run test_vtable [Get 1 [0, 1], Get 2 [0, 1], Move_construct 3 1, Destroy_proxy 1] (sample_pool 2)) x k}"
  by (rule scoped_proxies_exclusive [THEN conjunct2])
    (simp_all add: sample_pool_wf,
     simp_all add: sample_pool_def test_create_def pool_ctor_def busy_keys_def split: prod.split)

text \<open>\<open>release_connection(std::move(x))\<close> breaks exclusivity.  It leaves the proxy pointing at
  the connection, so when the proxy is destroyed later - after somebody else got the same
  connection - that user's connection is put back among the idle ones and handed out a second
  time: two live proxies hold it.\<close>

theorem released_proxy_revokes:
  assumes "map_of (m_connections_idle (the_pool s)) k = Some c" "pool_wf (the_pool s)"
    and "distinct [x, y, z]" "\<And>c w. vt_is_healthy vt c w = (Inr True, c, w)"
  shows "let t = pool_run vt [Get x [k], Release x, Get y [k], Destroy_proxy x, Get z [k]] s
    in holds t y k \<and> holds t z k"
proof -
  have cc: "check_connect vt d w = (True, d, w)" for d w by (simp add: check_connect_def assms(4))
  have get: "\<exists>p1. get_connection vt [k] w p = (Some k, w, p1) \<and> map_of (m_connections_busy p1) k = Some d"
    if "map_of (m_connections_idle p) k = Some d" for w p d
    using that by (cases "m_connections_idle p") (auto simp: get_connection_def cc update_conv' Let_def)
  have rel: "map_of (m_connections_idle (release_connection (Some k) p)) k = Some d"
    if "map_of (m_connections_busy p) k = Some d" for p :: "'a pool" and d
    using that by (simp add: release_connection_def update_conv')
  let ?w = "the_world s"
  obtain p1 where p1: "get_connection vt [k] ?w (the_pool s) = (Some k, ?w, p1)"
    "map_of (m_connections_busy p1) k = Some c"
    using get [OF assms(1)] by blast
  obtain p2 where p2: "get_connection vt [k] ?w (release_connection (Some k) p1) = (Some k, ?w, p2)"
    "map_of (m_connections_busy p2) k = Some c"
    using get [OF rel [OF p1(2)]] by blast
  obtain p3 where p3: "get_connection vt [k] ?w (release_connection (Some k) p2) = (Some k, ?w, p3)"
    using get [OF rel [OF p2(2)]] by blast
  show ?thesis
    using assms(3) p1(1) p2(1) p3 by (simp add: pool_run_def holds_def Let_def)
qed

lemma released_proxy_revokes_witness:
  "let t = pool_run \<lparr>vt_heart_beat = (\<lambda>c w. (Inr True, c, w)), vt_is_healthy = (\<lambda>c w. (Inr True, c, w)),
        vt_connect = (\<lambda>c w. (Inr True, c, w)), vt_disconnect = (\<lambda>c w. (c, w))\<rparr>
      [Get 1 [0], Release 1, Get 2 [0], Destroy_proxy 1, Get 3 [0]] (sample_pool 1)
    in holds t 2 0 \<and> holds t 3 0"
  by (rule released_proxy_revokes [where c = "\<lparr>test_connected = False\<rparr>"])
    (simp_all add: sample_pool_wf, simp add: sample_pool_def test_create_def pool_ctor_def)

text \<open>A proxy that is assigned over loses its connection for good: a busy connection that no
  proxy holds stays busy for ever under everything a program can still do except naming it through
  a proxy, and no proxy gets hold of it again; the pool has shrunk.\<close>

theorem overwritten_connection_lost:
  assumes "pool_wf (the_pool s)" "holds s x k" "proxies s y = Some v" "m_connection v \<noteq> Some k" "x \<noteq> y"
    and "\<And>z u. proxies s z = Some u \<Longrightarrow> m_connection u = Some k \<Longrightarrow> z = x" "k \<in> busy_keys (the_pool s)"
  shows "k \<in> busy_keys (the_pool (pool_run vt (Move_assign x y # ops) s)) \<and>
    \<not> holds (pool_run vt (Move_assign x y # ops) s) z k"
proof -
  define free where "free t \<longleftrightarrow> pool_wf (the_pool t) \<and> k \<in> busy_keys (the_pool t) \<and>
    (\<forall>z u. proxies t z = Some u \<longrightarrow> m_connection u \<noteq> Some k)" for t :: "('a, 'b) pool_world"
  have step: "free (pool_step vt op t)" if t: "free t" for op t
  proof -
    have wf: "pool_wf (the_pool t)" and kb: "k \<in> busy_keys (the_pool t)" using t by (simp_all add: free_def)
    have wf1: "pool_wf (the_pool (pool_step vt op t))"
      using pool_step_keys [OF wf, of vt op] by (simp add: same_connections_def)
    have rel: "k \<in> busy_keys (release_connection j (the_pool t))" if "j \<noteq> Some k" for j
      using release_keys [OF wf, of j] kb that by (cases j) (auto split: if_splits)
    show ?thesis
    proof (cases op)
      case (Get z order)
      obtain r w1 p1 where g: "get_connection vt order (the_world t) (the_pool t) = (r, w1, p1)"
        by (cases "get_connection vt order (the_world t) (the_pool t)") auto
      have "k \<notin> idle_keys (the_pool t)" using wf kb by (auto simp: pool_wf_def)
      with get_connection_keys [OF g wf] t wf1 kb Get g show ?thesis
        by (cases r) (auto simp: free_def null_proxy_def)
    next
      case (Heart_beat order)
      then show ?thesis
        using beat_all_keys [of vt order "the_world t" "the_pool t"] t wf
        by (cases "beat_all vt order (the_world t) (the_pool t)") (simp add: free_def)
    qed (use t wf1 rel in \<open>auto simp: free_def null_proxy_def split: option.splits if_splits\<close>)
  qed
  have run: "free (pool_run vt ops t)" if "free t" for ops t
    using that by (induction ops arbitrary: t) (simp_all add: pool_run_def step)
  have "free (pool_step vt (Move_assign x y) s)"
    using assms by (auto simp: free_def null_proxy_def)
  from run [OF this, of ops] show ?thesis
    by (auto simp: pool_run_def free_def holds_def)
qed

lemma overwritten_connection_lost_witness:
  "0 \<in> busy_keys (the_pool (pool_run test_vtable (Move_assign 1 2 # [Destroy_proxy 1, Destroy_proxy 2])
      (pool_run test_vtable [Get 1 [0], Get 2 [1]] (sample_pool 2)))) \<and>
    \<not> holds (pool_run test_vtable (Move_assign 1 2 # [Destroy_proxy 1, Destroy_proxy 2])
      (pool_run test_vtable [Get 1 [0], Get 2 [1]] (sample_pool 2))) 3 0"
  by (rule overwritten_connection_lost [where v = "\<lparr>m_pool = True, m_connection = Some 1\<rparr>"])
    (auto simp: sample_pool_def test_create_def pool_ctor_def pool_wf_def idle_keys_def busy_keys_def
      pool_run_def get_connection_def check_connect_def test_vtable_def holds_def Let_def
      numeral_2_eq_2 split: if_splits)

end
