(* ===== verification/PoolProxy.thy ===== *)
theory PoolProxy
  imports ConnectionPool Proxies
begin

text \<open>
  \<open>connection-pool/src/proxy.cpp\<close>, \<open>proxy.h\<close> and \<open>main.cpp\<close>: the proxy that takes its target
  connections from the pool of \<open>TcpConnection\<close>s.  One thread per client; the thread's proxy object
  is a local variable, so the connection goes back when the thread's function returns.
\<close>

section \<open>One client's thread\<close>

definition pool_relay_side ::
  "fd \<Rightarrow> fd \<Rightarrow> bool \<Rightarrow> answer list \<Rightarrow> 'a os_scheme \<Rightarrow> (bool \<times> 'a os_scheme) option" where
  "pool_relay_side from_fd to_fd readable as s =
     (if readable then
        (case pool_receiveBytes from_fd [] as s of
           None \<Rightarrow> None
         | Some (bytes, as1, s1) \<Rightarrow> Some (bytes \<noteq> [], SendBytes to_fd (bytes @ [NUL]) (length bytes) s1))
      else Some (True, s))"

text \<open>\<open>client_socket->Close(); delete client_socket;\<close> - the destructor closes once more.\<close>

definition drop_client :: "fd \<Rightarrow> 'a os_scheme \<Rightarrow> 'a os_scheme" where
  "drop_client c s = emit (Call_close c) (emit (Call_close c) s)"

text \<open>The loop: whether it has been left, and the state.\<close>

fun pool_relay :: "relay_env list \<Rightarrow> fd \<Rightarrow> fd \<Rightarrow> 'a os_scheme \<Rightarrow> (bool \<times> 'a os_scheme) option" where
  "pool_relay [] c t s = Some (False, s)"
| "pool_relay (e # es) c t s =
     (case pool_SocketSelect c (Some t) (re_select e) (re_ready e) s of
        (Inl m, s1) \<Rightarrow> Some (True, drop_client c s1)
      | (Inr fds, s1) \<Rightarrow>
          (case pool_relay_side c t (Readable c fds) (re_client e) s1 of
             None \<Rightarrow> None
           | Some (ok1, s2) \<Rightarrow>
               (case pool_relay_side t c (Readable t fds) (re_target e) s2 of
                  None \<Rightarrow> None
                | Some (ok2, s3) \<Rightarrow>
                    if \<not> (ok1 \<and> ok2) then Some (True, drop_client c s3)
                    else pool_relay es c t s3)))"

type_synonym proxy_server = "(tcp_connection, tcp_world) pool_world"

text \<open>Without a connection the thread throws, which ends the process.\<close>

definition RunProxyClientThread ::
  "nat list \<Rightarrow> relay_env list \<Rightarrow> fd \<Rightarrow> proxy_server \<Rightarrow> proxy_server outcome option" where
  "RunProxyClientThread order es c s =
     (case get_connection tcp_vtable order (the_world s) (the_pool s) of
        (None, w1, p1) \<Rightarrow> Some (Exited 134 (s\<lparr>the_pool := p1, the_world := w1\<rparr>))
      | (Some k, w1, p1) \<Rightarrow>
          (case map_of (m_connections_busy p1) k of
             None \<Rightarrow> Some (Exited 134 (s\<lparr>the_pool := p1, the_world := w1\<rparr>))
           | Some conn \<Rightarrow>
               (case pool_relay es c (tc_socket conn) w1 of
                  None \<Rightarrow> None
                | Some (ended, w2) \<Rightarrow>
                    Some (Running (s\<lparr>the_world := w2,
                      the_pool := (if ended then release_connection (Some k) p1 else p1)\<rparr>)))))"

section \<open>main\<close>

text \<open>The constructor of \<open>Proxy\<close> opens the listening socket and then the four connections; an
  exception of either ends the process.\<close>

definition pool_main_setup ::
  "nat \<Rightarrow> string \<Rightarrow> string \<Rightarrow> string \<Rightarrow> listen_env \<Rightarrow> (resolver \<times> int \<times> int) list \<Rightarrow> tcp_world \<Rightarrow>
   (fd \<times> proxy_server + tcp_world) outcome option" where
  "pool_main_setup argc arg1 arg2 arg3 e as w =
     (if argc < 4 then Some (Exited (-1) (Inr w))
      else
        let (proxy_port, server_port) = parse_ports arg1 arg3 in
        case pool_server_ctor proxy_port 5 False e w of
          (f, Raised m w1) \<Rightarrow> Some (Exited 134 (Inr w1))
        | (f, Done w1) \<Rightarrow>
            (case tcp_create (take 4 as) arg2 server_port w1 of
               None \<Rightarrow> None
             | Some (Inl m, w2) \<Rightarrow> Some (Exited 134 (Inr w2))
             | Some (Inr p, w2) \<Rightarrow>
                 Some (Running (Inl (f, \<lparr>the_pool = p, proxies = Map.empty, the_world = w2\<rparr>)))))"

section \<open>Properties\<close>

lemma pool_receiveBytes_closes:
  "pool_receiveBytes f ret as s = Some (b, rest, t) \<Longrightarrow> closes (trace t) = closes (trace s)"
proof (induction f ret as s rule: pool_receiveBytes.induct)
  case (1 f ret rc avail as s)
  show ?case
    using "1.prems" "1.IH"
    by (auto simp: Let_def split: list.splits answer.splits if_splits)
qed simp_all

lemma pool_relay_side_closes:
  "pool_relay_side a b r as s = Some (ok, t) \<Longrightarrow> closes (trace t) = closes (trace s)"
  by (auto simp: pool_relay_side_def SendBytes_def dest: pool_receiveBytes_closes
      split: option.splits if_splits)

lemma pool_relay_closes:
  "pool_relay es c t s = Some (ended, u) \<Longrightarrow>
   closes (trace u) = closes (trace s) @ (if ended then [c, c] else [])"
proof (induction es arbitrary: s)
  case (Cons e es)
  show ?case
  proof (cases "re_select e = -1")
    case True
    with Cons.prems show ?thesis
      by (auto simp: pool_SocketSelect_def drop_client_def Let_def)
  next
    case False
    define s1 where "s1 = emit (Call_select (select_max c (Some t) + 1) (select_request c (Some t)) []) s"
    define fds where "fds = fd_select (select_request c (Some t)) (re_ready e)"
    obtain ok1 s2 where s2: "pool_relay_side c t (Readable c fds) (re_client e) s1 = Some (ok1, s2)"
      using Cons.prems False
      by (auto simp: pool_SocketSelect_def s1_def fds_def Let_def split: option.splits)
    obtain ok2 s3 where s3: "pool_relay_side t c (Readable t fds) (re_target e) s2 = Some (ok2, s3)"
      using Cons.prems False s2
      by (auto simp: pool_SocketSelect_def s1_def fds_def Let_def split: option.splits)
    have "closes (trace s3) = closes (trace s)"
      using pool_relay_side_closes [OF s2] pool_relay_side_closes [OF s3] by (simp add: s1_def)
    then show ?thesis
      using Cons.prems Cons.IH [of s3] False s2 s3
      by (auto simp: pool_SocketSelect_def s1_def [symmetric] fds_def [symmetric] drop_client_def Let_def
          split: if_splits)
  qed
qed simp

text \<open>A finished session gives its connection back and closes its client twice.  Whenever a
  client's thread ends, for whatever reason, the connection it had taken is idle again and
  nothing else in the pool has moved; and the client's descriptor has been closed two times.\<close>

theorem pool_session_ends:
  assumes "pool_wf (the_pool s)" "get_connection tcp_vtable order (the_world s) (the_pool s) = (Some k, w1, p1)"
    and "map_of (m_connections_busy p1) k = Some conn"
    and "pool_relay es c (tc_socket conn) w1 = Some (True, w2)"
  shows "\<exists>t. RunProxyClientThread order es c s = Some (Running t) \<and>
    idle_keys (the_pool t) = idle_keys (the_pool s) \<and> busy_keys (the_pool t) = busy_keys (the_pool s) \<and>
    closes (trace (the_world t)) = closes (trace w1) @ [c, c]"
proof -
  have p1: "pool_wf p1" "k \<in> idle_keys (the_pool s)" "idle_keys p1 = idle_keys (the_pool s) - {k}"
    "busy_keys p1 = insert k (busy_keys (the_pool s))"
    using get_connection_keys [OF assms(2,1)] by simp_all
  have "k \<notin> busy_keys (the_pool s)" using assms(1) p1(2) by (auto simp: pool_wf_def)
  then have "idle_keys (release_connection (Some k) p1) = idle_keys (the_pool s)"
    "busy_keys (release_connection (Some k) p1) = busy_keys (the_pool s)"
    using release_keys [OF p1(1), of "Some k"] p1 by auto
  with assms pool_relay_closes [OF assms(4)] show ?thesis
    by (simp add: RunProxyClientThread_def)
qed

definition sample_tcp_world :: "int \<Rightarrow> tcp_world" where
  "sample_tcp_world rv = \<lparr>trace = [], tw_answers = (\<lambda>n. (\<lparr>by_name = True, by_addr = True\<rparr>, rv, 20)),
     tw_count = 0, tw_undefined = False\<rparr>"

definition sample_tcp :: tcp_connection where
  "sample_tcp = \<lparr>tc_id = 0, tc_name = ''db'', tc_port = 1234, tc_socket = 10, tc_connected = False\<rparr>"

definition sample_proxy :: "int \<Rightarrow> proxy_server" where
  "sample_proxy rv = \<lparr>the_pool = pool_ctor [(0, sample_tcp)], proxies = Map.empty,
     the_world = sample_tcp_world rv\<rparr>"

lemma sample_proxy_get:
  "get_connection tcp_vtable [0] (the_world (sample_proxy rv)) (the_pool (sample_proxy rv)) =
     (Some 0, snd (snd (tcp_connect sample_tcp (sample_tcp_world rv))),
      \<lparr>m_connections_idle = [], m_connections_busy = [(0, fst (snd (tcp_connect sample_tcp (sample_tcp_world rv))))]\<rparr>)"
  by (simp add: sample_proxy_def sample_tcp_def sample_tcp_world_def pool_ctor_def get_connection_def
      check_connect_def tcp_vtable_def tcp_connect_def Reconnect_def CreateSocket_def pool_Connect_def
      Resolve_def is_alpha_def c_str_def Let_def)

lemma pool_session_ends_witness:
  "\<exists>t. RunProxyClientThread [0] [\<lparr>re_select = -1, re_ready = [], re_client = [], re_target = []\<rparr>] 7
      (sample_proxy 0) = Some (Running t) \<and>
    idle_keys (the_pool t) = idle_keys (the_pool (sample_proxy 0)) \<and>
    busy_keys (the_pool t) = busy_keys (the_pool (sample_proxy 0)) \<and>
    closes (trace (the_world t)) =
      closes (trace (snd (snd (tcp_connect sample_tcp (sample_tcp_world 0))))) @ [7, 7]"
  by (rule pool_session_ends [OF _ sample_proxy_get])
    (simp_all add: sample_proxy_def pool_ctor_def pool_wf_def busy_keys_def pool_SocketSelect_def
      drop_client_def)

text \<open>One client too many ends the proxy.  When every connection of the pool is busy - four clients
  are being served - the next client's thread throws and takes the whole process down with it.\<close>

theorem pool_exhaustion_aborts:
  assumes "idle_keys (the_pool s) = {}"
  shows "\<exists>t. RunProxyClientThread order es c s = Some (Exited 134 t) \<and> the_pool t = the_pool s"
  using assms by (simp add: RunProxyClientThread_def get_connection_def idle_keys_def)

lemma pool_exhaustion_aborts_witness:
  "\<exists>t. RunProxyClientThread [] [] 7 \<lparr>the_pool = \<lparr>m_connections_idle = [], m_connections_busy = [(0, sample_tcp)]\<rparr>,
      proxies = Map.empty, the_world = sample_tcp_world 0\<rparr> = Some (Exited 134 t) \<and>
    the_pool t = the_pool \<lparr>the_pool = \<lparr>m_connections_idle = [], m_connections_busy = [(0, sample_tcp)]\<rparr>,
      proxies = Map.empty, the_world = sample_tcp_world 0\<rparr>"
  by (rule pool_exhaustion_aborts) (simp add: idle_keys_def)

text \<open>The pool hands out connections that are not connected.  If the target cannot be reached, the
  reconnection that \<open>get_connection\<close> attempts (on every call: \<open>is_healthy\<close> is always false)
  throws, the exception is swallowed, and the first idle connection is handed out as if it were
  good, although it never was connected; under the contract of the class only the absence of
  exceptions would exclude that.\<close>

theorem tcp_pool_hands_out_dead:
  assumes "map_of (m_connections_idle p) k = Some c" "\<not> tc_connected c"
    and "tw_answers w (tw_count w) = (r, rv, sock)" "by_name r" "is_alpha (hd (c_str (tc_name c) @ [NUL]))"
    and "rv \<noteq> 0"
  shows "\<exists>w1 p1 d. get_connection tcp_vtable (k # order) w p = (Some k, w1, p1) \<and>
    map_of (m_connections_busy p1) k = Some d \<and> \<not> tc_connected d \<and> check_throws tcp_vtable c w"
proof -
  have res: "Resolve (c_str (tc_name c)) r = Inr True" using assms(4,5) by (simp add: Resolve_def)
  obtain m d w1 where conn: "tcp_connect c w = (Inl m, d, w1)" "tc_connected d = tc_connected c"
    using assms(3,6)
    by (cases "sock = -1")
      (simp_all add: tcp_connect_def Reconnect_def CreateSocket_def pool_Connect_def res Let_def)
  then have "check_connect tcp_vtable c w = (True, d, w1)" "check_throws tcp_vtable c w"
    by (simp_all add: check_connect_def check_throws_def tcp_vtable_def)
  with assms(1,2) conn(2) show ?thesis
    by (cases "m_connections_idle p") (auto simp: get_connection_def update_conv' Let_def)
qed

lemma tcp_pool_hands_out_dead_witness:
  "\<exists>w1 p1 d. get_connection tcp_vtable (0 # []) (sample_tcp_world 111) (pool_ctor [(0, sample_tcp)]) = (Some 0, w1, p1) \<and>
    map_of (m_connections_busy p1) 0 = Some d \<and> \<not> tc_connected d \<and>
    check_throws tcp_vtable sample_tcp (sample_tcp_world 111)"
  by (rule tcp_pool_hands_out_dead [where r = "\<lparr>by_name = True, by_addr = True\<rparr>" and rv = 111 and sock = 20])
    (simp_all add: pool_ctor_def sample_tcp_def sample_tcp_world_def is_alpha_def c_str_def)

text \<open>The pool of \<open>TestConnection\<close>s keeps its promise: whatever the state of the pool and the order
  of iteration, if an idle connection is visited at all, \<open>get_connection\<close> returns one and that
  one is connected.\<close>

theorem test_pool_get:
  assumes "k \<in> set order" "k \<in> idle_keys p"
  shows "\<exists>j w1 p1 c. get_connection test_vtable order w p = (Some j, w1, p1) \<and>
    map_of (m_connections_busy p1) j = Some c \<and> test_connected c"
proof -
  obtain j w1 p1 where g: "get_connection test_vtable order w p = (Some j, w1, p1)"
    using get_connection_finds [OF test_check_succeeds assms, of w] by blast
  with test_class.get_connection_usable [OF g] test_never_throws show ?thesis by blast
qed

lemma test_pool_get_witness:
  "\<exists>j w1 p1 c. get_connection test_vtable [1, 0] () (test_create 2) = (Some j, w1, p1) \<and>
    map_of (m_connections_busy p1) j = Some c \<and> test_connected c"
  by (rule test_pool_get [where k = 0])
    (simp_all add: test_create_def pool_ctor_def idle_keys_def numeral_2_eq_2)

end
