(* ===== verification/Payload.thy ===== *)
theory Payload
  imports Posix
begin

text \<open>
  The wire format of the protocol server and its client: \<open>payload/Payload.h\<close> of both programs and
  \<open>utils/uuid/UuidGenerator.h\<close>.  The structures are sent as they lie in memory on the
  little-endian machines the programs are built for: a 4-byte \<open>int\<close>, the character arrays
  without gaps, and trailing padding up to a multiple of four.  Bytes are characters.  Memory the
  programs do not initialise (the rest of an array behind a \<open>strcpy\<close>, padding) is an argument.
  The receiver casts the \<open>c_str()\<close> of what it got to the structure and reads an array as a C
  string.
\<close>

section \<open>Little-endian integers and C strings in memory\<close>

fun le_bytes :: "nat \<Rightarrow> nat \<Rightarrow> string" where
  "le_bytes 0 n = []"
| "le_bytes (Suc k) n = char_of (n mod 256) # le_bytes k (n div 256)"

fun le_value :: "string \<Rightarrow> nat" where
  "le_value [] = 0"
| "le_value (c # cs) = of_char c + 256 * le_value cs"

definition le32 :: "32 word \<Rightarrow> string" where
  "le32 w = le_bytes 4 (unat w)"

lemma length_le_bytes [simp]: "length (le_bytes k n) = k"
  by (induction k n rule: le_bytes.induct) simp_all

lemma length_le32 [simp]: "length (le32 w) = 4"
  by (simp add: le32_def)

lemma le_value_bytes: "n < 256 ^ k \<Longrightarrow> le_value (le_bytes k n) = n"
proof (induction k n rule: le_bytes.induct)
  case (2 k n)
  have "le_value (le_bytes k (n div 256)) = n div 256"
    by (rule 2) (use 2(2) in \<open>simp add: less_mult_imp_div_less\<close>)
  then show ?case by (simp add: of_char_of)
qed simp

text \<open>\<open>strcpy\<close> into an array: \<open>None\<close> when the string and its NUL do not fit.\<close>

definition strcpy :: "string \<Rightarrow> string \<Rightarrow> string option" where
  "strcpy dst src =
     (let t = c_str src in
      if length t < length dst then Some (t @ NUL # drop (Suc (length t)) dst) else None)"

text \<open>
  The C string at an offset of \<open>s.c_str()\<close>, a buffer of the bytes of \<open>s\<close> and one NUL; \<open>None\<close>
  when the offset lies outside.
\<close>

definition field_at :: "nat \<Rightarrow> string \<Rightarrow> string option" where
  "field_at off s = (if off \<le> length s then Some (c_str (drop off s)) else None)"

lemma strcpy_fits: "length (c_str src) < length dst \<Longrightarrow>
    strcpy dst src = Some (c_str src @ NUL # drop (Suc (length (c_str src))) dst)"
  by (simp add: strcpy_def Let_def)

lemma field_at_string: "NUL \<notin> set t \<Longrightarrow> length pre = off \<Longrightarrow> field_at off (pre @ t @ NUL # rest) = Some t"
  by (simp add: field_at_def c_str_cut c_str_id)

section \<open>Packets\<close>

datatype PacketType = CONNECT | CONNECT_RESPONSE | CHECK_STATUS | CHECK_STATUS_RESPONSE

fun packet_code :: "PacketType \<Rightarrow> 32 word" where
  "packet_code CONNECT = 1"
| "packet_code CONNECT_RESPONSE = 2"
| "packet_code CHECK_STATUS = 3"
| "packet_code CHECK_STATUS_RESPONSE = 4"

text \<open>The enumeration is ordered by its codes.\<close>

lemma packet_code_inject [simp]: "packet_code p = packet_code q \<longleftrightarrow> p = q"
  by (cases p; cases q) simp_all

instantiation PacketType :: linorder
begin

definition less_eq_PacketType :: "PacketType \<Rightarrow> PacketType \<Rightarrow> bool" where
  "less_eq_PacketType p q \<longleftrightarrow> packet_code p \<le> packet_code q"

definition less_PacketType :: "PacketType \<Rightarrow> PacketType \<Rightarrow> bool" where
  "less_PacketType p q \<longleftrightarrow> packet_code p < packet_code q"

instance
  by standard (auto simp: less_eq_PacketType_def less_PacketType_def order.strict_iff_order)

end

record CONNECT_PACKET =
  connect_type :: "32 word"
  connect_action :: string

record CONNECT_RESPONSE_PACKET =
  response_type :: "32 word"
  response_flag :: char
  response_task_id :: string

record CHECK_STATUS_PACKET =
  check_type :: "32 word"
  check_task_id :: string

record CHECK_STATUS_RESPONSE_PACKET =
  status_type :: "32 word"
  status_status :: string
  status_response :: string

definition connect_bytes :: "string \<Rightarrow> CONNECT_PACKET \<Rightarrow> string" where
  "connect_bytes padding p = le32 (connect_type p) @ connect_action p @ padding"

definition response_bytes :: "CONNECT_RESPONSE_PACKET \<Rightarrow> string" where
  "response_bytes p = le32 (response_type p) @ [response_flag p] @ response_task_id p"

definition check_bytes :: "string \<Rightarrow> CHECK_STATUS_PACKET \<Rightarrow> string" where
  "check_bytes padding p = le32 (check_type p) @ check_task_id p @ padding"

definition status_bytes :: "string \<Rightarrow> CHECK_STATUS_RESPONSE_PACKET \<Rightarrow> string" where
  "status_bytes padding p = le32 (status_type p) @ status_status p @ status_response p @ padding"

text \<open>\<open>MakeConnectResponse\<close>: \<open>task_mem\<close> is what the uninitialised array holds.\<close>

definition MakeConnectResponse :: "string \<Rightarrow> string \<Rightarrow> CONNECT_RESPONSE_PACKET option" where
  "MakeConnectResponse task_mem response =
     map_option (\<lambda>a. \<lparr>response_type = packet_code CONNECT_RESPONSE, response_flag = CHR ''1'', response_task_id = a\<rparr>)
       (strcpy task_mem response)"

section \<open>UUIDs\<close>

text \<open>The 32 random numbers below 16 are an argument.\<close>

definition hex_digit :: "nat \<Rightarrow> char" where
  "hex_digit d = ''0123456789abcdef'' ! d"

definition uuid_dash :: "bool list" where
  "uuid_dash = [False, False, False, False, True, False, True, False, True, False, True, False, False, False, False, False]"

definition generateUuid :: "nat list \<Rightarrow> string" where
  "generateUuid ds =
     concat (map (\<lambda>i. (if uuid_dash ! i then ''-'' else []) @ [hex_digit (ds ! (2 * i)), hex_digit (ds ! (2 * i + 1))]) [0..<16])"

definition uuid_digits :: "nat list \<Rightarrow> bool" where
  "uuid_digits ds \<longleftrightarrow> length ds = 32 \<and> (\<forall>d \<in> set ds. d < 16)"

lemma hex_digit_cases: "d < 16 \<Longrightarrow> d = 0 \<or> d = 1 \<or> d = 2 \<or> d = 3 \<or> d = 4 \<or> d = 5 \<or> d = 6 \<or> d = 7 \<or>
    d = 8 \<or> d = 9 \<or> d = 10 \<or> d = 11 \<or> d = 12 \<or> d = 13 \<or> d = 14 \<or> d = (15::nat)"
  by arith

lemma hex_digit_inject: "d < 16 \<Longrightarrow> e < 16 \<Longrightarrow> hex_digit d = hex_digit e \<longleftrightarrow> d = e"
  using nth_eq_iff_index_eq [of "''0123456789abcdef''" d e] by (simp add: hex_digit_def)

lemma hex_digit_proper: "d < 16 \<Longrightarrow> hex_digit d \<noteq> CHR ''-'' \<and> hex_digit d \<noteq> NUL"
  by (drule hex_digit_cases) (auto simp: hex_digit_def)

lemma pairs_of: "2 * n \<le> length ds \<Longrightarrow>
    concat (map (\<lambda>i. [f (ds ! (2 * i)), f (ds ! (2 * i + 1))]) [0..<n]) = map f (take (2 * n) ds)"
  by (induction n) (simp_all add: take_Suc_conv_app_nth)

lemma uuid_digits_nth: "uuid_digits ds \<Longrightarrow> i < 32 \<Longrightarrow> ds ! i < 16"
  by (simp add: uuid_digits_def)

lemma uuid_without_dashes:
  assumes "uuid_digits ds"
  shows "filter (\<lambda>c. c \<noteq> CHR ''-'') (generateUuid ds) = map hex_digit ds"
proof -
  have "filter (\<lambda>c. c \<noteq> CHR ''-'') (generateUuid ds) =
      concat (map (\<lambda>i. [hex_digit (ds ! (2 * i)), hex_digit (ds ! (2 * i + 1))]) [0..<16])"
    unfolding generateUuid_def filter_concat map_map o_def
    by (rule arg_cong [of _ _ concat], rule map_cong [OF refl])
      (use assms in \<open>auto simp: hex_digit_proper uuid_digits_nth\<close>)
  also have "\<dots> = map hex_digit ds" using pairs_of [of 16 ds hex_digit] assms by (simp add: uuid_digits_def)
  finally show ?thesis .
qed

lemma length_generateUuid: "length (generateUuid ds) = 36"
  by (simp add: generateUuid_def length_concat o_def uuid_dash_def upt_rec [of _ "16"])

lemma uuid_no_NUL: "uuid_digits ds \<Longrightarrow> NUL \<notin> set (generateUuid ds)"
  by (auto simp: generateUuid_def hex_digit_proper uuid_digits_nth dest!: sym [of NUL]
      split: if_splits)

lemma c_str_uuid: "uuid_digits ds \<Longrightarrow> c_str (generateUuid ds) = generateUuid ds"
  by (simp add: c_str_id uuid_no_NUL)

text \<open>A task id is a well-formed UUID string of 36 characters without NUL, and different random
  digits give different ids.\<close>

theorem uuid_injective:
  assumes "uuid_digits ds" "uuid_digits es"
  shows "length (generateUuid ds) = 36 \<and> NUL \<notin> set (generateUuid ds) \<and>
    map (\<lambda>i. generateUuid ds ! i) [8, 13, 18, 23] = ''----'' \<and>
    (generateUuid ds = generateUuid es \<longleftrightarrow> ds = es)"
proof -
  have "map (\<lambda>i. generateUuid ds ! i) [8, 13, 18, 23] = ''----''"
    by (simp add: generateUuid_def uuid_dash_def upt_rec [of _ "16"] nth_append)
  moreover have "ds = es" if "generateUuid ds = generateUuid es"
  proof -
    have "map hex_digit ds = map hex_digit es"
      using that uuid_without_dashes [OF assms(1)] uuid_without_dashes [OF assms(2)] by simp
    then show ?thesis
      by (rule map_inj_on) (use assms in \<open>auto simp: inj_on_def uuid_digits_def hex_digit_inject\<close>)
  qed
  ultimately show ?thesis
    using assms by (auto simp: length_generateUuid uuid_no_NUL)
qed

lemma uuid_injective_witness:
  "generateUuid (replicate 32 10) = ''aaaaaaaa-aaaa-aaaa-aaaa-aaaaaaaaaaaa'' \<and>
   generateUuid (replicate 32 10) \<noteq> generateUuid (replicate 32 3)"
proof -
  have "generateUuid (replicate 32 10) \<noteq> generateUuid (replicate 32 3)"
    using uuid_injective [of "replicate 32 10" "replicate 32 3"] by (auto simp: uuid_digits_def)
  then show ?thesis by (simp add: generateUuid_def uuid_dash_def hex_digit_def upt_rec [of _ "16"])
qed

end
