(* ===== verification/SyncApi.thy ===== *)
theory SyncApi
  imports Payload SocketConn
begin

text \<open>
  The application of the protocol server, \<open>handler/SyncApiProtocolHandler.cpp\<close>: a client asks for a
  job with a CONNECT packet and gets a task id; the job runs in the thread pool and writes its
  result into \<open>response_map\<close>; the client asks for the state of the job with CHECK_STATUS packets.
  The handlers of several connections run at the same time as the jobs, without a lock, so the
  accesses to the shared state are the atomic steps \<open>sync_event\<close>; \<open>HandleData\<close> is composed of
  the same steps.  The simpler handlers \<open>DefaultProtocolHandler\<close> and \<open>SchedulerHandler\<close> and the
  program of \<open>protocol-client/src/main.cpp\<close> are modelled here too.
\<close>

section \<open>State and steps\<close>

text \<open>
  A job in the pool captures its task id, and the \<^emph>\<open>address\<close> of the request in \<open>HandleData\<close>'s local
  string: requests are numbered, \<open>live_requests\<close> are those whose call has not returned, and
  \<open>dangling_reads\<close> records the dead ones that a job has read.
\<close>

record sync_server =
  response_map :: "string \<rightharpoonup> string"
  pool_tasks :: "(string \<times> nat) list"
  next_request :: nat
  live_requests :: "nat list"
  dangling_reads :: "nat list"

definition sync_initial :: sync_server where
  "sync_initial = \<lparr>response_map = Map.empty, pool_tasks = [], next_request = 0, live_requests = [], dangling_reads = []\<rparr>"

definition enter_request :: "sync_server \<Rightarrow> nat \<times> sync_server" where
  "enter_request s = (next_request s,
     s\<lparr>next_request := Suc (next_request s), live_requests := next_request s # live_requests s\<rparr>)"

definition leave_request :: "nat \<Rightarrow> sync_server \<Rightarrow> sync_server" where
  "leave_request b s = s\<lparr>live_requests := filter (\<lambda>x. x \<noteq> b) (live_requests s)\<rparr>"

definition push_task :: "string \<Rightarrow> nat \<Rightarrow> sync_server \<Rightarrow> sync_server" where
  "push_task uid b s = s\<lparr>pool_tasks := pool_tasks s @ [(uid, b)]\<rparr>"

definition store_pending :: "string \<Rightarrow> sync_server \<Rightarrow> sync_server" where
  "store_pending uid s = s\<lparr>response_map := (response_map s)(uid \<mapsto> [])\<rparr>"

text \<open>\<open>this->response_map[...]\<close> in the status query creates a missing entry.\<close>

definition look_up :: "string \<Rightarrow> sync_server \<Rightarrow> string \<times> sync_server" where
  "look_up uid s =
     (let (v, m) = std_index [] uid (response_map s) in (v, s\<lparr>response_map := m\<rparr>))"

text \<open>
  The job at position \<open>k\<close> of the pool finishes (the workers sleep side by side, so not necessarily
  the first): it stores the result and prints the action in the request.
\<close>

definition finish_task :: "nat \<Rightarrow> sync_server \<Rightarrow> sync_server" where
  "finish_task k s =
     (if k < length (pool_tasks s) then
        let (uid, b) = pool_tasks s ! k in
        s\<lparr>response_map := (response_map s)(uid \<mapsto> ''Response Received''),
          pool_tasks := take k (pool_tasks s) @ drop (Suc k) (pool_tasks s),
          dangling_reads := (if b \<in> set (live_requests s) then dangling_reads s else dangling_reads s @ [b])\<rparr>
      else s)"

datatype sync_event = Push string nat | Store string | Finish nat | Check string

fun sync_step :: "sync_event \<Rightarrow> sync_server \<Rightarrow> sync_server" where
  "sync_step (Push uid b) s = push_task uid b s"
| "sync_step (Store uid) s = store_pending uid s"
| "sync_step (Finish k) s = finish_task k s"
| "sync_step (Check uid) s = snd (look_up uid s)"

definition sync_run :: "sync_event list \<Rightarrow> sync_server \<Rightarrow> sync_server" where
  "sync_run evs s = fold sync_step evs s"

section \<open>HandleData\<close>

definition http_ok :: string where
  "http_ok = ''HTTP/1.1 200 OK'' @ [CHR 0x0D, CHR 0x0A]"

text \<open>\<open>int packet_type = request_string[0]\<close>: a signed character; 0 for the empty string.\<close>

definition first_byte :: "string \<Rightarrow> int" where
  "first_byte s = (case s of [] \<Rightarrow> 0 | c # _ \<Rightarrow> sint (of_nat (of_char c) :: 8 word))"

definition connect_reply :: "string \<Rightarrow> string \<Rightarrow> string option" where
  "connect_reply mem uid = map_option response_bytes (MakeConnectResponse (take 255 mem) uid)"

definition status_reply :: "string \<Rightarrow> string \<Rightarrow> string option" where
  "status_reply mem v =
     (let status = take 255 mem; response = take 255 (drop 255 mem); pad = take 2 (drop 510 mem);
          packet = (\<lambda>st re. status_bytes pad \<lparr>status_type = 4, status_status = st, status_response = re\<rparr>) in
      if v = [] then map_option (\<lambda>st. packet st response) (strcpy status ''pending'')
      else
        (case strcpy status ''completed'' of
           None \<Rightarrow> None
         | Some st \<Rightarrow> map_option (packet st) (strcpy response v)))"

text \<open>
  \<open>uid\<close> is the id the generator yields, \<open>mem\<close> what the 512 uninitialised bytes of the answer's
  arrays and padding hold.  Reading a field outside the request is \<open>None\<close>.
\<close>

definition HandleData ::
  "string \<Rightarrow> string \<Rightarrow> string \<Rightarrow> nat \<Rightarrow> sync_server \<Rightarrow> (string \<times> sync_server) option" where
  "HandleData uid mem buffer buffer_length s =
     (let request = take buffer_length buffer;
          (b, s0) = enter_request s;
          packet_type = first_byte request in
      if packet_type = 1 then
        (case field_at 4 request of
           None \<Rightarrow> None
         | Some action \<Rightarrow>
             let s1 = store_pending uid (push_task uid b s0)
             in map_option (\<lambda>r. (r, leave_request b s1)) (connect_reply mem uid))
      else if packet_type = 3 then
        (case field_at 4 request of
           None \<Rightarrow> None
         | Some tid \<Rightarrow>
             let (v, s1) = look_up tid s0
             in map_option (\<lambda>r. (r, leave_request b s1)) (status_reply mem v))
      else Some (http_ok, leave_request b s0))"

definition Default_HandleData :: "string \<Rightarrow> nat \<Rightarrow> string" where
  "Default_HandleData buffer buffer_length = http_ok"

text \<open>\<open>SchedulerHandler\<close> gives the pool a job that only prints.\<close>

definition Scheduler_HandleData :: "string \<Rightarrow> nat \<Rightarrow> string list \<Rightarrow> string \<times> string list" where
  "Scheduler_HandleData buffer buffer_length printing_tasks =
     (http_ok, printing_tasks @ [''Task 1 executed!''])"

section \<open>The client program\<close>

text \<open>
  The packets it sends.  \<open>CONNECT_PACKET\<close> is initialised as a whole (the rest of the array is
  zero); of the status packet only the copied id is, in \<open>mem\<close>.
\<close>

definition client_connect_packet :: "string \<Rightarrow> string" where
  "client_connect_packet pad =
     connect_bytes pad \<lparr>connect_type = 1, connect_action = filled_buffer 255 ''test''\<rparr>"

definition client_check_packet :: "string \<Rightarrow> string \<Rightarrow> string option" where
  "client_check_packet mem uid =
     map_option (\<lambda>a. check_bytes (take 1 (drop 255 mem)) \<lparr>check_type = 3, check_task_id = a\<rparr>)
       (strcpy (take 255 mem) uid)"

record protocol_client =
  requests_sent :: "string list"

text \<open>
  The polling loop: for each round, whether the connection could be made and what was received.
  The list ends where the observation ends.
\<close>

fun client_polls ::
  "string \<Rightarrow> string \<Rightarrow> string option list \<Rightarrow> protocol_client \<Rightarrow> protocol_client outcome option" where
  "client_polls mem uid [] c = Some (Running c)"
| "client_polls mem uid (None # rs) c = Some (Exited 1 c)"
| "client_polls mem uid (Some response # rs) c =
     (case client_check_packet mem uid of
        None \<Rightarrow> None
      | Some packet \<Rightarrow>
          let c1 = c\<lparr>requests_sent := requests_sent c @ [packet]\<rparr> in
          (case field_at 4 response of
             None \<Rightarrow> None
           | Some status \<Rightarrow>
               if status = ''completed'' then Some (Exited 0 c1) else client_polls mem uid rs c1))"

definition client_main ::
  "string \<Rightarrow> string option \<Rightarrow> string option list \<Rightarrow> protocol_client \<Rightarrow> protocol_client outcome option" where
  "client_main mem connected answers c =
     (case connected of
        None \<Rightarrow> Some (Exited 1 c)
      | Some response \<Rightarrow>
          let c1 = c\<lparr>requests_sent := requests_sent c @ [client_connect_packet (take 1 (drop 255 mem))]\<rparr> in
          (case field_at 5 response of
             None \<Rightarrow> None
           | Some uid \<Rightarrow> client_polls mem uid answers c1))"

section \<open>What one request does\<close>

named_theorems sync_defs \<open>definitions of the steps on the shared state\<close>

declare enter_request_def [sync_defs] leave_request_def [sync_defs] push_task_def [sync_defs]
  store_pending_def [sync_defs] look_up_def [sync_defs] std_index_def [sync_defs]

lemma le32_codes:
  "le32 1 = [CHR 0x01, NUL, NUL, NUL]" "le32 2 = [CHR 0x02, NUL, NUL, NUL]"
  "le32 3 = [CHR 0x03, NUL, NUL, NUL]" "le32 4 = [CHR 0x04, NUL, NUL, NUL]"
proof -
  have "le_bytes (Suc (Suc (Suc (Suc 0)))) n = [char_of (n mod 256), char_of (n div 256 mod 256),
      char_of (n div 256 div 256 mod 256), char_of (n div 256 div 256 div 256 mod 256)]" for n
    by simp
  then have *: "le_bytes 4 n = [char_of (n mod 256), char_of (n div 256 mod 256),
      char_of (n div 256 div 256 mod 256), char_of (n div 256 div 256 div 256 mod 256)]" for n
    by (simp only: numeral_nat One_nat_def)
  show "le32 1 = [CHR 0x01, NUL, NUL, NUL]" "le32 2 = [CHR 0x02, NUL, NUL, NUL]"
    "le32 3 = [CHR 0x03, NUL, NUL, NUL]" "le32 4 = [CHR 0x04, NUL, NUL, NUL]"
    unfolding le32_def * by (simp_all add: char_of_def bit_0)
qed

lemma first_byte_small:
  "first_byte (CHR 0x01 # s) = 1" "first_byte (CHR 0x02 # s) = 2" "first_byte (CHR 0x03 # s) = 3"
  "first_byte (CHR 0x04 # s) = 4" "first_byte [] = 0"
  by (simp_all add: first_byte_def)

lemma field_at_drop: "off \<le> length s \<Longrightarrow> field_at off s = Some (c_str (drop off s))"
  by (simp add: field_at_def)

text \<open>A CONNECT packet registers the job and is answered with its id.\<close>

lemma connect_reply_uuid:
  assumes "uuid_digits ds" "length mem = 512"
  shows "\<exists>r. connect_reply mem (generateUuid ds) = Some r \<and> length r = 260 \<and> first_byte r = 2 \<and>
    field_at 5 r = Some (generateUuid ds)"
proof -
  let ?uid = "generateUuid ds" and ?m = "take 255 mem"
  have uid: "c_str ?uid = ?uid" "length ?uid = 36" "NUL \<notin> set ?uid"
    using assms(1) by (simp_all add: c_str_uuid length_generateUuid uuid_no_NUL)
  define arr where "arr = ?uid @ NUL # drop 37 ?m"
  have arr: "strcpy ?m ?uid = Some arr" "length arr = 255"
    using assms(2) uid(2) by (simp_all add: strcpy_fits uid(1) arr_def)
  define r where "r = [CHR 0x02, NUL, NUL, NUL, CHR ''1''] @ arr"
  have "connect_reply mem ?uid = Some r"
    by (simp add: connect_reply_def MakeConnectResponse_def arr(1) response_bytes_def le32_codes r_def)
  moreover have "field_at 5 r = Some ?uid"
    by (simp add: r_def field_at_drop arr_def c_str_cut c_str_id uid(3))
  moreover have "length r = 260" "first_byte r = 2"
    using arr(2) by (simp_all add: r_def first_byte_small)
  ultimately show ?thesis by blast
qed

lemma HandleData_connect:
  assumes "uuid_digits ds" "length mem = 512" "length action = 255" "length pad = 1"
  shows "\<exists>r t. HandleData (generateUuid ds) mem (connect_bytes pad \<lparr>connect_type = 1, connect_action = action\<rparr>) 260 s = Some (r, t) \<and>
    length r = 260 \<and> first_byte r = 2 \<and> field_at 5 r = Some (generateUuid ds) \<and>
    response_map t = (response_map s)(generateUuid ds \<mapsto> []) \<and>
    pool_tasks t = pool_tasks s @ [(generateUuid ds, next_request s)] \<and>
    next_request s \<notin> set (live_requests t) \<and> dangling_reads t = dangling_reads s"
  using connect_reply_uuid [OF assms(1,2)] assms(3,4)
  by (auto simp: HandleData_def connect_bytes_def le32_codes first_byte_small field_at_def sync_defs Let_def)

text \<open>Whatever the request, the answer fits one read of the client.\<close>

lemma strcpy_length: "strcpy d x = Some y \<Longrightarrow> length y = length d"
  by (auto simp: strcpy_def Let_def split: if_splits)

lemma HandleData_answer_length:
  assumes "HandleData uid mem buffer n s = Some (r, t)" "length mem = 512"
  shows "5 \<le> length r \<and> length r \<le> 516"
  using assms
  by (auto simp: HandleData_def connect_reply_def status_reply_def MakeConnectResponse_def response_bytes_def status_bytes_def
      http_ok_def Let_def dest!: strcpy_length split: if_splits option.splits prod.splits)

text \<open>A CHECK_STATUS packet is answered from the map.\<close>

definition status_text :: "string \<Rightarrow> sync_server \<Rightarrow> string" where
  "status_text uid s = (case response_map s uid of
     None \<Rightarrow> ''pending'' | Some v \<Rightarrow> if v = [] then ''pending'' else ''completed'')"

definition well_filled :: "sync_server \<Rightarrow> bool" where
  "well_filled s \<longleftrightarrow> (\<forall>v \<in> ran (response_map s). v = [] \<or> v = ''Response Received'')"

lemma status_reply_small:
  assumes "length mem = 512" "v = [] \<or> v = ''Response Received''"
  shows "\<exists>r. status_reply mem v = Some r \<and> length r = 516 \<and> first_byte r = 4 \<and>
    field_at 4 r = Some (if v = [] then ''pending'' else ''completed'') \<and>
    (v \<noteq> [] \<longrightarrow> field_at 259 r = Some v)"
  using assms
  by (auto simp: status_reply_def strcpy_def c_str_def status_bytes_def le32_codes first_byte_small
      field_at_def)

lemma HandleData_check:
  assumes "well_filled s" "length mem = 512" "length (request :: string) = 260" "take 4 request = le32 3"
    and "field_at 4 request = Some uid"
  shows "\<exists>r t. HandleData gen mem request 260 s = Some (r, t) \<and> length r = 516 \<and> first_byte r = 4 \<and>
    field_at 4 r = Some (status_text uid s) \<and> t = leave_request (next_request s) (snd (look_up uid (snd (enter_request s)))) "
proof -
  obtain rest where rest: "request = [CHR 0x03, NUL, NUL, NUL] @ rest"
    using assms(4) append_take_drop_id [of 4 request] by (metis le32_codes(3))
  let ?v = "fst (look_up uid (snd (enter_request s)))"
  have v: "?v = (case response_map s uid of None \<Rightarrow> [] | Some v \<Rightarrow> v)"
    by (simp add: sync_defs split: option.split)
  then have "?v = [] \<or> ?v = ''Response Received''"
    using assms(1) by (auto simp: well_filled_def ran_def split: option.splits)
  from status_reply_small [OF assms(2) this] obtain r where
    r: "status_reply mem ?v = Some r" "length r = 516" "first_byte r = 4"
    "field_at 4 r = Some (if ?v = [] then ''pending'' else ''completed'')" by blast
  have st: "(if ?v = [] then ''pending'' else ''completed'') = status_text uid s"
    by (simp add: status_text_def v split: option.split)
  have "HandleData gen mem request 260 s =
      Some (r, leave_request (next_request s) (snd (look_up uid (snd (enter_request s)))))"
    using assms(3,5) r(1)
    by (cases "look_up uid (snd (enter_request s))")
      (simp add: HandleData_def rest first_byte_small enter_request_def Let_def)
  then show ?thesis using r st by auto
qed

section \<open>Invariants of the steps\<close>

definition in_pool :: "string \<Rightarrow> sync_server \<Rightarrow> bool" where
  "in_pool uid s \<longleftrightarrow> uid \<in> fst ` set (pool_tasks s)"

lemma sync_run_simps [simp]:
  "sync_run [] s = s" "sync_run (e # es) s = sync_run es (sync_step e s)"
  "sync_run (es @ es') s = sync_run es' (sync_run es s)"
  by (simp_all add: sync_run_def)

lemma well_filled_initial: "well_filled sync_initial"
  by (simp add: well_filled_def sync_initial_def)

lemma well_filled_step: "well_filled s \<Longrightarrow> well_filled (sync_step ev s)"
  by (cases ev) (auto simp: well_filled_def sync_defs finish_task_def ran_def split: option.splits prod.splits if_splits)

lemma well_filled_run: "well_filled s \<Longrightarrow> well_filled (sync_run evs s)"
  by (induction evs arbitrary: s) (simp_all add: well_filled_step)

lemma in_pool_finish: "in_pool uid (finish_task k s) \<Longrightarrow> in_pool uid s"
  by (auto simp: in_pool_def finish_task_def split: if_splits prod.splits dest: in_set_takeD in_set_dropD)

lemma in_pool_step: "in_pool uid (sync_step ev s) \<Longrightarrow> in_pool uid s \<or> (\<exists>b. ev = Push uid b)"
  using in_pool_finish by (cases ev) (auto simp: in_pool_def sync_defs split: option.splits)

lemma in_pool_pushed: "in_pool uid (sync_run evs sync_initial) \<Longrightarrow> \<exists>b. Push uid b \<in> set evs"
proof (induction evs rule: rev_induct)
  case Nil
  then show ?case by (simp add: in_pool_def sync_initial_def)
next
  case (snoc ev evs)
  then show ?case using in_pool_step [of uid ev "sync_run evs sync_initial"] by auto
qed

text \<open>A result appears in the map only by the end of a job of that id.\<close>

lemma result_step:
  assumes "response_map (sync_step ev s) uid = Some v" "v \<noteq> []"
  shows "response_map s uid = Some v \<or>
    (\<exists>k b. ev = Finish k \<and> k < length (pool_tasks s) \<and> pool_tasks s ! k = (uid, b))"
  using assms
  by (cases ev) (auto simp: sync_defs finish_task_def split: option.splits prod.splits if_splits)

text \<open>C19: An id is reported completed only if its job has ended: in every interleaving of the steps of
  requests and jobs, starting with an empty server, when a CHECK_STATUS packet (260 bytes) is answered with
  completed, then a job was put into the pool under exactly that id and has finished.\<close>

theorem completed_only_after_job:
  assumes "length mem = 512" "length request = 260" "take 4 request = le32 3" "field_at 4 request = Some uid"
    and "HandleData gen mem request 260 (sync_run evs sync_initial) = Some (r, t)"
    and "field_at 4 r = Some ''completed''"
  shows "\<exists>es1 k es2 b. evs = es1 @ Finish k # es2 \<and> (\<exists>b'. Push uid b' \<in> set es1) \<and>
    k < length (pool_tasks (sync_run es1 sync_initial)) \<and> pool_tasks (sync_run es1 sync_initial) ! k = (uid, b)"
proof -
  let ?s = "sync_run evs sync_initial"
  have "well_filled ?s" by (simp add: well_filled_run well_filled_initial)
  from HandleData_check [OF this assms(1-4), of gen] assms(5,6) have "status_text uid ?s = ''completed''"
    by auto
  then obtain v where "response_map ?s uid = Some v" "v \<noteq> []"
    by (auto simp: status_text_def split: option.splits if_splits)
  then show ?thesis
  proof (induction evs rule: rev_induct)
    case Nil
    then show ?case by (simp add: sync_initial_def)
  next
    case (snoc ev evs)
    let ?u = "sync_run evs sync_initial"
    from result_step [of ev ?u uid v] snoc.prems consider
        "response_map ?u uid = Some v"
      | k b where "ev = Finish k" "k < length (pool_tasks ?u)" "pool_tasks ?u ! k = (uid, b)" by auto
    then show ?case
    proof cases
      case 1
      then show ?thesis using snoc by fastforce
    next
      case 2
      then have "in_pool uid ?u" by (force simp: in_pool_def dest: nth_mem)
      then show ?thesis using 2 in_pool_pushed [of uid evs] by blast
    qed
  qed
qed

lemma completed_only_after_job_witness:
  "\<exists>es1 k es2 b. [Push ''a'' 0, Store ''a'', Finish 0] = es1 @ Finish k # es2 \<and> (\<exists>b'. Push ''a'' b' \<in> set es1) \<and>
    k < length (pool_tasks (sync_run es1 sync_initial)) \<and> pool_tasks (sync_run es1 sync_initial) ! k = (''a'', b)"
proof -
  let ?req = "[CHR 0x03, NUL, NUL, NUL] @ ''a'' @ NUL # replicate 254 NUL"
    and ?s = "sync_run [Push ''a'' 0, Store ''a'', Finish 0] sync_initial"
  have req: "length ?req = 260" "take 4 ?req = le32 3" by (simp_all add: le32_codes)
  have f: "field_at 4 ?req = Some ''a''" by (rule field_at_string) simp_all
  have st: "status_text ''a'' ?s = ''completed''"
    by (simp add: status_text_def sync_initial_def sync_defs finish_task_def)
  have "well_filled ?s" by (rule well_filled_run [OF well_filled_initial])
  from HandleData_check [OF this _ req f, of "replicate 512 NUL" "[]"] st obtain r t where
    "HandleData [] (replicate 512 NUL) ?req 260 ?s = Some (r, t)" "field_at 4 r = Some ''completed''"
    by (metis length_replicate)
  then show ?thesis using completed_only_after_job [OF _ req f] by (metis length_replicate)
qed

text \<open>A job goes through two phases: waiting in the pool, and done.\<close>

definition jobs_of :: "string \<Rightarrow> sync_server \<Rightarrow> nat" where
  "jobs_of uid s = length (filter (\<lambda>x. fst x = uid) (pool_tasks s))"

definition job_waiting :: "string \<Rightarrow> sync_server \<Rightarrow> bool" where
  "job_waiting uid s \<longleftrightarrow> response_map s uid = Some [] \<and> jobs_of uid s = 1"

definition job_done :: "string \<Rightarrow> sync_server \<Rightarrow> bool" where
  "job_done uid s \<longleftrightarrow> response_map s uid = Some ''Response Received'' \<and> \<not> in_pool uid s"

definition job_lost :: "string \<Rightarrow> sync_server \<Rightarrow> bool" where
  "job_lost uid s \<longleftrightarrow> (response_map s uid = None \<or> response_map s uid = Some []) \<and> \<not> in_pool uid s"


lemma length_filter_remove_nth:
  assumes "k < length xs"
  shows "length (filter p (take k xs @ drop (Suc k) xs)) = length (filter p xs) - (if p (xs ! k) then 1 else 0)"
proof -
  have "length (filter p xs) = length (filter p (take k xs @ xs ! k # drop (Suc k) xs))"
    by (simp only: id_take_nth_drop [OF assms, symmetric])
  then show ?thesis by simp
qed

lemma jobs_of_zero: "jobs_of uid s = 0 \<longleftrightarrow> \<not> in_pool uid s"
  by (auto simp: in_pool_def jobs_of_def filter_empty_conv)

lemma jobs_of_simps [simp]:
  "jobs_of uid (push_task v b s) = jobs_of uid s + (if v = uid then 1 else 0)"
  "jobs_of uid (store_pending v s) = jobs_of uid s"
  "jobs_of uid (snd (look_up v s)) = jobs_of uid s"
  by (simp_all add: jobs_of_def push_task_def store_pending_def look_up_def split: prod.split)

lemma jobs_of_finish:
  "jobs_of uid (finish_task k s) =
     jobs_of uid s - (if k < length (pool_tasks s) \<and> fst (pool_tasks s ! k) = uid then 1 else 0)"
proof (cases "k < length (pool_tasks s)")
  case True
  then have "pool_tasks (finish_task k s) = take k (pool_tasks s) @ drop (Suc k) (pool_tasks s)"
    by (simp add: finish_task_def split: prod.split)
  then show ?thesis using True length_filter_remove_nth [OF True] by (simp only: jobs_of_def) simp
qed (simp add: finish_task_def)

lemma map_finish:
  "response_map (finish_task k s) uid =
     (if k < length (pool_tasks s) \<and> fst (pool_tasks s ! k) = uid then Some ''Response Received''
      else response_map s uid)"
  by (auto simp: finish_task_def split: prod.split)

definition foreign :: "string \<Rightarrow> sync_event \<Rightarrow> bool" where
  "foreign uid ev \<longleftrightarrow> (\<forall>b. ev \<noteq> Push uid b) \<and> ev \<noteq> Store uid"

lemma job_waiting_step:
  assumes "job_waiting uid s" "foreign uid ev"
  shows "job_waiting uid (sync_step ev s) \<or> job_done uid (sync_step ev s)"
proof (cases ev)
  case (Finish k)
  then show ?thesis
    using assms by (auto simp: job_waiting_def job_done_def jobs_of_zero [symmetric] jobs_of_finish map_finish)
next
  case (Check v)
  then have "response_map (sync_step ev s) uid = Some []"
    using assms by (auto simp: job_waiting_def sync_defs split: option.split)
  then show ?thesis using assms Check by (simp add: job_waiting_def)
qed (use assms in \<open>auto simp: job_waiting_def foreign_def push_task_def [of _ _ s] store_pending_def jobs_of_def\<close>)

lemma job_done_step:
  assumes "job_done uid s" "foreign uid ev"
  shows "job_done uid (sync_step ev s)"
proof -
  have "\<not> in_pool uid (sync_step ev s)"
    using assms in_pool_step [of uid ev s] by (auto simp: job_done_def foreign_def)
  moreover have "pool_tasks s ! k \<noteq> (uid, b)" if "k < length (pool_tasks s)" for k b
    using assms(1) nth_mem [OF that] by (force simp: job_done_def in_pool_def)
  ultimately show ?thesis
    using assms by (cases ev) (auto simp: job_done_def foreign_def sync_defs finish_task_def
        split: option.splits prod.splits if_splits)
qed

lemma job_lost_step:
  assumes "job_lost uid s" "\<forall>b. ev \<noteq> Push uid b"
  shows "job_lost uid (sync_step ev s)"
proof -
  have "\<not> in_pool uid (sync_step ev s)"
    using assms in_pool_step [of uid ev s] by (auto simp: job_lost_def)
  moreover have "pool_tasks s ! k \<noteq> (uid, b)" if "k < length (pool_tasks s)" for k b
    using assms(1) nth_mem [OF that] by (force simp: job_lost_def in_pool_def)
  ultimately show ?thesis
    using assms by (cases ev) (auto simp: job_lost_def sync_defs finish_task_def
        split: option.splits prod.splits if_splits)
qed

lemma job_lost_run: "job_lost uid s \<Longrightarrow> \<forall>b. Push uid b \<notin> set evs \<Longrightarrow> job_lost uid (sync_run evs s)"
proof (induction evs arbitrary: s)
  case (Cons ev evs)
  then have "job_lost uid (sync_step ev s)" by (intro job_lost_step) auto
  then show ?case using Cons by simp
qed simp

lemma job_done_run: "job_done uid s \<Longrightarrow> \<forall>ev \<in> set evs. foreign uid ev \<Longrightarrow> job_done uid (sync_run evs s)"
  by (induction evs arbitrary: s) (auto simp: job_done_step)

lemma job_waiting_run:
  "job_waiting uid s \<Longrightarrow> \<forall>ev \<in> set evs. foreign uid ev \<Longrightarrow>
   job_waiting uid (sync_run evs s) \<or> job_done uid (sync_run evs s)"
proof (induction evs arbitrary: s)
  case (Cons ev evs)
  then show ?case using job_waiting_step [of uid s ev] job_done_run [of uid "sync_step ev s" evs] by auto
qed simp

section \<open>Client and server together\<close>

text \<open>
  The server answers the polls of one client; before each poll a block of arbitrary steps of other
  requests and of jobs happens.
\<close>

fun server_answers ::
  "string \<Rightarrow> string \<Rightarrow> string \<Rightarrow> sync_event list list \<Rightarrow> sync_server \<Rightarrow> (string list \<times> sync_server) option" where
  "server_answers gen mem packet [] s = Some ([], s)"
| "server_answers gen mem packet (es # ess) s =
     (case HandleData gen mem packet (length packet) (sync_run es s) of
        None \<Rightarrow> None
      | Some (r, t) \<Rightarrow> map_option (\<lambda>(rs, u). (r # rs, u)) (server_answers gen mem packet ess t))"

lemma server_answers_length: "server_answers gen mem packet ess s = Some (rs, u) \<Longrightarrow> length rs = length ess"
  by (induction ess arbitrary: s rs) (auto split: option.splits)

lemma same_shared_state:
  assumes "response_map t = response_map s" "pool_tasks t = pool_tasks s"
  shows "well_filled t = well_filled s" "job_waiting uid t = job_waiting uid s"
    "job_done uid t = job_done uid s" "job_lost uid t = job_lost uid s"
  using assms by (simp_all add: well_filled_def job_waiting_def jobs_of_def job_done_def job_lost_def in_pool_def)

lemma poll_state:
  fixes s :: sync_server and uid :: string
  defines "t \<equiv> leave_request (next_request s) (snd (look_up uid (snd (enter_request s))))"
  shows "response_map t = response_map (sync_step (Check uid) s)" "pool_tasks t = pool_tasks (sync_step (Check uid) s)"
  by (simp_all add: t_def sync_defs split: option.split)

lemma foreign_Check [simp]: "foreign uid (Check v)"
  by (simp add: foreign_def)

lemma Check_keeps:
  "job_waiting uid s \<Longrightarrow> job_waiting uid (sync_step (Check uid) s)"
  by (auto simp: job_waiting_def sync_defs jobs_of_def)

lemma status_text_phase:
  "job_waiting uid s \<Longrightarrow> status_text uid s = ''pending''"
  "job_lost uid s \<Longrightarrow> status_text uid s = ''pending''"
  "job_done uid s \<Longrightarrow> status_text uid s = ''completed''"
  by (auto simp: job_waiting_def job_lost_def job_done_def status_text_def split: option.split)

lemma job_phases_exclusive: "job_waiting uid s \<Longrightarrow> \<not> job_done uid s"
  by (simp add: job_waiting_def job_done_def)

text \<open>One poll: the answer, and the state after it in terms of the steps.\<close>

lemma poll_once:
  assumes "well_filled s" "length mem = 512" "length packet = 260" "take 4 packet = le32 3" "field_at 4 packet = Some uid"
  shows "\<exists>r t. HandleData gen mem packet (length packet) s = Some (r, t) \<and> field_at 4 r = Some (status_text uid s) \<and>
    well_filled t \<and> (job_done uid s \<longrightarrow> job_done uid t) \<and> (job_waiting uid s \<longrightarrow> job_waiting uid t) \<and>
    (job_lost uid s \<longrightarrow> job_lost uid t)"
proof -
  obtain r where r: "HandleData gen mem packet (length packet) s =
      Some (r, leave_request (next_request s) (snd (look_up uid (snd (enter_request s)))))"
    "field_at 4 r = Some (status_text uid s)"
    using HandleData_check [OF assms, of gen] assms(3) by auto
  note same = same_shared_state [OF poll_state]
  show ?thesis
    unfolding r(1)
    using r(2) well_filled_step [OF assms(1), of "Check uid"] job_done_step [of uid s "Check uid"]
      Check_keeps [of uid s] job_lost_step [of uid s "Check uid"]
    by (auto simp: same simp del: sync_step.simps)
qed

lemma answers_done:
  assumes "well_filled s" "job_done uid s" "\<forall>es \<in> set ess. \<forall>ev \<in> set es. foreign uid ev"
    and "length mem = 512" "length packet = 260" "take 4 packet = le32 3" "field_at 4 packet = Some uid"
  shows "\<exists>rs u. server_answers gen mem packet ess s = Some (rs, u) \<and>
    map (field_at 4) rs = replicate (length ess) (Some ''completed'') \<and> job_done uid u"
  using assms(1-3)
proof (induction ess arbitrary: s)
  case (Cons es ess)
  let ?s = "sync_run es s"
  have s: "well_filled ?s" "job_done uid ?s"
    using Cons.prems by (simp_all add: well_filled_run job_done_run)
  from poll_once [OF s(1) assms(4-7), of gen] obtain r t where
    t: "HandleData gen mem packet (length packet) ?s = Some (r, t)" "field_at 4 r = Some (status_text uid ?s)"
    "well_filled t" "job_done uid ?s \<longrightarrow> job_done uid t" "job_waiting uid ?s \<longrightarrow> job_waiting uid t"
    "job_lost uid ?s \<longrightarrow> job_lost uid t"
    by blast
  from Cons.IH [OF t(3)] t(4) s(2) Cons.prems(3) obtain rs u where
    "server_answers gen mem packet ess t = Some (rs, u)"
    "map (field_at 4) rs = replicate (length ess) (Some ''completed'')" "job_done uid u" by auto
  then show ?case using t(1,2) status_text_phase(3) [OF s(2)] by auto
qed simp

lemma answers_waiting:
  assumes "well_filled s" "job_waiting uid s" "\<forall>es \<in> set ess. \<forall>ev \<in> set es. foreign uid ev"
    and "length mem = 512" "length packet = 260" "take 4 packet = le32 3" "field_at 4 packet = Some uid"
  shows "\<exists>rs u m. server_answers gen mem packet ess s = Some (rs, u) \<and> m \<le> length ess \<and>
    map (field_at 4) rs = replicate m (Some ''pending'') @ replicate (length ess - m) (Some ''completed'') \<and>
    (if m < length ess then job_done uid u else job_waiting uid u)"
  using assms(1-3)
proof (induction ess arbitrary: s)
  case (Cons es ess)
  let ?s = "sync_run es s"
  have s: "well_filled ?s" "job_waiting uid ?s \<or> job_done uid ?s"
    using Cons.prems job_waiting_run [of uid s es] by (simp_all add: well_filled_run)
  from poll_once [OF s(1) assms(4-7), of gen] obtain r t where
    t: "HandleData gen mem packet (length packet) ?s = Some (r, t)" "field_at 4 r = Some (status_text uid ?s)"
    "well_filled t" "job_done uid ?s \<longrightarrow> job_done uid t" "job_waiting uid ?s \<longrightarrow> job_waiting uid t"
    "job_lost uid ?s \<longrightarrow> job_lost uid t"
    by blast
  show ?case
  proof (cases "job_done uid ?s")
    case True
    from answers_done [OF t(3) t(4) [rule_format, OF True], of ess mem packet gen] assms(4-7) Cons.prems(3) obtain rs u where
      "server_answers gen mem packet ess t = Some (rs, u)"
      "map (field_at 4) rs = replicate (length ess) (Some ''completed'')" "job_done uid u" by auto
    then show ?thesis using t(1,2) status_text_phase(3) [OF True] by (intro exI [of _ "r # rs"] exI [of _ u] exI [of _ 0]) simp
  next
    case False
    then have w: "job_waiting uid ?s" using s(2) by simp
    from Cons.IH [OF t(3) t(5) [rule_format, OF w]] Cons.prems(3) obtain rs u m where
      "server_answers gen mem packet ess t = Some (rs, u)" "m \<le> length ess"
      "map (field_at 4) rs = replicate m (Some ''pending'') @ replicate (length ess - m) (Some ''completed'')"
      "if m < length ess then job_done uid u else job_waiting uid u" by auto
    then show ?thesis using t(1,2) status_text_phase(1) [OF w]
      by (intro exI [of _ "r # rs"] exI [of _ u] exI [of _ "Suc m"]) (auto split: if_splits)
  qed
qed simp

lemma answers_lost:
  assumes "well_filled s" "job_lost uid s" "\<forall>es \<in> set ess. \<forall>b. Push uid b \<notin> set es"
    and "length mem = 512" "length packet = 260" "take 4 packet = le32 3" "field_at 4 packet = Some uid"
  shows "\<exists>rs u. server_answers gen mem packet ess s = Some (rs, u) \<and>
    map (field_at 4) rs = replicate (length ess) (Some ''pending'')"
  using assms(1-3)
proof (induction ess arbitrary: s)
  case (Cons es ess)
  let ?s = "sync_run es s"
  have s: "well_filled ?s" "job_lost uid ?s"
    using Cons.prems by (simp_all add: well_filled_run job_lost_run)
  from poll_once [OF s(1) assms(4-7), of gen] obtain r t where
    t: "HandleData gen mem packet (length packet) ?s = Some (r, t)" "field_at 4 r = Some (status_text uid ?s)"
    "well_filled t" "job_done uid ?s \<longrightarrow> job_done uid t" "job_waiting uid ?s \<longrightarrow> job_waiting uid t"
    "job_lost uid ?s \<longrightarrow> job_lost uid t"
    by blast
  from Cons.IH [OF t(3)] t(6) s(2) Cons.prems(3) show ?case
    using t(1,2) status_text_phase(2) [OF s(2)] by auto
qed simp

lemma client_check_packet_fields:
  assumes "uuid_digits ds" "length memc = 256"
  shows "\<exists>p. client_check_packet memc (generateUuid ds) = Some p \<and> length p = 260 \<and> take 4 p = le32 3 \<and>
    field_at 4 p = Some (generateUuid ds)"
proof -
  let ?uid = "generateUuid ds"
  have "strcpy (take 255 memc) ?uid = Some (?uid @ NUL # drop 37 (take 255 memc))"
    using assms by (simp add: strcpy_fits c_str_uuid length_generateUuid)
  then show ?thesis
    using assms by (simp add: client_check_packet_def check_bytes_def field_at_string uuid_no_NUL length_generateUuid)
qed

lemma client_polls_pending:
  assumes "client_check_packet memc uid = Some p" "map (field_at 4) rs = replicate m (Some ''pending'') @ rest"
    and "rest = [] \<or> hd rest = Some ''completed''"
  shows "client_polls memc uid (map Some rs) c =
    Some (if rest = [] then Running (c\<lparr>requests_sent := requests_sent c @ replicate m p\<rparr>)
          else Exited 0 (c\<lparr>requests_sent := requests_sent c @ replicate (Suc m) p\<rparr>))"
  using assms(2)
proof (induction rs arbitrary: m c)
  case (Cons r rs)
  show ?case
  proof (cases m)
    case 0
    then show ?thesis using Cons.prems assms(1,3) by auto
  next
    case (Suc n)
    then have "field_at 4 r = Some ''pending''" "map (field_at 4) rs = replicate n (Some ''pending'') @ rest"
      using Cons.prems by auto
    then show ?thesis using Cons.IH [of n "c\<lparr>requests_sent := requests_sent c @ [p]\<rparr>"] assms(1) Suc by simp
  qed
qed simp

lemma session_steps:
  assumes "well_filled s" "\<not> in_pool (generateUuid ds) s" "uuid_digits ds"
    and "length mem = 512" "length memc = 256" "\<forall>es \<in> set ess. \<forall>ev \<in> set es. foreign (generateUuid ds) ev"
  shows "\<exists>r t p rs u m.
    HandleData (generateUuid ds) mem (client_connect_packet (drop 255 memc)) 260 s = Some (r, t) \<and>
    field_at 5 r = Some (generateUuid ds) \<and> client_check_packet memc (generateUuid ds) = Some p \<and>
    server_answers gen mem p ess t = Some (rs, u) \<and> m \<le> length ess \<and>
    client_main memc (Some r) (map Some rs) c = Some
      (if m < length ess
       then Exited 0 (c\<lparr>requests_sent := requests_sent c @ client_connect_packet (drop 255 memc) # replicate (Suc m) p\<rparr>)
       else Running (c\<lparr>requests_sent := requests_sent c @ client_connect_packet (drop 255 memc) # replicate m p\<rparr>)) \<and>
    (job_done (generateUuid ds) u \<longleftrightarrow> m < length ess) \<and> (job_waiting (generateUuid ds) u \<longleftrightarrow> m = length ess)"
proof -
  let ?uid = "generateUuid ds" and ?cp = "client_connect_packet (drop 255 memc)"
  obtain r t where t: "HandleData ?uid mem ?cp 260 s = Some (r, t)" "field_at 5 r = Some ?uid"
    "response_map t = (response_map s)(?uid \<mapsto> [])" "pool_tasks t = pool_tasks s @ [(?uid, next_request s)]"
    using HandleData_connect [OF assms(3,4), of "filled_buffer 255 ''test''" "drop 255 memc" s] assms(5)
    unfolding client_connect_packet_def by auto
  have "jobs_of ?uid s = 0" using assms(2) by (simp add: jobs_of_zero)
  then have "job_waiting ?uid t" by (simp add: job_waiting_def jobs_of_def t(3,4))
  moreover have "well_filled t"
    using assms(1) by (auto simp: well_filled_def t(3) ran_def split: if_splits)
  moreover obtain p where p: "client_check_packet memc ?uid = Some p" "length p = 260" "take 4 p = le32 3"
    "field_at 4 p = Some ?uid"
    using client_check_packet_fields [OF assms(3,5)] by blast
  ultimately obtain rs u m where m: "server_answers gen mem p ess t = Some (rs, u)" "m \<le> length ess"
    "map (field_at 4) rs = replicate m (Some ''pending'') @ replicate (length ess - m) (Some ''completed'')"
    "if m < length ess then job_done ?uid u else job_waiting ?uid u"
    using answers_waiting [of t ?uid ess mem p gen] assms(4,6) by blast
  have "hd (replicate (length ess - m) (Some ''completed'')) = Some ''completed''" if "m < length ess"
    using that by (cases "length ess - m") auto
  then have "replicate (length ess - m) (Some ''completed'') = [] \<or>
      hd (replicate (length ess - m) (Some ''completed'')) = Some ''completed''"
    by (cases "m < length ess") auto
  note polls = client_polls_pending [OF p(1) m(3) this, of "c\<lparr>requests_sent := requests_sent c @ [?cp]\<rparr>"]
  have "client_main memc (Some r) (map Some rs) c = client_polls memc ?uid (map Some rs)
      (c\<lparr>requests_sent := requests_sent c @ [?cp]\<rparr>)"
    using assms(5) by (simp add: client_main_def t(2))
  then have "client_main memc (Some r) (map Some rs) c = Some
      (if m < length ess then Exited 0 (c\<lparr>requests_sent := requests_sent c @ ?cp # replicate (Suc m) p\<rparr>)
       else Running (c\<lparr>requests_sent := requests_sent c @ ?cp # replicate m p\<rparr>))"
    using polls m(2) by (simp del: replicate_Suc)
  moreover have "(job_done ?uid u \<longleftrightarrow> m < length ess) \<and> (job_waiting ?uid u \<longleftrightarrow> m = length ess)"
    using m(2,4) job_phases_exclusive by (cases "m < length ess") auto
  ultimately show ?thesis using t(1,2) p(1) m(1,2) by blast
qed

text \<open>The protocol works end to end.  A client that connects gets an id and its job is in the
  pool; from then on, whatever the requests of others and the jobs do before each of its polls
  (as long as its id is not generated again), it is told pending until its job has finished and
  completed from the first poll after that; there it stops with status 0, having sent nothing but
  well-formed status requests.\<close>

theorem sync_session:
  assumes "well_filled s" "\<not> in_pool (generateUuid ds) s" "uuid_digits ds"
    and "length mem = 512" "length memc = 256" "\<forall>es \<in> set ess. \<forall>ev \<in> set es. foreign (generateUuid ds) ev"
  shows "\<exists>r t p rs u m.
    HandleData (generateUuid ds) mem (client_connect_packet (drop 255 memc)) 260 s = Some (r, t) \<and>
    server_answers gen mem p ess t = Some (rs, u) \<and> m \<le> length ess \<and>
    client_main memc (Some r) (map Some rs) c = Some
      (if m < length ess
       then Exited 0 (c\<lparr>requests_sent := requests_sent c @ client_connect_packet (drop 255 memc) # replicate (Suc m) p\<rparr>)
       else Running (c\<lparr>requests_sent := requests_sent c @ client_connect_packet (drop 255 memc) # replicate m p\<rparr>)) \<and>
    (job_done (generateUuid ds) u \<longleftrightarrow> m < length ess) \<and> (job_waiting (generateUuid ds) u \<longleftrightarrow> m = length ess)"
  using session_steps [OF assms, of gen c] by blast

lemma sync_initial_idle: "well_filled sync_initial" "\<not> in_pool uid sync_initial"
  by (simp_all add: well_filled_initial) (simp add: in_pool_def sync_initial_def)

lemma sample_digits: "uuid_digits (replicate 32 1)"
  by (simp add: uuid_digits_def)

lemma sync_session_witness:
  "\<exists>r t p rs u m.
    HandleData (generateUuid (replicate 32 1)) (replicate 512 NUL) (client_connect_packet (drop 255 (replicate 256 NUL))) 260 sync_initial = Some (r, t) \<and>
    server_answers [] (replicate 512 NUL) p [[], [Finish 0], []] t = Some (rs, u) \<and> m \<le> length [[], [Finish 0], []] \<and>
    client_main (replicate 256 NUL) (Some r) (map Some rs) \<lparr>requests_sent = []\<rparr> = Some
      (if m < length [[], [Finish 0], []]
       then Exited 0 (\<lparr>requests_sent = []\<rparr>\<lparr>requests_sent := requests_sent \<lparr>requests_sent = []\<rparr> @ client_connect_packet (drop 255 (replicate 256 NUL)) # replicate (Suc m) p\<rparr>)
       else Running (\<lparr>requests_sent = []\<rparr>\<lparr>requests_sent := requests_sent \<lparr>requests_sent = []\<rparr> @ client_connect_packet (drop 255 (replicate 256 NUL)) # replicate m p\<rparr>)) \<and>
    (job_done (generateUuid (replicate 32 1)) u \<longleftrightarrow> m < length [[], [Finish 0], []]) \<and>
    (job_waiting (generateUuid (replicate 32 1)) u \<longleftrightarrow> m = length [[], [Finish 0], []])"
  by (rule sync_session [OF sync_initial_idle sample_digits]) (simp_all add: foreign_def)

text \<open>A job that ends too early is lost.  \<open>HandleData\<close> puts the job into the pool before it writes
  the empty entry into the map; if a worker finishes the job in between, the result is
  overwritten, every later status request for the id is answered pending, and a client that polls
  for it never ends.\<close>

theorem early_job_lost:
  assumes "well_filled s" "\<not> in_pool (generateUuid ds) s" "uuid_digits ds" "length mem = 512" "length memc = 256"
    and "\<forall>es \<in> set ess. \<forall>b. Push (generateUuid ds) b \<notin> set es"
  shows "\<exists>p rs u. server_answers gen mem p ess
      (sync_run [Push (generateUuid ds) b, Finish (length (pool_tasks s)), Store (generateUuid ds)] s) = Some (rs, u) \<and>
    length rs = length ess \<and>
    client_polls memc (generateUuid ds) (map Some rs) c =
      Some (Running (c\<lparr>requests_sent := requests_sent c @ replicate (length ess) p\<rparr>))"
proof -
  let ?uid = "generateUuid ds"
  let ?t = "sync_run [Push ?uid b, Finish (length (pool_tasks s)), Store ?uid] s"
  have "job_lost ?uid ?t"
    using assms(2) by (simp add: job_lost_def in_pool_def sync_defs finish_task_def)
  moreover have "well_filled ?t" by (rule well_filled_run [OF assms(1)])
  moreover obtain p where p: "client_check_packet memc ?uid = Some p" "length p = 260" "take 4 p = le32 3"
    "field_at 4 p = Some ?uid"
    using client_check_packet_fields [OF assms(3,5)] by blast
  ultimately obtain rs u where rs: "server_answers gen mem p ess ?t = Some (rs, u)"
    "map (field_at 4) rs = replicate (length ess) (Some ''pending'') @ []"
    using answers_lost [of ?t ?uid ess mem p gen] assms(4,6) by auto
  then have "length rs = length ess" by (metis append_Nil2 length_map length_replicate)
  then show ?thesis using rs client_polls_pending [OF p(1) rs(2)] by auto
qed

lemma early_job_lost_witness:
  "\<exists>p rs u. server_answers [] (replicate 512 NUL) p [[], []]
      (sync_run [Push (generateUuid (replicate 32 1)) 0, Finish (length (pool_tasks sync_initial)), Store (generateUuid (replicate 32 1))] sync_initial) = Some (rs, u) \<and>
    length rs = length [[], [] :: sync_event list] \<and>
    client_polls (replicate 256 NUL) (generateUuid (replicate 32 1)) (map Some rs) \<lparr>requests_sent = []\<rparr> =
      Some (Running (\<lparr>requests_sent = []\<rparr>\<lparr>requests_sent := requests_sent \<lparr>requests_sent = []\<rparr> @ replicate (length [[], [] :: sync_event list]) p\<rparr>))"
  by (rule early_job_lost [OF sync_initial_idle sample_digits]) simp_all

text \<open>Every job reads freed memory.  A job keeps the address of the request inside a local string of
  \<open>HandleData\<close>; once the call has returned, whatever happens before the job ends, its last statement
  reads that dead request.\<close>

theorem jobs_read_dead_requests:
  assumes "uuid_digits ds" "length mem = 512" "length action = 255" "length pad = 1"
    and "HandleData (generateUuid ds) mem (connect_bytes pad \<lparr>connect_type = 1, connect_action = action\<rparr>) 260 s = Some (r, t)"
    and "k < length (pool_tasks (sync_run evs t))" "pool_tasks (sync_run evs t) ! k = (uid, next_request s)"
  shows "next_request s \<in> set (dangling_reads (sync_run (evs @ [Finish k]) t))"
proof -
  have "next_request s \<notin> set (live_requests t)"
    using HandleData_connect [OF assms(1-4), of s] assms(5) by auto
  moreover have "live_requests (sync_step ev u) = live_requests u" for ev u
    by (cases ev) (auto simp: sync_defs finish_task_def split: option.splits prod.splits)
  then have "live_requests (sync_run evs t) = live_requests t"
    by (induction evs arbitrary: t) simp_all
  ultimately show ?thesis using assms(6,7) by (simp add: finish_task_def)
qed

lemma jobs_read_dead_requests_witness:
  "\<exists>r t. HandleData (generateUuid (replicate 32 1)) (replicate 512 NUL)
      (connect_bytes [NUL] \<lparr>connect_type = 1, connect_action = replicate 255 NUL\<rparr>) 260 sync_initial = Some (r, t) \<and>
    0 \<in> set (dangling_reads (sync_run ([] @ [Finish 0]) t))"
proof -
  obtain r t where t: "HandleData (generateUuid (replicate 32 1)) (replicate 512 NUL)
      (connect_bytes [NUL] \<lparr>connect_type = 1, connect_action = replicate 255 NUL\<rparr>) 260 sync_initial = Some (r, t)"
    "pool_tasks t = [(generateUuid (replicate 32 1), 0)]"
    using HandleData_connect [OF sample_digits, of "replicate 512 NUL" "replicate 255 NUL" "[NUL]" sync_initial]
    by (auto simp: sync_initial_def)
  then show ?thesis
    using jobs_read_dead_requests [OF sample_digits _ _ _ t(1), of 0 "[]" "generateUuid (replicate 32 1)"]
    by (auto simp: sync_initial_def simp del: sync_run_simps(3))
qed

end
