(* ===== verification/ProtocolPipeline.thy ===== *)
theory ProtocolPipeline
  imports SyncApi
begin

text \<open>
  What the protocol server does with one accepted connection, \<open>pipeline/CProtocolPipeline.cpp\<close>, the
  alternative routine of \<open>engine/interface/CProtocolSocket.cpp\<close>, and the start-up in \<open>main.cpp\<close>.
  A handler is a function of the request, its length and the handler's state (\<open>None\<close> when it reads
  outside the request); a server without a handler has \<open>None\<close> in its place.
\<close>

type_synonym 'h handler = "string \<Rightarrow> nat \<Rightarrow> 'h \<Rightarrow> (string \<times> 'h) option"

section \<open>CProtocolPipeline\<close>

record pipeline_env =
  pe_select :: int
  pe_ready :: "fd list"
  pe_recv :: "answer list"

text \<open>
  The loop that collects the request: whether it has ended, the request, and the state.  \<open>retry\<close>
  counts the turns without data and is never reset.
\<close>

fun pipeline_loop ::
  "pipeline_env list \<Rightarrow> fd \<Rightarrow> nat \<Rightarrow> string \<Rightarrow> 'a os_scheme \<Rightarrow> (bool \<times> string \<times> 'a os_scheme) option" where
  "pipeline_loop [] f retry request s = Some (False, request, s)"
| "pipeline_loop (e # es) f retry request s =
     (let (fds, s1) = server_SocketSelect f None (pe_select e) (pe_ready e) s in
      if Readable f fds then
        (case ReceiveBytes f (pe_recv e) s1 of
           None \<Rightarrow> None
         | Some (bytes, rest, s2) \<Rightarrow>
             if bytes = [] then Some (True, request, s2)
             else pipeline_loop es f retry (request @ bytes) s2)
      else if Suc retry = 100 then Some (True, request, s1)
      else pipeline_loop es f (Suc retry) request s1)"

text \<open>
  The whole routine: \<open>True\<close> when it has returned.  The log line reads the answer at the offset of
  a task id before it is sent.
\<close>

definition CProtocolPipeline ::
  "'h handler option \<Rightarrow> pipeline_env list \<Rightarrow> fd \<Rightarrow> os \<Rightarrow> 'h \<Rightarrow> (bool \<times> os \<times> 'h) option" where
  "CProtocolPipeline handler es f s h =
     (case handler of
        None \<Rightarrow> Some (True, s, h)
      | Some H \<Rightarrow>
          (case pipeline_loop es f 0 [] (snd (SetReadTimeOut f 0 s)) of
             None \<Rightarrow> None
           | Some (False, request, s1) \<Rightarrow> Some (False, s1, h)
           | Some (True, request, s1) \<Rightarrow>
               if request \<noteq> [] then
                 (case H request (length request) h of
                    None \<Rightarrow> None
                  | Some (response, h1) \<Rightarrow>
                      (case field_at 5 response of
                         None \<Rightarrow> None
                       | Some _ \<Rightarrow>
                           Some (True, emit (Call_close f) (SendBytes f (response @ [NUL]) (length response) s1), h1)))
               else Some (True, emit (Call_close f) s1, h)))"

section \<open>CProtocolSocket\<close>

text \<open>
  The routine used when no pipeline is set: every buffer received is handed to the handler at
  once, as the C string in the cleared 32000-byte buffer.  A buffer filled to its end has no NUL;
  the bytes behind it are \<open>stack\<close>.
\<close>

fun thread_handler_loop ::
  "'h handler \<Rightarrow> string \<Rightarrow> recv_res list \<Rightarrow> fd \<Rightarrow> os \<Rightarrow> 'h \<Rightarrow> (bool \<times> os \<times> 'h) option" where
  "thread_handler_loop H stack [] f s h = Some (False, s, h)"
| "thread_handler_loop H stack (r # rs) f s h =
     (let (ok, num_read, s1) = ReadSocketBuffer f 32000 r s in
      if \<not> ok then Some (True, s1, h)
      else
        (case H (c_str (filled_buffer 32000 (recv_bytes r) @ stack)) (nat num_read) h of
           None \<Rightarrow> None
         | Some (response, h1) \<Rightarrow>
             thread_handler_loop H stack rs f (SendBytes f (response @ [NUL]) (length response) s1) h1))"

definition ThreadHandler ::
  "'h handler option \<Rightarrow> string \<Rightarrow> recv_res list \<Rightarrow> fd \<Rightarrow> os \<Rightarrow> 'h \<Rightarrow> (bool \<times> os \<times> 'h) option" where
  "ThreadHandler handler stack rs f s h =
     (case handler of None \<Rightarrow> Some (True, s, h) | Some H \<Rightarrow> thread_handler_loop H stack rs f s h)"

record 'h protocol_socket =
  m_handler :: "'h handler option"
  pipeline_set :: bool

definition protocol_socket_ctor :: "'h protocol_socket" where
  "protocol_socket_ctor = \<lparr>m_handler = None, pipeline_set = False\<rparr>"

definition SetHandler :: "'h handler option \<Rightarrow> 'h protocol_socket \<Rightarrow> bool \<times> 'h protocol_socket" where
  "SetHandler ph p = (ph \<noteq> None, p\<lparr>m_handler := ph\<rparr>)"

definition SetPipeline :: "'h protocol_socket \<Rightarrow> bool \<times> 'h protocol_socket" where
  "SetPipeline p = (True, p\<lparr>pipeline_set := True\<rparr>)"

text \<open>
  \<open>setupDefaultPipeline\<close> and \<open>setupSchedulerPipeline\<close> differ in port and handler: the code they
  return and the configured socket, or an exception.
\<close>

definition setup_pipeline ::
  "int \<Rightarrow> nat \<Rightarrow> 'h handler option \<Rightarrow> listen_env \<Rightarrow> os \<Rightarrow> (int \<times> 'h protocol_socket) \<times> os completion" where
  "setup_pipeline port max_connections handler e s =
     (case server_ctor False e s of
        (f, Raised m s1) \<Rightarrow> ((0, protocol_socket_ctor), Raised m s1)
      | (f, Done s1) \<Rightarrow>
          let (ok1, p1) = SetPipeline protocol_socket_ctor in
          if \<not> ok1 then ((-2, p1), Done s1)
          else
            let (ok2, p2) = SetHandler handler p1 in
            if \<not> ok2 then ((-2, p2), Done s1)
            else ((0, p2), server_Open e port max_connections f s1))"

text \<open>\<open>main\<close>: the codes are ignored; an exception ends the process.\<close>

definition protocol_main ::
  "'h handler \<Rightarrow> 'g handler \<Rightarrow> nat \<Rightarrow> listen_env \<Rightarrow> listen_env \<Rightarrow> os \<Rightarrow> os outcome" where
  "protocol_main sync_handler scheduler_handler max_connections e1 e2 s =
     (case snd (setup_pipeline 8080 max_connections (Some sync_handler) e1 s) of
        Raised m s1 \<Rightarrow> Exited 134 s1
      | Done s1 \<Rightarrow>
          (case snd (setup_pipeline 8081 max_connections (Some scheduler_handler) e2 s1) of
             Raised m s2 \<Rightarrow> Exited 134 s2
           | Done s2 \<Rightarrow> Running s2))"

section \<open>Lemmas\<close>

lemma receiveBytes_sends:
  "receiveBytes f arg ret as s = Some (b, rest, t) \<Longrightarrow>
   sends (trace t) = sends (trace s) \<and> hangups (trace t) = hangups (trace s)"
proof (induction f arg ret as s rule: receiveBytes.induct)
  case (1 f arg ret r as s)
  note IH1 = "1.IH"(1) [OF refl] and IH2 = "1.IH"(2) [OF refl]
  show ?case
  proof (cases "r = RErr EINTR")
    case True
    then show ?thesis using IH1 "1.prems" by (simp add: Let_def)
  next
    case noint: False
    show ?thesis
    proof (cases "recv_status r \<le> 0")
      case True
      then show ?thesis using "1.prems" noint by (cases "recv_status r < 0") (auto simp: Let_def)
    next
      case pos: False
      then obtain rc avail as1 where as: "as = AIoctl rc avail # as1"
        using "1.prems" noint by (auto simp: Let_def split: list.splits answer.splits)
      show ?thesis
        using "1.prems" noint pos IH2 [OF noint _ _ as refl refl refl refl]
        by (cases "IsSerialDataAvailable rc avail = 0") (auto simp: as Let_def)
    qed
  qed
qed simp_all

lemma same_sends_wire:
  "sends (trace t) = sends (trace s) \<Longrightarrow> wire t = wire s"
  by (simp add: wire_def)

text \<open>A turn either brings the chunk the kernel holds, or is idle.\<close>

definition turn_serves :: "fd \<Rightarrow> (pipeline_env \<Rightarrow> string) \<Rightarrow> pipeline_env \<Rightarrow> bool" where
  "turn_serves f P e \<longleftrightarrow> pe_select e \<noteq> -1 \<and> (f \<in> set (pe_ready e) \<longrightarrow> serves 1024 (P e) (pe_recv e))"

definition idle_turn :: "fd \<Rightarrow> pipeline_env \<Rightarrow> bool" where
  "idle_turn f e \<longleftrightarrow> f \<notin> set (pe_ready e)"

definition collected :: "fd \<Rightarrow> (pipeline_env \<Rightarrow> string) \<Rightarrow> pipeline_env list \<Rightarrow> string" where
  "collected f P es = concat (map P (filter (\<lambda>e. \<not> idle_turn f e) es))"

lemma serves_nonempty: "serves arg p as \<Longrightarrow> p \<noteq> []"
  by (induction rule: serves.induct) auto

lemma ready_of_select:
  "rv \<noteq> -1 \<Longrightarrow> server_SocketSelect f None rv ready s = (fds, s1) \<Longrightarrow>
   Readable f fds = (f \<in> set ready) \<and> s1 = emit (Call_select (f + 1) [f] []) s"
  by (auto simp: server_SocketSelect_def select_request_def select_max_def Readable_def Let_def)

text \<open>Turns before the end.\<close>

lemma pipeline_loop_collects:
  assumes "\<forall>e \<in> set es. turn_serves f P e" "retry + length (filter (idle_turn f) es) < 100"
  shows "\<exists>t. pipeline_loop (es @ later) f retry request s =
      pipeline_loop later f (retry + length (filter (idle_turn f) es)) (request @ collected f P es) t \<and>
    sends (trace t) = sends (trace s) \<and> hangups (trace t) = hangups (trace s)"
  using assms
proof (induction es arbitrary: retry request s)
  case (Cons e es)
  obtain fds s1 where sel: "server_SocketSelect f None (pe_select e) (pe_ready e) s = (fds, s1)"
    by (cases "server_SocketSelect f None (pe_select e) (pe_ready e) s")
  have s1: "Readable f fds = (f \<in> set (pe_ready e))" "s1 = emit (Call_select (f + 1) [f] []) s"
    using ready_of_select [OF _ sel] Cons.prems(1) by (auto simp: turn_serves_def)
  show ?case
  proof (cases "idle_turn f e")
    case True
    have "Suc retry \<noteq> 100" using Cons.prems(2) True by simp
    then show ?thesis
      using Cons.IH [of "Suc retry" request s1] Cons.prems True sel s1
      by (auto simp: idle_turn_def collected_def)
  next
    case False
    then have "serves 1024 (P e) (pe_recv e)" using Cons.prems(1) by (auto simp: turn_serves_def idle_turn_def)
    from receiveBytes_drains [OF this, of f "[]" "[]" s1] serves_nonempty [OF this] obtain s2 where
      s2: "ReceiveBytes f (pe_recv e) s1 = Some (P e, [], s2)" "P e \<noteq> []"
      by (auto simp: ReceiveBytes_def)
    have "sends (trace s2) = sends (trace s1)" "hangups (trace s2) = hangups (trace s1)"
      using receiveBytes_sends s2(1) unfolding ReceiveBytes_def by blast+
    then show ?thesis
      using Cons.IH [of retry "request @ P e" s2] Cons.prems False sel s1 s2
      by (auto simp: idle_turn_def collected_def)
  qed
next
  case Nil
  show ?case by (intro exI [of _ s]) (simp add: collected_def)
qed

text \<open>The turn that ends the request: the peer has closed, or it is the hundredth idle one.\<close>

definition ends_request :: "fd \<Rightarrow> nat \<Rightarrow> pipeline_env \<Rightarrow> bool" where
  "ends_request f retry e \<longleftrightarrow> pe_select e \<noteq> -1 \<and>
     (if idle_turn f e then retry = 99 else pe_recv e = [ARecv REof])"

lemma pipeline_loop_ends:
  assumes "ends_request f retry e"
  shows "\<exists>t. pipeline_loop (e # later) f retry request s = Some (True, request, t) \<and>
    sends (trace t) = sends (trace s) \<and> hangups (trace t) = hangups (trace s)"
proof -
  obtain fds s1 where sel: "server_SocketSelect f None (pe_select e) (pe_ready e) s = (fds, s1)"
    by (cases "server_SocketSelect f None (pe_select e) (pe_ready e) s")
  have "Readable f fds = (f \<in> set (pe_ready e))" "s1 = emit (Call_select (f + 1) [f] []) s"
    using ready_of_select [OF _ sel] assms by (auto simp: ends_request_def)
  then show ?thesis
    using assms sel by (auto simp: ends_request_def idle_turn_def ReceiveBytes_def Let_def split: if_splits)
qed

section \<open>Properties\<close>

lemma wire_SendBytes: "wire (SendBytes f (x @ [NUL]) (length x) s) = wire s @ [x]"
  by (simp add: SendBytes_def)

lemma hangups_SendBytes: "hangups (trace (SendBytes f x n s)) = hangups (trace s)"
  by (simp add: SendBytes_def)

lemma pipeline_answers:
  assumes "\<forall>e \<in> set es. turn_serves f P e" "length (filter (idle_turn f) es) < 100"
    and "ends_request f (length (filter (idle_turn f) es)) e'"
    and "H (collected f P es) (length (collected f P es)) h = Some (response, h1)" "5 \<le> length response"
  shows "\<exists>t. CProtocolPipeline (Some H) (es @ e' # later) f s h =
      Some (True, t, if collected f P es = [] then h else h1) \<and>
    wire t = wire s @ (if collected f P es = [] then [] else [response]) \<and>
    hangups (trace t) = hangups (trace s) @ [f]"
proof -
  let ?s1 = "snd (SetReadTimeOut f 0 s)" and ?n = "length (filter (idle_turn f) es)"
  obtain u where u: "pipeline_loop (es @ e' # later) f 0 [] ?s1 = pipeline_loop (e' # later) f ?n (collected f P es) u"
    "sends (trace u) = sends (trace ?s1)" "hangups (trace u) = hangups (trace ?s1)"
    using pipeline_loop_collects [OF assms(1), of 0 "e' # later" "[]" ?s1] assms(2) by auto
  obtain v where v: "pipeline_loop (e' # later) f ?n (collected f P es) u = Some (True, collected f P es, v)"
    "sends (trace v) = sends (trace u)" "hangups (trace v) = hangups (trace u)"
    using pipeline_loop_ends [OF assms(3)] by blast
  have "wire v = wire s" "hangups (trace v) = hangups (trace s)"
    using u(2,3) v(2,3) same_sends_wire [of v s] by (simp_all add: SetReadTimeOut_def)
  moreover have "wire (emit (Call_close f) x) = wire x" for x :: os by (simp add: wire_def)
  ultimately show ?thesis
    using u(1) v(1) assms(4,5)
    by (auto simp: CProtocolPipeline_def field_at_def wire_SendBytes hangups_SendBytes simp del: pipeline_loop.simps)
qed

text \<open>C17: One request, one answer.  However the bytes of a client arrive over the turns of the loop,
  they are put together in order; when the client closes, or at the hundredth turn without data,
  exactly what has arrived is given to the handler once, the handler's answer is sent once, and
  the connection is closed once; a client that has sent nothing by then is closed without the
  handler being called.  Nothing that arrives later is looked at.\<close>

theorem pipeline_answers_once:
  assumes "\<forall>e \<in> set es. turn_serves f P e" "length (filter (idle_turn f) es) < 100"
    and "ends_request f (length (filter (idle_turn f) es)) e'"
    and "H (collected f P es) (length (collected f P es)) h = Some (response, h1)" "5 \<le> length response"
  shows "\<exists>t. CProtocolPipeline (Some H) (es @ e' # later) f s h =
      Some (True, t, if collected f P es = [] then h else h1) \<and>
    wire t = wire s @ (if collected f P es = [] then [] else [response]) \<and>
    hangups (trace t) = hangups (trace s) @ [f]"
  using assms by (rule pipeline_answers)

definition data_turn :: "string \<Rightarrow> pipeline_env" where
  "data_turn d = \<lparr>pe_select = 1, pe_ready = [7], pe_recv = [ARecv (RData d), AIoctl 0 0]\<rparr>"

definition quiet_turn :: pipeline_env where
  "quiet_turn = \<lparr>pe_select = 0, pe_ready = [], pe_recv = []\<rparr>"

lemma data_turn_serves: "d \<noteq> [] \<Longrightarrow> length d \<le> 1024 \<Longrightarrow> P (data_turn d) = d \<Longrightarrow> turn_serves 7 P (data_turn d)"
  by (simp add: turn_serves_def data_turn_def serves.last)

lemma pipeline_answers_once_witness:
  "\<exists>t. CProtocolPipeline (Some (\<lambda>req n h. Some (http_ok, Suc h))) ([data_turn ''ab'', quiet_turn, data_turn ''c''] @
      \<lparr>pe_select = 1, pe_ready = [7], pe_recv = [ARecv REof]\<rparr> # []) 7 \<lparr>trace = []\<rparr> 0 =
      Some (True, t, Suc 0) \<and> wire t = [http_ok] \<and> hangups (trace t) = [7]"
proof -
  let ?P = "\<lambda>e. recv_bytes (case pe_recv e of ARecv r # _ \<Rightarrow> r | _ \<Rightarrow> REof)"
  have "\<forall>e \<in> set [data_turn ''ab'', quiet_turn, data_turn ''c'']. turn_serves 7 ?P e"
    using data_turn_serves [of "''ab''" ?P] data_turn_serves [of "''c''" ?P]
    by (simp add: turn_serves_def quiet_turn_def) (simp add: data_turn_def)
  from pipeline_answers_once [OF this, of "\<lparr>pe_select = 1, pe_ready = [7], pe_recv = [ARecv REof]\<rparr>"
      "\<lambda>req n h. Some (http_ok, Suc h)" 0 http_ok "Suc 0" "[]" "\<lparr>trace = []\<rparr>"]
  show ?thesis
    by (simp add: idle_turn_def data_turn_def quiet_turn_def ends_request_def http_ok_def wire_def
        collected_def)
qed

text \<open>The server as a whole registers a job.  When the bytes that have arrived on a connection,
  in whatever pieces, are the client program's CONNECT packet, the connection is answered with one
  packet of 260 bytes from which the client program reads its new id, and the job is in the pool
  with its map entry empty.\<close>

theorem pipeline_registers_job:
  assumes "\<forall>e \<in> set es. turn_serves f P e" "length (filter (idle_turn f) es) < 100"
    and "ends_request f (length (filter (idle_turn f) es)) e'"
    and "collected f P es = client_connect_packet [pad]" "uuid_digits ds" "length mem = 512"
  shows "\<exists>t h1 r. CProtocolPipeline (Some (HandleData (generateUuid ds) mem)) (es @ e' # later) f s h = Some (True, t, h1) \<and>
    wire t = wire s @ [r] \<and> length r = 260 \<and> field_at 5 r = Some (generateUuid ds) \<and>
    hangups (trace t) = hangups (trace s) @ [f] \<and>
    response_map h1 (generateUuid ds) = Some [] \<and> in_pool (generateUuid ds) h1"
proof -
  have len: "length (client_connect_packet [pad]) = 260"
    by (simp add: client_connect_packet_def connect_bytes_def)
  obtain r h1 where h: "HandleData (generateUuid ds) mem (client_connect_packet [pad]) 260 h = Some (r, h1)"
    "length r = 260" "field_at 5 r = Some (generateUuid ds)"
    "response_map h1 = (response_map h)(generateUuid ds \<mapsto> [])"
    "pool_tasks h1 = pool_tasks h @ [(generateUuid ds, next_request h)]"
    using HandleData_connect [OF assms(5,6), of "filled_buffer 255 ''test''" "[pad]" h]
    unfolding client_connect_packet_def by auto
  have "collected f P es \<noteq> []" using assms(4) len by auto
  with pipeline_answers [OF assms(1-3), of "HandleData (generateUuid ds) mem" h r h1 later s] h len assms(4)
  show ?thesis by (auto simp: in_pool_def)
qed

lemma pipeline_registers_job_witness:
  "\<exists>t h1 r. CProtocolPipeline (Some (HandleData (generateUuid (replicate 32 1)) (replicate 512 NUL)))
      ([data_turn (client_connect_packet [NUL])] @ \<lparr>pe_select = 1, pe_ready = [7], pe_recv = [ARecv REof]\<rparr> # [])
      7 \<lparr>trace = []\<rparr> sync_initial = Some (True, t, h1) \<and>
    wire t = wire \<lparr>trace = []\<rparr> @ [r] \<and> length r = 260 \<and> field_at 5 r = Some (generateUuid (replicate 32 1)) \<and>
    hangups (trace t) = hangups (trace \<lparr>trace = []\<rparr>) @ [7] \<and>
    response_map h1 (generateUuid (replicate 32 1)) = Some [] \<and> in_pool (generateUuid (replicate 32 1)) h1"
proof (rule pipeline_registers_job [where P = "\<lambda>e. client_connect_packet [NUL]" and pad = NUL])
  have "client_connect_packet [NUL] \<noteq> []" "length (client_connect_packet [NUL]) \<le> 1024"
    by (simp_all add: client_connect_packet_def connect_bytes_def le32_codes)
  then show "\<forall>e \<in> set [data_turn (client_connect_packet [NUL])]. turn_serves 7 (\<lambda>e. client_connect_packet [NUL]) e"
    using data_turn_serves [of "client_connect_packet [NUL]" "\<lambda>e. client_connect_packet [NUL]"] by simp
qed (simp_all add: idle_turn_def data_turn_def ends_request_def collected_def uuid_digits_def)

end
