(* ===== verification/LoadBalancer.thy ===== *)
theory LoadBalancer
  imports Posix
begin

text \<open>
  The load balancer of the protocol programs, \<open>engine/load_balancer\<close>.  A strategy's \<open>selectServer\<close>
  is a function of the servers and of the strategy's state; the state is in \<open>static\<close> variables of
  the template, so it belongs to the server type and not to one balancer, and it is passed in and
  out.  \<open>None\<close> is undefined behaviour: a division by the size of an empty vector, or an index
  outside.  An \<open>int\<close> is a 32-bit word, \<open>size_t\<close> a 64-bit word.
\<close>

section \<open>The interface\<close>

text \<open>
  What a strategy promises while its state is legal for the servers: it yields one of them and
  keeps its state legal.  The vectors are shorter than \<open>2^31\<close>, the range of the index.
\<close>

locale balancing =
  fixes select :: "'t list \<Rightarrow> 's \<Rightarrow> ('t \<times> 's) option"
    and legal :: "'t list \<Rightarrow> 's \<Rightarrow> bool"
  assumes selects: "servers \<noteq> [] \<Longrightarrow> length servers < 2 ^ 31 \<Longrightarrow> legal servers st \<Longrightarrow>
    \<exists>t st'. select servers st = Some (t, st') \<and> t \<in> set servers \<and> legal servers st'"

text \<open>A sequence of requests to the balancer.\<close>

fun requests ::
  "('t list \<Rightarrow> 's \<Rightarrow> ('t \<times> 's) option) \<Rightarrow> 't list \<Rightarrow> nat \<Rightarrow> 's \<Rightarrow> ('t list \<times> 's) option" where
  "requests select servers 0 st = Some ([], st)"
| "requests select servers (Suc n) st =
     (case select servers st of
        None \<Rightarrow> None
      | Some (t, st1) \<Rightarrow> map_option (\<lambda>(ts, st2). (t # ts, st2)) (requests select servers n st1))"

context balancing
begin

lemma always_serves:
  "servers \<noteq> [] \<Longrightarrow> length servers < 2 ^ 31 \<Longrightarrow> legal servers st \<Longrightarrow>
   \<exists>ts st'. requests select servers n st = Some (ts, st') \<and> length ts = n \<and> set ts \<subseteq> set servers \<and> legal servers st'"
proof (induction n arbitrary: st)
  case (Suc n)
  then obtain t st1 where t: "select servers st = Some (t, st1)" "t \<in> set servers" "legal servers st1"
    using selects by blast
  with Suc.IH [OF Suc.prems(1,2) t(3)] show ?case by auto
qed simp

end

section \<open>LoadBalancer\<close>

record 't load_balancer =
  lb_servers :: "'t list"

definition lb_ctor :: "'t load_balancer" where
  "lb_ctor = \<lparr>lb_servers = []\<rparr>"

definition addServer :: "'t \<Rightarrow> 't load_balancer \<Rightarrow> 't load_balancer" where
  "addServer server lb = lb\<lparr>lb_servers := lb_servers lb @ [server]\<rparr>"

definition removeAllServers :: "'t load_balancer \<Rightarrow> 't load_balancer" where
  "removeAllServers lb = lb\<lparr>lb_servers := []\<rparr>"

definition requestServer ::
  "('t list \<Rightarrow> 's \<Rightarrow> ('t \<times> 's) option) \<Rightarrow> 't load_balancer \<Rightarrow> 's \<Rightarrow> ('t \<times> 's) option" where
  "requestServer select lb st = select (lb_servers lb) st"

section \<open>The strategies\<close>

text \<open>
  \<open>(currentIndex + 1) % servers.size()\<close>: the sum is an \<open>int\<close> that is widened (with its sign) to
  \<open>size_t\<close> for the remainder, and the remainder is cut back to an \<open>int\<close>.
\<close>

definition next_index :: "32 word \<Rightarrow> 64 word \<Rightarrow> 32 word" where
  "next_index i n = ucast ((scast (i + 1) :: 64 word) mod n)"

definition vector_at :: "'t list \<Rightarrow> 32 word \<Rightarrow> 't option" where
  "vector_at xs i = (if unat (scast i :: 64 word) < length xs then Some (xs ! unat (scast i :: 64 word)) else None)"

definition RoundRobin :: "'t list \<Rightarrow> 32 word \<Rightarrow> ('t \<times> 32 word) option" where
  "RoundRobin servers currentIndex =
     (if servers = [] then None
      else
        let i = next_index currentIndex (word_of_nat (length servers))
        in map_option (\<lambda>t. (t, i)) (vector_at servers i))"

text \<open>The state of \<open>rand()\<close> is the function from the number of the call to its value.\<close>

definition RandomStrategy :: "'t list \<Rightarrow> (nat \<Rightarrow> 32 word) \<times> nat \<Rightarrow> ('t \<times> (nat \<Rightarrow> 32 word) \<times> nat) option" where
  "RandomStrategy servers st =
     (case st of (rand, k) \<Rightarrow>
        if servers = [] then None
        else
          let i = (scast (rand k) :: 64 word) mod word_of_nat (length servers)
          in (if unat i < length servers then Some (servers ! unat i, rand, Suc k) else None))"

text \<open>\<open>weight_of\<close> reads \<open>WeightedItem::weight\<close>.  The state is the index and the remaining weight.\<close>

definition WeightedRoundRobin ::
  "('t \<Rightarrow> 32 word) \<Rightarrow> 't list \<Rightarrow> 32 word \<times> 32 word \<Rightarrow> ('t \<times> 32 word \<times> 32 word) option" where
  "WeightedRoundRobin weight_of servers st =
     (case st of (currentIndex, weight) \<Rightarrow>
        let weight1 = (if sint weight > 0 then weight - 1 else weight) in
        if weight1 = 0 then
          (if servers = [] then None
           else
             let i = next_index currentIndex (word_of_nat (length servers))
             in map_option (\<lambda>t. (t, i, weight_of t)) (vector_at servers i))
        else map_option (\<lambda>t. (t, currentIndex, weight1)) (vector_at servers currentIndex))"

section \<open>Index arithmetic\<close>

lemma sint_index: "n < 2 ^ 31 \<Longrightarrow> sint (word_of_nat n :: 32 word) = int n"
  by (simp add: signed_of_nat signed_take_bit_int_eq_self)

lemma unat_index: "n < 2 ^ 31 \<Longrightarrow> unat (word_of_nat n :: 32 word) = n"
  by (simp add: unat_of_nat)

lemma scast_index: "n < 2 ^ 31 \<Longrightarrow> (scast (word_of_nat n :: 32 word) :: 64 word) = word_of_nat n"
  by (simp add: scast_eq sint_index)

lemma unat_index64: "n < 2 ^ 63 \<Longrightarrow> unat (word_of_nat n :: 64 word) = n"
  by (simp add: unat_of_nat)

lemma vector_at_index: "i < length xs \<Longrightarrow> length xs \<le> 2 ^ 31 \<Longrightarrow> vector_at xs (word_of_nat i) = Some (xs ! i)"
  by (simp add: vector_at_def scast_index unat_index64)

lemma mod_words: "a < 2 ^ 63 \<Longrightarrow> n < 2 ^ 63 \<Longrightarrow> (word_of_nat a :: 64 word) mod word_of_nat n = word_of_nat (a mod n)"
  by (metis unat_index64 word_arith_nat_mod)

lemma next_index_less:
  assumes "Suc i < 2 ^ 31" "n < 2 ^ 31" "0 < n"
  shows "next_index (word_of_nat i) (word_of_nat n) = word_of_nat (Suc i mod n)"
proof -
  have "(word_of_nat i + 1 :: 32 word) = word_of_nat (Suc i)" by simp
  moreover have "Suc i mod n < 2 ^ 31" using assms by (meson le_less_trans mod_less_eq_dividend)
  then have "(ucast (word_of_nat (Suc i mod n) :: 64 word) :: 32 word) = word_of_nat (Suc i mod n)"
    by (simp add: unsigned_of_nat take_bit_nat_eq_self)
  ultimately show ?thesis
    using assms by (simp only: next_index_def scast_index) (simp add: mod_words [of "Suc i" n, simplified])
qed

lemma next_index_start: "next_index (-1) n = 0"
  by (simp add: next_index_def)

section \<open>Sequences of requests\<close>

lemma requests_add:
  "requests select servers (m + n) st =
     (case requests select servers m st of
        None \<Rightarrow> None
      | Some (ts, st1) \<Rightarrow> map_option (\<lambda>(us, st2). (ts @ us, st2)) (requests select servers n st1))"
  by (induction m arbitrary: st) (auto split: option.splits simp: map_option_case)

text \<open>Rounds: if \<open>n\<close> requests from a state of a kind give \<open>ts\<close> and end in that kind, so do repetitions.\<close>

lemma requests_rounds:
  assumes round: "\<And>st. K st \<Longrightarrow> \<exists>st'. requests select servers n st = Some (ts, st') \<and> K st'"
  shows "K st \<Longrightarrow> \<exists>st'. requests select servers (m * n) st = Some (concat (replicate m ts), st') \<and> K st'"
proof (induction m arbitrary: st)
  case (Suc m)
  from round [OF Suc.prems] obtain st1 where st1: "requests select servers n st = Some (ts, st1)" "K st1" by blast
  with Suc.IH [OF st1(2)] show ?case by (auto simp: requests_add)
qed simp

section \<open>Round robin\<close>

text \<open>\<open>s\<close> is the position that comes next.\<close>

definition rr_next :: "'t list \<Rightarrow> 32 word \<Rightarrow> nat \<Rightarrow> bool" where
  "rr_next servers st s \<longleftrightarrow> st = -1 \<and> s = 0 \<or> (\<exists>k < length servers. st = word_of_nat k \<and> s = Suc k mod length servers)"

definition rr_legal :: "'t list \<Rightarrow> 32 word \<Rightarrow> bool" where
  "rr_legal servers st \<longleftrightarrow> (\<exists>s. rr_next servers st s)"

lemma next_index_rr:
  assumes "servers \<noteq> []" "length servers < 2 ^ 31" "rr_next servers st s"
  shows "next_index st (word_of_nat (length servers)) = word_of_nat s \<and> s < length servers"
  using assms(3) unfolding rr_next_def
proof
  assume "st = -1 \<and> s = 0"
  then show ?thesis using assms(1) by (simp add: next_index_start)
next
  assume "\<exists>k < length servers. st = word_of_nat k \<and> s = Suc k mod length servers"
  then obtain k where k: "k < length servers" "st = word_of_nat k" "s = Suc k mod length servers" by blast
  then have "Suc k < 2 ^ 31" using assms(2) by linarith
  then show ?thesis using next_index_less [of k "length servers"] assms(1,2) k by simp
qed

lemma round_robin_step:
  assumes "servers \<noteq> []" "length servers < 2 ^ 31" "rr_next servers st s"
  shows "RoundRobin servers st = Some (servers ! s, word_of_nat s) \<and>
    rr_next servers (word_of_nat s) (Suc s mod length servers) \<and> s < length servers"
proof -
  have "next_index st (word_of_nat (length servers)) = word_of_nat s \<and> s < length servers"
    by (rule next_index_rr [OF assms])
  then show ?thesis
    using assms(1,2) vector_at_index [of s servers] by (auto simp: RoundRobin_def rr_next_def Let_def)
qed

interpretation rr: balancing RoundRobin rr_legal
proof
  fix servers :: "'t list" and st
  assume "servers \<noteq> []" "length servers < 2 ^ 31" "rr_legal servers st"
  then show "\<exists>t st'. RoundRobin servers st = Some (t, st') \<and> t \<in> set servers \<and> rr_legal servers st'"
    using round_robin_step unfolding rr_legal_def by (metis nth_mem)
qed

lemma round_robin_run:
  assumes "servers \<noteq> []" "length servers < 2 ^ 31"
  shows "rr_next servers st s \<Longrightarrow>
    \<exists>st'. requests RoundRobin servers n st = Some (map (\<lambda>j. servers ! ((s + j) mod length servers)) [0..<n], st') \<and>
      rr_next servers st' ((s + n) mod length servers)"
proof (induction n arbitrary: st s)
  case 0
  then show ?case using round_robin_step [OF assms 0] by simp
next
  case (Suc n)
  note step = round_robin_step [OF assms Suc.prems]
  from step Suc.IH [of "word_of_nat s" "Suc s mod length servers"] obtain st' where
    st': "requests RoundRobin servers n (word_of_nat s) =
        Some (map (\<lambda>j. servers ! ((Suc s mod length servers + j) mod length servers)) [0..<n], st')"
    "rr_next servers st' ((Suc s mod length servers + n) mod length servers)" by blast
  have "(Suc s mod length servers + j) mod length servers = (s + Suc j) mod length servers" for j
    by (metis add_Suc_shift mod_add_left_eq)
  then show ?case
    using step st' by (simp add: upt_conv_Cons map_Suc_upt [symmetric] o_def del: upt_Suc)
qed

lemma one_round:
  "s < length servers \<Longrightarrow> map (\<lambda>j. servers ! ((s + j) mod length servers)) [0..<length servers] = rotate s servers"
  by (rule nth_equalityI) (simp_all add: nth_rotate)

text \<open>Round robin is fair.  From the first request on, and from every state the strategy can be in,
  any number of full rounds gives each round the servers in order (starting from where the index
  stands), so each server gets exactly its share.\<close>

theorem round_robin_fair:
  assumes "servers \<noteq> []" "length servers < 2 ^ 31" "rr_next servers st s"
  shows "\<exists>st'. requests RoundRobin servers (m * length servers) st = Some (concat (replicate m (rotate s servers)), st') \<and>
    rr_next servers st' s"
proof (rule requests_rounds [where K = "\<lambda>st. rr_next servers st s"])
  have "s < length servers" using round_robin_step [OF assms] by simp
  then have "(s + length servers) mod length servers = s" by simp
  then show "\<exists>st'. requests RoundRobin servers (length servers) st = Some (rotate s servers, st') \<and> rr_next servers st' s"
    if "rr_next servers st s" for st
    using round_robin_run [OF assms(1,2) that, of "length servers"] one_round [OF \<open>s < length servers\<close>] by simp
qed (rule assms(3))

lemma round_robin_fair_witness:
  "\<exists>st'. requests RoundRobin [''a'', ''b'', ''c''] (2 * length [''a'', ''b'', ''c'']) (-1) =
      Some (concat (replicate 2 (rotate 0 [''a'', ''b'', ''c''])), st') \<and> rr_next [''a'', ''b'', ''c''] st' 0"
  by (rule round_robin_fair) (simp_all add: rr_next_def)

section \<open>Random\<close>

interpretation random: balancing RandomStrategy "\<lambda>servers st. True"
proof
  fix servers :: "'t list" and st :: "(nat \<Rightarrow> 32 word) \<times> nat"
  assume s: "servers \<noteq> []" "length servers < 2 ^ 31"
  have "unat (w mod word_of_nat (length servers) :: 64 word) < length servers" for w
    using s by (simp add: unat_mod unat_index64)
  then show "\<exists>t st'. RandomStrategy servers st = Some (t, st') \<and> t \<in> set servers \<and> True"
    using s(1) by (cases st) (auto simp: RandomStrategy_def Let_def)
qed

section \<open>Weighted round robin\<close>

definition weighted_legal :: "'t list \<Rightarrow> 32 word \<times> 32 word \<Rightarrow> bool" where
  "weighted_legal servers st \<longleftrightarrow> st = (-1, 0) \<or> (\<exists>k < length servers. fst st = word_of_nat k)"

lemma next_index_legal:
  assumes "servers \<noteq> []" "length servers < 2 ^ 31" "i = -1 \<or> (\<exists>k < length servers. i = word_of_nat k)"
  shows "\<exists>s < length servers. next_index i (word_of_nat (length servers)) = word_of_nat s"
  using assms(3) next_index_rr [OF assms(1,2), of i] unfolding rr_next_def by blast

interpretation weighted: balancing "WeightedRoundRobin weight_of" weighted_legal
proof
  fix servers :: "'a list" and st :: "32 word \<times> 32 word"
  assume s: "servers \<noteq> []" "length servers < 2 ^ 31" and legal: "weighted_legal servers st"
  obtain i w where st: "st = (i, w)" by (cases st)
  define w1 where "w1 = (if sint w > 0 then w - 1 else w)"
  show "\<exists>t st'. WeightedRoundRobin weight_of servers st = Some (t, st') \<and> t \<in> set servers \<and> weighted_legal servers st'"
  proof (cases "w1 = 0")
    case True
    obtain k where "k < length servers" "next_index i (word_of_nat (length servers)) = word_of_nat k"
      using next_index_legal [OF s, of i] legal st by (auto simp: weighted_legal_def)
    then show ?thesis
      using True s vector_at_index [of k servers]
      by (auto simp: WeightedRoundRobin_def st w1_def [symmetric] weighted_legal_def Let_def)
  next
    case False
    then obtain k where "k < length servers" "i = word_of_nat k"
      using legal st by (auto simp: weighted_legal_def w1_def)
    then show ?thesis
      using False s vector_at_index [of k servers]
      by (auto simp: WeightedRoundRobin_def st w1_def [symmetric] weighted_legal_def Let_def)
  qed
qed

text \<open>A server that has just been chosen with \<open>w\<close> to go is chosen until one is left.\<close>

lemma weighted_stay:
  assumes "k < length servers" "length servers < 2 ^ 31"
  shows "Suc w < 2 ^ 31 \<Longrightarrow> requests (WeightedRoundRobin weight_of) servers w (word_of_nat k, word_of_nat (Suc w)) =
    Some (replicate w (servers ! k), word_of_nat k, 1)"
proof (induction w)
  case (Suc w)
  have pos: "sint (word_of_nat (Suc (Suc w)) :: 32 word) > 0" using sint_index [OF Suc.prems] by linarith
  have "(word_of_nat (Suc (Suc w)) :: 32 word) - 1 = word_of_nat (Suc w)" by simp
  moreover have "(word_of_nat (Suc w) :: 32 word) \<noteq> 0"
  proof
    assume "(word_of_nat (Suc w) :: 32 word) = 0"
    then have "unat (word_of_nat (Suc w) :: 32 word) = 0" by simp
    then show False using unat_index [of "Suc w"] Suc.prems by simp
  qed
  ultimately have "WeightedRoundRobin weight_of servers (word_of_nat k, word_of_nat (Suc (Suc w))) =
      Some (servers ! k, word_of_nat k, word_of_nat (Suc w))"
    using pos vector_at_index [OF assms(1)] assms(2) by (simp only: WeightedRoundRobin_def Let_def) simp
  then show ?case using Suc by (simp del: of_nat_Suc)
qed simp

text \<open>How often a server is chosen in a row: a weight of 0 counts as 1.\<close>

definition share :: "('t \<Rightarrow> 32 word) \<Rightarrow> 't \<Rightarrow> nat" where
  "share weight_of t = max 1 (nat (sint (weight_of t)))"

definition at_boundary :: "'t list \<Rightarrow> nat \<Rightarrow> 32 word \<times> 32 word \<Rightarrow> bool" where
  "at_boundary servers s st \<longleftrightarrow> rr_next servers (fst st) s \<and> (snd st = 0 \<or> snd st = 1)"

lemma weighted_turn:
  assumes "servers \<noteq> []" "length servers < 2 ^ 31" "at_boundary servers s st" "0 \<le> sint (weight_of (servers ! s))"
  shows "\<exists>st'. requests (WeightedRoundRobin weight_of) servers (share weight_of (servers ! s)) st =
      Some (replicate (share weight_of (servers ! s)) (servers ! s), st') \<and>
    at_boundary servers (Suc s mod length servers) st'"
proof -
  obtain i w where st: "st = (i, w)" by (cases st)
  have n: "next_index i (word_of_nat (length servers)) = word_of_nat s" "s < length servers"
    using next_index_rr [OF assms(1,2)] assms(3) st by (auto simp: at_boundary_def)
  have w: "(if sint w > 0 then w - 1 else w) = 0" using assms(3) st by (auto simp: at_boundary_def)
  have step: "WeightedRoundRobin weight_of servers st = Some (servers ! s, word_of_nat s, weight_of (servers ! s))"
    using n w assms(1,2) vector_at_index [OF n(2)] by (simp add: WeightedRoundRobin_def st Let_def)
  have nxt: "rr_next servers (word_of_nat s) (Suc s mod length servers)" using n(2) by (auto simp: rr_next_def)
  show ?thesis
  proof (cases "sint (weight_of (servers ! s)) = 0")
    case True
    then have "weight_of (servers ! s) = 0" by (rule signed_eq_0_iff [THEN iffD1])
    then show ?thesis using step nxt by (simp add: share_def at_boundary_def)
  next
    case False
    then have "0 < sint (weight_of (servers ! s))" using assms(4) by linarith
    then obtain v where v: "sint (weight_of (servers ! s)) = int (Suc v)"
      using pos_int_cases by (metis gr0_conv_Suc)
    have v31: "Suc v < 2 ^ 31" using sint_lt [of "weight_of (servers ! s)"] v by simp
    then have "weight_of (servers ! s) = word_of_nat (Suc v)"
      by (metis v of_int_sint of_int_of_nat_eq scast_id)
    moreover have "share weight_of (servers ! s) = Suc v" using v by (simp add: share_def)
    ultimately show ?thesis
      using step nxt weighted_stay [OF n(2) assms(2) v31, of weight_of]
      by (simp add: at_boundary_def del: of_nat_Suc)
  qed
qed

lemma weighted_prefix:
  assumes "servers \<noteq> []" "length servers < 2 ^ 31" "at_boundary servers 0 st" "\<forall>t \<in> set servers. 0 \<le> sint (weight_of t)"
  shows "k \<le> length servers \<Longrightarrow> \<exists>st'. requests (WeightedRoundRobin weight_of) servers
      (sum_list (map (share weight_of) (take k servers))) st =
        Some (concat (map (\<lambda>t. replicate (share weight_of t) t) (take k servers)), st') \<and>
    at_boundary servers (k mod length servers) st'"
proof (induction k)
  case 0
  then show ?case using assms(3) by simp
next
  case (Suc k)
  then obtain st1 where st1: "requests (WeightedRoundRobin weight_of) servers
      (sum_list (map (share weight_of) (take k servers))) st =
        Some (concat (map (\<lambda>t. replicate (share weight_of t) t) (take k servers)), st1)"
    "at_boundary servers (k mod length servers) st1" by auto
  from weighted_turn [OF assms(1,2) st1(2), of weight_of] assms(4) Suc.prems obtain st2 where
    "requests (WeightedRoundRobin weight_of) servers (share weight_of (servers ! k)) st1 =
      Some (replicate (share weight_of (servers ! k)) (servers ! k), st2)"
    "at_boundary servers (Suc k mod length servers) st2" by auto
  then show ?case
    using st1(1) Suc.prems by (simp add: take_Suc_conv_app_nth requests_add)
qed

text \<open>Weighted round robin serves by weight.  With weights that are not negative, every round gives
  each server, in order, as many requests in a row as its weight says (one where it says 0),
  for any number of rounds from the start.\<close>

theorem weighted_shares:
  assumes "servers \<noteq> []" "length servers < 2 ^ 31" "\<forall>t \<in> set servers. 0 \<le> sint (weight_of t)"
  shows "\<exists>st'. requests (WeightedRoundRobin weight_of) servers (m * sum_list (map (share weight_of) servers)) (-1, 0) =
    Some (concat (replicate m (concat (map (\<lambda>t. replicate (share weight_of t) t) servers))), st') \<and> at_boundary servers 0 st'"
proof (rule requests_rounds [where K = "at_boundary servers 0"])
  show "at_boundary servers 0 (-1, 0)" by (simp add: at_boundary_def rr_next_def)
  show "\<exists>st'. requests (WeightedRoundRobin weight_of) servers (sum_list (map (share weight_of) servers)) st =
      Some (concat (map (\<lambda>t. replicate (share weight_of t) t) servers), st') \<and> at_boundary servers 0 st'"
    if "at_boundary servers 0 st" for st
    using weighted_prefix [OF assms(1,2) that assms(3), of "length servers"] by simp
qed

lemma weighted_shares_witness:
  "\<exists>st'. requests (WeightedRoundRobin snd) [(''a'', 2 :: 32 word), (''b'', 0)] (3 * sum_list (map (share snd) [(''a'', 2), (''b'', 0)])) (-1, 0) =
    Some (concat (replicate 3 (concat (map (\<lambda>t. replicate (share snd t) t) [(''a'', 2), (''b'', 0)]))), st') \<and>
    at_boundary [(''a'', 2 :: 32 word), (''b'', 0)] 0 st'"
  by (rule weighted_shares) (simp_all)

text \<open>A negative weight captures the balancer.  Once a server with a negative weight has been chosen,
  it gets every later request.\<close>

theorem negative_weight_captures:
  assumes "servers \<noteq> []" "length servers < 2 ^ 31" "at_boundary servers s st" "sint (weight_of (servers ! s)) < 0"
  shows "\<exists>st'. requests (WeightedRoundRobin weight_of) servers n st = Some (replicate n (servers ! s), st')"
proof -
  let ?w = "weight_of (servers ! s)"
  obtain i w where st: "st = (i, w)" by (cases st)
  have k: "next_index i (word_of_nat (length servers)) = word_of_nat s" "s < length servers"
    using next_index_rr [OF assms(1,2)] assms(3) st by (auto simp: at_boundary_def)
  have w: "(if sint w > 0 then w - 1 else w) = 0" using assms(3) st by (auto simp: at_boundary_def)
  have step: "WeightedRoundRobin weight_of servers st = Some (servers ! s, word_of_nat s, ?w)"
    using k w assms(1,2) vector_at_index [OF k(2)] by (simp add: WeightedRoundRobin_def st Let_def)
  have "?w \<noteq> 0" "\<not> sint ?w > 0" using assms(4) by auto
  then have "WeightedRoundRobin weight_of servers (word_of_nat s, ?w) = Some (servers ! s, word_of_nat s, ?w)"
    using vector_at_index [OF k(2)] assms(2) by (simp add: WeightedRoundRobin_def Let_def)
  then have "requests (WeightedRoundRobin weight_of) servers m (word_of_nat s, ?w) =
      Some (replicate m (servers ! s), word_of_nat s, ?w)" for m
    by (induction m) simp_all
  then show ?thesis using step by (cases n) auto
qed

lemma negative_weight_captures_witness:
  "\<exists>st'. requests (WeightedRoundRobin snd) [(''a'', -1), (''b'', 5)] 10 (-1, 0) =
    Some (replicate 10 ([(''a'', -1), (''b'', 5 :: 32 word)] ! 0), st')"
  by (rule negative_weight_captures) (simp_all add: at_boundary_def rr_next_def)

end
