(* ===== verification/ProxySocket.thy ===== *)
theory ProxySocket
  imports ProtocolPipeline Proxies LoadBalancer
begin

text \<open>
  The balancing proxy of the protocol programs, \<open>engine/interface/CProxySocket.h\<close> and
  \<open>CProxySocket.cpp\<close>: each accepted connection is given to a server chosen by the load balancer,
  and the data of either side goes through the two functions of a \<open>CProxyHandler\<close>, an abstract
  class whose implementation is a parameter here.
\<close>

section \<open>Data\<close>

record resolved_service =
  rs_ipaddress :: string
  rs_port :: int
  rs_r_w :: int
  rs_alias :: string
  rs_weight :: "32 word"

record 'h proxy_handler =
  HandleUpstreamData :: "string \<Rightarrow> 'h \<Rightarrow> string \<times> 'h"
  HandleDownStreamData :: "string \<Rightarrow> 'h \<Rightarrow> string \<times> 'h"

record 'h proxy_socket =
  px_handler :: "'h proxy_handler option"
  px_services :: "resolved_service list"
  px_balancer :: "resolved_service load_balancer"

definition proxy_SetHandler :: "'h proxy_handler option \<Rightarrow> 'h proxy_socket \<Rightarrow> bool \<times> 'h proxy_socket" where
  "proxy_SetHandler ph p = (ph \<noteq> None, p\<lparr>px_handler := ph\<rparr>)"

definition SetConfigValues :: "resolved_service list \<Rightarrow> 'h proxy_socket \<Rightarrow> bool \<times> 'h proxy_socket" where
  "SetConfigValues services p = (True, p\<lparr>px_services := services\<rparr>)"

text \<open>\<open>Start\<close> fills a new balancer before it opens the socket.\<close>

definition proxy_Start ::
  "listen_env \<Rightarrow> int \<Rightarrow> nat \<Rightarrow> fd \<Rightarrow> 'h proxy_socket \<Rightarrow> os \<Rightarrow> 'h proxy_socket \<times> os completion" where
  "proxy_Start e port max_connections f p s =
     (p\<lparr>px_balancer := fold addServer (px_services p) lb_ctor\<rparr>, server_Open e port max_connections f s)"

section \<open>ThreadHandler\<close>

text \<open>One direction of a turn; \<open>False\<close> when nothing came in, which is handed on all the same.\<close>

definition px_side ::
  "(string \<Rightarrow> 'h \<Rightarrow> string \<times> 'h) \<Rightarrow> fd \<Rightarrow> fd \<Rightarrow> bool \<Rightarrow> answer list \<Rightarrow> os \<Rightarrow> 'h \<Rightarrow> (bool \<times> os \<times> 'h) option" where
  "px_side handle from_fd to_fd readable as s h =
     (if readable then
        (case ReceiveBytes from_fd as s of
           None \<Rightarrow> None
         | Some (bytes, rest, s1) \<Rightarrow>
             let (response, h1) = handle bytes h
             in Some (bytes \<noteq> [], SendBytes to_fd (response @ [NUL]) (length response) s1, h1))
      else Some (True, s, h))"

definition px_turn ::
  "'h proxy_handler \<Rightarrow> relay_env \<Rightarrow> fd \<Rightarrow> fd \<Rightarrow> os \<Rightarrow> 'h \<Rightarrow> (bool \<times> os \<times> 'h) option" where
  "px_turn H e c t s h =
     (let (fds, s1) = server_SocketSelect c (Some t) (re_select e) (re_ready e) s in
      case px_side (HandleUpstreamData H) c t (Readable c fds) (re_client e) s1 h of
        None \<Rightarrow> None
      | Some (ok1, s2, h1) \<Rightarrow>
          (case px_side (HandleDownStreamData H) t c (Readable t fds) (re_target e) s2 h1 of
             None \<Rightarrow> None
           | Some (ok2, s3, h2) \<Rightarrow> Some (ok1 \<and> ok2, s3, h2)))"

text \<open>The loop: \<open>True\<close> when the thread has returned.\<close>

fun px_loop ::
  "'h proxy_handler \<Rightarrow> relay_env list \<Rightarrow> fd \<Rightarrow> fd \<Rightarrow> os \<Rightarrow> 'h \<Rightarrow> (bool \<times> os \<times> 'h) option" where
  "px_loop H [] c t s h = Some (False, s, h)"
| "px_loop H (e # es) c t s h =
     (case px_turn H e c t s h of
        None \<Rightarrow> None
      | Some (True, s1, h1) \<Rightarrow> px_loop H es c t s1 h1
      | Some (False, s1, h1) \<Rightarrow> Some (True, s1, h1))"

text \<open>
  The thread: the server chosen, and the session with it.  An exception of the connection leaves
  the routine (\<open>ClientThreadProc\<close> prints it).  The strategy's state is returned as well.  The
  options are set on the client twice, where the target was meant once.
\<close>

definition proxy_ThreadHandler ::
  "(resolved_service list \<Rightarrow> 's \<Rightarrow> (resolved_service \<times> 's) option) \<Rightarrow> 'h proxy_socket \<Rightarrow> resolver \<Rightarrow> int \<Rightarrow> int \<Rightarrow>
   relay_env list \<Rightarrow> fd \<Rightarrow> 's \<Rightarrow> os \<Rightarrow> 'h \<Rightarrow> (bool \<times> 's \<times> os \<times> 'h) option" where
  "proxy_ThreadHandler select p r rv sock es c st s h =
     (case px_handler p of
        None \<Rightarrow> Some (True, st, s, h)
      | Some H \<Rightarrow>
          (case requestServer select (px_balancer p) st of
             None \<Rightarrow> None
           | Some (service, st1) \<Rightarrow>
               (case client_ctor (server_Connect (rs_ipaddress service) (rs_port service) r rv) (rs_ipaddress service) sock s of
                  None \<Rightarrow> None
                | Some (t, Raised m s1) \<Rightarrow> Some (True, st1, s1, h)
                | Some (t, Done s1) \<Rightarrow>
                    let s2 = snd (SetKeepAlive c 0 (snd (SetReadTimeOut c 0 s1)));
                        s3 = snd (SetKeepAlive c 0 (snd (SetReadTimeOut t 0 s2)))
                    in map_option (\<lambda>(ended, s4, h1). (ended, st1, s4, h1)) (px_loop H es c t s3 h))))"

section \<open>What a session does\<close>

text \<open>
  The specification: the chunks of both sides in the order of the turns, each passed through the
  handler; the streams to the target and to the client, and the handler's state.
\<close>

datatype chunk = Up string | Down string

fun handled :: "'h proxy_handler \<Rightarrow> chunk list \<Rightarrow> 'h \<Rightarrow> string \<times> string \<times> 'h" where
  "handled H [] h = ([], [], h)"
| "handled H (Up b # cs) h =
     (let (r, h1) = HandleUpstreamData H b h; (u, d, h2) = handled H cs h1 in (r @ u, d, h2))"
| "handled H (Down b # cs) h =
     (let (r, h1) = HandleDownStreamData H b h; (u, d, h2) = handled H cs h1 in (u, r @ d, h2))"

definition turn_chunks :: "fd \<Rightarrow> fd \<Rightarrow> (relay_env \<Rightarrow> string) \<Rightarrow> (relay_env \<Rightarrow> string) \<Rightarrow> relay_env \<Rightarrow> chunk list" where
  "turn_chunks c t P Q e =
     (if c \<in> set (re_ready e) then [Up (P e)] else []) @ (if t \<in> set (re_ready e) then [Down (Q e)] else [])"

definition side_serves :: "string \<Rightarrow> answer list \<Rightarrow> bool" where
  "side_serves p as \<longleftrightarrow> p = [] \<and> as = [ARecv REof] \<or> serves 1024 p as"

definition turn_ok :: "fd \<Rightarrow> fd \<Rightarrow> (relay_env \<Rightarrow> string) \<Rightarrow> (relay_env \<Rightarrow> string) \<Rightarrow> relay_env \<Rightarrow> bool" where
  "turn_ok c t P Q e \<longleftrightarrow> re_select e \<noteq> -1 \<and> (c \<in> set (re_ready e) \<longrightarrow> side_serves (P e) (re_client e)) \<and>
     (t \<in> set (re_ready e) \<longrightarrow> side_serves (Q e) (re_target e))"

definition turn_ends :: "fd \<Rightarrow> fd \<Rightarrow> (relay_env \<Rightarrow> string) \<Rightarrow> (relay_env \<Rightarrow> string) \<Rightarrow> relay_env \<Rightarrow> bool" where
  "turn_ends c t P Q e \<longleftrightarrow> c \<in> set (re_ready e) \<and> P e = [] \<or> t \<in> set (re_ready e) \<and> Q e = []"

lemma handled_append:
  "handled H (xs @ ys) h =
     (let (u, d, h1) = handled H xs h; (u', d', h2) = handled H ys h1 in (u @ u', d @ d', h2))"
  by (induction H xs h rule: handled.induct) (auto split: prod.splits)

lemma stream_to_SendBytes [simp]:
  "stream_to f (SendBytes g (x @ [NUL]) (length x) s) = stream_to f s @ (if g = f then x else [])"
  by (simp add: stream_to_def SendBytes_def)

lemma px_side_serves:
  assumes "readable \<longrightarrow> side_serves p as" "a \<noteq> b" "handle p h = (r, h1)"
  shows "\<exists>u. px_side handle a b readable as s h = Some (readable \<longrightarrow> p \<noteq> [], u, if readable then h1 else h) \<and>
    stream_to b u = stream_to b s @ (if readable then r else []) \<and> stream_to a u = stream_to a s \<and>
    hangups (trace u) = hangups (trace s)"
proof (cases readable)
  case True
  have "\<exists>v. ReceiveBytes a as s = Some (p, [], v)"
    using assms(1) True receiveBytes_drains [of 1024 p as a "[]" "[]" s]
    by (auto simp: side_serves_def ReceiveBytes_def Let_def)
  then obtain v where v: "ReceiveBytes a as s = Some (p, [], v)" by blast
  have "stream_to g v = stream_to g s" "hangups (trace v) = hangups (trace s)" for g
    using receiveBytes_sends [OF v [unfolded ReceiveBytes_def]] by (simp_all add: stream_to_def)
  then show ?thesis
    using True v assms(2,3) by (simp add: px_side_def hangups_SendBytes)
qed (simp add: px_side_def)

lemma px_turn_serves:
  assumes "turn_ok c t P Q e" "c \<noteq> t" "handled H (turn_chunks c t P Q e) h = (x, y, h')"
  shows "\<exists>u. px_turn H e c t s h = Some (\<not> turn_ends c t P Q e, u, h') \<and>
    stream_to t u = stream_to t s @ x \<and> stream_to c u = stream_to c s @ y \<and> hangups (trace u) = hangups (trace s)"
proof -
  obtain r1 h1 where up: "HandleUpstreamData H (P e) h = (r1, h1)" by fastforce
  let ?h1 = "if c \<in> set (re_ready e) then h1 else h"
  obtain r2 h2 where down: "HandleDownStreamData H (Q e) ?h1 = (r2, h2)" by fastforce
  define s1 where "s1 = emit (Call_select (max c t + 1) [c, t] []) s"
  have sel: "server_SocketSelect c (Some t) (re_select e) (re_ready e) s = (fd_select [c, t] (re_ready e), s1)"
    using assms(1) by (simp add: server_SocketSelect_def select_request_def select_max_def turn_ok_def s1_def Let_def)
  have ready: "Readable c (fd_select [c, t] (re_ready e)) = (c \<in> set (re_ready e))"
    "Readable t (fd_select [c, t] (re_ready e)) = (t \<in> set (re_ready e))" by (simp_all add: Readable_def)
  have sv: "c \<in> set (re_ready e) \<longrightarrow> side_serves (P e) (re_client e)"
    "t \<in> set (re_ready e) \<longrightarrow> side_serves (Q e) (re_target e)"
    using assms(1) by (simp_all add: turn_ok_def)
  obtain u where u: "px_side (HandleUpstreamData H) c t (c \<in> set (re_ready e)) (re_client e) s1 h =
      Some (c \<in> set (re_ready e) \<longrightarrow> P e \<noteq> [], u, ?h1)"
    "stream_to t u = stream_to t s1 @ (if c \<in> set (re_ready e) then r1 else [])" "stream_to c u = stream_to c s1"
    "hangups (trace u) = hangups (trace s1)"
    using px_side_serves [where handle = "HandleUpstreamData H" and h = h, OF sv(1) assms(2) up] by blast
  obtain v where v: "px_side (HandleDownStreamData H) t c (t \<in> set (re_ready e)) (re_target e) u ?h1 =
      Some (t \<in> set (re_ready e) \<longrightarrow> Q e \<noteq> [], v, if t \<in> set (re_ready e) then h2 else ?h1)"
    "stream_to c v = stream_to c u @ (if t \<in> set (re_ready e) then r2 else [])" "stream_to t v = stream_to t u"
    "hangups (trace v) = hangups (trace u)"
    using px_side_serves [where handle = "HandleDownStreamData H" and h = ?h1, OF sv(2) assms(2) [symmetric] down] by blast
  have "px_turn H e c t s h = Some (\<not> turn_ends c t P Q e, v, if t \<in> set (re_ready e) then h2 else ?h1)"
    by (simp add: px_turn_def sel ready u(1) v(1) turn_ends_def)
  moreover have "x = (if c \<in> set (re_ready e) then r1 else [])" "y = (if t \<in> set (re_ready e) then r2 else [])"
    "h' = (if t \<in> set (re_ready e) then h2 else ?h1)"
    using assms(3) up down by (auto simp: turn_chunks_def split: if_splits)
  ultimately show ?thesis using u v by (simp add: s1_def)
qed

lemma px_loop_session:
  assumes "c \<noteq> t" "\<forall>e \<in> set es. turn_ok c t P Q e \<and> \<not> turn_ends c t P Q e"
    and "turn_ok c t P Q e'" "turn_ends c t P Q e'"
  shows "handled H (concat (map (turn_chunks c t P Q) (es @ [e']))) h = (x, y, h') \<Longrightarrow>
    \<exists>u. px_loop H (es @ e' # later) c t s h = Some (True, u, h') \<and>
      stream_to t u = stream_to t s @ x \<and> stream_to c u = stream_to c s @ y \<and> hangups (trace u) = hangups (trace s)"
  using assms(2)
proof (induction es arbitrary: s h x y)
  case Nil
  then show ?case using px_turn_serves [OF assms(3,1), of H h x y h' s] assms(4) by auto
next
  case (Cons e es)
  obtain x1 y1 h1 where 1: "handled H (turn_chunks c t P Q e) h = (x1, y1, h1)" by (metis prod_cases3)
  obtain x2 y2 h2 where 2: "handled H (concat (map (turn_chunks c t P Q) (es @ [e']))) h1 = (x2, y2, h2)" by (metis prod_cases3)
  have xy: "x = x1 @ x2" "y = y1 @ y2" "h' = h2"
    using Cons.prems(1) 1 2 by (simp_all add: handled_append)
  from px_turn_serves [OF _ assms(1) 1, of s] Cons.prems(2) obtain u where
    u: "px_turn H e c t s h = Some (True, u, h1)" "stream_to t u = stream_to t s @ x1"
    "stream_to c u = stream_to c s @ y1" "hangups (trace u) = hangups (trace s)" by auto
  from Cons.IH [OF 2 [folded xy(3)], of u] Cons.prems(2) obtain v where
    "px_loop H (es @ e' # later) c t u h1 = Some (True, v, h')" "stream_to t v = stream_to t u @ x2"
    "stream_to c v = stream_to c u @ y2" "hangups (trace v) = hangups (trace u)" by auto
  then show ?case using u xy by simp
qed

section \<open>Properties\<close>

text \<open>A session of the balancing proxy.  The connection is given to the server the strategy selects;
  however the data of both sides arrive, the target is sent exactly what the upstream handler makes
  of the client's chunks and the client exactly what the downstream handler makes of the target's,
  in the order of the specification \<open>handled\<close>; the session ends with the first side that has
  nothing, and neither of the two descriptors is ever closed.\<close>

theorem proxy_session:
  assumes "px_handler p = Some H" "requestServer select (px_balancer p) st = Some (service, st1)"
    and "client_ctor (server_Connect (rs_ipaddress service) (rs_port service) r rv) (rs_ipaddress service) sock s = Some (t, Done s1)"
    and "c \<noteq> t" "\<forall>e \<in> set es. turn_ok c t P Q e \<and> \<not> turn_ends c t P Q e" "turn_ok c t P Q e'" "turn_ends c t P Q e'"
    and "handled H (concat (map (turn_chunks c t P Q) (es @ [e']))) h = (to_target, to_client, h')"
  shows "\<exists>u. proxy_ThreadHandler select p r rv sock (es @ e' # later) c st s h = Some (True, st1, u, h') \<and>
    stream_to t u = stream_to t s @ to_target \<and> stream_to c u = stream_to c s @ to_client \<and>
    hangups (trace u) = hangups (trace s)"
proof -
  define s3 where "s3 = snd (SetKeepAlive c 0 (snd (SetReadTimeOut t 0 (snd (SetKeepAlive c 0 (snd (SetReadTimeOut c 0 s1)))))))"
  have s1: "sends (trace s1) = sends (trace s)" "hangups (trace s1) = hangups (trace s)"
    using assms(3)
    by (auto simp: client_ctor_def CreateSocket_def server_Connect_def Let_def
        split: prod.splits completion.splits option.splits if_splits sum.splits bool.splits)
  have s3: "sends (trace s3) = sends (trace s)" "hangups (trace s3) = hangups (trace s)"
    using s1 by (simp_all add: s3_def SetKeepAlive_def SetReadTimeOut_def)
  from px_loop_session [OF assms(4-8), of later s3] obtain u where
    u: "px_loop H (es @ e' # later) c t s3 h = Some (True, u, h')" "stream_to t u = stream_to t s3 @ to_target"
    "stream_to c u = stream_to c s3 @ to_client" "hangups (trace u) = hangups (trace s3)" by blast
  have "proxy_ThreadHandler select p r rv sock (es @ e' # later) c st s h = Some (True, st1, u, h')"
    using assms(1-3) u(1) by (simp add: proxy_ThreadHandler_def s3_def Let_def)
  then show ?thesis using u(2-4) s3 by (simp add: stream_to_def)
qed

definition counting_handler :: "nat proxy_handler" where
  "counting_handler = \<lparr>HandleUpstreamData = (\<lambda>b n. (b, Suc n)), HandleDownStreamData = (\<lambda>b n. (b, n))\<rparr>"

definition sample_service :: resolved_service where
  "sample_service = \<lparr>rs_ipaddress = ''db'', rs_port = 80, rs_r_w = 0, rs_alias = [], rs_weight = 1\<rparr>"

lemma proxy_session_witness:
  "\<exists>u. proxy_ThreadHandler RoundRobin
      \<lparr>px_handler = Some counting_handler, px_services = [sample_service], px_balancer = addServer sample_service lb_ctor\<rparr>
      \<lparr>by_name = True, by_addr = True\<rparr> 0 9
      ([] @ \<lparr>re_select = 1, re_ready = [4], re_client = [ARecv REof], re_target = []\<rparr> # []) 4 (-1) \<lparr>trace = []\<rparr> 0 =
        Some (True, 0, u, Suc 0) \<and>
    stream_to 9 u = stream_to 9 \<lparr>trace = []\<rparr> @ [] \<and> stream_to 4 u = stream_to 4 \<lparr>trace = []\<rparr> @ [] \<and>
    hangups (trace u) = hangups (trace \<lparr>trace = []\<rparr>)"
proof (rule proxy_session [where H = counting_handler and service = sample_service and t = 9 and P = "\<lambda>e. []" and Q = "\<lambda>e. []"
      and ?s1.0 = "\<lparr>trace = [Call_socket, Call_connect 9 (port_of 80)]\<rparr>"])
  show "requestServer RoundRobin (px_balancer \<lparr>px_handler = Some counting_handler, px_services = [sample_service],
      px_balancer = addServer sample_service lb_ctor\<rparr>) (-1) = Some (sample_service, 0)"
    by (simp add: requestServer_def addServer_def lb_ctor_def RoundRobin_def next_index_start vector_at_def)
  show "client_ctor (server_Connect (rs_ipaddress sample_service) (rs_port sample_service) \<lparr>by_name = True, by_addr = True\<rparr> 0)
      (rs_ipaddress sample_service) 9 \<lparr>trace = []\<rparr> = Some (9, Done \<lparr>trace = [Call_socket, Call_connect 9 (port_of 80)]\<rparr>)"
    by (simp add: sample_service_def client_ctor_def CreateSocket_def server_Connect_def Resolve_def is_alpha_def c_str_def emit_def)
qed (simp_all add: turn_ok_def turn_ends_def side_serves_def turn_chunks_def counting_handler_def)

text \<open>The whole balancer.  A proxy that has been started with \<open>n\<close> services sends the connections it
  gets to them in turn: over any number of full rounds of connections each service gets the same
  number, in the configured order.\<close>

theorem proxy_balances:
  assumes "services \<noteq> []" "length services < 2 ^ 31"
    and "proxy_Start e port n f (snd (SetConfigValues services p)) s = (p', c)"
  shows "\<exists>st. requests (\<lambda>servers. RoundRobin (lb_servers (px_balancer p'))) [] (m * length services) (-1) =
    Some (concat (replicate m services), st)"
proof -
  have "lb_servers (fold addServer xs lb) = lb_servers lb @ xs" for xs :: "resolved_service list" and lb
    by (induction xs arbitrary: lb) (simp_all add: addServer_def)
  then have servers: "lb_servers (px_balancer p') = services"
    using assms(3) by (auto simp: proxy_Start_def SetConfigValues_def lb_ctor_def)
  have "requests (\<lambda>servers. RoundRobin services) [] k st = requests RoundRobin services k st" for k st
    by (induction k arbitrary: st) (simp_all split: option.split)
  moreover have "rr_next services (-1) 0" by (simp add: rr_next_def)
  from requests_rounds [where K = "\<lambda>st. rr_next services st 0" and select = RoundRobin and servers = services
      and ts = services and n = "length services" and m = m, OF _ this]
  have "\<exists>st. requests RoundRobin services (m * length services) (-1) = Some (concat (replicate m services), st)"
    using round_robin_run [OF assms(1,2), of _ 0 "length services"] one_round [of 0 services] assms(1) by auto
  ultimately show ?thesis by (simp add: servers)
qed

lemma proxy_balances_witness:
  "\<exists>st. requests (\<lambda>servers. RoundRobin (lb_servers (px_balancer (fst (proxy_Start sample_listen 80 5 3
      (snd (SetConfigValues [sample_service] \<lparr>px_handler = Some counting_handler, px_services = [], px_balancer = lb_ctor\<rparr>)) \<lparr>trace = []\<rparr>))))) []
      (3 * length [sample_service]) (-1) = Some (concat (replicate 3 [sample_service]), st)"
  by (rule proxy_balances [OF _ _ surjective_pairing]) simp_all

end
