(* ===== verification/WorkQueue.thy ===== *)
theory WorkQueue
  imports Prelude
begin

text \<open>
  The two queues of the protocol programs: \<open>utils/thread_safe_queue/thread_safe_queue.h\<close>, where
  \<open>pop\<close> waits for an element, and \<open>utils/logger/util/ThreadSafeQueue.h\<close>, where \<open>pop\<close> of an empty
  queue yields a null value.  Each operation holds the queue's mutex from beginning to end, so
  operations are atomic.  Both promise the same to their clients, the locale \<open>fifo\<close>.
\<close>

section \<open>The interface\<close>

locale fifo =
  fixes push :: "'a \<Rightarrow> 'q \<Rightarrow> 'q"
    and pop :: "'q \<Rightarrow> ('a \<times> 'q) option"
    and items :: "'q \<Rightarrow> 'a list"
  assumes items_push: "items (push x q) = items q @ [x]"
    and pop_empty: "items q = [] \<Longrightarrow> pop q = None"
    and pop_first: "items q = x # xs \<Longrightarrow> \<exists>r. pop q = Some (x, r) \<and> items r = xs"

text \<open>A client's use of a queue: pushes and attempts to pop, and what the pops have given.\<close>

datatype 'a queue_op = Push_item 'a | Pop_item

fun queue_run ::
  "('a \<Rightarrow> 'q \<Rightarrow> 'q) \<Rightarrow> ('q \<Rightarrow> ('a \<times> 'q) option) \<Rightarrow> 'a queue_op list \<Rightarrow> 'q \<Rightarrow> 'a list \<times> 'q" where
  "queue_run push pop [] q = ([], q)"
| "queue_run push pop (Push_item x # ops) q = queue_run push pop ops (push x q)"
| "queue_run push pop (Pop_item # ops) q =
     (case pop q of
        None \<Rightarrow> queue_run push pop ops q
      | Some (x, r) \<Rightarrow> let (out, r1) = queue_run push pop ops r in (x # out, r1))"

fun pushed_items :: "'a queue_op list \<Rightarrow> 'a list" where
  "pushed_items [] = []"
| "pushed_items (Push_item x # ops) = x # pushed_items ops"
| "pushed_items (Pop_item # ops) = pushed_items ops"

context fifo
begin

lemma pop_Some: "pop q = Some (x, r) \<Longrightarrow> items q = x # items r"
  using pop_empty [of q] pop_first [of q] by (cases "items q") force+

lemma pop_None: "pop q = None \<Longrightarrow> items q = []"
  using pop_first [of q] by (cases "items q") auto

lemma run_conserves:
  "queue_run push pop ops q = (out, r) \<Longrightarrow> out @ items r = items q @ pushed_items ops"
proof (induction ops arbitrary: q out r)
  case (Cons op ops)
  show ?case
  proof (cases op)
    case (Push_item x)
    then show ?thesis using Cons by (force simp: items_push)
  next
    case Pop_item
    show ?thesis
    proof (cases "pop q")
      case None
      then show ?thesis using Cons Pop_item by auto
    next
      case (Some y)
      then obtain x q' where y: "pop q = Some (x, q')" by (cases y) auto
      obtain out' r' where "queue_run push pop ops q' = (out', r')" by fastforce
      then show ?thesis using Cons y Pop_item pop_Some [OF y] by auto
    qed
  qed
qed simp

lemma drained_in_order:
  assumes "items q = []" "queue_run push pop ops q = (out, r)"
  shows "out = take (length out) (pushed_items ops)"
  using run_conserves [OF assms(2)] assms(1) by (metis append_Nil append_eq_conv_conj)

end

section \<open>The queues\<close>

text \<open>\<open>thread_pool::ThreadSafeQueue\<close>: \<open>None\<close> is a worker that goes on waiting.\<close>

type_synonym 'a tsq = "'a list"

definition tsq_push :: "'a \<Rightarrow> 'a tsq \<Rightarrow> 'a tsq" where
  "tsq_push val queue = queue @ [val]"

definition tsq_pop :: "'a tsq \<Rightarrow> ('a \<times> 'a tsq) option" where
  "tsq_pop queue = (if queue \<noteq> [] then Some (hd queue, tl queue) else None)"

interpretation work: fifo tsq_push tsq_pop "\<lambda>q. q"
  by unfold_locales (auto simp: tsq_push_def tsq_pop_def)

text \<open>
  The logger's \<open>ThreadSafeQueue\<close>; the null value an empty queue yields would end a
  \<open>std::string\<close>, and is \<open>None\<close>.
\<close>

record 'a log_queue =
  lq_queue :: "'a list"

definition lq_push :: "'a \<Rightarrow> 'a log_queue \<Rightarrow> 'a log_queue" where
  "lq_push val q = q\<lparr>lq_queue := lq_queue q @ [val]\<rparr>"

definition lq_pop :: "'a log_queue \<Rightarrow> ('a \<times> 'a log_queue) option" where
  "lq_pop q = (case lq_queue q of [] \<Rightarrow> None | value # rest \<Rightarrow> Some (value, q\<lparr>lq_queue := rest\<rparr>))"

definition lq_empty :: "'a log_queue \<Rightarrow> bool" where
  "lq_empty q \<longleftrightarrow> lq_queue q = []"

definition lq_size :: "'a log_queue \<Rightarrow> nat" where
  "lq_size q = length (lq_queue q)"

interpretation logq: fifo lq_push lq_pop lq_queue
  by unfold_locales (auto simp: lq_push_def lq_pop_def)

end
