(* ===== verification/ThreadPool.thy ===== *)
theory ThreadPool
  imports WorkQueue Posix "HOL-Library.Multiset" "HOL-Library.Sublist"
begin

text \<open>
  The thread pool of the protocol programs, \<open>utils/thread_pool\<close>, and its size in
  \<open>ThreadPoolSingleton.h\<close>.  The workers, the threads that push tasks, and the thread that runs the
  destructor are interleaved by the step relation \<open>tp_step\<close>; a step is an operation on the queue
  (atomic under its mutex), the end of a task, or a successful \<open>join\<close>.
\<close>

section \<open>State\<close>

datatype 'a pool_task = Execute 'a | Stop

datatype 'a worker = Idle | Working 'a | Ended

text \<open>
  \<open>joining\<close> is \<open>None\<close> before the destructor runs, then the index \<open>i\<close> of its loop; it has returned
  when that is the number of workers.  The last four fields are the history: the tasks pushed,
  those pushed before the destructor began, those a worker has begun, and those it has finished.
\<close>

record 'a thread_pool =
  pool_queue :: "'a pool_task tsq"
  workers :: "'a worker list"
  joining :: "nat option"
  pushed :: "'a list"
  accepted :: "'a list"
  started :: "'a list"
  finished :: "'a list"

definition pool_start :: "nat \<Rightarrow> 'a thread_pool" where
  "pool_start n_threads = \<lparr>pool_queue = [], workers = replicate n_threads Idle, joining = None,
     pushed = [], accepted = [], started = [], finished = []\<rparr>"

definition pool_push :: "'a \<Rightarrow> 'a thread_pool \<Rightarrow> 'a thread_pool" where
  "pool_push x s = s\<lparr>pool_queue := tsq_push (Execute x) (pool_queue s), pushed := pushed s @ [x]\<rparr>"

text \<open>Worker \<open>i\<close> executes one \<open>queue.pop()\<close> and looks at the task's type.\<close>

definition worker_pop :: "nat \<Rightarrow> 'a thread_pool \<Rightarrow> 'a thread_pool option" where
  "worker_pop i s =
     (case tsq_pop (pool_queue s) of
        None \<Rightarrow> None
      | Some (Execute x, q) \<Rightarrow>
          Some (s\<lparr>pool_queue := q, workers := (workers s)[i := Working x], started := started s @ [x]\<rparr>)
      | Some (Stop, q) \<Rightarrow> Some (s\<lparr>pool_queue := q, workers := (workers s)[i := Ended]\<rparr>))"

definition worker_finish :: "nat \<Rightarrow> 'a \<Rightarrow> 'a thread_pool \<Rightarrow> 'a thread_pool" where
  "worker_finish i x s = s\<lparr>workers := (workers s)[i := Idle], finished := finished s @ [x]\<rparr>"

text \<open>The loop of the destructor at index \<open>i\<close>: push a stop task (if the loop goes on), then join.\<close>

definition destructor_round :: "nat \<Rightarrow> 'a thread_pool \<Rightarrow> 'a thread_pool" where
  "destructor_round i s =
     (let s1 = s\<lparr>joining := Some i\<rparr> in
      if i < length (workers s) then s1\<lparr>pool_queue := tsq_push Stop (pool_queue s1)\<rparr> else s1)"

inductive tp_step :: "'a thread_pool \<Rightarrow> 'a thread_pool \<Rightarrow> bool" where
  submit: "tp_step s (pool_push x s)"
| take_task: "i < length (workers s) \<Longrightarrow> workers s ! i = Idle \<Longrightarrow> worker_pop i s = Some t \<Longrightarrow> tp_step s t"
| finish: "i < length (workers s) \<Longrightarrow> workers s ! i = Working x \<Longrightarrow> tp_step s (worker_finish i x s)"
| destroy: "joining s = None \<Longrightarrow> tp_step s (destructor_round 0 (s\<lparr>accepted := pushed s\<rparr>))"
| join: "joining s = Some i \<Longrightarrow> i < length (workers s) \<Longrightarrow> workers s ! i = Ended \<Longrightarrow>
    tp_step s (destructor_round (Suc i) s)"

inductive_cases tp_stepE: "tp_step s t"

definition pool_returned :: "'a thread_pool \<Rightarrow> bool" where
  "pool_returned s \<longleftrightarrow> joining s = Some (length (workers s))"

text \<open>\<open>std::thread::hardware_concurrency() - 1\<close> in unsigned arithmetic, widened to \<open>size_t\<close>.\<close>

definition singleton_threads :: "32 word \<Rightarrow> nat" where
  "singleton_threads concurrency = unat (ucast (concurrency - 1) :: 64 word)"

section \<open>Lemmas\<close>

named_theorems tp_defs \<open>the operations of the pool\<close>

declare pool_push_def [tp_defs] worker_finish_def [tp_defs] destructor_round_def [tp_defs] Let_def [tp_defs]

fun tasks_in :: "'a pool_task list \<Rightarrow> 'a list" where
  "tasks_in [] = []"
| "tasks_in (Execute x # q) = x # tasks_in q"
| "tasks_in (Stop # q) = tasks_in q"

lemma tasks_in_append [simp]: "tasks_in (p @ q) = tasks_in p @ tasks_in q"
  by (induction p rule: tasks_in.induct) simp_all

lemma worker_pop_cases:
  assumes "worker_pop i s = Some t"
  obtains x q where "pool_queue s = Execute x # q"
      "t = s\<lparr>pool_queue := q, workers := (workers s)[i := Working x], started := started s @ [x]\<rparr>"
  | q where "pool_queue s = Stop # q" "t = s\<lparr>pool_queue := q, workers := (workers s)[i := Ended]\<rparr>"
  using assms
  by (auto simp: worker_pop_def tsq_pop_def neq_Nil_conv split: if_splits pool_task.splits)

lemma length_workers_step: "tp_step s t \<Longrightarrow> length (workers t) = length (workers s)"
  by (erule tp_stepE) (auto simp: tp_defs elim!: worker_pop_cases)

text \<open>First in, first out: what has been started, followed by what is waiting, is what was pushed.\<close>

lemma pool_order_step:
  assumes "tp_step s t" "started s @ tasks_in (pool_queue s) = pushed s"
  shows "started t @ tasks_in (pool_queue t) = pushed t"
  using assms by (cases rule: tp_step.cases) (auto simp: tp_defs tsq_push_def elim!: worker_pop_cases)

text \<open>Started tasks are finished or being worked on.\<close>

fun work_of :: "'a worker \<Rightarrow> 'a multiset" where
  "work_of (Working x) = {#x#}"
| "work_of _ = {#}"

definition in_work :: "'a worker list \<Rightarrow> 'a multiset" where
  "in_work ws = sum_list (map work_of ws)"

lemma in_work_update:
  "i < length ws \<Longrightarrow> in_work (ws[i := w]) + work_of (ws ! i) = in_work ws + work_of w"
proof (induction ws arbitrary: i)
  case (Cons v ws)
  then show ?case by (cases i) (auto simp: in_work_def ac_simps)
qed simp

lemma in_work_Ended: "\<forall>w \<in> set ws. w = Ended \<Longrightarrow> in_work ws = {#}"
  by (induction ws) (auto simp: in_work_def)

lemma pool_work_step:
  assumes "tp_step s t" "mset (started s) = mset (finished s) + in_work (workers s)"
  shows "mset (started t) = mset (finished t) + in_work (workers t)"
  using assms(1)
proof (cases rule: tp_step.cases)
  case (take_task i)
  show ?thesis
    using take_task(3)
  proof (cases rule: worker_pop_cases)
    case (1 x q)
    then show ?thesis using assms(2) in_work_update [OF take_task(1), of "Working x"] take_task(2) by simp
  next
    case (2 q)
    then show ?thesis using assms(2) in_work_update [OF take_task(1), of Ended] take_task(2) by simp
  qed
next
  case (finish i x)
  then show ?thesis using assms(2) in_work_update [OF finish(2), of Idle] by (simp add: tp_defs)
qed (use assms(2) in \<open>auto simp: tp_defs\<close>)

text \<open>The first \<open>Stop\<close> lies behind all the tasks accepted before the destructor began.\<close>

definition stop_behind :: "'a thread_pool \<Rightarrow> bool" where
  "stop_behind s \<longleftrightarrow> (\<exists>q. pool_queue s = map Execute (drop (length (started s)) (accepted s)) @ Stop # q \<and>
     length (started s) \<le> length (accepted s))"

definition shutdown_ok :: "'a thread_pool \<Rightarrow> bool" where
  "shutdown_ok s \<longleftrightarrow>
     (case joining s of
        None \<Rightarrow> Stop \<notin> set (pool_queue s) \<and> Ended \<notin> set (workers s)
      | Some i \<Rightarrow> prefix (accepted s) (pushed s) \<and> i \<le> length (workers s) \<and> (\<forall>j < i. workers s ! j = Ended) \<and>
          (if Ended \<in> set (workers s) then length (accepted s) \<le> length (started s)
           else workers s = [] \<or> stop_behind s))"

lemma only_tasks: "Stop \<notin> set q \<Longrightarrow> q = map Execute (tasks_in q)"
  by (induction q rule: tasks_in.induct) auto

lemma Ended_update: "i < length ws \<Longrightarrow> Ended \<in> set (ws[i := w]) \<Longrightarrow> w \<noteq> Ended \<Longrightarrow> Ended \<in> set ws"
  by (auto dest: set_update_subset_insert [THEN subsetD])

lemma Ended_kept: "i < length ws \<Longrightarrow> ws ! i \<noteq> Ended \<Longrightarrow> Ended \<in> set ws \<Longrightarrow> Ended \<in> set (ws[i := w])"
  by (metis in_set_conv_nth length_list_update nth_list_update_neq)

lemma shutdown_take:
  assumes "shutdown_ok s" "i < length (workers s)" "workers s ! i = Idle" "worker_pop i s = Some t"
  shows "shutdown_ok t"
  using assms(4)
proof (cases rule: worker_pop_cases)
  case (1 x q)
  have e: "Ended \<in> set ((workers s)[i := Working x]) \<longleftrightarrow> Ended \<in> set (workers s)"
    using Ended_update [OF assms(2), of "Working x"] Ended_kept [OF assms(2), of "Working x"] assms(3) by auto
  have j: "\<forall>j < k. (workers s)[i := Working x] ! j = Ended" if "\<forall>j < k. workers s ! j = Ended" for k
    using that assms(3) by (metis nth_list_update_neq worker.distinct(3))
  have sb: "stop_behind t" if "stop_behind s"
  proof -
    obtain r where r: "pool_queue s = map Execute (drop (length (started s)) (accepted s)) @ Stop # r"
      "length (started s) \<le> length (accepted s)" using \<open>stop_behind s\<close> by (auto simp: stop_behind_def)
    then have "drop (length (started s)) (accepted s) = x # drop (Suc (length (started s))) (accepted s)"
      using 1(1) by (cases "drop (length (started s)) (accepted s)") (auto simp: drop_Suc tl_drop [symmetric])
    moreover from this have "length (started s) < length (accepted s)"
      by (metis drop_all linorder_not_less list.distinct(1))
    ultimately show ?thesis using r 1 by (auto simp: stop_behind_def)
  qed
  show ?thesis
    using assms(1) e j sb 1 by (auto simp: shutdown_ok_def split: option.splits if_splits)
next
  case (2 q)
  then have "joining s \<noteq> None" using assms(1) by (cases "joining s") (auto simp: shutdown_ok_def)
  moreover have "Ended \<in> set ((workers s)[i := Ended])" using assms(2) by (simp add: set_update_memI)
  moreover have "\<forall>j < k. (workers s)[i := Ended] ! j = Ended" if "\<forall>j < k. workers s ! j = Ended" for k
    using that assms(2) by (metis nth_list_update_eq nth_list_update_neq)
  moreover have "length (accepted s) \<le> length (started s)" if "stop_behind s"
    using that 2(1) by (cases "drop (length (started s)) (accepted s)") (auto simp: stop_behind_def)
  ultimately show ?thesis
    using assms(1,2) 2 by (auto simp: shutdown_ok_def split: option.splits if_splits)
qed

lemma shutdown_step:
  assumes "tp_step s t" "shutdown_ok s" "started s @ tasks_in (pool_queue s) = pushed s"
  shows "shutdown_ok t"
  using assms(1)
proof (cases rule: tp_step.cases)
  case (submit x)
  then show ?thesis using assms(2)
    by (auto simp: shutdown_ok_def stop_behind_def tp_defs tsq_push_def split: option.splits if_splits)
next
  case (take_task i)
  then show ?thesis using shutdown_take assms(2) by blast
next
  case (finish i x)
  have "Ended \<in> set ((workers s)[i := Idle]) \<longleftrightarrow> Ended \<in> set (workers s)"
    using Ended_update [OF finish(2), of Idle] Ended_kept [OF finish(2), of Idle] finish(3) by auto
  moreover have "\<forall>j < k. (workers s)[i := Idle] ! j = Ended" if "\<forall>j < k. workers s ! j = Ended" for k
    using that finish(3) by (metis nth_list_update_neq worker.distinct(5))
  ultimately show ?thesis using assms(2) finish(1)
    by (auto simp: shutdown_ok_def stop_behind_def tp_defs split: option.splits if_splits)
next
  case destroy
  then have q: "pool_queue s = map Execute (tasks_in (pool_queue s))" "Ended \<notin> set (workers s)"
    using assms(2) only_tasks by (auto simp: shutdown_ok_def)
  have "drop (length (started s)) (pushed s) = tasks_in (pool_queue s)" "length (started s) \<le> length (pushed s)"
    using assms(3) by (metis append_eq_conv_conj, metis le_add1 length_append)
  then show ?thesis
    using q destroy by (auto simp: shutdown_ok_def stop_behind_def tp_defs tsq_push_def)
next
  case (join i)
  moreover have "\<forall>j < Suc i. workers s ! j = Ended"
    using assms(2) join by (auto simp: shutdown_ok_def less_Suc_eq)
  moreover have "Ended \<in> set (workers s)" using join by (metis nth_mem)
  ultimately show ?thesis using assms(2)
    by (auto simp: shutdown_ok_def tp_defs split: if_splits)
qed

definition pool_ok :: "nat \<Rightarrow> 'a thread_pool \<Rightarrow> bool" where
  "pool_ok n s \<longleftrightarrow> started s @ tasks_in (pool_queue s) = pushed s \<and>
     mset (started s) = mset (finished s) + in_work (workers s) \<and> shutdown_ok s \<and> length (workers s) = n"

lemma pool_start_ok: "pool_ok n (pool_start n)"
proof -
  have "in_work (replicate n Idle) = {#}" by (induction n) (simp_all add: in_work_def)
  then show ?thesis by (auto simp: pool_ok_def pool_start_def shutdown_ok_def)
qed

lemma pool_reachable_ok: "rtranclp tp_step (pool_start n) s \<Longrightarrow> pool_ok n s"
proof (induction rule: rtranclp_induct)
  case (step s t)
  then show ?case
    using pool_order_step pool_work_step shutdown_step length_workers_step unfolding pool_ok_def by metis
qed (rule pool_start_ok)

section \<open>Properties\<close>

text \<open>C25: In every run of a pool, tasks are started in the order they were pushed, each at most once.  When the
  destructor of a pool with at least one worker has returned, every task pushed before it was called has been
  started, and every started task has been finished, exactly once.  (A pool without workers returns with
  nothing run, \<open>single_core_never_runs\<close>, and with two workers or more the destructor may not return,
  \<open>destructor_can_hang\<close>.)\<close>

theorem pool_executes_accepted:
  assumes "rtranclp tp_step (pool_start n) s"
  shows "prefix (started s) (pushed s) \<and>
    (pool_returned s \<and> 0 < n \<longrightarrow> prefix (accepted s) (started s) \<and> mset (finished s) = mset (started s))"
proof -
  have ok: "started s @ tasks_in (pool_queue s) = pushed s" "shutdown_ok s" "length (workers s) = n"
    "mset (started s) = mset (finished s) + in_work (workers s)"
    using pool_reachable_ok [OF assms] by (simp_all add: pool_ok_def)
  have p: "prefix (started s) (pushed s)" using ok(1) by (metis prefixI)
  have "prefix (accepted s) (started s) \<and> mset (finished s) = mset (started s)" if "pool_returned s" "0 < n"
  proof -
    have j: "joining s = Some n" using that ok(3) by (simp add: pool_returned_def)
    then have all: "\<forall>w \<in> set (workers s). w = Ended"
      using ok(2,3) by (auto simp: shutdown_ok_def in_set_conv_nth)
    then have "Ended \<in> set (workers s)"
      using that(2) ok(3) by (cases "workers s") auto
    then have "prefix (accepted s) (pushed s)" "length (accepted s) \<le> length (started s)"
      using ok(2) j by (auto simp: shutdown_ok_def)
    then show ?thesis
      using p prefix_length_prefix in_work_Ended [OF all] ok(4) by auto
  qed
  with p show ?thesis by blast
qed

text \<open>A pool with one worker: a task is pushed, begun and finished, and the destructor runs to its end.\<close>

definition destroyed_pool :: "nat thread_pool" where
  "destroyed_pool = \<lparr>pool_queue = [], workers = [Ended], joining = Some 1, pushed = [3], accepted = [3], started = [3], finished = [3]\<rparr>"

lemma destroyed_pool_reached: "rtranclp tp_step (pool_start 1) destroyed_pool"
proof -
  define a :: "nat thread_pool" where "a = pool_push 3 (pool_start 1)"
  define b where "b = a\<lparr>pool_queue := [], workers := [Working 3], started := [3]\<rparr>"
  define c where "c = worker_finish 0 3 b"
  define d where "d = destructor_round 0 (c\<lparr>accepted := pushed c\<rparr>)"
  define e where "e = d\<lparr>pool_queue := [], workers := [Ended]\<rparr>"
  note defs = a_def b_def c_def d_def e_def pool_start_def tp_defs tsq_push_def tsq_pop_def worker_pop_def
  have "tp_step (pool_start 1) a" unfolding a_def by (rule tp_step.submit)
  moreover have "tp_step a b" by (rule tp_step.take_task [of 0]) (simp_all add: defs)
  moreover have "tp_step b c" unfolding c_def by (rule tp_step.finish) (simp_all add: defs)
  moreover have "tp_step c d" unfolding d_def by (rule tp_step.destroy) (simp add: defs)
  moreover have "tp_step d e" by (rule tp_step.take_task [of 0]) (simp_all add: defs)
  moreover have "tp_step e (destructor_round (Suc 0) e)" by (rule tp_step.join) (simp_all add: defs)
  moreover have "destructor_round (Suc 0) e = destroyed_pool" by (simp add: defs destroyed_pool_def)
  ultimately show ?thesis by (simp add: rtranclp.rtrancl_into_rtrancl)
qed

lemma pool_executes_accepted_witness:
  "\<exists>s. rtranclp tp_step (pool_start 1) s \<and> pool_returned s \<and> accepted s = [3::nat] \<and> prefix [3] (started s) \<and>
    mset (finished s) = mset (started s)"
  using pool_executes_accepted [OF destroyed_pool_reached] destroyed_pool_reached
  by (auto simp: pool_returned_def destroyed_pool_def)

text \<open>The destructor is stuck in its first \<open>join\<close>: no stop task is left and worker 0 has not ended.\<close>

definition destructor_hung :: "'a thread_pool \<Rightarrow> bool" where
  "destructor_hung s \<longleftrightarrow> joining s = Some 0 \<and> workers s \<noteq> [] \<and> hd (workers s) \<noteq> Ended \<and> Stop \<notin> set (pool_queue s)"

lemma destructor_hung_step:
  assumes "tp_step s t" "destructor_hung s"
  shows "destructor_hung t"
  using assms(1)
proof (cases rule: tp_step.cases)
  case (take_task i)
  show ?thesis
    using take_task(3)
    by (cases rule: worker_pop_cases)
      (use assms(2) take_task(1) in \<open>auto simp: destructor_hung_def hd_conv_nth nth_list_update\<close>)
next
  case (finish i x)
  then show ?thesis
    using assms(2) by (auto simp: destructor_hung_def tp_defs hd_conv_nth nth_list_update)
qed (use assms(2) in \<open>auto simp: destructor_hung_def tp_defs tsq_push_def hd_conv_nth nth_list_update\<close>)

lemma destructor_hung_for_ever: "rtranclp tp_step s t \<Longrightarrow> destructor_hung s \<Longrightarrow> destructor_hung t"
  by (induction rule: rtranclp_induct) (auto intro: destructor_hung_step)

text \<open>C26: The destructor can hang.  With two or more workers, it pushes one stop task and waits for the
  first worker; if another worker takes that task, the first goes on waiting on the queue and the
  destructor never returns, whatever happens afterwards.\<close>

theorem destructor_can_hang:
  assumes "2 \<le> n"
  shows "\<exists>s. rtranclp tp_step (pool_start n :: 'a thread_pool) s \<and> (\<forall>t. rtranclp tp_step s t \<longrightarrow> \<not> pool_returned t)"
proof -
  define s1 :: "'a thread_pool" where
    "s1 = destructor_round 0 (pool_start n\<lparr>accepted := pushed (pool_start n)\<rparr>)"
  define s2 where "s2 = s1\<lparr>pool_queue := [], workers := (workers s1)[1 := Ended]\<rparr>"
  have s1: "pool_queue s1 = [Stop]" "workers s1 = replicate n Idle" "joining s1 = Some 0"
    using assms by (simp_all add: s1_def pool_start_def tp_defs tsq_push_def)
  have "tp_step (pool_start n) s1"
    unfolding s1_def by (rule tp_step.destroy) (simp add: pool_start_def)
  moreover have "tp_step s1 s2"
    using assms by (intro tp_step.take_task [where i = 1]) (simp_all add: s1 s2_def worker_pop_def tsq_pop_def)
  ultimately have "rtranclp tp_step (pool_start n) s2"
    by (meson converse_rtranclp_into_rtranclp rtranclp.rtrancl_refl)
  moreover have "destructor_hung s2"
    using assms s1 by (cases n) (auto simp: destructor_hung_def s2_def)
  then have "\<not> pool_returned t" if "rtranclp tp_step s2 t" for t
    using destructor_hung_for_ever [OF that] by (auto simp: destructor_hung_def pool_returned_def)
  ultimately show ?thesis by metis
qed

lemma destructor_can_hang_witness:
  "\<exists>s. rtranclp tp_step (pool_start 4 :: nat thread_pool) s \<and> \<not> pool_returned s"
  using destructor_can_hang [of 4, where 'a = nat] by auto

lemma single_worker_finishes:
  "pool_ok 1 s \<Longrightarrow> joining s = Some 0 \<Longrightarrow> \<exists>t. rtranclp tp_step s t \<and> pool_returned t"
proof (induction "2 * length (pool_queue s) + (if Idle \<in> set (workers s) then 0 else 1)" arbitrary: s rule: less_induct)
  case less
  have ok: "pool_ok 1 t" if "tp_step s t" for t
    using less.prems(1) that pool_order_step pool_work_step shutdown_step length_workers_step
    unfolding pool_ok_def by metis
  have len: "length (workers s) = 1" using less.prems by (simp add: pool_ok_def)
  obtain w where w: "workers s = [w]" using len by (auto simp: length_Suc_conv)
  show ?case
  proof (cases w)
    case Ended
    then have "tp_step s (destructor_round 1 s)"
      using tp_step.join [OF less.prems(2)] w by simp
    moreover have "pool_returned (destructor_round 1 s)"
      using w by (simp add: pool_returned_def tp_defs)
    ultimately show ?thesis by blast
  next
    case (Working x)
    let ?t = "worker_finish 0 x s"
    have step: "tp_step s ?t" using w Working by (intro tp_step.finish) simp_all
    have "\<exists>t. rtranclp tp_step ?t t \<and> pool_returned t"
      by (rule less.hyps [OF _ ok [OF step]]) (use w Working less.prems(2) in \<open>simp_all add: tp_defs\<close>)
    then show ?thesis using step by (meson converse_rtranclp_into_rtranclp)
  next
    case Idle
    then have "stop_behind s"
      using less.prems w by (auto simp: pool_ok_def shutdown_ok_def)
    then have "pool_queue s \<noteq> []" by (auto simp: stop_behind_def)
    then obtain y q where q: "pool_queue s = y # q" by (cases "pool_queue s") auto
    then obtain t where t: "worker_pop 0 s = Some t"
      by (cases y) (auto simp: worker_pop_def tsq_pop_def)
    then have step: "tp_step s t" using w Idle by (intro tp_step.take_task) simp_all
    have "pool_queue t = q \<and> joining t = Some 0 \<and> length (workers t) = 1"
      using t less.prems(2) q len by (auto elim!: worker_pop_cases)
    then have "\<exists>u. rtranclp tp_step t u \<and> pool_returned u"
      by (intro less.hyps [OF _ ok [OF step]]) (simp_all add: q)
    then show ?thesis using step by (meson converse_rtranclp_into_rtranclp)
  qed
qed

text \<open>A pool with one worker can always be destroyed: from every state it can get into, its
  destructor can run to its end.\<close>

theorem single_worker_returns:
  assumes "rtranclp tp_step (pool_start 1) s"
  shows "\<exists>t. rtranclp tp_step s t \<and> pool_returned t"
proof -
  have ok: "pool_ok 1 s" by (rule pool_reachable_ok [OF assms])
  consider "joining s = None" | "joining s = Some 0" | "joining s = Some 1"
    using ok by (cases "joining s") (auto simp: pool_ok_def shutdown_ok_def le_Suc_eq)
  then show ?thesis
  proof cases
    case 1
    let ?t = "destructor_round 0 (s\<lparr>accepted := pushed s\<rparr>)"
    have step: "tp_step s ?t" by (rule tp_step.destroy [OF 1])
    then have "pool_ok 1 ?t" using pool_reachable_ok assms by (metis rtranclp.rtrancl_into_rtrancl)
    moreover have "joining ?t = Some 0" by (simp add: tp_defs)
    ultimately obtain u where "rtranclp tp_step ?t u" "pool_returned u"
      using single_worker_finishes by blast
    then show ?thesis using step by (meson converse_rtranclp_into_rtranclp)
  next
    case 2
    then show ?thesis using single_worker_finishes ok by blast
  next
    case 3
    then show ?thesis using ok by (auto simp: pool_ok_def pool_returned_def)
  qed
qed

lemma single_worker_returns_witness:
  "\<exists>t. rtranclp tp_step (pool_push (3::nat) (pool_start 1)) t \<and> pool_returned t"
  by (rule single_worker_returns) (rule r_into_rtranclp, rule tp_step.submit)

text \<open>On a machine that reports one hardware thread the singleton's pool has no worker, and no task is
  ever begun, whatever is pushed; where the number is unknown (reported as 0) the unsigned
  subtraction asks for 4294967295 workers.\<close>

theorem single_core_never_runs:
  assumes "rtranclp tp_step (pool_start (singleton_threads 1)) s"
  shows "started s = [] \<and> finished s = [] \<and> singleton_threads 0 = 4294967295"
proof -
  have zero: "singleton_threads 1 = 0" by (simp add: singleton_threads_def)
  have "started s = [] \<and> finished s = [] \<and> workers s = []"
    using assms unfolding zero
  proof (induction rule: rtranclp_induct)
    case (step s t)
    then show ?case by (auto elim!: tp_stepE simp: tp_defs)
  qed (simp add: pool_start_def)
  moreover have "singleton_threads 0 = 4294967295"
    by (simp add: singleton_threads_def unsigned_ucast_eq unsigned_minus_1_eq_mask mask_eq_exp_minus_1 take_bit_nat_eq_self)
  ultimately show ?thesis by simp
qed

lemma single_core_never_runs_witness:
  "started (pool_push (3::nat) (pool_start (singleton_threads 1))) = [] \<and> singleton_threads 0 = 4294967295"
proof -
  have "rtranclp tp_step (pool_start (singleton_threads 1)) (pool_push (3::nat) (pool_start (singleton_threads 1)))"
    by (rule r_into_rtranclp, rule tp_step.submit)
  from single_core_never_runs [OF this] show ?thesis by simp
qed

text \<open>Both queues of the programs are first in, first out: whatever pushes and pops a client makes on
  an empty one, the values popped are a prefix of those pushed, in order.\<close>

theorem queues_fifo:
  "fst (queue_run tsq_push tsq_pop ops []) =
     take (length (fst (queue_run tsq_push tsq_pop ops []))) (pushed_items ops) \<and>
   fst (queue_run lq_push lq_pop ops \<lparr>lq_queue = []\<rparr>) =
     take (length (fst (queue_run lq_push lq_pop ops \<lparr>lq_queue = []\<rparr>))) (pushed_items ops)"
  using work.drained_in_order [of "[]" ops] logq.drained_in_order [of "\<lparr>lq_queue = []\<rparr>" ops]
  by (metis log_queue.select_convs(1) prod.collapse)

end
