(* ===== verification/ServerDispatch.thy ===== *)
theory ServerDispatch
  imports SocketConn
begin

text \<open>
  How an accepted connection reaches a worker: \<open>CServerSocket::ListenThreadProc\<close> and
  \<open>ClientThreadProc\<close>.  The listening thread describes the connection in the variable
  \<open>clientData\<close> of its loop body and gives the thread pool a task that holds the variable's
  \<^emph>\<open>address\<close>; it sleeps for three milliseconds and goes on to the next connection.  A task copies
  what the address holds when it starts.  The variable has the same storage in every iteration, so
  between two iterations the address leads nowhere, and afterwards to the next connection.
  (\<open>Proxy::StartListeningThread\<close> of the connection pool hands a thread the address of a loop
  variable in the same way, without even sleeping.)
\<close>

section \<open>Model\<close>

text \<open>
  \<open>client_data\<close> is the connection in the variable while it exists, \<open>waiting_tasks\<close> the number of
  tasks pushed and not yet started, \<open>served\<close> the connections handed to the routine, in order.
\<close>

record dispatcher =
  client_data :: "fd option"
  waiting_tasks :: nat
  served :: "fd list"

definition dispatch_initial :: dispatcher where
  "dispatch_initial = \<lparr>client_data = None, waiting_tasks = 0, served = []\<rparr>"

datatype dispatch_event =
    Accepted fd  \<comment> \<open>\<open>Accept\<close> has returned, \<open>clientData\<close> is filled and the task pushed\<close>
  | Sleep_over  \<comment> \<open>the iteration ends\<close>
  | Task_starts

text \<open>A task that starts between two iterations reads a dead variable: \<open>None\<close>.\<close>

fun dispatch_step :: "dispatch_event \<Rightarrow> dispatcher \<Rightarrow> dispatcher option" where
  "dispatch_step (Accepted f) s = Some (s\<lparr>client_data := Some f, waiting_tasks := Suc (waiting_tasks s)\<rparr>)"
| "dispatch_step Sleep_over s = Some (s\<lparr>client_data := None\<rparr>)"
| "dispatch_step Task_starts s =
     (if waiting_tasks s = 0 then Some s
      else
        (case client_data s of
           None \<Rightarrow> None
         | Some f \<Rightarrow> Some (s\<lparr>waiting_tasks := waiting_tasks s - 1, served := served s @ [f]\<rparr>)))"

fun dispatch_run :: "dispatch_event list \<Rightarrow> dispatcher \<Rightarrow> dispatcher option" where
  "dispatch_run [] s = Some s"
| "dispatch_run (e # es) s = Option.bind (dispatch_step e s) (dispatch_run es)"

section \<open>Properties\<close>

text \<open>An iteration: the connection, and how many tasks start before it ends.\<close>

definition window :: "fd \<times> nat \<Rightarrow> dispatch_event list" where
  "window w = (case w of (f, k) \<Rightarrow> Accepted f # replicate k Task_starts @ [Sleep_over])"

lemma dispatch_run_append:
  "dispatch_run (xs @ ys) s = Option.bind (dispatch_run xs s) (dispatch_run ys)"
  by (induction xs arbitrary: s) (auto split: Option.bind_splits)

lemma tasks_start:
  "client_data s = Some f \<Longrightarrow> k \<le> waiting_tasks s \<Longrightarrow>
   dispatch_run (replicate k Task_starts) s =
     Some (s\<lparr>waiting_tasks := waiting_tasks s - k, served := served s @ replicate k f\<rparr>)"
  by (induction k arbitrary: s) simp_all

lemma window_serves:
  "k \<le> Suc (waiting_tasks s) \<Longrightarrow>
   dispatch_run (window (f, k)) s =
     Some (s\<lparr>client_data := None, waiting_tasks := Suc (waiting_tasks s) - k, served := served s @ replicate k f\<rparr>)"
  by (simp add: window_def dispatch_run_append tasks_start)

text \<open>A connection is served by exactly the tasks that start in its three milliseconds.  However the
  starts of the tasks fall into the windows of the iterations, as many tasks run the routine for a
  connection as start in its window: the one whose task is late is never served, and the one in
  whose window two tasks start is served twice.\<close>

theorem connections_served_by_window:
  assumes "\<forall>j < length ws. sum_list (map snd (take (Suc j) ws)) \<le> Suc j"
  shows "\<exists>s. dispatch_run (concat (map window ws)) dispatch_initial = Some s \<and>
    served s = concat (map (\<lambda>(f, k). replicate k f) ws)"
proof -
  have "\<exists>s. dispatch_run (concat (map window ws)) dispatch_initial = Some s \<and>
      served s = concat (map (\<lambda>(f, k). replicate k f) ws) \<and>
      waiting_tasks s + sum_list (map snd ws) = length ws"
    using assms
  proof (induction ws rule: rev_induct)
    case Nil
    then show ?case by (simp add: dispatch_initial_def)
  next
    case (snoc w ws)
    obtain f k where w: "w = (f, k)" by (cases w)
    have "\<forall>j < length ws. sum_list (map snd (take (Suc j) ws)) \<le> Suc j"
    proof (intro allI impI)
      fix j assume "j < length ws"
      then show "sum_list (map snd (take (Suc j) ws)) \<le> Suc j" using snoc.prems [rule_format, of j] by simp
    qed
    with snoc.IH obtain s where s: "dispatch_run (concat (map window ws)) dispatch_initial = Some s"
      "served s = concat (map (\<lambda>(f, k). replicate k f) ws)" "waiting_tasks s + sum_list (map snd ws) = length ws" by blast
    have total: "sum_list (map snd ws) + k \<le> Suc (length ws)"
      using snoc.prems [rule_format, of "length ws"] w by simp
    then have "k \<le> Suc (waiting_tasks s)" using s(3) by linarith
    from window_serves [OF this] s total show ?case by (simp add: dispatch_run_append w)
  qed
  then show ?thesis by blast
qed

lemma connections_served_by_window_witness:
  "\<exists>s. dispatch_run (concat (map window [(4, 0), (5, 2), (6, 1)])) dispatch_initial = Some s \<and>
    served s = concat (map (\<lambda>(f, k). replicate k f) [(4, 0), (5, 2), (6, 1)])"
  by (rule connections_served_by_window) (auto simp: less_Suc_eq numeral_3_eq_3 numeral_2_eq_2)

end
