(* ===== verification/WireReaders.thy ===== *)
theory WireReaders
  imports Payload
begin

text \<open>
  The readers of integers and strings in a packet, \<open>utils/ProtocolHelper.h\<close>.  Each takes a
  substring and then copies bytes with \<open>memcpy\<close> from the address of the \<^emph>\<open>string object\<close>, not
  from its characters.  What the first bytes of a string object are is a matter of the standard
  library and of where the object lies: the function \<open>object\<close> from the string's characters to the
  bytes of its representation is an argument of the readers.  The host is little-endian, so
  \<open>le16toh\<close>, \<open>le32toh\<close> and \<open>le64toh\<close> are the identity and \<open>be..toh\<close> reverse the bytes.  A position
  outside the buffer throws (\<open>None\<close>), as does the copy of more bytes than the object has.
\<close>

section \<open>Model\<close>

type_synonym object_layout = "string \<Rightarrow> string"

definition substr :: "string \<Rightarrow> int \<Rightarrow> nat \<Rightarrow> string option" where
  "substr buffer start len =
     (if 0 \<le> start \<and> nat start \<le> length buffer then Some (take len (drop (nat start) buffer)) else None)"

text \<open>\<open>memcpy\<close> of \<open>n\<close> bytes from the object.\<close>

definition copied :: "object_layout \<Rightarrow> nat \<Rightarrow> string \<Rightarrow> string option" where
  "copied object n str = (if n \<le> length (object str) then Some (take n (object str)) else None)"

definition be_value :: "string \<Rightarrow> nat" where
  "be_value bytes = le_value (rev bytes)"

definition readInt32 :: "object_layout \<Rightarrow> string \<Rightarrow> int \<Rightarrow> 32 word option" where
  "readInt32 object buffer start =
     Option.bind (substr buffer start 4) (\<lambda>bytes. map_option (word_of_nat \<circ> le_value) (copied object 4 bytes))"

definition readLEInt16 :: "object_layout \<Rightarrow> string \<Rightarrow> int \<Rightarrow> 16 word option" where
  "readLEInt16 object buffer start =
     Option.bind (substr buffer start 2) (\<lambda>bytes. map_option (word_of_nat \<circ> le_value) (copied object 2 bytes))"

text \<open>The three-byte reader appends a zero byte to the substring and copies four bytes.\<close>

definition readLEInt24 :: "object_layout \<Rightarrow> string \<Rightarrow> int \<Rightarrow> 32 word option" where
  "readLEInt24 object buffer start =
     Option.bind (substr buffer start 3) (\<lambda>bytes. map_option (word_of_nat \<circ> le_value) (copied object 4 (bytes @ [NUL])))"

definition readLEInt64 :: "object_layout \<Rightarrow> string \<Rightarrow> int \<Rightarrow> 64 word option" where
  "readLEInt64 object buffer start =
     Option.bind (substr buffer start 8) (\<lambda>bytes. map_option (word_of_nat \<circ> le_value) (copied object 8 bytes))"

definition readBEInt16 :: "object_layout \<Rightarrow> string \<Rightarrow> int \<Rightarrow> 16 word option" where
  "readBEInt16 object buffer start =
     Option.bind (substr buffer start 2) (\<lambda>bytes. map_option (word_of_nat \<circ> be_value) (copied object 2 bytes))"

definition readBEInt32 :: "object_layout \<Rightarrow> string \<Rightarrow> int \<Rightarrow> 32 word option" where
  "readBEInt32 object buffer start =
     Option.bind (substr buffer start 4) (\<lambda>bytes. map_option (word_of_nat \<circ> be_value) (copied object 4 bytes))"

definition readBEInt64 :: "object_layout \<Rightarrow> string \<Rightarrow> int \<Rightarrow> 64 word option" where
  "readBEInt64 object buffer start =
     Option.bind (substr buffer start 8) (\<lambda>bytes. map_option (word_of_nat \<circ> be_value) (copied object 8 bytes))"

definition readByte :: "string \<Rightarrow> int \<Rightarrow> 8 word option" where
  "readByte buffer start =
     (if 0 \<le> start \<and> nat start \<le> length buffer then Some (of_nat (of_char ((buffer @ [NUL]) ! nat start))) else None)"

text \<open>\<open>readCString\<close>: from \<open>start\<close> up to the first NUL, at the latest the one behind the string.\<close>

fun read_chars :: "string \<Rightarrow> string" where
  "read_chars [] = []"
| "read_chars (c # cs) = (if c = NUL then [] else c # read_chars cs)"

definition readCString :: "string \<Rightarrow> int \<Rightarrow> string option" where
  "readCString buffer start =
     (if 0 \<le> start \<and> nat start \<le> length buffer then Some (read_chars (drop (nat start) buffer)) else None)"

section \<open>Properties\<close>

text \<open>
  Two layouts of the standard libraries: one that keeps a short string's characters at the start
  of the object, and one whose object begins with a pointer to the characters.
\<close>

definition inline_layout :: "string \<Rightarrow> object_layout" where
  "inline_layout rest str = str @ rest"

definition pointer_layout :: "64 word \<Rightarrow> string \<Rightarrow> object_layout" where
  "pointer_layout address rest str = le_bytes 8 (unat address) @ rest"

lemma substr_at: "0 \<le> start \<Longrightarrow> nat start + len \<le> length buffer \<Longrightarrow>
    substr buffer start len = Some (take len (drop (nat start) buffer))"
  by (simp add: substr_def)

lemma substr_middle: "length pre = nat start \<Longrightarrow> 0 \<le> start \<Longrightarrow> length x = n \<Longrightarrow> substr (pre @ x @ post) start n = Some x"
  by (simp add: substr_def)

lemma copied_inline: "length str = n \<Longrightarrow> copied (inline_layout rest) n str = Some str"
  by (simp add: copied_def inline_layout_def)

lemma le_value_snoc_NUL: "le_value (bytes @ [NUL]) = le_value bytes"
  by (induction bytes) simp_all

lemma word_le_bytes: "word_of_nat (le_value (le_bytes 4 (unat (w :: 32 word)))) = w"
  "word_of_nat (le_value (le_bytes 2 (unat (v :: 16 word)))) = v"
  "word_of_nat (le_value (le_bytes 8 (unat (u :: 64 word)))) = u"
  using unsigned_less [of w, where ?'a = nat] unsigned_less [of v, where ?'a = nat] unsigned_less [of u, where ?'a = nat] by (simp_all add: le_value_bytes)

text \<open>C40: With characters at the start of the string object the readers are right: each integer written
  in little-endian (or, for the others, big-endian) order anywhere in a packet is read back.\<close>

theorem readers_inline:
  assumes "length pre = nat start" "0 \<le> start" "n24 < 256 ^ 3"
  shows "readInt32 (inline_layout rest) (pre @ le_bytes 4 (unat w) @ post) start = Some w \<and>
    readLEInt16 (inline_layout rest) (pre @ le_bytes 2 (unat v) @ post) start = Some v \<and>
    readLEInt24 (inline_layout rest) (pre @ le_bytes 3 n24 @ post) start = Some (word_of_nat n24) \<and>
    readLEInt64 (inline_layout rest) (pre @ le_bytes 8 (unat u) @ post) start = Some u \<and>
    readBEInt16 (inline_layout rest) (pre @ rev (le_bytes 2 (unat v)) @ post) start = Some v \<and>
    readBEInt32 (inline_layout rest) (pre @ rev (le_bytes 4 (unat w)) @ post) start = Some w \<and>
    readBEInt64 (inline_layout rest) (pre @ rev (le_bytes 8 (unat u)) @ post) start = Some u"
proof -
  note at = substr_middle [OF assms(1,2)]
  note defs = readInt32_def readLEInt16_def readLEInt64_def readBEInt16_def readBEInt32_def readBEInt64_def
    be_value_def word_le_bytes copied_inline at
  have "readLEInt24 (inline_layout rest) (pre @ le_bytes 3 n24 @ post) start = Some (word_of_nat n24)"
    using le_value_bytes [OF assms(3)] by (simp add: readLEInt24_def at copied_inline le_value_snoc_NUL)
  then show ?thesis by (simp add: defs)
qed

lemma readers_inline_witness:
  "readInt32 (inline_layout []) (''ab'' @ le_bytes 4 (unat (258 :: 32 word)) @ ''cd'') 2 = Some 258"
  using readers_inline [of "''ab''" 2 0 "[]" 258 "''cd''"] by simp

text \<open>With a pointer at the start of the string object the readers return the pointer: the result
  does not depend on the packet at all, only on where the substring happens to lie.\<close>

theorem readers_pointer:
  assumes "0 \<le> start" "nat start + 8 \<le> length b1"
  shows "readLEInt64 (pointer_layout address rest) b1 start = Some address \<and>
    readInt32 (pointer_layout address rest) b1 start = Some (ucast address) \<and>
    readLEInt16 (pointer_layout address rest) b1 start = Some (ucast address)"
proof -
  have pre: "take k (le_bytes n m) = le_bytes k m" if "k \<le> n" for k n m
    using that by (induction n m arbitrary: k rule: le_bytes.induct) (auto simp: take_Cons' gr0_conv_Suc)
  have val: "le_value (le_bytes k m) = m mod 256 ^ k" for k m
  proof (induction k m rule: le_bytes.induct)
    case (2 k n)
    then show ?case by (simp add: mod_mult2_eq mult.commute)
  qed simp
  have "unat address < 256 ^ 8" using unsigned_less [of address, where ?'a = nat] by simp
  moreover have "(word_of_nat (unat address mod 256 ^ 4) :: 32 word) = ucast address"
    "(word_of_nat (unat address mod 256 ^ 2) :: 16 word) = ucast address"
    by (rule word_unat_eq_iff [THEN iffD2], simp add: unat_of_nat unsigned_ucast_eq take_bit_eq_mod)+
  ultimately show ?thesis
    using assms
    by (simp add: readLEInt64_def readInt32_def readLEInt16_def substr_def copied_def pointer_layout_def pre val)
qed

lemma readers_pointer_witness:
  "readInt32 (pointer_layout 140737488355328 []) ''packet..'' 0 = readInt32 (pointer_layout 140737488355328 []) ''anything'' 0"
  using readers_pointer [of 0 "''packet..''"] readers_pointer [of 0 "''anything''"] by simp

lemma read_chars_c_str: "read_chars s = c_str s"
  by (induction s) (simp_all add: c_str_def)

end
