(* ===== verification/Scheduler.thy ===== *)
theory Scheduler
  imports Prelude "HOL-Library.Multiset"
begin

text \<open>
  \<open>utils/scheduler/SimpleScheduler.cpp\<close>: tasks with a due time, and a loop that looks at them once a
  second.  A task's function is an action on a state \<open>'s\<close>, of which \<open>stops\<close> tells whether it has
  called \<open>stop()\<close> (on this scheduler, or from another thread between the passes); functions that add
  tasks to the vector that is being iterated are not modelled.
\<close>

section \<open>Model\<close>

record 's scheduled =
  st_name :: string
  st_time :: int
  st_function :: "'s \<Rightarrow> 's"

record 's scheduler =
  tasks :: "'s scheduled list"
  running :: bool

definition scheduler_ctor :: "'s scheduler" where
  "scheduler_ctor = \<lparr>tasks = [], running = True\<rparr>"

definition addTask :: "string \<Rightarrow> int \<Rightarrow> ('s \<Rightarrow> 's) \<Rightarrow> 's scheduler \<Rightarrow> 's scheduler" where
  "addTask name time func s = s\<lparr>tasks := tasks s @ [\<lparr>st_name = name, st_time = time, st_function = func\<rparr>]\<rparr>"

definition stop :: "'s scheduler \<Rightarrow> 's scheduler" where
  "stop s = s\<lparr>running := False\<rparr>"

text \<open>The inner loop: the tasks executed, those left, and the state.\<close>

fun execute_due :: "int \<Rightarrow> 's scheduled list \<Rightarrow> 's \<Rightarrow> 's scheduled list \<times> 's scheduled list \<times> 's" where
  "execute_due now [] w = ([], [], w)"
| "execute_due now (t # ts) w =
     (if st_time t \<le> now then
        let (ex, left, w1) = execute_due now ts (st_function t w) in (t # ex, left, w1)
      else
        let (ex, left, w1) = execute_due now ts w in (ex, t # left, w1))"

text \<open>
  The outer loop over the times of its passes; for each pass the time, and whether \<open>stop()\<close> is
  called in it.  The result: what each pass executed, and the scheduler when observation ends.
\<close>

fun start :: "(int \<times> bool) list \<Rightarrow> 's scheduler \<Rightarrow> 's \<Rightarrow> 's scheduled list list \<times> 's scheduler \<times> 's" where
  "start [] s w = ([], s, w)"
| "start ((now, stopped) # passes) s w =
     (if running s then
        let (ex, left, w1) = execute_due now (tasks s) w;
            s1 = (if stopped then stop (s\<lparr>tasks := left\<rparr>) else s\<lparr>tasks := left\<rparr>);
            (exs, s2, w2) = start passes s1 w1
        in (ex # exs, s2, w2)
      else ([], s, w))"

section \<open>Properties\<close>

lemma execute_due_filter:
  "execute_due now ts w =
     (filter (\<lambda>t. st_time t \<le> now) ts, filter (\<lambda>t. \<not> st_time t \<le> now) ts,
      fold st_function (filter (\<lambda>t. st_time t \<le> now) ts) w)"
  by (induction ts arbitrary: w) simp_all

text \<open>Every task is executed once, when it is due.  In any run, the tasks executed and those left are
  together the tasks that were added; every task executed in a pass was due at the time of that pass and at no
  earlier one, tasks of one pass are executed in the order they were added, and nothing that
  was due at some pass is left.\<close>

theorem scheduler_executes_once:
  assumes "running s" "\<forall>(now, stopped) \<in> set (butlast passes). \<not> stopped" "start passes s w = (exs, s', w')"
  shows "length exs = length passes \<and> mset (concat exs) + mset (tasks s') = mset (tasks s) \<and>
    (\<forall>k < length passes. exs ! k = filter (\<lambda>t. st_time t \<le> fst (passes ! k) \<and> (\<forall>j < k. fst (passes ! j) < st_time t)) (tasks s)) \<and>
    tasks s' = filter (\<lambda>t. \<forall>p \<in> set passes. fst p < st_time t) (tasks s)"
  using assms
proof (induction passes arbitrary: s w exs)
  case (Cons p passes)
  obtain now stopped where p: "p = (now, stopped)" by (cases p)
  let ?due = "\<lambda>t. st_time t \<le> now"
  define s1 where "s1 = (if stopped then stop (s\<lparr>tasks := filter (\<lambda>t. \<not> ?due t) (tasks s)\<rparr>)
      else s\<lparr>tasks := filter (\<lambda>t. \<not> ?due t) (tasks s)\<rparr>)"
  obtain exs1 where exs1: "start passes s1 (fold st_function (filter ?due (tasks s)) w) = (exs1, s', w')"
    "exs = filter ?due (tasks s) # exs1"
    using Cons.prems(1,3) by (auto simp: p execute_due_filter s1_def Let_def split: prod.splits)
  have s1: "tasks s1 = filter (\<lambda>t. \<not> ?due t) (tasks s)" by (simp add: s1_def stop_def)
  have IH: "length exs1 = length passes \<and> mset (concat exs1) + mset (tasks s') = mset (tasks s1) \<and>
    (\<forall>k < length passes. exs1 ! k = filter (\<lambda>t. st_time t \<le> fst (passes ! k) \<and> (\<forall>j < k. fst (passes ! j) < st_time t)) (tasks s1)) \<and>
    tasks s' = filter (\<lambda>t. \<forall>p \<in> set passes. fst p < st_time t) (tasks s1)"
  proof (cases "passes = []")
    case True
    then show ?thesis using exs1(1) by simp
  next
    case False
    then have "running s1" "\<forall>(now, stopped) \<in> set (butlast passes). \<not> stopped"
      using Cons.prems(1,2) p by (auto simp: s1_def)
    then show ?thesis using Cons.IH exs1(1) by blast
  qed
  have "mset (filter ?due (tasks s)) + mset (filter (\<lambda>t. \<not> ?due t) (tasks s)) = mset (tasks s)"
    by (metis mset_filter multiset_partition)
  moreover have "(exs ! k) = filter (\<lambda>t. st_time t \<le> fst ((p # passes) ! k) \<and> (\<forall>j < k. fst ((p # passes) ! j) < st_time t)) (tasks s)"
    if "k < length (p # passes)" for k
  proof (cases k)
    case 0
    then show ?thesis using exs1(2) p by simp
  next
    case (Suc i)
    then show ?thesis
      using IH that exs1(2) p s1 by (auto simp: All_less_Suc2 intro!: filter_cong)
  qed
  moreover have "mset (concat exs) + mset (tasks s') = mset (filter ?due (tasks s)) + mset (tasks s1)"
    unfolding IH [THEN conjunct2, THEN conjunct1, symmetric] exs1(2) by (simp only: concat.simps mset_append add.assoc)
  moreover have "length exs = length (p # passes)" using IH exs1(2) by simp
  moreover have "tasks s' = filter (\<lambda>t. \<forall>q \<in> set (p # passes). fst q < st_time t) (tasks s)"
    using IH s1 p by (auto simp: not_le intro!: filter_cong)
  ultimately show ?case unfolding s1 by simp
qed simp

lemma scheduler_executes_once_witness:
  "length (fst (start [(5, False), (9, True)] (addTask ''a'' 7 Suc (addTask ''b'' 3 Suc scheduler_ctor)) (0::nat))) = 2"
proof -
  obtain exs s' w' where r: "start [(5, False), (9, True)] (addTask ''a'' 7 Suc (addTask ''b'' 3 Suc scheduler_ctor)) (0::nat) = (exs, s', w')"
    by (metis prod_cases3)
  from scheduler_executes_once [OF _ _ r] show ?thesis by (simp add: r addTask_def scheduler_ctor_def)
qed

end
