(* ===== verification/StringTools.thy ===== *)
theory StringTools
  imports Prelude "HOL-Library.Sublist"
begin

text \<open>
  The string helpers of the protocol programs, \<open>utils/StringUtils.h\<close>.
\<close>

section \<open>Model\<close>

text \<open>\<open>std::string::find\<close>: the first position at which the pattern stands.\<close>

fun find_sub :: "string \<Rightarrow> string \<Rightarrow> nat option" where
  "find_sub pat s =
     (if prefix pat s then Some 0
      else (case s of [] \<Rightarrow> None | _ # cs \<Rightarrow> map_option Suc (find_sub pat cs)))"

text \<open>
  The loop of \<open>split\<close>, on the rest of the string from \<open>pos_start\<close>.  With an empty delimiter it never
  ends: \<open>None\<close>.
\<close>

partial_function (option) split_from :: "string \<Rightarrow> string \<Rightarrow> string list option" where
  "split_from delimiter s =
     (case find_sub delimiter s of
        None \<Rightarrow> Some [s]
      | Some pos_end \<Rightarrow>
          Option.bind (split_from delimiter (drop (pos_end + length delimiter) s))
            (\<lambda>res. Some (take pos_end s # res)))"

definition split :: "string \<Rightarrow> string \<Rightarrow> string list option" where
  "split s delimiter = split_from delimiter s"

text \<open>\<open>ChopLine\<close>: \<open>None\<close> when the copy into the 4096-byte buffer does not fit.\<close>

fun chop_scan :: "string \<Rightarrow> string \<Rightarrow> (string \<times> string) option" where
  "chop_scan key [] = None"
| "chop_scan key (c # cs) = (if c = CHR '':'' then Some (key, cs) else chop_scan (key @ [c]) cs)"

definition ChopLine :: "string \<Rightarrow> (string \<times> string) option" where
  "ChopLine str =
     (let buffer = c_str str in
      if 4096 \<le> length buffer then None
      else (case chop_scan [] buffer of None \<Rightarrow> Some ([], []) | Some kv \<Rightarrow> Some kv))"

fun escape_char :: "char \<Rightarrow> string" where
  "escape_char c =
     (if c = CHR 0x0A then [CHR 0x5C, CHR ''n'']
      else if c = CHR 0x0D then [CHR 0x5C, CHR ''r'']
      else if c = CHR 0x09 then [CHR 0x5C, CHR ''t'']
      else if c = CHR 0x5C then [CHR 0x5C, CHR 0x5C]
      else [c])"

definition getStringWithEscapes :: "string \<Rightarrow> string" where
  "getStringWithEscapes input = concat (map escape_char input)"

section \<open>Properties\<close>

declare find_sub.simps [simp del]

lemma find_sub_Nil: "find_sub pat [] = (if pat = [] then Some 0 else None)"
  by (simp add: find_sub.simps)

lemma find_sub_Some:
  "find_sub pat s = Some i \<Longrightarrow> take (length pat) (drop i s) = pat \<and> i + length pat \<le> length s \<and>
     (\<forall>j < i. \<not> prefix pat (drop j s))"
proof (induction s arbitrary: i)
  case Nil
  then show ?case by (auto simp: find_sub_Nil split: if_splits)
next
  case (Cons c cs)
  show ?case
  proof (cases "prefix pat (c # cs)")
    case True
    then have "i = 0" using Cons.prems by (simp add: find_sub.simps [of pat "c # cs"])
    moreover obtain r where "c # cs = pat @ r" using True by (auto simp: prefix_def)
    ultimately show ?thesis by simp
  next
    case False
    then obtain k where k: "find_sub pat cs = Some k" "i = Suc k"
      using Cons.prems by (auto simp: find_sub.simps [of pat "c # cs"])
    moreover have "\<not> prefix pat (drop j (c # cs))" if "j < Suc k" for j
      using that Cons.IH [OF k(1)] False by (cases j) auto
    ultimately show ?thesis using Cons.IH [OF k(1)] by auto
  qed
qed

lemma find_sub_None: "find_sub pat s = None \<longleftrightarrow> (\<forall>j \<le> length s. \<not> prefix pat (drop j s))"
proof (induction s)
  case Nil
  then show ?case by (simp add: find_sub_Nil)
next
  case (Cons c cs)
  have "(\<forall>j \<le> length (c # cs). \<not> prefix pat (drop j (c # cs))) \<longleftrightarrow>
      \<not> prefix pat (c # cs) \<and> (\<forall>j \<le> length cs. \<not> prefix pat (drop j cs))"
    by (auto simp: drop_Cons' split: if_splits)
  then show ?case using Cons by (auto simp: find_sub.simps [of pat "c # cs"])
qed

text \<open>The tokens joined by the delimiter.\<close>

fun join_with :: "string \<Rightarrow> string list \<Rightarrow> string" where
  "join_with d [] = []"
| "join_with d [t] = t"
| "join_with d (t # ts) = t @ d @ join_with d ts"

lemma join_with_Cons: "ts \<noteq> [] \<Longrightarrow> join_with d (t # ts) = t @ d @ join_with d ts"
  by (cases ts) simp_all

lemma find_sub_empty: "find_sub [] s = Some 0"
  by (simp add: find_sub.simps)

lemma split_from_empty: "split_from delimiter s = Some ts \<Longrightarrow> delimiter \<noteq> []"
proof (rule split_from.raw_induct [where P = "\<lambda>d s ts. d \<noteq> []"])
  fix f d s y
  assume IH: "\<And>d s y. f d s = Some y \<Longrightarrow> d \<noteq> []"
    and step: "(case find_sub d s of None \<Rightarrow> Some [s]
      | Some pos_end \<Rightarrow> Option.bind (f d (drop (pos_end + length d) s)) (\<lambda>res. Some (take pos_end s # res))) = Some y"
  show "d \<noteq> []"
  proof
    assume d: "d = []"
    then obtain res where "f [] s = Some res"
      using step by (auto simp: find_sub_empty split: Option.bind_splits)
    then show False using IH by blast
  qed
qed

text \<open>C29: Splitting loses nothing.  With a nonempty delimiter \<open>split\<close> returns at least one token, no
  token contains the delimiter, and the tokens joined by it are the string again; with an empty
  delimiter it never returns (it collects empty tokens as long as there is memory).\<close>

theorem split_round_trip:
  "(if delimiter = [] then split s delimiter = None
    else \<exists>ts. split s delimiter = Some ts \<and> ts \<noteq> [] \<and> join_with delimiter ts = s \<and>
      list_all (\<lambda>t. find_sub delimiter t = None) ts)"
proof (cases "delimiter = []")
  case True
  then show ?thesis using split_from_empty [of delimiter s] by (cases "split_from delimiter s") (auto simp: split_def)
next
  case False
  have "\<exists>ts. split_from delimiter s = Some ts \<and> ts \<noteq> [] \<and> join_with delimiter ts = s \<and>
      (\<forall>t \<in> set ts. find_sub delimiter t = None)"
  proof (induction s rule: length_induct)
    case (1 s)
    show ?case
    proof (cases "find_sub delimiter s")
      case None
      then show ?thesis by (subst split_from.simps) simp
    next
      case (Some i)
      note found = find_sub_Some [OF Some]
      have "length (drop (i + length delimiter) s) < length s"
        using found False by (cases delimiter) auto
      then obtain ts where ts: "split_from delimiter (drop (i + length delimiter) s) = Some ts" "ts \<noteq> []"
        "join_with delimiter ts = drop (i + length delimiter) s" "\<forall>t \<in> set ts. find_sub delimiter t = None"
        using 1 by blast
      have "take i s @ delimiter @ drop (i + length delimiter) s = s"
        using found by (metis add.commute append_take_drop_id drop_drop)
      moreover have "\<not> prefix delimiter (drop j (take i s))" if "j \<le> length (take i s)" for j
      proof
        assume p: "prefix delimiter (drop j (take i s))"
        then have "length delimiter \<le> length (drop j (take i s))" by (rule prefix_length_le)
        then have "j < i" using False by (cases delimiter) auto
        moreover have "prefix (drop j (take i s)) (drop j s)" by (simp add: drop_take take_is_prefix)
        ultimately show False using found p prefix_order.trans by blast
      qed
      then have "find_sub delimiter (take i s) = None" by (simp add: find_sub_None)
      ultimately show ?thesis
        using ts by (subst split_from.simps) (simp add: Some join_with_Cons)
    qed
  qed
  then show ?thesis using False by (simp add: split_def list_all_iff)
qed

lemma chop_scan_splits:
  "CHR '':'' \<notin> set key \<Longrightarrow> chop_scan key s =
    (if CHR '':'' \<in> set s then Some (key @ takeWhile (\<lambda>c. c \<noteq> CHR '':'') s, tl (dropWhile (\<lambda>c. c \<noteq> CHR '':'') s)) else None)"
  by (induction key s rule: chop_scan.induct) auto

lemma first_cut: "c \<in> set s \<Longrightarrow> s = takeWhile (\<lambda>d. d \<noteq> c) s @ c # tl (dropWhile (\<lambda>d. d \<noteq> c) s)"
  by (induction s) auto

text \<open>What \<open>getStringWithEscapes\<close> writes can be read back.\<close>

fun unescape :: "string \<Rightarrow> string" where
  "unescape [] = []"
| "unescape [c] = [c]"
| "unescape (c # d # s) =
     (if c = CHR 0x5C then
        (if d = CHR ''n'' then CHR 0x0A else if d = CHR ''r'' then CHR 0x0D
         else if d = CHR ''t'' then CHR 0x09 else d) # unescape s
      else c # unescape (d # s))"

lemma unescape_Cons: "c \<noteq> CHR 0x5C \<Longrightarrow> unescape (c # s) = c # unescape s"
  by (cases s) simp_all

text \<open>Escaping and key lines are faithful: no two strings are escaped alike, since the escapes can be
  undone; and a key line that fits the buffer is taken apart at its first colon, without loss.\<close>

theorem escapes_and_lines:
  assumes "length (c_str l) < 4096" "CHR '':'' \<in> set (c_str l)"
  shows "unescape (getStringWithEscapes s) = s \<and>
    (\<exists>key value. ChopLine l = Some (key, value) \<and> CHR '':'' \<notin> set key \<and> c_str l = key @ CHR '':'' # value)"
proof -
  have "unescape (getStringWithEscapes s) = s"
    by (induction s) (auto simp: getStringWithEscapes_def unescape_Cons)
  moreover have "CHR '':'' \<notin> set (takeWhile (\<lambda>c. c \<noteq> CHR '':'') (c_str l))" by (auto dest: set_takeWhileD)
  moreover have "ChopLine l = Some (takeWhile (\<lambda>c. c \<noteq> CHR '':'') (c_str l), tl (dropWhile (\<lambda>c. c \<noteq> CHR '':'') (c_str l)))"
    using assms by (simp add: ChopLine_def chop_scan_splits Let_def)
  ultimately show ?thesis using first_cut [OF assms(2)] by blast
qed

lemma escapes_and_lines_witness:
  "unescape (getStringWithEscapes [CHR 0x0A, CHR 0x5C]) = [CHR 0x0A, CHR 0x5C] \<and>
   (\<exists>key value. ChopLine ''Host: x:1'' = Some (key, value) \<and> CHR '':'' \<notin> set key \<and> c_str ''Host: x:1'' = key @ CHR '':'' # value)"
  by (rule escapes_and_lines) (simp_all add: c_str_def)

end
