(* ===== verification/LogService.thy ===== *)
theory LogService
  imports WorkQueue StringTools SocketConn
begin

text \<open>
  The logger of the protocol programs, \<open>utils/logger\<close>: the content writers and the media they write
  to, the strategies, the factory, and \<open>Logger\<close> itself with its worker thread.  \<open>Log\<close> and the
  worker's rounds hold one mutex, so a run is a sequence of them.  The file system, the database
  (\<open>SQLAccess\<close>) and the network answer each call with a number; the answers are a function of the
  number of the call, in the state of the media.
\<close>

section \<open>Media and content writers\<close>

record media = os +
  console_out :: "string list"
  log_files :: "string \<Rightarrow> string list"
  executed_queries :: "string list"
  media_answers :: "nat \<Rightarrow> int"
  media_calls :: nat

datatype content_writer = Console_writer | File_writer string | Db_writer | Network_writer fd

definition media_answer :: "media \<Rightarrow> int \<times> media" where
  "media_answer m = (media_answers m (media_calls m), m\<lparr>media_calls := Suc (media_calls m)\<rparr>)"

text \<open>
  \<open>TcpClient\<close>, the network writer's connection.  The constructor resolves the host (a null result of
  \<open>gethostbyaddr\<close> is used unchecked: \<open>None\<close>), opens a socket and connects it.
\<close>

definition TcpClient_ctor ::
  "string \<Rightarrow> int \<Rightarrow> resolver \<Rightarrow> int \<Rightarrow> int \<Rightarrow> 'a os_scheme \<Rightarrow> (fd \<times> 'a os_scheme completion) option" where
  "TcpClient_ctor domain port r sock rv s =
     (case Resolve domain r of
        Inl e \<Rightarrow> Some (0, Raised e s)
      | Inr found \<Rightarrow>
          let s1 = emit Call_socket s in
          if sock = -1 then Some (sock, Raised ''Error creating socket'' s1)
          else if \<not> found then None
          else
            let s2 = emit (Call_connect sock (port_of port)) s1 in
            if rv = -1
            then Some (sock, Raised ''TcpClient:: Error connecting to the server'' (emit (Call_close sock) s2))
            else Some (sock, Done s2))"

text \<open>\<open>sendTcpMessage\<close>: a failed \<open>send\<close> closes the socket, whose number is kept and used again.\<close>

definition sendTcpMessage :: "fd \<Rightarrow> string \<Rightarrow> int \<Rightarrow> 'a os_scheme \<Rightarrow> bool \<times> 'a os_scheme" where
  "sendTcpMessage f content sent s =
     (let s1 = emit (Call_send f (content @ [NUL]) (length content)) s in
      if sent = -1 then (True, emit (Call_close f) s1) else (True, s1))"

text \<open>
  \<open>WriteToMedia\<close>.  A file is opened for each line (0 is failure).  The database's answer is whether
  it is open and has executed the query; it gets the text up to the first NUL (\<open>LogDatabase\<close> has the
  calls in detail).
\<close>

definition insert_query :: "string \<Rightarrow> string" where
  "insert_query logcontent = ''INSERT INTO logs VALUES('' @ [CHR 0x27] @ logcontent @ [CHR 0x27] @ '');''"

fun WriteToMedia :: "content_writer \<Rightarrow> string \<Rightarrow> media \<Rightarrow> bool \<times> media" where
  "WriteToMedia Console_writer content m = (True, m\<lparr>console_out := console_out m @ [content]\<rparr>)"
| "WriteToMedia (File_writer name) content m =
     (let (is_open, m1) = media_answer m in
      if is_open = 0 then (False, m1)
      else (True, m1\<lparr>log_files := (log_files m1)(name := log_files m1 name @ [content @ [CHR 0x0D, CHR 0x0A]])\<rparr>))"
| "WriteToMedia Db_writer content m =
     (let (is_open, m1) = media_answer m in
      if is_open = 0 then (False, m1)
      else (True, m1\<lparr>executed_queries := executed_queries m1 @
        [c_str (insert_query content)]\<rparr>))"
| "WriteToMedia (Network_writer f) content m =
     (let (sent, m1) = media_answer m in (True, snd (sendTcpMessage f content sent m1)))"

text \<open>\<open>BaseContentWriter::Flush\<close>, for a writer's queue; it stops when the queue is empty.\<close>

fun flush_items :: "(string \<Rightarrow> 'm \<Rightarrow> bool \<times> 'm) \<Rightarrow> string list \<Rightarrow> 'm \<Rightarrow> 'm" where
  "flush_items write [] m = m"
| "flush_items write (content # cs) m = flush_items write cs (snd (write content m))"

definition Flush :: "content_writer \<Rightarrow> string log_queue \<Rightarrow> media \<Rightarrow> string log_queue \<times> media" where
  "Flush w q m = (q\<lparr>lq_queue := []\<rparr>, flush_items (WriteToMedia w) (lq_queue q) m)"

text \<open>\<open>Write\<close> only queues; the flush it once started is commented out.\<close>

definition Write :: "string \<Rightarrow> string log_queue \<Rightarrow> string log_queue" where
  "Write content q = lq_push content q"

section \<open>Strategies\<close>

datatype log_strategy = Null_strategy | File_strategy | Db_strategy | Net_strategy

definition CreateLogger :: "string \<Rightarrow> log_strategy" where
  "CreateLogger loggertype =
     (if loggertype = ''DB'' then Db_strategy
      else if loggertype = ''FILE'' then File_strategy
      else if loggertype = ''NET'' then Net_strategy
      else Null_strategy)"

record log_state =
  strategy :: log_strategy
  log_date :: string  \<comment> \<open>\<open>fileName\<close> of the file strategy\<close>
  log_writer :: content_writer
  log_items :: "string log_queue"

definition file_name :: "string \<Rightarrow> string" where
  "file_name date = ''asabru-log-'' @ date @ ''.txt''"

text \<open>\<open>initFileContentWriter\<close> replaces the writer, and with it the queue.\<close>

definition initFileContentWriter :: "string \<Rightarrow> log_state \<Rightarrow> log_state" where
  "initFileContentWriter today s =
     s\<lparr>log_date := today, log_writer := File_writer (file_name today), log_items := \<lparr>lq_queue = []\<rparr>\<rparr>"

definition DoLog :: "string \<Rightarrow> string \<Rightarrow> log_state \<Rightarrow> media \<Rightarrow> log_state \<times> media" where
  "DoLog today item s m =
     (case strategy s of
        Null_strategy \<Rightarrow> (s, snd (WriteToMedia (log_writer s) item m))
      | File_strategy \<Rightarrow>
          let s1 = (if log_date s \<noteq> today then initFileContentWriter today s else s)
          in (s1\<lparr>log_items := Write item (log_items s1)\<rparr>, m)
      | Db_strategy \<Rightarrow> (s\<lparr>log_items := Write item (log_items s)\<rparr>, m)
      | Net_strategy \<Rightarrow> (s\<lparr>log_items := Write item (log_items s)\<rparr>, m))"

text \<open>The network strategy's JSON lines; quotation marks are escaped in \<open>cause\<close> only.\<close>

definition QT :: string where
  "QT = [CHR 0x22]"

definition escape_quotes :: "string \<Rightarrow> string" where
  "escape_quotes cause = concat (map (\<lambda>c. if c = CHR 0x22 then [CHR 0x5C, CHR 0x22] else [c]) cause)"

definition json_field :: "string \<Rightarrow> string \<Rightarrow> string" where
  "json_field name v = QT @ name @ QT @ '': '' @ QT @ v @ QT"

definition net_line :: "string \<Rightarrow> string \<Rightarrow> string \<Rightarrow> string option" where
  "net_line app key cause0 =
     (let cause = escape_quotes cause0 in
      if key = ''QUERY'' then
        Some (''{'' @ json_field ''type'' ''query'' @ '','' @ QT @ ''query'' @ QT @ '':'' @ QT @ cause @ QT @ '','' @
              QT @ ''correlation_id'' @ QT @ '':'' @ QT @ app @ QT @ ''}'' @ [CHR 0x0A])
      else if key = ''LATENCY'' then
        (case split cause '','' of
           Some (p0 # p1 # _) \<Rightarrow>
             Some (''{'' @ json_field ''type'' ''latency'' @ '','' @ json_field ''latency'' p0 @ '','' @
                   QT @ ''correlation_id'' @ QT @ '':'' @ QT @ app @ QT @ '','' @ json_field ''host'' p1 @ ''}'' @ [CHR 0x0A])
         | _ \<Rightarrow> None)
      else
        Some (''{'' @ json_field ''type'' ''application_log'' @ '','' @
              json_field ''application_log'' (app @ '' '' @ key @ '' '' @ cause) @ ''}'' @ [CHR 0x0A]))"

definition log_line :: "log_strategy \<Rightarrow> string \<times> string \<times> string \<Rightarrow> string option" where
  "log_line st msg =
     (case msg of (app, key, cause) \<Rightarrow>
        if st = Net_strategy then net_line app key cause else Some (app @ '' '' @ key @ '' '' @ cause))"

text \<open>\<open>LogStrategy::Log\<close>; \<open>None\<close> when a latency record has no second field.\<close>

definition strategy_Log ::
  "string \<Rightarrow> string \<times> string \<times> string \<Rightarrow> log_state \<Rightarrow> media \<Rightarrow> (log_state \<times> media) option" where
  "strategy_Log today msg s m = map_option (\<lambda>line. DoLog today line s m) (log_line (strategy s) msg)"

section \<open>Logger\<close>

text \<open>
  The constructor, for the value of \<open>LOGGER_TYPE\<close> (empty when it is not set), the date, and the
  socket of the network writer: the state, and whether a worker thread is started.
\<close>

definition logger_ctor :: "string \<Rightarrow> string \<Rightarrow> fd \<Rightarrow> log_state \<times> bool" where
  "logger_ctor loggerType today f =
     (let st = CreateLogger loggerType in
      (\<lparr>strategy = st, log_date = (if st = File_strategy then today else []),
        log_writer = (case st of Null_strategy \<Rightarrow> Console_writer | File_strategy \<Rightarrow> File_writer (file_name today)
                      | Db_strategy \<Rightarrow> Db_writer | Net_strategy \<Rightarrow> Network_writer f),
        log_items = \<lparr>lq_queue = []\<rparr>\<rparr>,
       loggerType \<noteq> []))"

text \<open>The events: a call of \<open>Log\<close> on a day, and a round of \<open>logWorker\<close> that finds something to do.\<close>

datatype log_event = Log_call string "string \<times> string \<times> string" | Worker_round

definition logWorker :: "log_state \<Rightarrow> media \<Rightarrow> log_state \<times> media" where
  "logWorker s m =
     (if lq_empty (log_items s) then (s, m)
      else let (q, m1) = Flush (log_writer s) (log_items s) m in (s\<lparr>log_items := q\<rparr>, m1))"

fun logger_run :: "log_event list \<Rightarrow> log_state \<Rightarrow> media \<Rightarrow> (log_state \<times> media) option" where
  "logger_run [] s m = Some (s, m)"
| "logger_run (Worker_round # evs) s m = (let (s1, m1) = logWorker s m in logger_run evs s1 m1)"
| "logger_run (Log_call today msg # evs) s m =
     (case strategy_Log today msg s m of None \<Rightarrow> None | Some (s1, m1) \<Rightarrow> logger_run evs s1 m1)"

section \<open>What a medium promises\<close>

text \<open>
  While it is in order, a medium keeps what it is given, in order, in the form it renders it.
\<close>

locale log_medium =
  fixes put :: "string \<Rightarrow> 'm \<Rightarrow> bool \<times> 'm"
    and held :: "'m \<Rightarrow> string list"
    and in_order :: "'m \<Rightarrow> bool"
    and rendered :: "string \<Rightarrow> string"
  assumes write_held: "in_order m \<Longrightarrow> held (snd (put c m)) = held m @ [rendered c]"
    and write_in_order: "in_order m \<Longrightarrow> in_order (snd (put c m))"
begin

lemma flush_held:
  "in_order m \<Longrightarrow> held (flush_items put cs m) = held m @ map rendered cs \<and> in_order (flush_items put cs m)"
  by (induction cs arbitrary: m) (simp_all add: write_held write_in_order)

end

definition media_ok :: "media \<Rightarrow> bool" where
  "media_ok m \<longleftrightarrow> (\<forall>k. media_answers m k > 0)"

definition held_by :: "content_writer \<Rightarrow> media \<Rightarrow> string list" where
  "held_by w m = (case w of Console_writer \<Rightarrow> console_out m | File_writer name \<Rightarrow> log_files m name
     | Db_writer \<Rightarrow> executed_queries m | Network_writer f \<Rightarrow> wire m)"

definition rendered_by :: "content_writer \<Rightarrow> string \<Rightarrow> string" where
  "rendered_by w c = (case w of Console_writer \<Rightarrow> c | File_writer name \<Rightarrow> c @ [CHR 0x0D, CHR 0x0A]
     | Db_writer \<Rightarrow> c_str (insert_query c) | Network_writer f \<Rightarrow> c)"

interpretation medium: log_medium "WriteToMedia w" "held_by w" media_ok "rendered_by w"
proof
  fix m :: media and c :: string
  assume "media_ok m"
  then have pos: "media_answers m k \<noteq> 0" "media_answers m k \<noteq> -1" for k
    unfolding media_ok_def by (metis less_irrefl, metis neg_0_less_iff_less not_one_less_zero)
  show "held_by w (snd (WriteToMedia w c m)) = held_by w m @ [rendered_by w c]"
    using pos by (cases w) (auto simp: held_by_def rendered_by_def media_answer_def wire_def sendTcpMessage_def)
  show "media_ok (snd (WriteToMedia w c m))"
    using \<open>media_ok m\<close> pos by (cases w) (auto simp: media_ok_def media_answer_def emit_def sendTcpMessage_def)
qed

section \<open>Properties\<close>

text \<open>The lines of a run, if every message has one.\<close>

fun logged :: "log_strategy \<Rightarrow> log_event list \<Rightarrow> string list" where
  "logged st [] = []"
| "logged st (Worker_round # evs) = logged st evs"
| "logged st (Log_call today msg # evs) = the (log_line st msg) # logged st evs"

definition same_day :: "log_state \<Rightarrow> log_event \<Rightarrow> bool" where
  "same_day s ev \<longleftrightarrow> (\<forall>today msg. ev = Log_call today msg \<longrightarrow>
     log_line (strategy s) msg \<noteq> None \<and> (strategy s = File_strategy \<longrightarrow> today = log_date s))"

lemma same_day_Log:
  "same_day s (Log_call today msg) \<longleftrightarrow>
     log_line (strategy s) msg \<noteq> None \<and> (strategy s = File_strategy \<longrightarrow> today = log_date s)"
  by (cases msg) (simp add: same_day_def)

text \<open>Nothing is lost on a good day.  While the medium is in order and the date does not change, what
  the medium holds, followed by what is still queued, is what it held and had queued before, followed
  by the messages logged, in order and in the medium's form; with the null strategy the queue stays
  empty, so everything is on the console at once.\<close>

theorem log_lossless:
  assumes "media_ok m" "\<forall>ev \<in> set evs. same_day s ev" "strategy s = Null_strategy \<longrightarrow> lq_queue (log_items s) = []"
  shows "\<exists>s' m'. logger_run evs s m = Some (s', m') \<and>
    held_by (log_writer s) m' @ map (rendered_by (log_writer s)) (lq_queue (log_items s')) =
      held_by (log_writer s) m @ map (rendered_by (log_writer s)) (lq_queue (log_items s) @ logged (strategy s) evs) \<and>
    (strategy s = Null_strategy \<longrightarrow> lq_queue (log_items s') = [])"
  using assms
proof (induction evs arbitrary: s m)
  case (Cons ev evs)
  show ?case
  proof (cases ev)
    case Worker_round
    define s1 where "s1 = s\<lparr>log_items := (log_items s)\<lparr>lq_queue := []\<rparr>\<rparr>"
    define m1 where "m1 = flush_items (WriteToMedia (log_writer s)) (lq_queue (log_items s)) m"
    have w: "logWorker s m = (s1, m1)"
      by (cases "log_items s"; cases "lq_queue (log_items s)")
        (auto simp: logWorker_def lq_empty_def Flush_def s1_def m1_def)
    have m1: "held_by (log_writer s) m1 = held_by (log_writer s) m @ map (rendered_by (log_writer s)) (lq_queue (log_items s))"
      "media_ok m1"
      using medium.flush_held [OF Cons.prems(1)] by (simp_all add: m1_def)
    have "\<forall>ev \<in> set evs. same_day s1 ev" using Cons.prems(2) by (simp add: same_day_def s1_def)
    from Cons.IH [OF m1(2) this] show ?thesis
      using w m1(1) Worker_round by (simp add: s1_def)
  next
    case (Log_call today msg)
    then have "log_line (strategy s) msg \<noteq> None"
      using bspec [OF Cons.prems(2), of ev] by (simp only: same_day_Log list.set_intros simp_thms)
    then obtain line where line: "log_line (strategy s) msg = Some line" by blast
    obtain s1 m1 where d: "DoLog today line s m = (s1, m1)" by fastforce
    have "log_date s = today" if "strategy s = File_strategy"
      using bspec [OF Cons.prems(2), of ev] Log_call that by (simp only: same_day_Log list.set_intros simp_thms)
    then have s1: "strategy s1 = strategy s" "log_writer s1 = log_writer s" "log_date s1 = log_date s" "media_ok m1"
      "held_by (log_writer s) m1 @ map (rendered_by (log_writer s)) (lq_queue (log_items s1)) =
        held_by (log_writer s) m @ map (rendered_by (log_writer s)) (lq_queue (log_items s) @ [line])"
      "strategy s1 = Null_strategy \<longrightarrow> lq_queue (log_items s1) = []"
      using d Cons.prems(1,3) medium.write_held [OF Cons.prems(1), of "log_writer s" line]
        medium.write_in_order [OF Cons.prems(1), of "log_writer s" line]
      by (auto simp: DoLog_def Write_def lq_push_def Let_def split: log_strategy.splits)
    have "\<forall>ev \<in> set evs. same_day s1 ev" using Cons.prems(2) s1(1,3) by (simp add: same_day_def)
    from Cons.IH [OF s1(4) this s1(6)] obtain s' m' where
      r: "logger_run evs s1 m1 = Some (s', m')"
      "held_by (log_writer s) m' @ map (rendered_by (log_writer s)) (lq_queue (log_items s')) =
        held_by (log_writer s) m1 @ map (rendered_by (log_writer s)) (lq_queue (log_items s1) @ logged (strategy s) evs)"
      "strategy s = Null_strategy \<longrightarrow> lq_queue (log_items s') = []"
      by (auto simp: s1(1,2))
    then show ?thesis
      using d line s1(5) Log_call by (simp add: strategy_Log_def)
  qed
qed simp

definition sample_media :: media where
  "sample_media = \<lparr>trace = [], console_out = [], log_files = (\<lambda>_. []), executed_queries = [], media_answers = (\<lambda>_. 1), media_calls = 0\<rparr>"

lemma log_lossless_witness:
  "\<exists>s' m'. logger_run [Log_call ''d1'' (''a'', ''INFO'', ''x''), Worker_round] (fst (logger_ctor ''FILE'' ''d1'' 3)) sample_media = Some (s', m')"
  using log_lossless [of sample_media "[Log_call ''d1'' (''a'', ''INFO'', ''x''), Worker_round]" "fst (logger_ctor ''FILE'' ''d1'' 3)"]
  by (auto simp: media_ok_def sample_media_def same_day_def logger_ctor_def CreateLogger_def log_line_def Let_def)

text \<open>Midnight loses the queue.  The first message of a new day replaces the file writer, and every
  line that is still queued for the old file is in no file and in no queue from then on.\<close>

theorem midnight_loses_queue:
  assumes "strategy s = File_strategy" "log_date s \<noteq> today"
  shows "\<exists>s'. logger_run [Log_call today msg] s m = Some (s', m) \<and>
    lq_queue (log_items s') = [the (log_line File_strategy msg)] \<and> log_writer s' = File_writer (file_name today)"
  using assms
  by (cases msg) (simp add: strategy_Log_def log_line_def DoLog_def initFileContentWriter_def Write_def lq_push_def Let_def)

lemma midnight_loses_queue_witness:
  "\<exists>s'. logger_run [Log_call ''d2'' (''a'', ''INFO'', ''x'')]
      \<lparr>strategy = File_strategy, log_date = ''d1'', log_writer = File_writer (file_name ''d1''), log_items = \<lparr>lq_queue = [''lost'']\<rparr>\<rparr>
      sample_media = Some (s', sample_media) \<and>
    lq_queue (log_items s') = [the (log_line File_strategy (''a'', ''INFO'', ''x''))] \<and> log_writer s' = File_writer (file_name ''d2'')"
  by (rule midnight_loses_queue) simp_all

text \<open>A constructor of the network client that fails leaves no descriptor behind.\<close>

lemma TcpClient_ctor_no_leak:
  assumes "TcpClient_ctor domain port r sock rv s = Some (f, Raised e t)"
  shows "trace t = trace s \<or> trace t = trace s @ [Call_socket] \<and> sock = -1 \<or> last (trace t) = Call_close sock"
  using assms by (auto simp: TcpClient_ctor_def Let_def split: sum.splits if_splits)

end
