(* ===== verification/ServerSystem.thy ===== *)
theory ServerSystem
  imports ThreadPool SyncApi
begin

text \<open>
  The protocol server as one system (\<open>protocol-server/src/main.cpp\<close>): two listening threads, on 8080
  with the \<open>SyncApiProtocolHandler\<close> and on 8081 with the \<open>SchedulerHandler\<close>, and \<^emph>\<open>one\<close> thread pool,
  \<open>ThreadPoolSingleton::pool\<close>, that runs the connections of both and the jobs their requests start.
  The pool is the one of \<open>ThreadPool\<close>, the shared map that of \<open>SyncApi\<close>; a run is a list of events
  that say which thread does its next step and what the environment gives it.
\<close>

section \<open>State\<close>

datatype listener = Api_listener | Scheduler_listener

text \<open>The tasks: the lambdas of \<open>ListenThreadProc\<close> (which hold the address of the listener's variable),
  of \<open>SyncApiProtocolHandler\<close> and of \<open>SchedulerHandler\<close>.\<close>

datatype server_task = Serve listener | Job string nat | Print_job

text \<open>
  Where a worker that serves a connection is: collecting the request; in \<open>HandleData\<close> between the
  push of the job and the store into the map; with an answer to send.
\<close>

datatype stage = Reading fd | Registered fd string nat | Replying fd nat string

text \<open>
  \<open>slots\<close> are the variables \<open>clientData\<close> of the listening threads while they exist, \<open>stages\<close> the
  local state of the workers that serve a connection, \<open>issued\<close> the ids of the jobs asked for, and
  \<open>replies\<close> what was sent on which connection before it was closed.
\<close>

record server_system =
  shared_pool :: "server_task thread_pool"
  slots :: "listener \<Rightarrow> fd option"
  stages :: "nat \<rightharpoonup> stage"
  sync_part :: sync_server
  issued :: "string list"
  replies :: "(fd \<times> string) list"

definition system_initial :: "nat \<Rightarrow> server_system" where
  "system_initial n = \<lparr>shared_pool = pool_start n, slots = (\<lambda>_. None), stages = Map.empty,
     sync_part = sync_initial, issued = [], replies = []\<rparr>"

section \<open>Steps\<close>

text \<open>An accepted connection: the variable is filled and the task pushed.\<close>

definition accept_connection :: "listener \<Rightarrow> fd \<Rightarrow> server_system \<Rightarrow> server_system" where
  "accept_connection l f s =
     s\<lparr>slots := (slots s)(l := Some f), shared_pool := pool_push (Serve l) (shared_pool s)\<rparr>"

text \<open>
  A waiting worker takes a task.  The task of a connection copies the variable of its listener; when
  that does not exist any more the description ends (\<open>None\<close>).
\<close>

definition take_next :: "nat \<Rightarrow> server_system \<Rightarrow> server_system option" where
  "take_next i s =
     (if i < length (workers (shared_pool s)) \<and> workers (shared_pool s) ! i = Idle then
        (case worker_pop i (shared_pool s) of
           None \<Rightarrow> None
         | Some p \<Rightarrow>
             (case workers p ! i of
                Working (Serve l) \<Rightarrow>
                  (case slots s l of
                     None \<Rightarrow> None
                   | Some f \<Rightarrow> Some (s\<lparr>shared_pool := p, stages := (stages s)(i \<mapsto> Reading f)\<rparr>))
              | _ \<Rightarrow> Some (s\<lparr>shared_pool := p\<rparr>)))
      else None)"

definition listener_of :: "nat \<Rightarrow> server_system \<Rightarrow> listener option" where
  "listener_of i s = (case workers (shared_pool s) ! i of Working (Serve l) \<Rightarrow> Some l | _ \<Rightarrow> None)"

text \<open>
  The worker has collected a request and calls its handler.  A CONNECT request is followed up to the
  push of the job; the others are answered.
\<close>

definition api_request ::
  "nat \<Rightarrow> fd \<Rightarrow> string \<Rightarrow> string \<Rightarrow> string \<Rightarrow> server_system \<Rightarrow> server_system option" where
  "api_request i f uid mem request s =
     (let (b, y) = enter_request (sync_part s) in
      if first_byte request = 1 then
        (if field_at 4 request = None then None
         else Some (s\<lparr>sync_part := push_task uid b y, shared_pool := pool_push (Job uid b) (shared_pool s),
                issued := issued s @ [uid], stages := (stages s)(i \<mapsto> Registered f uid b)\<rparr>))
      else if first_byte request = 3 then
        (case field_at 4 request of
           None \<Rightarrow> None
         | Some tid \<Rightarrow>
             (let (v, z) = look_up tid y in
              map_option (\<lambda>r. s\<lparr>sync_part := z, stages := (stages s)(i \<mapsto> Replying f b r)\<rparr>)
                (status_reply mem v)))
      else Some (s\<lparr>sync_part := y, stages := (stages s)(i \<mapsto> Replying f b http_ok)\<rparr>))"

definition scheduler_request :: "nat \<Rightarrow> fd \<Rightarrow> server_system \<Rightarrow> server_system" where
  "scheduler_request i f s =
     (let (b, y) = enter_request (sync_part s)
      in s\<lparr>sync_part := y, shared_pool := pool_push Print_job (shared_pool s),
           stages := (stages s)(i \<mapsto> Replying f b http_ok)\<rparr>)"

definition handle_request ::
  "nat \<Rightarrow> string \<Rightarrow> string \<Rightarrow> string \<Rightarrow> server_system \<Rightarrow> server_system option" where
  "handle_request i uid mem request s =
     (case (stages s i, listener_of i s) of
        (Some (Reading f), Some Api_listener) \<Rightarrow> api_request i f uid mem request s
      | (Some (Reading f), Some Scheduler_listener) \<Rightarrow> Some (scheduler_request i f s)
      | _ \<Rightarrow> None)"

text \<open>The rest of the CONNECT branch: the empty entry, and the answer with the id.\<close>

definition store_entry :: "nat \<Rightarrow> string \<Rightarrow> server_system \<Rightarrow> server_system option" where
  "store_entry i mem s =
     (case stages s i of
        Some (Registered f uid b) \<Rightarrow>
          map_option (\<lambda>r. s\<lparr>sync_part := store_pending uid (sync_part s), stages := (stages s)(i \<mapsto> Replying f b r)\<rparr>)
            (connect_reply mem uid)
      | _ \<Rightarrow> None)"

text \<open>\<open>HandleData\<close> returns, the answer is sent, the connection closed and the task done.  A connection
  on which nothing came is closed without an answer.\<close>

definition end_connection :: "nat \<Rightarrow> server_system \<Rightarrow> server_system option" where
  "end_connection i s =
     (case (stages s i, workers (shared_pool s) ! i) of
        (Some (Replying f b r), Working x) \<Rightarrow>
          Some (s\<lparr>sync_part := leave_request b (sync_part s), replies := replies s @ [(f, r)],
            stages := (stages s)(i := None), shared_pool := worker_finish i x (shared_pool s)\<rparr>)
      | (Some (Reading f), Working x) \<Rightarrow>
          Some (s\<lparr>stages := (stages s)(i := None), shared_pool := worker_finish i x (shared_pool s)\<rparr>)
      | _ \<Rightarrow> None)"

definition end_job :: "nat \<Rightarrow> server_system \<Rightarrow> server_system option" where
  "end_job i s =
     (if i < length (workers (shared_pool s)) then
        (case workers (shared_pool s) ! i of
           Working (Job uid b) \<Rightarrow>
             Some (s\<lparr>sync_part :=
                 finish_task (length (takeWhile (\<lambda>x. x \<noteq> (uid, b)) (pool_tasks (sync_part s)))) (sync_part s),
               shared_pool := worker_finish i (Job uid b) (shared_pool s)\<rparr>)
         | Working Print_job \<Rightarrow> Some (s\<lparr>shared_pool := worker_finish i Print_job (shared_pool s)\<rparr>)
         | _ \<Rightarrow> None)
      else None)"

text \<open>\<open>mem\<close> is what the uninitialised bytes of an answer hold, \<open>uid\<close> what the generator yields.\<close>

datatype system_event =
    New_connection listener fd
  | Window_over listener
  | Take nat
  | Request nat "nat list" string string
  | Store_entry nat string
  | End_connection nat
  | End_job nat

fun system_step :: "system_event \<Rightarrow> server_system \<Rightarrow> server_system option" where
  "system_step (New_connection l f) s = Some (accept_connection l f s)"
| "system_step (Window_over l) s =
     (if slots s l = None then None else Some (s\<lparr>slots := (slots s)(l := None)\<rparr>))"
| "system_step (Take i) s = take_next i s"
| "system_step (Request i ds mem request) s =
     (if uuid_digits ds \<and> length mem = 512 then handle_request i (generateUuid ds) mem request s else None)"
| "system_step (Store_entry i mem) s = (if length mem = 512 then store_entry i mem s else None)"
| "system_step (End_connection i) s = end_connection i s"
| "system_step (End_job i) s = end_job i s"

fun system_run :: "system_event list \<Rightarrow> server_system \<Rightarrow> server_system option" where
  "system_run [] s = Some s"
| "system_run (e # es) s = Option.bind (system_step e s) (system_run es)"

section \<open>The cases of a step\<close>

named_theorems sys_defs \<open>the operations of the server\<close>

declare accept_connection_def [sys_defs] scheduler_request_def [sys_defs] enter_request_def [sys_defs]
  pool_push_def [sys_defs] worker_finish_def [sys_defs] tsq_push_def [sys_defs]

lemma listener_of_Some: "listener_of i s = Some l \<longleftrightarrow> workers (shared_pool s) ! i = Working (Serve l)"
  by (auto simp: listener_of_def split: worker.splits server_task.splits)

definition took :: "nat \<Rightarrow> server_task \<Rightarrow> server_task pool_task list \<Rightarrow> server_task thread_pool \<Rightarrow> server_task thread_pool" where
  "took i x q p = p\<lparr>pool_queue := q, workers := (workers p)[i := Working x], started := started p @ [x]\<rparr>"

lemma take_next_cases:
  assumes "take_next i s = Some t" "Stop \<notin> set (pool_queue (shared_pool s))"
  obtains x q f where "i < length (workers (shared_pool s))" "workers (shared_pool s) ! i = Idle"
    "pool_queue (shared_pool s) = Execute x # q" "worker_pop i (shared_pool s) = Some (took i x q (shared_pool s))"
    "case x of Serve l \<Rightarrow> slots s l = Some f | _ \<Rightarrow> True"
    "t = s\<lparr>shared_pool := took i x q (shared_pool s),
       stages := (case x of Serve l \<Rightarrow> (stages s)(i \<mapsto> Reading f) | _ \<Rightarrow> stages s)\<rparr>"
proof -
  obtain p where p: "i < length (workers (shared_pool s))" "workers (shared_pool s) ! i = Idle"
    "worker_pop i (shared_pool s) = Some p"
    using assms(1) by (auto simp: take_next_def split: if_splits option.splits)
  from p(3) obtain x q where x: "pool_queue (shared_pool s) = Execute x # q" "p = took i x q (shared_pool s)"
    by (cases rule: worker_pop_cases) (use assms(2) in \<open>auto simp: took_def\<close>)
  have w: "workers p ! i = Working x" using p(1) by (simp add: x(2) took_def)
  show ?thesis
  proof (cases x)
    case (Serve l)
    then obtain f where "slots s l = Some f" "t = s\<lparr>shared_pool := p, stages := (stages s)(i \<mapsto> Reading f)\<rparr>"
      using assms(1) p w by (auto simp: take_next_def split: option.splits)
    then show ?thesis using that [OF p(1,2) x(1)] p x Serve by simp
  qed (use assms(1) p w x that [OF p(1,2) x(1)] in \<open>simp_all add: take_next_def\<close>)
qed

lemma handle_request_cases:
  assumes "handle_request i uid mem request s = Some t"
  obtains (connect) f where "stages s i = Some (Reading f)" "listener_of i s = Some Api_listener"
      "t = s\<lparr>sync_part := push_task uid (next_request (sync_part s)) (snd (enter_request (sync_part s))),
          shared_pool := pool_push (Job uid (next_request (sync_part s))) (shared_pool s),
          issued := issued s @ [uid], stages := (stages s)(i \<mapsto> Registered f uid (next_request (sync_part s)))\<rparr>"
  | (status) f tid r where "stages s i = Some (Reading f)" "listener_of i s = Some Api_listener"
      "t = s\<lparr>sync_part := snd (look_up tid (snd (enter_request (sync_part s)))),
          stages := (stages s)(i \<mapsto> Replying f (next_request (sync_part s)) r)\<rparr>"
  | (other) f where "stages s i = Some (Reading f)" "listener_of i s = Some Api_listener"
      "t = s\<lparr>sync_part := snd (enter_request (sync_part s)),
          stages := (stages s)(i \<mapsto> Replying f (next_request (sync_part s)) http_ok)\<rparr>"
  | (print) f where "stages s i = Some (Reading f)" "listener_of i s = Some Scheduler_listener"
      "t = s\<lparr>sync_part := snd (enter_request (sync_part s)), shared_pool := pool_push Print_job (shared_pool s),
          stages := (stages s)(i \<mapsto> Replying f (next_request (sync_part s)) http_ok)\<rparr>"
proof -
  obtain f l where fl: "stages s i = Some (Reading f)" "listener_of i s = Some l"
    using assms by (auto simp: handle_request_def split: option.splits stage.splits)
  show ?thesis
  proof (cases l)
    case Scheduler_listener
    then show ?thesis using assms fl print by (simp add: handle_request_def sys_defs)
  next
    case Api_listener
    then have api: "api_request i f uid mem request s = Some t" using assms fl by (simp add: handle_request_def)
    show ?thesis
    proof (cases "first_byte request = 3")
      case True
      then obtain tid r where
        "t = s\<lparr>sync_part := snd (look_up tid (snd (enter_request (sync_part s)))),
          stages := (stages s)(i \<mapsto> Replying f (next_request (sync_part s)) r)\<rparr>"
        using api by (auto simp: api_request_def enter_request_def Let_def case_prod_beta split: option.splits)
      then show ?thesis using fl Api_listener status by simp
    next
      case False
      then show ?thesis
        using api fl Api_listener connect other
        by (auto simp: api_request_def sys_defs Let_def split: if_splits)
    qed
  qed
qed

lemma store_entry_cases:
  assumes "store_entry i mem s = Some t"
  obtains f uid b r where "stages s i = Some (Registered f uid b)"
    "t = s\<lparr>sync_part := store_pending uid (sync_part s), stages := (stages s)(i \<mapsto> Replying f b r)\<rparr>"
  using assms by (auto simp: store_entry_def split: option.splits stage.splits)

lemma end_connection_cases:
  assumes "end_connection i s = Some t"
  obtains (answered) f b r x where "stages s i = Some (Replying f b r)" "workers (shared_pool s) ! i = Working x"
      "t = s\<lparr>sync_part := leave_request b (sync_part s), replies := replies s @ [(f, r)],
          stages := (stages s)(i := None), shared_pool := worker_finish i x (shared_pool s)\<rparr>"
  | (empty) f x where "stages s i = Some (Reading f)" "workers (shared_pool s) ! i = Working x"
      "t = s\<lparr>stages := (stages s)(i := None), shared_pool := worker_finish i x (shared_pool s)\<rparr>"
  using assms by (auto simp: end_connection_def split: option.splits stage.splits worker.splits)

lemma end_job_cases:
  assumes "end_job i s = Some t"
  obtains (job) uid b where "i < length (workers (shared_pool s))" "workers (shared_pool s) ! i = Working (Job uid b)"
      "t = s\<lparr>sync_part := finish_task (length (takeWhile (\<lambda>x. x \<noteq> (uid, b)) (pool_tasks (sync_part s)))) (sync_part s),
          shared_pool := worker_finish i (Job uid b) (shared_pool s)\<rparr>"
  | (print) "i < length (workers (shared_pool s))" "workers (shared_pool s) ! i = Working Print_job"
      "t = s\<lparr>shared_pool := worker_finish i Print_job (shared_pool s)\<rparr>"
  using assms by (auto simp: end_job_def split: if_splits worker.splits server_task.splits)

section \<open>The invariant\<close>

fun serving :: "server_task worker \<Rightarrow> bool" where
  "serving (Working (Serve l)) = True"
| "serving _ = False"

definition stages_ok :: "server_system \<Rightarrow> bool" where
  "stages_ok s \<longleftrightarrow> (\<forall>i. stages s i \<noteq> None \<longleftrightarrow>
     i < length (workers (shared_pool s)) \<and> serving (workers (shared_pool s) ! i))"

lemma stages_okD:
  assumes "stages_ok s" "stages s i = Some st"
  shows "i < length (workers (shared_pool s)) \<and> serving (workers (shared_pool s) ! i)"
  using assms unfolding stages_ok_def by (metis option.distinct(1))

definition running :: "server_task thread_pool \<Rightarrow> bool" where
  "running p \<longleftrightarrow> joining p = None \<and> Stop \<notin> set (pool_queue p) \<and> Ended \<notin> set (workers p)"

text \<open>Every step of the server is a step of the pool, or none.\<close>

lemma system_pool_step:
  assumes "system_step e s = Some t" "stages_ok s" "running (shared_pool s)"
  shows "shared_pool t = shared_pool s \<or> tp_step (shared_pool s) (shared_pool t)"
proof (cases e)
  case (New_connection l f)
  then show ?thesis using assms(1) by (auto simp: accept_connection_def intro: tp_step.submit)
next
  case (Window_over l)
  then show ?thesis using assms(1) by (auto split: if_splits)
next
  case (Take i)
  then have "take_next i s = Some t" using assms(1) by simp
  then show ?thesis
    by (rule take_next_cases) (use assms(3) in \<open>auto simp: running_def intro: tp_step.take_task\<close>)
next
  case (Request i ds mem request)
  then have "handle_request i (generateUuid ds) mem request s = Some t" using assms(1) by (simp split: if_splits)
  then show ?thesis by (cases rule: handle_request_cases) (auto intro: tp_step.submit)
next
  case (Store_entry i mem)
  then have "store_entry i mem s = Some t" using assms(1) by (simp split: if_splits)
  then show ?thesis by (cases rule: store_entry_cases) auto
next
  case (End_connection i)
  then have "end_connection i s = Some t" using assms(1) by simp
  then show ?thesis
    by (cases rule: end_connection_cases) (auto intro!: tp_step.finish dest: stages_okD [OF assms(2)])
next
  case (End_job i)
  then have "end_job i s = Some t" using assms(1) by simp
  then show ?thesis by (cases rule: end_job_cases) (auto intro: tp_step.finish)
qed

lemma running_step:
  assumes "system_step e s = Some t" "stages_ok s" "running (shared_pool s)"
  shows "running (shared_pool t)"
proof (cases e)
  case (Take i)
  then have "take_next i s = Some t" using assms(1) by simp
  then show ?thesis
    by (rule take_next_cases)
      (use assms(3) in \<open>auto simp: running_def took_def dest: set_update_subset_insert [THEN subsetD]\<close>)
next
  case (Request i ds mem request)
  then have "handle_request i (generateUuid ds) mem request s = Some t" using assms(1) by (simp split: if_splits)
  then show ?thesis by (cases rule: handle_request_cases) (use assms(3) in \<open>auto simp: running_def sys_defs\<close>)
next
  case (Store_entry i mem)
  then have "store_entry i mem s = Some t" using assms(1) by (simp split: if_splits)
  then show ?thesis by (cases rule: store_entry_cases) (use assms(3) in auto)
next
  case (End_connection i)
  then have "end_connection i s = Some t" using assms(1) by simp
  then show ?thesis
    by (cases rule: end_connection_cases)
      (use assms(3) in \<open>auto simp: running_def sys_defs dest: set_update_subset_insert [THEN subsetD]\<close>)
next
  case (End_job i)
  then have "end_job i s = Some t" using assms(1) by simp
  then show ?thesis
    by (cases rule: end_job_cases)
      (use assms(3) in \<open>auto simp: running_def sys_defs dest: set_update_subset_insert [THEN subsetD]\<close>)
qed (use assms in \<open>auto simp: running_def sys_defs split: if_splits\<close>)

fun is_job :: "server_task \<Rightarrow> bool" where
  "is_job (Job uid b) = True"
| "is_job _ = False"

text \<open>What a step does to the stages.\<close>

lemma stages_ok_next:
  assumes "stages_ok s" "stages s i = Some st" "workers (shared_pool t) = workers (shared_pool s)"
    "stages t = (stages s)(i \<mapsto> st')"
  shows "stages_ok t"
  using assms by (fastforce simp: stages_ok_def)

lemma stages_ok_end:
  assumes "stages_ok s" "workers (shared_pool t) = (workers (shared_pool s))[i := Idle]"
    "stages t = (stages s)(i := None)"
  shows "stages_ok t"
  using assms by (auto simp: stages_ok_def nth_list_update)

lemma serving_not_job: "serving (Working x) \<Longrightarrow> \<not> is_job x"
  by (cases x) simp_all

lemma stages_ok_step:
  assumes "system_step e s = Some t" "stages_ok s" "running (shared_pool s)"
  shows "stages_ok t"
proof (cases e)
  case (Take i)
  then have "take_next i s = Some t" using assms(1) by simp
  then show ?thesis
  proof (rule take_next_cases)
    show "Stop \<notin> set (pool_queue (shared_pool s))" using assms(3) by (simp add: running_def)
    fix x q f
    assume i: "i < length (workers (shared_pool s))" "workers (shared_pool s) ! i = Idle"
      and t: "t = s\<lparr>shared_pool := took i x q (shared_pool s),
        stages := (case x of Serve l \<Rightarrow> (stages s)(i \<mapsto> Reading f) | _ \<Rightarrow> stages s)\<rparr>"
    have "stages s i = None" using assms(2) i(2) stages_okD by fastforce
    then show ?thesis
      using assms(2) i by (cases x) (simp_all add: stages_ok_def t took_def nth_list_update)
  qed
next
  case (Request i ds mem request)
  then have "handle_request i (generateUuid ds) mem request s = Some t" using assms(1) by (simp split: if_splits)
  then show ?thesis
    by (cases rule: handle_request_cases) (auto intro: stages_ok_next [OF assms(2)] simp: sys_defs)
next
  case (Store_entry i mem)
  then have "store_entry i mem s = Some t" using assms(1) by (simp split: if_splits)
  then show ?thesis
    by (cases rule: store_entry_cases) (auto intro: stages_ok_next [OF assms(2)])
next
  case (End_connection i)
  then have "end_connection i s = Some t" using assms(1) by simp
  then show ?thesis
    by (cases rule: end_connection_cases) (auto intro!: stages_ok_end [OF assms(2)] simp: sys_defs)
next
  case (End_job i)
  then have "end_job i s = Some t" using assms(1) by simp
  then show ?thesis
    by (cases rule: end_job_cases)
      (use assms(2) in \<open>simp_all add: stages_ok_def sys_defs nth_list_update\<close>)
next
  case (New_connection l f)
  then have "stages t = stages s" "workers (shared_pool t) = workers (shared_pool s)"
    using assms(1) by (auto simp: sys_defs)
  then show ?thesis using assms(2) by (simp add: stages_ok_def)
next
  case (Window_over l)
  then have "stages t = stages s" "workers (shared_pool t) = workers (shared_pool s)"
    using assms(1) by (auto split: if_splits)
  then show ?thesis using assms(2) by (simp add: stages_ok_def)
qed

text \<open>The jobs that have not ended, as \<open>SyncApi\<close> sees them, are those waiting in the pool's queue and
  those its workers are working on.\<close>

definition jobs_in :: "server_task thread_pool \<Rightarrow> server_task multiset" where
  "jobs_in p = filter_mset is_job (mset (tasks_in (pool_queue p)) + in_work (workers p))"

definition jobs_agree :: "server_system \<Rightarrow> bool" where
  "jobs_agree s \<longleftrightarrow> image_mset (\<lambda>(uid, b). Job uid b) (mset (pool_tasks (sync_part s))) = jobs_in (shared_pool s)"

lemma jobs_in_push: "jobs_in (pool_push x p) = jobs_in p + filter_mset is_job {#x#}"
  by (simp add: jobs_in_def pool_push_def tsq_push_def)

lemma jobs_in_took:
  assumes "i < length (workers p)" "workers p ! i = Idle" "pool_queue p = Execute x # q"
  shows "jobs_in (took i x q p) = jobs_in p"
  using in_work_update [OF assms(1), of "Working x"] assms(2,3) by (simp add: jobs_in_def took_def)

lemma jobs_in_finish:
  assumes "i < length (workers p)" "workers p ! i = Working x"
  shows "jobs_in p = jobs_in (worker_finish i x p) + filter_mset is_job {#x#}"
  using in_work_update [OF assms(1), of Idle, symmetric] assms(2) by (simp add: jobs_in_def worker_finish_def)

lemma work_in_pool: "i < length (workers p) \<Longrightarrow> workers p ! i = Working x \<Longrightarrow> x \<in># in_work (workers p)"
  using in_work_update [of i "workers p" Idle] by (metis add_mset_add_single empty_neutral(2) union_single_eq_member work_of.simps(1,2))

lemma mset_remove_nth:
  "k < length xs \<Longrightarrow> mset xs = add_mset (xs ! k) (mset (take k xs @ drop (Suc k) xs))"
  using id_take_nth_drop [of k xs] by (metis mset.simps(2) mset_append union_mset_add_mset_right)

lemma job_index:
  assumes "x \<in> set xs" "k = length (takeWhile (\<lambda>y. y \<noteq> x) xs)"
  shows "k < length xs \<and> xs ! k = x"
  using assms by (induction xs arbitrary: k) auto

lemma job_listed:
  assumes "jobs_agree s" "i < length (workers (shared_pool s))" "workers (shared_pool s) ! i = Working (Job uid b)"
  shows "(uid, b) \<in> set (pool_tasks (sync_part s))"
proof -
  have "Job uid b \<in># jobs_in (shared_pool s)"
    using work_in_pool [OF assms(2,3)] by (simp add: jobs_in_def)
  then have "Job uid b \<in># image_mset (\<lambda>(u, c). Job u c) (mset (pool_tasks (sync_part s)))"
    using assms(1) by (simp add: jobs_agree_def)
  then show ?thesis by auto
qed

lemma jobs_agree_step:
  assumes "system_step e s = Some t" "stages_ok s" "running (shared_pool s)" "jobs_agree s"
  shows "jobs_agree t"
proof (cases e)
  case (Take i)
  then have "take_next i s = Some t" using assms(1) by simp
  then show ?thesis
    by (rule take_next_cases) (use assms(3,4) in \<open>auto simp: running_def jobs_agree_def jobs_in_took\<close>)
next
  case (Request i ds mem request)
  then have "handle_request i (generateUuid ds) mem request s = Some t" using assms(1) by (simp split: if_splits)
  then show ?thesis
    by (cases rule: handle_request_cases)
      (use assms(4) in \<open>auto simp: jobs_agree_def jobs_in_push sync_defs split: option.split\<close>)
next
  case (Store_entry i mem)
  then have "store_entry i mem s = Some t" using assms(1) by (simp split: if_splits)
  then show ?thesis by (cases rule: store_entry_cases) (use assms(4) in \<open>auto simp: jobs_agree_def sync_defs\<close>)
next
  case (End_connection i)
  then have "end_connection i s = Some t" using assms(1) by simp
  then show ?thesis
  proof (cases rule: end_connection_cases)
    case (answered f b r x)
    then show ?thesis
      using stages_okD [OF assms(2) answered(1)] jobs_in_finish [of i "shared_pool s" x] assms(4)
      by (auto simp: jobs_agree_def sync_defs dest: serving_not_job)
  next
    case (empty f x)
    then show ?thesis
      using stages_okD [OF assms(2) empty(1)] jobs_in_finish [of i "shared_pool s" x] assms(4)
      by (auto simp: jobs_agree_def dest: serving_not_job)
  qed
next
  case (End_job i)
  then have "end_job i s = Some t" using assms(1) by simp
  then show ?thesis
  proof (cases rule: end_job_cases)
    case (job uid b)
    define k where "k = length (takeWhile (\<lambda>x. x \<noteq> (uid, b)) (pool_tasks (sync_part s)))"
    have k: "k < length (pool_tasks (sync_part s))" "pool_tasks (sync_part s) ! k = (uid, b)"
      using job_index [OF job_listed [OF assms(4) job(1,2)] k_def] by auto
    have "pool_tasks (sync_part t) = take k (pool_tasks (sync_part s)) @ drop (Suc k) (pool_tasks (sync_part s))"
      using k by (simp add: job(3) finish_task_def flip: k_def)
    then have "image_mset (\<lambda>(u, c). Job u c) (mset (pool_tasks (sync_part s))) =
        add_mset (Job uid b) (image_mset (\<lambda>(u, c). Job u c) (mset (pool_tasks (sync_part t))))"
      using mset_remove_nth [OF k(1)] k(2) by simp
    then show ?thesis
      using assms(4) jobs_in_finish [OF job(1,2)] by (simp add: jobs_agree_def job(3))
  next
    case print
    then show ?thesis using assms(4) jobs_in_finish [OF print(1,2)] by (simp add: jobs_agree_def)
  qed
qed (use assms in \<open>auto simp: jobs_agree_def accept_connection_def jobs_in_push split: if_splits\<close>)

text \<open>All together, along a run.\<close>

definition system_ok :: "nat \<Rightarrow> server_system \<Rightarrow> bool" where
  "system_ok n s \<longleftrightarrow> rtranclp tp_step (pool_start n) (shared_pool s) \<and> running (shared_pool s) \<and>
     stages_ok s \<and> jobs_agree s"

lemma in_work_Idle: "in_work (replicate n Idle) = {#}"
  by (induction n) (simp_all add: in_work_def)

lemma system_ok_initial: "system_ok n (system_initial n)"
  by (auto simp: system_ok_def system_initial_def running_def stages_ok_def jobs_agree_def jobs_in_def
      pool_start_def sync_initial_def in_work_Idle)

lemma system_ok_step: "system_step e s = Some t \<Longrightarrow> system_ok n s \<Longrightarrow> system_ok n t"
  unfolding system_ok_def
  using system_pool_step running_step stages_ok_step jobs_agree_step rtranclp.rtrancl_into_rtrancl by metis

lemma system_run_snoc: "system_run (es @ [e]) s = Option.bind (system_run es s) (system_step e)"
  by (induction es arbitrary: s) (auto split: Option.bind_splits)

text \<open>An invariant of the steps holds at the end of every run.\<close>

lemma system_run_invariant:
  assumes "system_run es s = Some t" "I s" "\<And>e s t. system_step e s = Some t \<Longrightarrow> I s \<Longrightarrow> I t"
  shows "I t"
  using assms(1,2) by (induction es arbitrary: s) (auto split: Option.bind_splits intro: assms(3))

lemma system_reachable_ok: "system_run es (system_initial n) = Some s \<Longrightarrow> system_ok n s"
  using system_run_invariant [where I = "system_ok n"] system_ok_step system_ok_initial by blast

text \<open>Every step of the server is none, or one, of the steps of \<open>SyncApi\<close> on the shared map.\<close>

definition same_shared :: "sync_server \<Rightarrow> sync_server \<Rightarrow> bool" where
  "same_shared y z \<longleftrightarrow> response_map z = response_map y \<and> pool_tasks z = pool_tasks y"

lemma same_shared_sync: "same_shared y z \<Longrightarrow> same_shared (sync_step ev y) (sync_step ev z)"
  by (cases ev) (auto simp: same_shared_def sync_defs finish_task_def split: option.splits prod.splits)

lemma system_sync_step:
  assumes "system_step e s = Some t" "same_shared (sync_part s) (sync_run es sync_initial)"
  shows "\<exists>es'. same_shared (sync_part t) (sync_run (es @ es') sync_initial)"
proof -
  have step: "\<exists>es'. same_shared (sync_part t) (sync_run (es @ es') sync_initial)"
    if "same_shared (sync_part t) (sync_step ev (sync_part s))" for ev
    using same_shared_sync [OF assms(2), of ev] that by (intro exI [of _ "[ev]"]) (simp add: same_shared_def)
  have skip: "\<exists>es'. same_shared (sync_part t) (sync_run (es @ es') sync_initial)"
    if "same_shared (sync_part t) (sync_part s)"
    using assms(2) that by (intro exI [of _ "[]"]) (simp add: same_shared_def)
  show ?thesis
  proof (cases e)
    case (Take i)
    then show ?thesis
      using assms(1) skip
      by (auto simp: take_next_def same_shared_def split: if_splits option.splits worker.splits server_task.splits)
  next
    case (Request i ds mem request)
    then have "handle_request i (generateUuid ds) mem request s = Some t" using assms(1) by (simp split: if_splits)
    then show ?thesis
    proof (cases rule: handle_request_cases)
      case (connect f)
      then show ?thesis
        using step [of "Push (generateUuid ds) (next_request (sync_part s))"] by (simp add: same_shared_def sync_defs)
    next
      case (status f tid r)
      then show ?thesis using step [of "Check tid"] by (auto simp: same_shared_def sync_defs split: option.splits)
    qed (use skip in \<open>simp_all add: same_shared_def sync_defs\<close>)
  next
    case (Store_entry i mem)
    then have "store_entry i mem s = Some t" using assms(1) by (simp split: if_splits)
    then show ?thesis
    proof (cases rule: store_entry_cases)
      case (1 f uid b r)
      then show ?thesis using step [of "Store uid"] by (simp add: same_shared_def)
    qed
  next
    case (End_connection i)
    then have "end_connection i s = Some t" using assms(1) by simp
    then show ?thesis by (cases rule: end_connection_cases) (use skip in \<open>simp_all add: same_shared_def sync_defs\<close>)
  next
    case (End_job i)
    then have "end_job i s = Some t" using assms(1) by simp
    then show ?thesis
    proof (cases rule: end_job_cases)
      case (job uid b)
      then show ?thesis
        using step [of "Finish (length (takeWhile (\<lambda>x. x \<noteq> (uid, b)) (pool_tasks (sync_part s))))"]
        by (simp add: same_shared_def)
    qed (use skip in \<open>simp add: same_shared_def\<close>)
  qed (use skip assms(1) in \<open>auto simp: same_shared_def accept_connection_def split: if_splits\<close>)
qed

lemma system_sync_run:
  assumes "system_run evs (system_initial n) = Some s"
  shows "\<exists>es. same_shared (sync_part s) (sync_run es sync_initial)"
  using assms
proof (rule system_run_invariant)
  show "\<exists>es. same_shared (sync_part (system_initial n)) (sync_run es sync_initial)"
    by (intro exI [of _ "[]"]) (simp add: system_initial_def same_shared_def)
qed (use system_sync_step in blast)

section \<open>Properties\<close>

text \<open>C22: The server is a composition of its parts.  In every run, whatever the connections, requests and
  the order in which the threads move, the pool goes through states of the thread pool of
  \<open>ThreadPool\<close>, the shared map through states of \<open>SyncApi\<close>, and the jobs the map's side waits for
  are exactly those in the pool's queue or in a worker's hands.\<close>

theorem server_refines_components:
  assumes "system_run evs (system_initial n) = Some s"
  shows "rtranclp tp_step (pool_start n) (shared_pool s) \<and>
    (\<exists>es. response_map (sync_part s) = response_map (sync_run es sync_initial) \<and>
      pool_tasks (sync_part s) = pool_tasks (sync_run es sync_initial)) \<and>
    image_mset (\<lambda>(uid, b). Job uid b) (mset (pool_tasks (sync_part s))) =
      filter_mset is_job (mset (tasks_in (pool_queue (shared_pool s))) + in_work (workers (shared_pool s)))"
proof -
  obtain es where "same_shared (sync_part s) (sync_run es sync_initial)"
    using system_sync_run [OF assms] by blast
  then have "\<exists>es. response_map (sync_part s) = response_map (sync_run es sync_initial) \<and>
      pool_tasks (sync_part s) = pool_tasks (sync_run es sync_initial)"
    by (intro exI [of _ es]) (simp add: same_shared_def)
  then show ?thesis
    using system_reachable_ok [OF assms] by (simp add: system_ok_def jobs_agree_def jobs_in_def)
qed

text \<open>A sample run: a connection is accepted and taken, a job is asked for, pushed and answered.\<close>

definition sample_packet :: string where
  "sample_packet = [CHR 0x01, NUL, NUL, NUL] @ replicate 256 NUL"

definition sample_request :: "nat \<Rightarrow> system_event" where
  "sample_request i = Request i (replicate 32 1) (replicate 512 NUL) sample_packet"

lemma sample_request_fields:
  "first_byte sample_packet = 1" "field_at 4 sample_packet \<noteq> None" "uuid_digits (replicate 32 1)"
  by (simp_all add: sample_packet_def first_byte_small field_at_def uuid_digits_def)

definition sample_uid :: string where
  "sample_uid = generateUuid (replicate 32 1)"

lemma system_run_append:
  "system_run (xs @ ys) s = Option.bind (system_run xs s) (system_run ys)"
  by (induction xs arbitrary: s) (auto split: Option.bind_splits)

definition sample_state :: "nat \<Rightarrow> server_system" where
  "sample_state n =
    \<lparr>shared_pool = \<lparr>pool_queue = [Execute (Job sample_uid 0)],
        workers = Working (Serve Api_listener) # replicate (n - 1) Idle, joining = None,
        pushed = [Serve Api_listener, Job sample_uid 0], accepted = [], started = [Serve Api_listener], finished = []\<rparr>,
      slots = (\<lambda>_. None)(Api_listener := Some 5), stages = [0 \<mapsto> Registered 5 sample_uid 0],
      sync_part = sync_initial\<lparr>pool_tasks := [(sample_uid, 0)], next_request := 1, live_requests := [0]\<rparr>,
      issued = [sample_uid], replies = []\<rparr>"

lemma sample_session:
  assumes "0 < n"
  shows "system_run [New_connection Api_listener 5, Take 0, sample_request 0] (system_initial n) = Some (sample_state n)"
  using assms sample_request_fields
  by (cases n) (simp_all add: sample_state_def system_initial_def pool_start_def sync_initial_def accept_connection_def pool_push_def
      tsq_push_def take_next_def worker_pop_def tsq_pop_def sample_request_def handle_request_def listener_of_def
      api_request_def enter_request_def push_task_def sample_uid_def)

lemma server_refines_components_witness:
  "\<exists>s. system_run [New_connection Api_listener 5, Take 0, sample_request 0] (system_initial 2) = Some s \<and>
    rtranclp tp_step (pool_start 2) (shared_pool s) \<and>
    image_mset (\<lambda>(uid, b). Job uid b) (mset (pool_tasks (sync_part s))) = {#Job sample_uid 0#}"
  using sample_session [of 2] server_refines_components [OF sample_session [of 2]]
  by (auto simp: sample_state_def simp del: system_run.simps)

text \<open>The steps of a request are \<open>HandleData\<close>.  When no other thread moves in between, the steps of a
  worker from the request to the end of the connection send exactly the answer that \<open>HandleData\<close>
  computes and leave exactly its state.\<close>

theorem request_steps_are_HandleData:
  assumes "stages_ok s" "stages s i = Some (Reading f)" "listener_of i s = Some Api_listener"
    and "uuid_digits ds" "length mem = 512"
    and "HandleData (generateUuid ds) mem request (length request) (sync_part s) = Some (r, y)"
  shows "\<exists>t. system_run (Request i ds mem request #
      (if first_byte request = 1 then [Store_entry i mem] else []) @ [End_connection i]) s = Some t \<and>
    sync_part t = y \<and> replies t = replies s @ [(f, r)] \<and> stages t = (stages s)(i := None)"
proof -
  have w: "workers (shared_pool s) ! i = Working (Serve Api_listener)"
    using assms(3) by (simp add: listener_of_Some)
  consider "first_byte request = 1" | "first_byte request = 3" | "first_byte request \<noteq> 1" "first_byte request \<noteq> 3"
    by blast
  then show ?thesis
  proof cases
    case 1
    then obtain action where "field_at 4 request = Some action"
      using assms(6) by (auto simp: HandleData_def enter_request_def split: option.splits)
    then show ?thesis
      using 1 assms w
      by (auto simp: HandleData_def enter_request_def handle_request_def api_request_def store_entry_def
          end_connection_def pool_push_def)
  next
    case 2
    then show ?thesis
      using assms w
      by (auto simp: HandleData_def enter_request_def handle_request_def api_request_def end_connection_def
          Let_def case_prod_beta split: option.splits)
  next
    case 3
    then show ?thesis
      using assms w
      by (auto simp: HandleData_def enter_request_def handle_request_def api_request_def end_connection_def)
  qed
qed

lemma request_steps_are_HandleData_witness:
  "\<exists>s t r. system_run [New_connection Api_listener 5, Take 0] (system_initial 1) = Some s \<and>
    system_run (sample_request 0 # (if first_byte sample_packet = 1 then [Store_entry 0 (replicate 512 NUL)] else []) @
      [End_connection 0]) s = Some t \<and> replies t = [(5, r)] \<and> field_at 5 r = Some sample_uid"
proof -
  obtain s where s: "system_run [New_connection Api_listener 5, Take 0] (system_initial 1) = Some s"
    "stages s 0 = Some (Reading 5)" "listener_of 0 s = Some Api_listener" "replies s = []"
    by (simp add: system_initial_def pool_start_def accept_connection_def pool_push_def tsq_push_def take_next_def
        worker_pop_def tsq_pop_def listener_of_def)
  have ok: "stages_ok s" using system_reachable_ok [OF s(1)] by (simp add: system_ok_def)
  obtain r where r: "connect_reply (replicate 512 NUL) sample_uid = Some r" "field_at 5 r = Some sample_uid"
    using connect_reply_uuid [OF sample_request_fields(3), of "replicate 512 NUL"] by (auto simp: sample_uid_def)
  then obtain y where "HandleData (generateUuid (replicate 32 1)) (replicate 512 NUL) sample_packet
      (length sample_packet) (sync_part s) = Some (r, y)"
    using sample_request_fields by (auto simp: HandleData_def enter_request_def sample_uid_def)
  from request_steps_are_HandleData [OF ok s(2,3) sample_request_fields(3) _ this] r s(1,4) show ?thesis
    unfolding sample_request_def by (auto simp: sample_request_fields(3) [simplified])
qed

end
