(* ===== verification/ServerJobs.thy ===== *)
theory ServerJobs
  imports ServerSystem
begin

text \<open>
  What the server as a whole does with its jobs: none is lost with one worker, one can be lost with
  two; the server comes to rest when nothing new arrives; and jobs keep connections waiting.
\<close>

section \<open>Jobs that are kept and jobs that are lost\<close>

lemma in_pool_store [simp]: "in_pool uid (store_pending v y) = in_pool uid y"
  by (simp add: in_pool_def store_pending_def)

lemma in_pool_enter [simp]: "in_pool uid (snd (enter_request y)) = in_pool uid y"
  by (simp add: in_pool_def enter_request_def)

lemma in_pool_leave [simp]: "in_pool uid (leave_request b y) = in_pool uid y"
  by (simp add: in_pool_def leave_request_def)

lemma in_pool_look_up [simp]: "in_pool uid (snd (look_up v y)) = in_pool uid y"
  by (simp add: in_pool_def look_up_def split: prod.split)

lemma in_pool_push [simp]: "in_pool uid (push_task v b y) \<longleftrightarrow> v = uid \<or> in_pool uid y"
  by (auto simp: in_pool_def push_task_def)

lemma in_pool_other: "k < length (pool_tasks y) \<Longrightarrow> fst (pool_tasks y ! k) \<noteq> uid \<Longrightarrow>
    in_pool uid (finish_task k y) = in_pool uid y"
  using jobs_of_finish [of uid k y] by (metis diff_zero jobs_of_zero)

text \<open>With one worker: while it is between the push and the store, the job it has pushed waits.\<close>

definition kept :: "string \<Rightarrow> server_system \<Rightarrow> bool" where
  "kept uid s \<longleftrightarrow> response_map (sync_part s) uid = Some ''Response Received'' \<or>
     in_pool uid (sync_part s) \<and>
       (response_map (sync_part s) uid = Some [] \<or> (\<exists>f b. stages s 0 = Some (Registered f uid b)))"

definition one_worker_ok :: "server_system \<Rightarrow> bool" where
  "one_worker_ok s \<longleftrightarrow> length (workers (shared_pool s)) = 1 \<and> (\<forall>uid \<in> set (issued s). kept uid s) \<and>
     (\<forall>f uid b. stages s 0 = Some (Registered f uid b) \<longrightarrow> in_pool uid (sync_part s))"

lemma one_worker_stage:
  "one_worker_ok s \<Longrightarrow> stages_ok s \<Longrightarrow> stages s i = Some st \<Longrightarrow> i = 0 \<and> stages s 0 = Some st"
  using stages_okD [of s i st] by (simp add: one_worker_ok_def)

lemma map_look_up: "response_map y uid = Some v \<Longrightarrow> response_map (snd (look_up w (snd (enter_request y)))) uid = Some v"
  by (auto simp: sync_defs split: option.splits)

lemma one_worker_step:
  assumes "system_step e s = Some t" "system_ok n s" "one_worker_ok s"
  shows "one_worker_ok t"
proof -
  have ok: "stages_ok s" "running (shared_pool s)" "jobs_agree s" using assms(2) by (simp_all add: system_ok_def)
  note st = one_worker_stage [OF assms(3) ok(1)]
  show ?thesis
  proof (cases e)
    case (Take i)
    then have "take_next i s = Some t" using assms(1) by simp
    then show ?thesis
    proof (rule take_next_cases)
      show "Stop \<notin> set (pool_queue (shared_pool s))" using ok(2) by (simp add: running_def)
      fix x q f
      assume i: "i < length (workers (shared_pool s))" "workers (shared_pool s) ! i = Idle"
        and t: "t = s\<lparr>shared_pool := took i x q (shared_pool s),
          stages := (case x of Serve l \<Rightarrow> (stages s)(i \<mapsto> Reading f) | _ \<Rightarrow> stages s)\<rparr>"
      have "i = 0" "stages s 0 = None"
        using i assms(3) stages_okD [OF ok(1)] by (fastforce simp: one_worker_ok_def)+
      then show ?thesis
        using assms(3) by (cases x) (auto simp: one_worker_ok_def kept_def t took_def)
    qed
  next
    case (Request i ds mem request)
    then have "handle_request i (generateUuid ds) mem request s = Some t" using assms(1) by (simp split: if_splits)
    then show ?thesis
    proof (cases rule: handle_request_cases)
      case (status f tid r)
      then show ?thesis
        using st [OF status(1)] assms(3) by (auto simp: one_worker_ok_def kept_def map_look_up)
    qed (use st assms(3) in \<open>auto simp: one_worker_ok_def kept_def sys_defs push_task_def in_pool_def\<close>)
  next
    case (Store_entry i mem)
    then have "store_entry i mem s = Some t" using assms(1) by (simp split: if_splits)
    then show ?thesis
    proof (cases rule: store_entry_cases)
      case (1 f uid b r)
      then show ?thesis
        using st [OF 1(1)] assms(3) by (auto simp: one_worker_ok_def kept_def store_pending_def in_pool_def)
    qed
  next
    case (End_connection i)
    then have "end_connection i s = Some t" using assms(1) by simp
    then show ?thesis
      by (cases rule: end_connection_cases)
        (use st assms(3) in \<open>auto simp: one_worker_ok_def kept_def worker_finish_def leave_request_def in_pool_def\<close>)
  next
    case (End_job i)
    then have "end_job i s = Some t" using assms(1) by simp
    then show ?thesis
    proof (cases rule: end_job_cases)
      case (job uid b)
      define k where "k = length (takeWhile (\<lambda>x. x \<noteq> (uid, b)) (pool_tasks (sync_part s)))"
      have k: "k < length (pool_tasks (sync_part s))" "pool_tasks (sync_part s) ! k = (uid, b)"
        using job_index [OF job_listed [OF ok(3) job(1,2)] k_def] by auto
      have "stages s 0 = None"
        using stages_okD [OF ok(1)] job(1,2) assms(3) by (fastforce simp: one_worker_ok_def)
      moreover have "kept v t" if "kept v s" for v
        using that k job(3) \<open>stages s 0 = None\<close> in_pool_other [OF k(1), of v]
        by (auto simp: kept_def map_finish simp flip: k_def)
      ultimately show ?thesis using assms(3) job(3) by (auto simp: one_worker_ok_def worker_finish_def)
    next
      case print
      then show ?thesis using assms(3) by (auto simp: one_worker_ok_def kept_def worker_finish_def)
    qed
  qed (use assms(1,3) in \<open>auto simp: one_worker_ok_def kept_def sys_defs split: if_splits\<close>)
qed

text \<open>C18: With one worker no job is lost.  In every run of a server whose pool has one thread, an id that
  was issued belongs to a job that is still in the pool, or a status request for it is answered
  completed: the worker that has pushed a job stores the empty entry before it can take the job.\<close>

theorem single_worker_keeps_jobs:
  assumes "system_run evs (system_initial 1) = Some s" "uid \<in> set (issued s)"
  shows "in_pool uid (sync_part s) \<or> status_text uid (sync_part s) = ''completed''"
proof -
  have "system_ok 1 s \<and> one_worker_ok s"
    using assms(1)
  proof (rule system_run_invariant [where I = "\<lambda>s. system_ok 1 s \<and> one_worker_ok s"])
    have "one_worker_ok (system_initial 1)"
      by (simp add: one_worker_ok_def system_initial_def pool_start_def)
    then show "system_ok 1 (system_initial 1) \<and> one_worker_ok (system_initial 1)"
      using system_ok_initial by blast
  qed (use one_worker_step system_ok_step in blast)
  then have "kept uid s" using assms(2) by (simp add: one_worker_ok_def)
  then show ?thesis by (auto simp: kept_def status_text_def)
qed

lemma single_worker_keeps_jobs_witness:
  "\<exists>s. system_run [New_connection Api_listener 5, Take 0, sample_request 0] (system_initial 1) = Some s \<and>
    sample_uid \<in> set (issued s) \<and>
    (in_pool sample_uid (sync_part s) \<or> status_text sample_uid (sync_part s) = ''completed'')"
  using sample_session [of 1] single_worker_keeps_jobs [OF sample_session [of 1], of sample_uid]
  by (auto simp: sample_state_def simp del: system_run.simps)

text \<open>An id whose job has ended before the empty entry was stored stays pending for good.\<close>

lemma issued_grows: "system_step e s = Some t \<Longrightarrow> prefix (issued s) (issued t)"
proof (cases e)
  case (Request i ds mem request)
  assume "system_step e s = Some t"
  then have "handle_request i (generateUuid ds) mem request s = Some t" using Request by (simp split: if_splits)
  then show ?thesis by (cases rule: handle_request_cases) simp_all
next
  case (Store_entry i mem)
  assume "system_step e s = Some t"
  then have "store_entry i mem s = Some t" using Store_entry by (simp split: if_splits)
  then show ?thesis by (cases rule: store_entry_cases) simp
qed (auto simp: accept_connection_def take_next_def end_connection_def end_job_def
    split: if_splits option.splits stage.splits worker.splits server_task.splits)

lemma count_list_prefix: "prefix xs ys \<Longrightarrow> count_list xs x \<le> count_list ys x"
  by (auto elim!: prefixE)

lemma lost_step:
  assumes "system_step e s = Some t" "count_list (issued t) uid = count_list (issued s) uid"
    and "job_lost uid (sync_part s)"
  shows "job_lost uid (sync_part t)"
proof -
  have j: "job_lost uid z" if "same_shared (sync_step ev (sync_part s)) z" "\<forall>b. ev \<noteq> Push uid b" for ev z
    using job_lost_step [OF assms(3) that(2)] that(1) by (simp add: same_shared_def job_lost_def in_pool_def)
  have skip: "job_lost uid z" if "same_shared (sync_part s) z" for z
    using assms(3) that by (simp add: same_shared_def job_lost_def in_pool_def)
  show ?thesis
  proof (cases e)
    case (Request i ds mem request)
    then have "handle_request i (generateUuid ds) mem request s = Some t" using assms(1) by (simp split: if_splits)
    then show ?thesis
    proof (cases rule: handle_request_cases)
      case (connect f)
      then show ?thesis
        using j [of "Push (generateUuid ds) (next_request (sync_part s))"] assms(2)
        by (auto simp: same_shared_def sync_defs split: if_splits)
    next
      case (status f tid r)
      then show ?thesis using j [of "Check tid"] by (auto simp: same_shared_def sync_defs split: option.splits)
    qed (use skip in \<open>simp_all add: same_shared_def sync_defs\<close>)
  next
    case (Store_entry i mem)
    then have "store_entry i mem s = Some t" using assms(1) by (simp split: if_splits)
    then show ?thesis
    proof (cases rule: store_entry_cases)
      case (1 f v b r)
      then show ?thesis using j [of "Store v"] by (simp add: same_shared_def)
    qed
  next
    case (End_connection i)
    then have "end_connection i s = Some t" using assms(1) by simp
    then show ?thesis by (cases rule: end_connection_cases) (use skip in \<open>simp_all add: same_shared_def sync_defs\<close>)
  next
    case (End_job i)
    then have "end_job i s = Some t" using assms(1) by simp
    then show ?thesis
    proof (cases rule: end_job_cases)
      case (job v b)
      then show ?thesis
        using j [of "Finish (length (takeWhile (\<lambda>x. x \<noteq> (v, b)) (pool_tasks (sync_part s))))"]
        by (simp add: same_shared_def)
    qed (use skip in \<open>simp add: same_shared_def\<close>)
  next
    case (Take i)
    then show ?thesis
      using assms(1) skip
      by (auto simp: take_next_def same_shared_def split: if_splits option.splits worker.splits server_task.splits)
  qed (use skip assms(1) in \<open>auto simp: same_shared_def accept_connection_def split: if_splits\<close>)
qed

lemma lost_run:
  assumes "system_run es s = Some t" "count_list (issued t) uid = count_list (issued s) uid" "job_lost uid (sync_part s)"
  shows "job_lost uid (sync_part t)"
  using assms
proof (induction es arbitrary: s)
  case (Cons e es)
  obtain u where u: "system_step e s = Some u" "system_run es u = Some t"
    using Cons.prems(1) by (auto split: Option.bind_splits)
  have "prefix (issued u) (issued t)"
    using u(2) by (rule system_run_invariant) (use issued_grows prefix_order.trans in blast)+
  then have "count_list (issued u) uid = count_list (issued s) uid"
    using count_list_prefix issued_grows [OF u(1)] Cons.prems(2) by (metis le_antisym)
  then show ?case using Cons.IH [OF u(2)] lost_step [OF u(1)] Cons.prems by simp
qed simp

definition uid_told :: "string \<Rightarrow> server_system \<Rightarrow> bool" where
  "uid_told uid s \<longleftrightarrow> list_ex (\<lambda>(f, r). field_at 5 r = Some uid) (replies s)"

definition losing_run :: "system_event list" where
  "losing_run = [New_connection Api_listener 5, Take 0, sample_request 0] @
     [Take 1, End_job 1, Store_entry 0 (replicate 512 NUL), End_connection 0]"

lemma losing_run_ends:
  assumes "2 \<le> n"
  shows "\<exists>s. system_run losing_run (system_initial n) = Some s \<and> issued s = [sample_uid] \<and>
    job_lost sample_uid (sync_part s) \<and> uid_told sample_uid s"
proof -
  obtain m where n: "n = Suc (Suc m)" using assms by (metis add_2_eq_Suc le_Suc_ex)
  obtain r where r: "connect_reply (replicate 512 NUL) sample_uid = Some r" "field_at 5 r = Some sample_uid"
    using connect_reply_uuid [OF sample_request_fields(3), of "replicate 512 NUL"] by (auto simp: sample_uid_def)
  have "system_run losing_run (system_initial n) = system_run
      [Take 1, End_job 1, Store_entry 0 (replicate 512 NUL), End_connection 0] (sample_state n)"
    unfolding losing_run_def system_run_append using sample_session [of n] assms
    by (simp del: system_run.simps)
  then show ?thesis
    using r
    by (simp add: sample_state_def n take_next_def worker_pop_def tsq_pop_def end_job_def finish_task_def store_entry_def
        store_pending_def end_connection_def worker_finish_def leave_request_def job_lost_def in_pool_def uid_told_def)
qed

text \<open>C20: With two workers a job can be lost for good.  A run exists in which the client is told the id of
  its job, the job has ended, and yet, whatever happens afterwards, every status request for the id
  is answered pending (unless the generator yields the same id once more).\<close>

theorem two_workers_lose_job:
  assumes "2 \<le> n"
  shows "\<exists>evs s. system_run evs (system_initial n) = Some s \<and> uid_told sample_uid s \<and> \<not> in_pool sample_uid (sync_part s) \<and>
    (\<forall>es t. system_run es s = Some t \<and> count_list (issued t) sample_uid = 1 \<longrightarrow>
      status_text sample_uid (sync_part t) = ''pending'')"
proof -
  obtain s where s: "system_run losing_run (system_initial n) = Some s" "issued s = [sample_uid]"
    "job_lost sample_uid (sync_part s)" "uid_told sample_uid s"
    using losing_run_ends [OF assms] by blast
  have "status_text sample_uid (sync_part t) = ''pending''"
    if "system_run es s = Some t" "count_list (issued t) sample_uid = 1" for es t
    using lost_run [OF that(1) _ s(3)] that(2) s(2) status_text_phase(2) by simp
  then show ?thesis using s by (auto simp: job_lost_def)
qed

lemma two_workers_lose_job_witness:
  "\<exists>evs s. system_run evs (system_initial 4) = Some s \<and> uid_told sample_uid s \<and> \<not> in_pool sample_uid (sync_part s)"
  using two_workers_lose_job [of 4] by auto

section \<open>Every run without new connections ends\<close>

text \<open>
  The work a state stands for: how many steps each waiting task, each running one and each variable
  of a listener can still cause.  A request can add a job, so collecting one counts for more than
  all that follows.
\<close>

fun task_work :: "server_task \<Rightarrow> nat" where
  "task_work (Serve l) = 6"
| "task_work _ = 2"

fun stage_work :: "stage \<Rightarrow> nat" where
  "stage_work (Reading f) = 5"
| "stage_work (Registered f uid b) = 2"
| "stage_work (Replying f b r) = 1"

fun worker_work :: "stage option \<Rightarrow> server_task worker \<Rightarrow> nat" where
  "worker_work (Some st) w = stage_work st"
| "worker_work None (Working x) = 1"
| "worker_work None _ = 0"

definition slot_work :: "server_system \<Rightarrow> nat" where
  "slot_work s = (if slots s Api_listener = None then 0 else 1) + (if slots s Scheduler_listener = None then 0 else 1)"

definition workers_work :: "server_system \<Rightarrow> nat" where
  "workers_work s = (\<Sum>i < length (workers (shared_pool s)). worker_work (stages s i) (workers (shared_pool s) ! i))"

definition system_work :: "server_system \<Rightarrow> nat" where
  "system_work s = sum_list (map task_work (tasks_in (pool_queue (shared_pool s)))) + workers_work s + slot_work s"

fun is_new :: "system_event \<Rightarrow> bool" where
  "is_new (New_connection l f) = True"
| "is_new _ = False"

lemma sum_change:
  fixes f g :: "nat \<Rightarrow> nat"
  assumes "i < n" "\<And>j. j \<noteq> i \<Longrightarrow> g j = f j"
  shows "sum g {..<n} + f i = sum f {..<n} + g i"
proof -
  have "sum g ({..<n} - {i}) = sum f ({..<n} - {i})" using assms(2) by (intro sum.cong) auto
  moreover have "sum g {..<n} = g i + sum g ({..<n} - {i})" "sum f {..<n} = f i + sum f ({..<n} - {i})"
    using assms(1) by (simp_all add: sum.remove)
  ultimately show ?thesis by simp
qed

lemma workers_work_change:
  assumes "i < length (workers (shared_pool s))" "workers (shared_pool t) = (workers (shared_pool s))[i := w]"
    and "stages t = (stages s)(i := st)"
  shows "workers_work t + worker_work (stages s i) (workers (shared_pool s) ! i) = workers_work s + worker_work st w"
  using sum_change [OF assms(1), of "\<lambda>j. worker_work (stages t j) (workers (shared_pool t) ! j)"
      "\<lambda>j. worker_work (stages s j) (workers (shared_pool s) ! j)"] assms
  by (simp add: workers_work_def nth_list_update)

lemma stages_id: "(stages s)(i := stages s i) = stages s"
  by simp

lemma workers_work_stage:
  assumes "stages_ok s" "stages s i = Some st" "workers (shared_pool t) = workers (shared_pool s)"
    "stages t = (stages s)(i \<mapsto> st')"
  shows "workers_work t + stage_work st = workers_work s + stage_work st'"
  using workers_work_change [of i s t "workers (shared_pool s) ! i" "Some st'"] stages_okD [OF assms(1,2)] assms
  by simp

lemma workers_work_end:
  assumes "stages_ok s" "stages s i = Some st" "workers (shared_pool t) = (workers (shared_pool s))[i := Idle]"
    "stages t = (stages s)(i := None)"
  shows "workers_work t + stage_work st = workers_work s"
  using workers_work_change [of i s t Idle None] stages_okD [OF assms(1,2)] assms by simp

lemma slot_work_cong: "slots t = slots s \<Longrightarrow> slot_work t = slot_work s"
  by (simp add: slot_work_def)

lemma system_work_step:
  assumes "system_step e s = Some t" "system_ok n s" "\<not> is_new e"
  shows "system_work t < system_work s"
proof -
  have ok: "stages_ok s" "running (shared_pool s)" using assms(2) by (simp_all add: system_ok_def)
  show ?thesis
  proof (cases e)
    case (New_connection l f)
    then show ?thesis using assms(3) by simp
  next
    case (Window_over l)
    then show ?thesis
      using assms(1) by (cases l) (auto simp: system_work_def slot_work_def workers_work_def split: if_splits)
  next
    case (Take i)
    then have "take_next i s = Some t" using assms(1) by simp
    then show ?thesis
    proof (rule take_next_cases)
      show "Stop \<notin> set (pool_queue (shared_pool s))" using ok(2) by (simp add: running_def)
      fix x q f
      assume i: "i < length (workers (shared_pool s))" "workers (shared_pool s) ! i = Idle"
        "pool_queue (shared_pool s) = Execute x # q"
        and t: "t = s\<lparr>shared_pool := took i x q (shared_pool s),
          stages := (case x of Serve l \<Rightarrow> (stages s)(i \<mapsto> Reading f) | _ \<Rightarrow> stages s)\<rparr>"
      have none: "stages s i = None" using i(2) stages_okD [OF ok(1)] by fastforce
      have w: "workers_work t < workers_work s + task_work x"
        using workers_work_change [OF i(1), of t "Working x" "stages t i"] i(2) none
        by (cases x) (auto simp: t took_def fun_upd_idem)
      have "pool_queue (shared_pool t) = q" "slot_work t = slot_work s"
        by (simp_all add: t took_def slot_work_def)
      then show ?thesis using w i(3) by (simp add: system_work_def)
    qed
  next
    case (Request i ds mem request)
    then have "handle_request i (generateUuid ds) mem request s = Some t" using assms(1) by (simp split: if_splits)
    then show ?thesis
    proof (cases rule: handle_request_cases)
      case (connect f)
      then show ?thesis
        using workers_work_stage [OF ok(1) connect(1), of t "Registered f (generateUuid ds) (next_request (sync_part s))"]
          slot_work_cong [of t s]
        by (simp add: system_work_def pool_push_def tsq_push_def)
    next
      case (status f tid r)
      then show ?thesis
        using workers_work_stage [OF ok(1) status(1), of t "Replying f (next_request (sync_part s)) r"]
          slot_work_cong [of t s]
        by (simp add: system_work_def)
    next
      case (other f)
      then show ?thesis
        using workers_work_stage [OF ok(1) other(1), of t "Replying f (next_request (sync_part s)) http_ok"]
          slot_work_cong [of t s]
        by (simp add: system_work_def)
    next
      case (print f)
      then show ?thesis
        using workers_work_stage [OF ok(1) print(1), of t "Replying f (next_request (sync_part s)) http_ok"] slot_work_cong [of t s]
        by (simp add: system_work_def pool_push_def tsq_push_def)
    qed
  next
    case (Store_entry i mem)
    then have "store_entry i mem s = Some t" using assms(1) by (simp split: if_splits)
    then show ?thesis
    proof (cases rule: store_entry_cases)
      case (1 f uid b r)
      then show ?thesis
        using workers_work_stage [OF ok(1) 1(1), of t "Replying f b r"] slot_work_cong [of t s]
        by (simp add: system_work_def)
    qed
  next
    case (End_connection i)
    then have "end_connection i s = Some t" using assms(1) by simp
    then show ?thesis
    proof (cases rule: end_connection_cases)
      case (answered f b r x)
      then show ?thesis
        using workers_work_end [OF ok(1) answered(1), of t] slot_work_cong [of t s]
        by (simp add: system_work_def worker_finish_def)
    next
      case (empty f x)
      then show ?thesis
        using workers_work_end [OF ok(1) empty(1), of t] slot_work_cong [of t s]
        by (simp add: system_work_def worker_finish_def)
    qed
  next
    case (End_job i)
    then have "end_job i s = Some t" using assms(1) by simp
    then obtain x y where x: "i < length (workers (shared_pool s))" "workers (shared_pool s) ! i = Working x"
      "\<not> serving (Working x)" "t = s\<lparr>sync_part := y, shared_pool := worker_finish i x (shared_pool s)\<rparr>"
    proof (cases rule: end_job_cases)
      case (job uid b)
      then show ?thesis using that [OF job(1,2) _ job(3)] by simp
    next
      case print
      then show ?thesis using that [OF print(1,2), of "sync_part s"] by simp
    qed
    then have "stages s i = None" using stages_okD [OF ok(1)] by fastforce
    then have "stages t = (stages s)(i := None)" "worker_work (stages s i) (workers (shared_pool s) ! i) = 1"
      using x(2,4) by (auto simp: fun_eq_iff)
    then have "workers_work t + 1 = workers_work s"
      using workers_work_change [OF x(1), of t Idle None] x(4) by (simp add: worker_finish_def)
    moreover have "slot_work t = slot_work s" by (rule slot_work_cong) (simp add: x(4))
    ultimately show ?thesis using x(4) by (simp add: system_work_def worker_finish_def)
  qed
qed

lemma system_work_run:
  assumes "system_run es s = Some t" "system_ok n s" "list_all (\<lambda>e. \<not> is_new e) es"
  shows "length es + system_work t \<le> system_work s"
  using assms
proof (induction es arbitrary: s)
  case (Cons e es)
  then obtain u where u: "system_step e s = Some u" "system_run es u = Some t"
    by (auto split: Option.bind_splits)
  then show ?case
    using Cons.IH [OF u(2) system_ok_step [OF u(1) Cons.prems(2)]] system_work_step [OF u(1) Cons.prems(2)] Cons.prems(3)
    by simp
qed simp

text \<open>Only generated ids are registered, so the answer with the id can always be made.\<close>

fun generated :: "stage \<Rightarrow> bool" where
  "generated (Registered f uid b) \<longleftrightarrow> (\<exists>ds. uuid_digits ds \<and> uid = generateUuid ds)"
| "generated _ = True"

definition uids_generated :: "server_system \<Rightarrow> bool" where
  "uids_generated s \<longleftrightarrow> (\<forall>i. pred_option generated (stages s i))"

lemma uids_generated_step:
  assumes "system_step e s = Some t" "uids_generated s"
  shows "uids_generated t"
proof (cases e)
  case (Request i ds mem request)
  then have "handle_request i (generateUuid ds) mem request s = Some t" "uuid_digits ds"
    using assms(1) by (simp_all split: if_splits)
  then show ?thesis
    by (cases rule: handle_request_cases) (use assms(2) in \<open>auto simp: uids_generated_def\<close>)
next
  case (Store_entry i mem)
  then have "store_entry i mem s = Some t" using assms(1) by (simp split: if_splits)
  then show ?thesis by (cases rule: store_entry_cases) (use assms(2) in \<open>auto simp: uids_generated_def\<close>)
qed (use assms in \<open>auto simp: uids_generated_def accept_connection_def take_next_def end_connection_def end_job_def
    split: if_splits option.splits stage.splits worker.splits server_task.splits\<close>)

definition system_stuck :: "server_system \<Rightarrow> bool" where
  "system_stuck s \<longleftrightarrow> (\<forall>e. \<not> is_new e \<longrightarrow> system_step e s = None)"

lemma stuck_workers:
  assumes "system_stuck s" "system_ok n s" "uids_generated s" "i < length (workers (shared_pool s))"
  shows "workers (shared_pool s) ! i = Idle"
proof (cases "workers (shared_pool s) ! i")
  case Ended
  then show ?thesis using assms(2,4) by (auto simp: system_ok_def running_def dest: nth_mem)
next
  case (Working x)
  have none: "system_step (End_connection i) s = None" "system_step (End_job i) s = None"
    "system_step (Store_entry i (replicate 512 NUL)) s = None"
    using assms(1) by (simp_all add: system_stuck_def del: system_step.simps)
  show ?thesis
  proof (cases "serving (Working x)")
    case False
    then show ?thesis using none(2) assms(4) Working by (cases x) (simp_all add: end_job_def)
  next
    case True
    then have "stages s i \<noteq> None"
      using assms(2,4) Working by (simp add: system_ok_def stages_ok_def)
    then obtain st where st: "stages s i = Some st" by blast
    show ?thesis
    proof (cases st)
      case (Registered f uid b)
      then obtain ds where "uuid_digits ds" "uid = generateUuid ds"
        using assms(3) st by (fastforce simp: uids_generated_def dest: spec [of _ i])
      then obtain r where "connect_reply (replicate 512 NUL) uid = Some r"
        using connect_reply_uuid [of ds "replicate 512 NUL"] by auto
      then show ?thesis using none(3) st Registered by (simp add: store_entry_def)
    qed (use none(1) st Working in \<open>simp_all add: end_connection_def\<close>)
  qed
qed simp

text \<open>The next task in the queue is a connection whose description is gone.\<close>

definition dead_start :: "server_system \<Rightarrow> bool" where
  "dead_start s \<longleftrightarrow> (\<exists>l q. pool_queue (shared_pool s) = Execute (Serve l) # q \<and> slots s l = None)"

text \<open>C21: Without new connections the server comes to rest.  From every state it can get into, a run of
  further steps has at most \<open>system_work\<close> of them; and when no further step is possible, every worker
  waits, and the queue is empty - or its first task is a connection whose listener has left the
  iteration that described it, which no worker can start without reading a dead variable.\<close>

theorem server_comes_to_rest:
  assumes "system_run evs (system_initial n) = Some s" "0 < n"
    and "system_run es s = Some t" "list_all (\<lambda>e. \<not> is_new e) es"
  shows "length es \<le> system_work s \<and>
    (system_stuck t \<longrightarrow> in_work (workers (shared_pool t)) = {#} \<and>
      (pool_queue (shared_pool t) = [] \<and> pool_tasks (sync_part t) = [] \<or> dead_start t))"
proof -
  have run: "system_run (evs @ es) (system_initial n) = Some t"
    using assms(1,3) by (simp add: system_run_append)
  have s: "system_ok n s" by (rule system_reachable_ok [OF assms(1)])
  have t: "system_ok n t" by (rule system_reachable_ok [OF run])
  have g: "uids_generated t"
    using run by (rule system_run_invariant) (use uids_generated_step in \<open>auto simp: uids_generated_def system_initial_def\<close>)
  have "in_work (workers (shared_pool t)) = {#} \<and>
      (pool_queue (shared_pool t) = [] \<and> pool_tasks (sync_part t) = [] \<or> dead_start t)" if "system_stuck t"
  proof -
    have idle: "workers (shared_pool t) ! i = Idle" if "i < length (workers (shared_pool t))" for i
      using stuck_workers [OF \<open>system_stuck t\<close> t g that] .
    have len: "length (workers (shared_pool t)) = n"
      using pool_reachable_ok t by (auto simp: system_ok_def pool_ok_def)
    have "workers (shared_pool t) = replicate n Idle" by (intro nth_equalityI) (simp_all add: idle len)
    then have work: "in_work (workers (shared_pool t)) = {#}" by (simp add: in_work_Idle)
    show ?thesis
    proof (cases "pool_queue (shared_pool t)")
      case Nil
      then have "jobs_in (shared_pool t) = {#}" by (simp add: jobs_in_def work)
      then have "pool_tasks (sync_part t) = []" using t by (simp add: system_ok_def jobs_agree_def)
      with Nil work show ?thesis by simp
    next
      case (Cons y q)
      then obtain x where x: "y = Execute x" using t by (cases y) (auto simp: system_ok_def running_def)
      have none: "system_step (Take 0) t = None" using that by (simp add: system_stuck_def del: system_step.simps)
      have "worker_pop 0 (shared_pool t) = Some (took 0 x q (shared_pool t))"
        using Cons x by (simp add: worker_pop_def tsq_pop_def took_def)
      moreover have "workers (took 0 x q (shared_pool t)) ! 0 = Working x"
        using len assms(2) by (simp add: took_def)
      ultimately have "dead_start t"
        using none idle [of 0] len assms(2) Cons x
        by (cases x) (auto simp: take_next_def dead_start_def split: option.splits)
      with work show ?thesis by simp
    qed
  qed
  moreover have "length es \<le> system_work s" using system_work_run [OF assms(3) s assms(4)] by simp
  ultimately show ?thesis by blast
qed

lemma server_comes_to_rest_witness:
  "\<exists>s t. system_run [New_connection Api_listener 5, Take 0, sample_request 0] (system_initial 1) = Some s \<and>
    system_run [Window_over Api_listener] s = Some t \<and> length [Window_over Api_listener] \<le> system_work s"
proof -
  let ?t = "sample_state 1\<lparr>slots := (slots (sample_state 1))(Api_listener := None)\<rparr>"
  have t: "system_run [Window_over Api_listener] (sample_state 1) = Some ?t"
    by (simp add: sample_state_def)
  have "length [Window_over Api_listener] \<le> system_work (sample_state 1)"
    using server_comes_to_rest [OF sample_session [of 1] _ t] by auto
  moreover have "system_run [New_connection Api_listener 5, Take 0, sample_request 0] (system_initial 1) = Some (sample_state 1)"
    by (rule sample_session) simp
  ultimately show ?thesis using t by blast
qed

text \<open>While every worker sleeps in a job, no connection is answered.\<close>

fun ends_job :: "system_event \<Rightarrow> bool" where
  "ends_job (End_job i) = True"
| "ends_job _ = False"

fun at_job :: "server_task worker \<Rightarrow> bool" where
  "at_job (Working (Job uid b)) = True"
| "at_job _ = False"

lemma busy_step:
  assumes "system_step e s = Some t" "\<not> ends_job e" "stages_ok s" "list_all at_job (workers (shared_pool s))"
  shows "stages_ok t \<and> workers (shared_pool t) = workers (shared_pool s) \<and> replies t = replies s"
proof -
  have none: "stages s i = None" for i
  proof (rule ccontr)
    assume "stages s i \<noteq> None"
    then have "i < length (workers (shared_pool s))" "serving (workers (shared_pool s) ! i)"
      using assms(3) by (simp_all add: stages_ok_def)
    then show False
      using assms(4) by (cases "workers (shared_pool s) ! i" rule: serving.cases) (auto simp: list_all_length)
  qed
  have "workers (shared_pool t) = workers (shared_pool s) \<and> replies t = replies s \<and> stages t = stages s"
  proof (cases e)
    case (Take i)
    then show ?thesis using assms(1,4) by (auto simp: take_next_def list_all_length split: if_splits)
  qed (use assms(1,2) none in \<open>auto simp: accept_connection_def pool_push_def handle_request_def store_entry_def
      end_connection_def split: if_splits\<close>)
  then show ?thesis using assms(3) by (simp add: stages_ok_def)
qed

text \<open>Jobs block the server.  Connections and jobs share the workers; from the moment every worker is
  in a job until one of the jobs ends, no connection is taken up or answered - a status request
  included -, whatever arrives.\<close>

theorem jobs_block_server:
  assumes "system_run evs (system_initial n) = Some s" "list_all at_job (workers (shared_pool s))"
    and "system_run es s = Some t" "list_all (\<lambda>e. \<not> ends_job e) es"
  shows "replies t = replies s \<and> workers (shared_pool t) = workers (shared_pool s)"
proof -
  have "stages_ok s" using system_reachable_ok [OF assms(1)] by (simp add: system_ok_def)
  with assms(2-4) show ?thesis
  proof (induction es arbitrary: s)
    case (Cons e es)
    then obtain u where u: "system_step e s = Some u" "system_run es u = Some t"
      by (auto split: Option.bind_splits)
    show ?case using busy_step [OF u(1)] Cons.IH [of u] Cons.prems u(2) by simp
  qed simp
qed

lemma sample_job_runs:
  "\<exists>s. system_run ([New_connection Api_listener 5, Take 0, sample_request 0] @
      [Store_entry 0 (replicate 512 NUL), End_connection 0, Take 0]) (system_initial 1) = Some s \<and>
    list_all at_job (workers (shared_pool s))"
proof -
  obtain r where "connect_reply (replicate 512 NUL) sample_uid = Some r"
    using connect_reply_uuid [OF sample_request_fields(3), of "replicate 512 NUL"] by (auto simp: sample_uid_def)
  then show ?thesis
    unfolding system_run_append using sample_session [of 1]
    by (simp add: sample_state_def take_next_def worker_pop_def tsq_pop_def store_entry_def end_connection_def
        worker_finish_def del: system_run.simps) (simp add: take_next_def worker_pop_def tsq_pop_def store_entry_def
        end_connection_def worker_finish_def)
qed

lemma jobs_block_server_witness:
  "\<exists>s t. system_run [New_connection Scheduler_listener 7] s = Some t \<and>
    list_all at_job (workers (shared_pool s)) \<and> length (workers (shared_pool s)) = 1 \<and> replies t = replies s"
proof -
  obtain evs s where s: "system_run evs (system_initial 1) = Some s" "list_all at_job (workers (shared_pool s))"
    using sample_job_runs by blast
  moreover have "length (workers (shared_pool s)) = 1"
    using system_reachable_ok [OF s(1)] pool_reachable_ok by (auto simp: system_ok_def pool_ok_def)
  moreover obtain t where "system_run [New_connection Scheduler_listener 7] s = Some t" by simp
  moreover from this have "replies t = replies s"
    using jobs_block_server [OF s, of "[New_connection Scheduler_listener 7]" t] by simp
  ultimately show ?thesis by blast
qed

end
