(* ===== verification/PoolThreads.thy ===== *)
theory PoolThreads
  imports PoolProxy
begin

text \<open>
  The pooled proxy with several clients at once (\<open>connection-pool/src/proxy.h\<close>, \<open>proxy.cpp\<close>): the
  listening thread and the client threads, interleaved.  A client thread's steps are those of
  \<open>RunProxyClientThread\<close>: taking a connection (the pool's mutex makes it one step), the turns of the
  relay loop, the two closings of the client's descriptor, and the return, which gives the
  connection back.  The kernel is there with the set of client descriptors that are open, because
  it hands out closed ones again.
\<close>

section \<open>State and steps\<close>

datatype thread_phase = Relaying | Leaving | Closed_once | Deleted

record client_thread =
  ct_client :: fd
  ct_conn :: nat
  ct_phase :: thread_phase

text \<open>
  \<open>ps_context\<close> is the loop variable \<open>proxyClienThreadContext\<close> while it exists, whose address
  each new thread gets; \<open>ps_created\<close> counts the threads that have been created and have not read it.
\<close>

record proxy_system =
  ps_server :: proxy_server
  ps_context :: "fd option"
  ps_created :: nat
  ps_threads :: "nat \<rightharpoonup> client_thread"
  ps_open :: "fd list"

definition proxy_system_initial :: "proxy_server \<Rightarrow> proxy_system" where
  "proxy_system_initial s = \<lparr>ps_server = s, ps_context = None, ps_created = 0, ps_threads = Map.empty, ps_open = []\<rparr>"

text \<open>The body of the relay loop: whether the session is over.\<close>

definition pool_turn :: "relay_env \<Rightarrow> fd \<Rightarrow> fd \<Rightarrow> 'a os_scheme \<Rightarrow> (bool \<times> 'a os_scheme) option" where
  "pool_turn e c t s =
     (case pool_SocketSelect c (Some t) (re_select e) (re_ready e) s of
        (Inl m, s1) \<Rightarrow> Some (True, s1)
      | (Inr fds, s1) \<Rightarrow>
          (case pool_relay_side c t (Readable c fds) (re_client e) s1 of
             None \<Rightarrow> None
           | Some (ok1, s2) \<Rightarrow>
               (case pool_relay_side t c (Readable t fds) (re_target e) s2 of
                  None \<Rightarrow> None
                | Some (ok2, s3) \<Rightarrow> Some (\<not> (ok1 \<and> ok2), s3))))"

text \<open>\<open>pool_relay\<close> is made of these turns and of the two closings.\<close>

lemma pool_relay_turns:
  "pool_relay (e # es) c t s =
     (case pool_turn e c t s of
        None \<Rightarrow> None
      | Some (over, s1) \<Rightarrow> if over then Some (True, drop_client c s1) else pool_relay es c t s1)"
  by (auto simp: pool_turn_def split: prod.splits sum.splits option.splits)

definition accept_client :: "fd \<Rightarrow> proxy_system \<Rightarrow> proxy_system" where
  "accept_client f s = s\<lparr>ps_context := Some f, ps_created := Suc (ps_created s), ps_open := f # ps_open s\<rparr>"

text \<open>A created thread reads the variable and takes a connection; without one its exception ends the
  process.\<close>

definition begin_thread :: "nat \<Rightarrow> nat list \<Rightarrow> proxy_system \<Rightarrow> proxy_system outcome option" where
  "begin_thread i order s =
     (if ps_created s = 0 \<or> ps_threads s i \<noteq> None then None
      else
        (case ps_context s of
           None \<Rightarrow> None
         | Some c \<Rightarrow>
             (case get_connection tcp_vtable order (the_world (ps_server s)) (the_pool (ps_server s)) of
                (None, w1, p1) \<Rightarrow>
                  Some (Exited 134 (s\<lparr>ps_server := (ps_server s)\<lparr>the_pool := p1, the_world := w1\<rparr>\<rparr>))
              | (Some k, w1, p1) \<Rightarrow>
                  Some (Running (s\<lparr>ps_server := (ps_server s)\<lparr>the_pool := p1, the_world := w1\<rparr>,
                    ps_created := ps_created s - 1,
                    ps_threads := (ps_threads s)(i \<mapsto> \<lparr>ct_client = c, ct_conn = k, ct_phase = Relaying\<rparr>)\<rparr>)))))"

definition set_world :: "tcp_world \<Rightarrow> proxy_system \<Rightarrow> proxy_system" where
  "set_world w s = s\<lparr>ps_server := (ps_server s)\<lparr>the_world := w\<rparr>\<rparr>"

definition set_phase :: "nat \<Rightarrow> client_thread \<Rightarrow> thread_phase \<Rightarrow> proxy_system \<Rightarrow> proxy_system" where
  "set_phase i x ph s = s\<lparr>ps_threads := (ps_threads s)(i \<mapsto> x\<lparr>ct_phase := ph\<rparr>)\<rparr>"

definition relay_turn_of :: "nat \<Rightarrow> relay_env \<Rightarrow> client_thread \<Rightarrow> proxy_system \<Rightarrow> proxy_system option" where
  "relay_turn_of i e x s =
     (case map_of (m_connections_busy (the_pool (ps_server s))) (ct_conn x) of
        None \<Rightarrow> None
      | Some conn \<Rightarrow>
          map_option (\<lambda>(over, w). set_phase i x (if over then Leaving else Relaying) (set_world w s))
            (pool_turn e (ct_client x) (tc_socket conn) (the_world (ps_server s))))"

text \<open>A closing: the kernel frees the descriptor, whoever it belongs to.\<close>

definition close_client :: "nat \<Rightarrow> client_thread \<Rightarrow> thread_phase \<Rightarrow> proxy_system \<Rightarrow> proxy_system" where
  "close_client i x ph s =
     (set_phase i x ph (set_world (emit (Call_close (ct_client x)) (the_world (ps_server s))) s))
       \<lparr>ps_open := filter (\<lambda>f. f \<noteq> ct_client x) (ps_open s)\<rparr>"

definition return_thread :: "nat \<Rightarrow> client_thread \<Rightarrow> proxy_system \<Rightarrow> proxy_system" where
  "return_thread i x s =
     s\<lparr>ps_server := (ps_server s)\<lparr>the_pool := release_connection (Some (ct_conn x)) (the_pool (ps_server s))\<rparr>,
       ps_threads := (ps_threads s)(i := None)\<rparr>"

datatype proxy_event =
    Client_accepted fd
  | Iteration_over
  | Begin_thread nat "nat list"
  | Relay_turn nat relay_env
  | Close_client nat
  | Delete_client nat
  | Return_thread nat

text \<open>A step of a thread that is not at that point, and undefined behaviour, are \<open>None\<close>.  The kernel
  gives an accepted connection a descriptor that is not open.\<close>

fun proxy_step :: "proxy_event \<Rightarrow> proxy_system \<Rightarrow> proxy_system outcome option" where
  "proxy_step (Client_accepted f) s =
     (if f \<in> set (ps_open s) then None else Some (Running (accept_client f s)))"
| "proxy_step Iteration_over s = Some (Running (s\<lparr>ps_context := None\<rparr>))"
| "proxy_step (Begin_thread i order) s = begin_thread i order s"
| "proxy_step (Relay_turn i e) s =
     (case ps_threads s i of
        Some x \<Rightarrow> if ct_phase x = Relaying then map_option Running (relay_turn_of i e x s) else None
      | None \<Rightarrow> None)"
| "proxy_step (Close_client i) s =
     (case ps_threads s i of
        Some x \<Rightarrow> if ct_phase x = Leaving then Some (Running (close_client i x Closed_once s)) else None
      | None \<Rightarrow> None)"
| "proxy_step (Delete_client i) s =
     (case ps_threads s i of
        Some x \<Rightarrow> if ct_phase x = Closed_once then Some (Running (close_client i x Deleted s)) else None
      | None \<Rightarrow> None)"
| "proxy_step (Return_thread i) s =
     (case ps_threads s i of
        Some x \<Rightarrow> if ct_phase x = Deleted then Some (Running (return_thread i x s)) else None
      | None \<Rightarrow> None)"

fun proxy_run :: "proxy_event list \<Rightarrow> proxy_system \<Rightarrow> proxy_system outcome option" where
  "proxy_run [] s = Some (Running s)"
| "proxy_run (e # es) s =
     (case proxy_step e s of
        None \<Rightarrow> None
      | Some (Exited c t) \<Rightarrow> Some (Exited c t)
      | Some (Running t) \<Rightarrow> proxy_run es t)"

section \<open>Who holds what\<close>

definition held :: "proxy_system \<Rightarrow> nat \<rightharpoonup> nat" where
  "held s i = map_option ct_conn (ps_threads s i)"

definition threads_ok :: "tcp_connection pool \<Rightarrow> proxy_system \<Rightarrow> bool" where
  "threads_ok p s \<longleftrightarrow> same_connections p (the_pool (ps_server s)) \<and> partial_inj (held s) \<and>
     busy_keys (the_pool (ps_server s)) = ran (held s) \<and> finite (dom (held s))"

lemma threads_ok_cong:
  assumes "threads_ok p s" "the_pool (ps_server t) = the_pool (ps_server s)" "held t = held s"
  shows "threads_ok p t"
  using assms by (simp add: threads_ok_def)

lemma held_set_phase: "ps_threads s i = Some x \<Longrightarrow> held (set_phase i x ph s) = held s"
  by (auto simp: held_def set_phase_def)

lemma held_close: "ps_threads s i = Some x \<Longrightarrow> held (close_client i x ph s) = held s"
  by (auto simp: held_def set_phase_def close_client_def set_world_def)

lemma relay_turn_of_phase:
  assumes "relay_turn_of i e x s = Some t"
  shows "\<exists>ph w. t = set_phase i x ph (set_world w s)"
proof -
  obtain z where "t = (case z of (over, w) \<Rightarrow> set_phase i x (if over then Leaving else Relaying) (set_world w s))"
    using assms by (auto simp: relay_turn_of_def split: option.splits)
  then show ?thesis by (cases z) auto
qed

lemma threads_ok_begin:
  assumes "begin_thread i order s = Some (Running t)" "threads_ok p s"
  shows "threads_ok p t"
proof -
  obtain c k w1 p1 where g: "get_connection tcp_vtable order (the_world (ps_server s)) (the_pool (ps_server s)) = (Some k, w1, p1)"
    and i: "ps_threads s i = None"
    and t: "t = s\<lparr>ps_server := (ps_server s)\<lparr>the_pool := p1, the_world := w1\<rparr>, ps_created := ps_created s - 1,
        ps_threads := (ps_threads s)(i \<mapsto> \<lparr>ct_client = c, ct_conn = k, ct_phase = Relaying\<rparr>)\<rparr>"
    using assms(1) by (auto simp: begin_thread_def split: if_splits option.splits prod.splits)
  have wf: "pool_wf (the_pool (ps_server s))" using assms(2) by (simp add: threads_ok_def same_connections_def)
  have p1: "pool_wf p1" "k \<in> idle_keys (the_pool (ps_server s))" "busy_keys p1 = insert k (busy_keys (the_pool (ps_server s)))"
    using get_connection_keys [OF g wf] by simp_all
  have "k \<notin> ran (held s)"
    using wf p1(2) assms(2) by (auto simp: pool_wf_def threads_ok_def)
  moreover have "held t = (held s)(i \<mapsto> k)" by (auto simp: held_def t)
  moreover have "held s i = None" using i by (simp add: held_def)
  moreover have "same_connections p p1"
    using same_connections_get [OF g wf] assms(2) by (auto simp: same_connections_def threads_ok_def)
  ultimately show ?thesis
    using assms(2) p1(3) partial_inj_set [of "held s" i k] by (simp add: threads_ok_def t)
qed

lemma threads_ok_return:
  assumes "ps_threads s i = Some x" "threads_ok p s"
  shows "threads_ok p (return_thread i x s)"
proof -
  let ?p = "the_pool (ps_server s)" and ?q = "release_connection (Some (ct_conn x)) (the_pool (ps_server s))"
  have wf: "pool_wf ?p" using assms(2) by (simp add: threads_ok_def same_connections_def)
  have h: "held s i = Some (ct_conn x)" using assms(1) by (simp add: held_def)
  then have "ct_conn x \<in> busy_keys ?p" using assms(2) by (auto simp: threads_ok_def intro: ranI)
  then have q: "busy_keys ?q = busy_keys ?p - {ct_conn x}" using release_keys [OF wf, of "Some (ct_conn x)"] by simp
  have "held (return_thread i x s) = (held s)(i := None)" by (auto simp: held_def return_thread_def)
  moreover have "same_connections p ?q"
    using same_connections_release [OF wf] assms(2) by (auto simp: same_connections_def threads_ok_def)
  ultimately show ?thesis
    using assms(2) q h ran_drop [of "held s" i "ct_conn x"] partial_inj_drop [of "held s" i]
    by (simp add: threads_ok_def return_thread_def)
qed

lemma threads_ok_step:
  assumes "proxy_step e s = Some (Running t)" "threads_ok p s"
  shows "threads_ok p t"
proof (cases e)
  case (Begin_thread i order)
  then show ?thesis using assms threads_ok_begin by simp
next
  case (Relay_turn i env)
  then obtain x where r: "ps_threads s i = Some x" "relay_turn_of i env x s = Some t"
    using assms(1) by (auto split: option.splits if_splits)
  then obtain ph w where x: "ps_threads s i = Some x" "t = set_phase i x ph (set_world w s)"
    using relay_turn_of_phase by blast
  show ?thesis
    by (rule threads_ok_cong [OF assms(2)])
      (use x in \<open>auto simp: set_phase_def set_world_def held_def fun_eq_iff\<close>)
next
  case (Close_client i)
  then obtain x where "ps_threads s i = Some x" "t = close_client i x Closed_once s"
    using assms(1) by (auto split: option.splits if_splits)
  then show ?thesis
    by (intro threads_ok_cong [OF assms(2)]) (simp_all add: held_close, simp add: close_client_def set_phase_def set_world_def)
next
  case (Delete_client i)
  then obtain x where "ps_threads s i = Some x" "t = close_client i x Deleted s"
    using assms(1) by (auto split: option.splits if_splits)
  then show ?thesis
    by (intro threads_ok_cong [OF assms(2)]) (simp_all add: held_close, simp add: close_client_def set_phase_def set_world_def)
next
  case (Return_thread i)
  then show ?thesis using assms threads_ok_return by (auto split: option.splits if_splits)
qed (use assms in \<open>auto simp: accept_client_def held_def fun_eq_iff split: if_splits intro!: threads_ok_cong [OF assms(2)]\<close>)

lemma threads_ok_run: "proxy_run es s = Some (Running t) \<Longrightarrow> threads_ok p s \<Longrightarrow> threads_ok p t"
proof (induction es arbitrary: s)
  case (Cons e es)
  then obtain u where "proxy_step e s = Some (Running u)" "proxy_run es u = Some (Running t)"
    by (auto split: option.splits outcome.splits)
  then show ?case using Cons threads_ok_step by blast
qed simp

lemma threads_ok_initial:
  assumes "pool_wf (the_pool s)" "busy_keys (the_pool s) = {}"
  shows "threads_ok (the_pool s) (proxy_system_initial s)"
  using assms by (simp add: threads_ok_def proxy_system_initial_def held_def [abs_def] same_connections_refl partial_inj_def)

lemma card_held:
  assumes "threads_ok p s" "pool_wf p"
  shows "card (dom (ps_threads s)) = size_busy (the_pool (ps_server s)) \<and>
    size_busy (the_pool (ps_server s)) + size_idle (the_pool (ps_server s)) = pool_size p"
proof -
  let ?q = "the_pool (ps_server s)"
  have wf: "pool_wf ?q" "idle_keys ?q \<union> busy_keys ?q = idle_keys p \<union> busy_keys p"
    using assms(1) unfolding threads_ok_def same_connections_def by blast+
  have "dom (ps_threads s) = dom (held s)" by (auto simp: held_def)
  moreover have "inj_on (held s) (dom (held s))"
    using assms(1) by (auto simp: threads_ok_def partial_inj_def inj_on_def)
  moreover have "held s ` dom (held s) = Some ` ran (held s)" by (force simp: ran_def image_iff)
  ultimately have "card (dom (ps_threads s)) = card (ran (held s))"
    by (metis card_image inj_Some)
  moreover have "card (busy_keys ?q) = size_busy ?q"
    using pool_sizes(1) [OF wf(1)] by simp
  moreover have "pool_size ?q = pool_size p" using pool_wf_size assms(2) wf by metis
  ultimately show ?thesis
    using assms(1) by (simp add: threads_ok_def pool_size_def size_busy_def size_idle_def)
qed

section \<open>Properties\<close>

text \<open>A sample: one connection, one client.\<close>

definition sample_proxy_state :: proxy_system where
  "sample_proxy_state = \<lparr>ps_server = (sample_proxy 0)\<lparr>
       the_pool := \<lparr>m_connections_idle = [],
         m_connections_busy = [(0, fst (snd (tcp_connect sample_tcp (sample_tcp_world 0))))]\<rparr>,
       the_world := snd (snd (tcp_connect sample_tcp (sample_tcp_world 0)))\<rparr>,
     ps_context = Some 7, ps_created = 0,
     ps_threads = [0 \<mapsto> \<lparr>ct_client = 7, ct_conn = 0, ct_phase = Relaying\<rparr>], ps_open = [7]\<rparr>"

lemma sample_proxy_run:
  "proxy_run [Client_accepted 7, Begin_thread 0 [0]] (proxy_system_initial (sample_proxy 0)) =
     Some (Running sample_proxy_state)"
  by (simp add: proxy_system_initial_def accept_client_def begin_thread_def sample_proxy_get sample_proxy_state_def)

lemma sample_proxy_wf: "pool_wf (the_pool (sample_proxy rv))" "busy_keys (the_pool (sample_proxy rv)) = {}"
  by (simp_all add: sample_proxy_def pool_ctor_def pool_wf_def busy_keys_def)

text \<open>C23: Each client thread has a target connection of its own.  In every interleaving of the listening thread
  and the client threads that starts with a well-formed pool of idle connections and goes on, no two threads that have
  begun and not returned hold the same connection, the busy connections are exactly those such threads hold, none
  is lost, and there are never more such threads than connections.  (This is about threads: which client a thread
  serves is read from the listening thread's loop variable, and \<open>thread_takes_later_client\<close> shows two threads
  that serve the same client while another client has none.)\<close>

theorem clients_have_own_connections:
  assumes "pool_wf (the_pool s)" "busy_keys (the_pool s) = {}"
    and "proxy_run es (proxy_system_initial s) = Some (Running t)"
  shows "(\<forall>i j x y. ps_threads t i = Some x \<and> ps_threads t j = Some y \<and> ct_conn x = ct_conn y \<longrightarrow> i = j) \<and>
    busy_keys (the_pool (ps_server t)) = ct_conn ` ran (ps_threads t) \<and>
    pool_size (the_pool (ps_server t)) = pool_size (the_pool s) \<and>
    card (dom (ps_threads t)) \<le> pool_size (the_pool s)"
proof -
  have ok: "threads_ok (the_pool s) t" using threads_ok_run [OF assms(3)] threads_ok_initial [OF assms(1,2)] by blast
  have "ran (held t) = ct_conn ` ran (ps_threads t)" by (auto simp: held_def ran_def)
  moreover have "i = j" if "ps_threads t i = Some x" "ps_threads t j = Some y" "ct_conn x = ct_conn y" for i j x y
    using ok that by (fastforce simp: threads_ok_def partial_inj_def held_def)
  ultimately show ?thesis
    using ok card_held [OF ok assms(1)] by (auto simp: threads_ok_def pool_size_def size_busy_def size_idle_def)
qed

lemma clients_have_own_connections_witness:
  "proxy_run [Client_accepted 7, Begin_thread 0 [0]] (proxy_system_initial (sample_proxy 0)) =
     Some (Running sample_proxy_state) \<and>
   busy_keys (the_pool (ps_server sample_proxy_state)) = ct_conn ` ran (ps_threads sample_proxy_state) \<and>
   card (dom (ps_threads sample_proxy_state)) \<le> pool_size (the_pool (sample_proxy 0))"
  using clients_have_own_connections [OF sample_proxy_wf sample_proxy_run] sample_proxy_run by blast

text \<open>C24: The client that finds every connection taken ends the proxy for all.  A thread that begins,
  whatever the order in which it looks at the idle connections, ends the process exactly if as many
  clients are connected as the pool has connections.\<close>

theorem proxy_dies_when_full:
  assumes "pool_wf (the_pool s)" "busy_keys (the_pool s) = {}"
    and "proxy_run es (proxy_system_initial s) = Some (Running t)"
    and "ps_created t \<noteq> 0" "ps_context t = Some c" "ps_threads t i = None"
    and "set order = idle_keys (the_pool (ps_server t))"
  shows "(\<exists>u. proxy_step (Begin_thread i order) t = Some (Exited 134 u)) \<longleftrightarrow>
    card (dom (ps_threads t)) = pool_size (the_pool s)"
proof -
  let ?p = "the_pool (ps_server t)"
  have ok: "threads_ok (the_pool s) t" using threads_ok_run [OF assms(3)] threads_ok_initial [OF assms(1,2)] by blast
  have "card (dom (ps_threads t)) = pool_size (the_pool s) \<longleftrightarrow> size_idle ?p = 0"
    using card_held [OF ok assms(1)] by linarith
  also have "\<dots> \<longleftrightarrow> m_connections_idle ?p = []" by (simp add: size_idle_def)
  also have "\<dots> \<longleftrightarrow> (\<exists>w1 p1. get_connection tcp_vtable order (the_world (ps_server t)) ?p = (None, w1, p1))"
  proof (cases "m_connections_idle ?p = []")
    case False
    then have "idle_keys ?p \<noteq> {}" by (simp add: idle_keys_def)
    then obtain k where "k \<in> idle_keys ?p" by blast
    then show ?thesis
      using get_connection_finds [OF tcp_check_succeeds, of k order ?p "the_world (ps_server t)"] assms(7) False by auto
  qed (simp add: get_connection_def)
  finally show ?thesis
    using assms(4-6) by (auto simp: begin_thread_def split: option.splits prod.splits)
qed

lemma proxy_dies_when_full_witness:
  "\<exists>t u. proxy_run [Client_accepted 7, Begin_thread 0 [0], Client_accepted 8] (proxy_system_initial (sample_proxy 0)) =
     Some (Running t) \<and> proxy_step (Begin_thread 1 []) t = Some (Exited 134 u)"
proof -
  define t where "t = sample_proxy_state\<lparr>ps_context := Some 8, ps_created := 1, ps_open := [8, 7]\<rparr>"
  have run: "proxy_run [Client_accepted 7, Begin_thread 0 [0], Client_accepted 8] (proxy_system_initial (sample_proxy 0)) =
      Some (Running t)"
    by (simp add: proxy_system_initial_def accept_client_def begin_thread_def sample_proxy_get sample_proxy_state_def t_def)
  have "card (dom (ps_threads t)) = pool_size (the_pool (sample_proxy 0))"
    by (simp add: t_def sample_proxy_state_def sample_proxy_def pool_ctor_def pool_size_def)
  moreover have "set [] = idle_keys (the_pool (ps_server t))"
    by (simp add: t_def sample_proxy_state_def idle_keys_def)
  ultimately have "\<exists>u. proxy_step (Begin_thread 1 []) t = Some (Exited 134 u)"
    using proxy_dies_when_full [OF sample_proxy_wf run, of 8 1 "[]"] by (simp add: t_def sample_proxy_state_def)
  with run show ?thesis by blast
qed

text \<open>A thread that begins after the next connection has been accepted finds that one in the loop variable: clients 7
  and 8 are accepted, both threads serve client 8, over a connection each, and nobody serves client 7.\<close>

definition two_connections :: proxy_server where
  "two_connections = \<lparr>the_pool = pool_ctor [(0, sample_tcp), (1, sample_tcp\<lparr>tc_id := 1\<rparr>)], proxies = Map.empty,
     the_world = sample_tcp_world 0\<rparr>"

lemma thread_takes_later_client:
  "case proxy_run [Client_accepted 7, Client_accepted 8, Begin_thread 0 [0], Begin_thread 1 [1]] (proxy_system_initial two_connections) of
     Some (Running t) \<Rightarrow> map (\<lambda>i. map_option (\<lambda>x. (ct_client x, ct_conn x)) (ps_threads t i)) [0, 1] = [Some (8, 0), Some (8, 1)] \<and>
       ps_created t = 0 \<and> ps_open t = [8, 7]
   | _ \<Rightarrow> False"
  by code_simp

text \<open>The second closing hits a stranger.  A thread closes its client's descriptor and then deletes the
  socket, which closes the same number again.  If the listening thread accepts a connection in
  between, the kernel may give it that number, and the second closing takes the descriptor from the
  new client, whose thread goes on using it.\<close>

theorem second_close_hits_new_client:
  assumes "ps_threads s i = Some x" "ct_phase x = Closed_once" "ct_client x \<notin> set (ps_open s)"
    and "ps_threads s j = None"
    and "get_connection tcp_vtable order (the_world (ps_server s)) (the_pool (ps_server s)) = (Some k, w1, p1)"
  shows "\<exists>t y. proxy_run [Client_accepted (ct_client x), Begin_thread j order, Delete_client i] s = Some (Running t) \<and>
    ps_threads t j = Some y \<and> ct_phase y = Relaying \<and> ct_client y = ct_client x \<and> ct_client y \<notin> set (ps_open t) \<and>
    trace (the_world (ps_server t)) = trace w1 @ [Call_close (ct_client y)]"
proof -
  have "i \<noteq> j" using assms(1,4) by auto
  then show ?thesis
    using assms by (simp add: accept_client_def begin_thread_def close_client_def set_phase_def set_world_def)
qed

definition half_closed :: proxy_system where
  "half_closed = \<lparr>ps_server = sample_proxy 0, ps_context = None, ps_created = 0,
     ps_threads = [0 \<mapsto> \<lparr>ct_client = 7, ct_conn = 1, ct_phase = Closed_once\<rparr>], ps_open = []\<rparr>"

lemma second_close_hits_new_client_witness:
  "\<exists>t y. proxy_run [Client_accepted 7, Begin_thread 1 [0], Delete_client 0] half_closed = Some (Running t) \<and>
    ps_threads t 1 = Some y \<and> ct_phase y = Relaying \<and> ct_client y \<notin> set (ps_open t)"
proof -
  have "get_connection tcp_vtable [0] (the_world (ps_server half_closed)) (the_pool (ps_server half_closed)) =
      (Some 0, snd (snd (tcp_connect sample_tcp (sample_tcp_world 0))),
       \<lparr>m_connections_idle = [], m_connections_busy = [(0, fst (snd (tcp_connect sample_tcp (sample_tcp_world 0))))]\<rparr>)"
    by (simp add: half_closed_def sample_proxy_get)
  from second_close_hits_new_client [of half_closed 0 "\<lparr>ct_client = 7, ct_conn = 1, ct_phase = Closed_once\<rparr>" 1,
      OF _ _ _ _ this]
  show ?thesis by (simp add: half_closed_def) blast
qed

end
