(* ===== verification/TestHarness.thy ===== *)
theory TestHarness
  imports PoolProxy
begin

text \<open>
  The test harness of the connection pool, \<open>connection-pool/include/unittest.h\<close>, and the tests
  that use it, \<open>connection-pool/test/test_basic.h\<close> and \<open>tests.cpp\<close>.  The macros become functions
  on the variables they declare in the test's function; what they print is left out.  The assertions
  on \<open>float\<close> and \<open>double\<close> are not modelled (they need rounding), nor those on time (the macro that
  ends them lacks a semicolon and does not compile).
\<close>

unbundle bit_operations_syntax

section \<open>Assertions\<close>

record test_vars =
  test_exc :: int
  test_count_all :: int
  test_count_passed :: int

definition UNITTEST_SETUP :: test_vars where
  "UNITTEST_SETUP = \<lparr>test_exc = 0, test_count_all = 0, test_count_passed = 0\<rparr>"

definition CASE_BEGIN :: "test_vars \<Rightarrow> test_vars" where
  "CASE_BEGIN v = v\<lparr>test_count_all := test_count_all v + 1\<rparr>"

definition SUCCESS :: "test_vars \<Rightarrow> test_vars" where
  "SUCCESS v = v\<lparr>test_count_passed := test_count_passed v + 1\<rparr>"

definition ASSERT_TRUE :: "bool \<Rightarrow> test_vars \<Rightarrow> test_vars" where
  "ASSERT_TRUE b v = (let v1 = CASE_BEGIN v in if b then SUCCESS v1 else v1)"

definition ASSERT_FALSE :: "bool \<Rightarrow> test_vars \<Rightarrow> test_vars" where
  "ASSERT_FALSE b v = (let v1 = CASE_BEGIN v in if \<not> b then SUCCESS v1 else v1)"

definition ASSERT_INT_EQUAL :: "int \<Rightarrow> int \<Rightarrow> test_vars \<Rightarrow> test_vars" where
  "ASSERT_INT_EQUAL x expected v = (let v1 = CASE_BEGIN v in if x = expected then SUCCESS v1 else v1)"

definition ASSERT_CSTR_EQUAL :: "string \<Rightarrow> string \<Rightarrow> test_vars \<Rightarrow> test_vars" where
  "ASSERT_CSTR_EQUAL x expected v =
     (let v1 = CASE_BEGIN v in if c_str x = c_str expected then SUCCESS v1 else v1)"

text \<open>Traps are counters of type \<open>unsigned int\<close>; the numbers they are compared with are converted.\<close>

definition TRAP_START :: "32 word \<Rightarrow> 32 word" where
  "TRAP_START trap = 0"

definition TRAP_ACTIVATE :: "32 word \<Rightarrow> 32 word" where
  "TRAP_ACTIVATE trap = trap + 1"

definition TRAP_HIT_END :: "32 word \<Rightarrow> test_vars \<Rightarrow> test_vars" where
  "TRAP_HIT_END trap v = (let v1 = CASE_BEGIN v in if trap \<noteq> 0 then SUCCESS v1 else v1)"

definition TRAP_NOT_HIT_END :: "32 word \<Rightarrow> test_vars \<Rightarrow> test_vars" where
  "TRAP_NOT_HIT_END trap v = (let v1 = CASE_BEGIN v in if trap \<noteq> 0 then v1 else SUCCESS v1)"

definition TRAP_HIT_COUNT_END :: "32 word \<Rightarrow> int \<Rightarrow> test_vars \<Rightarrow> test_vars" where
  "TRAP_HIT_COUNT_END trap n v = (let v1 = CASE_BEGIN v in if trap = word_of_int n then SUCCESS v1 else v1)"

definition TRAP_HIT_MORE_END :: "32 word \<Rightarrow> int \<Rightarrow> test_vars \<Rightarrow> test_vars" where
  "TRAP_HIT_MORE_END trap n v = (let v1 = CASE_BEGIN v in if word_of_int n < trap then SUCCESS v1 else v1)"

definition TRAP_HIT_LESS_END :: "32 word \<Rightarrow> int \<Rightarrow> test_vars \<Rightarrow> test_vars" where
  "TRAP_HIT_LESS_END trap n v = (let v1 = CASE_BEGIN v in if trap < word_of_int n then SUCCESS v1 else v1)"

text \<open>How a block between \<open>EXCEPTION_START\<close> and one of the ends is left; an exception is of the type a
  test asks for, another \<open>std::exception\<close>, or anything else.\<close>

datatype block_end = Finished | Asked_exception | Std_exception | Other_exception

definition EXCEPTION_START :: "test_vars \<Rightarrow> test_vars" where
  "EXCEPTION_START v = CASE_BEGIN v"

definition NOEXCEPTION_END :: "block_end \<Rightarrow> test_vars \<Rightarrow> test_vars" where
  "NOEXCEPTION_END b v =
     (let v1 = (if b = Finished then v else v\<lparr>test_exc := 1\<rparr>);
          v2 = (if test_exc v1 = 0 then SUCCESS v1 else v1)
      in v2\<lparr>test_exc := 0\<rparr>)"

definition THROWEXCEPTION_END :: "block_end \<Rightarrow> test_vars \<Rightarrow> test_vars" where
  "THROWEXCEPTION_END b v = (if b = Finished then v else SUCCESS (v\<lparr>test_exc := 1\<rparr>))\<lparr>test_exc := 0\<rparr>"

definition EXCEPTIONTYPE_END :: "block_end \<Rightarrow> test_vars \<Rightarrow> test_vars" where
  "EXCEPTIONTYPE_END b v = (if b = Asked_exception then SUCCESS (v\<lparr>test_exc := 1\<rparr>) else v)\<lparr>test_exc := 0\<rparr>"

definition UNITTEST_END :: "test_vars \<Rightarrow> int" where
  "UNITTEST_END v = (if test_count_all v = test_count_passed v then 1 else 0)"

section \<open>The block that runs the tests\<close>

record test_block =
  unittest_all :: "32 word"
  unittest_passed :: "32 word"

definition RUNBLOCK_BEGIN :: test_block where
  "RUNBLOCK_BEGIN = \<lparr>unittest_all = 0, unittest_passed = 0\<rparr>"

definition UNITTEST_EXEC :: "int \<Rightarrow> test_block \<Rightarrow> test_block" where
  "UNITTEST_EXEC result r =
     r\<lparr>unittest_all := unittest_all r + 1, unittest_passed := unittest_passed r + word_of_int result\<rparr>"

definition GET_FAILED :: "test_block \<Rightarrow> 32 word" where
  "GET_FAILED r = unittest_all r - unittest_passed r"

text \<open>\<open>exit\<close> gives the parent process the low eight bits of its argument.\<close>

definition EXITPROG :: "test_block \<Rightarrow> nat" where
  "EXITPROG r = unat (GET_FAILED r AND 255)"

section \<open>The tests\<close>

definition assert_sizes :: "int \<Rightarrow> int \<Rightarrow> int \<Rightarrow> 'c pool \<Rightarrow> test_vars \<Rightarrow> test_vars" where
  "assert_sizes busy idle all p v =
     ASSERT_INT_EQUAL (int (pool_size p)) all
       (ASSERT_INT_EQUAL (int (size_idle p)) idle (ASSERT_INT_EQUAL (int (size_busy p)) busy v))"

definition check_sizes :: "nat \<Rightarrow> nat \<Rightarrow> nat \<Rightarrow> 'c pool \<Rightarrow> test_vars \<Rightarrow> test_vars" where
  "check_sizes busy idle all p v =
     ASSERT_TRUE (pool_size p = all) (ASSERT_TRUE (size_idle p = idle) (ASSERT_TRUE (size_busy p = busy) v))"

text \<open>
  The two tests are the same text for two classes.  \<open>order\<close> and \<open>order2\<close> are the orders in which
  the idle map is visited by \<open>get_connection\<close> and \<open>heart_beat\<close>; variable 0 is \<open>connection\<close>.  A
  null connection is dereferenced (\<open>None\<close>), an exception leaves the test (\<open>None\<close> as well: nothing
  above catches it).
\<close>

definition pool_test ::
  "('c, 'w) connection_vtable \<Rightarrow> nat list \<Rightarrow> nat list \<Rightarrow> ('c, 'w) pool_world \<Rightarrow> (int \<times> ('c, 'w) pool_world) option" where
  "pool_test vt order order2 s0 =
     (let v0 = assert_sizes 0 4 4 (the_pool s0) UNITTEST_SETUP;
          s1 = pool_step vt (Get 0 order) s0;
          x = the (proxies s1 0);
          v1 = check_sizes 1 3 4 (the_pool s1) (ASSERT_TRUE (proxy_valid x (the_pool s1)) v0) in
      case m_connection x of
        None \<Rightarrow> None
      | Some k \<Rightarrow>
          (case map_of (m_connections_busy (the_pool s1)) k of
             None \<Rightarrow> None
           | Some c \<Rightarrow>
               (case vt_is_healthy vt c (the_world s1) of
                  (Inl e, _) \<Rightarrow> None
                | (Inr healthy, c1, w1) \<Rightarrow>
                    let s2 = s1\<lparr>the_world := w1, the_pool := (the_pool s1)
                              \<lparr>m_connections_busy := AList.update k c1 (m_connections_busy (the_pool s1))\<rparr>\<rparr>;
                        v2 = ASSERT_TRUE healthy v1;
                        s3 = pool_step vt (Release 0) s2;
                        v3 = check_sizes 0 4 4 (the_pool s3) v2 in
                    (case beat_all vt order2 (the_world s3) (the_pool s3) of
                       (Some e, w4, p4) \<Rightarrow> None
                     | (None, w4, p4) \<Rightarrow>
                         Some (UNITTEST_END v3, pool_step vt (Destroy_proxy 0) (s3\<lparr>the_world := w4, the_pool := p4\<rparr>))))))"

definition testconnection :: "nat list \<Rightarrow> nat list \<Rightarrow> int option" where
  "testconnection order order2 =
     map_option fst (pool_test test_vtable order order2 \<lparr>the_pool = test_create 4, proxies = Map.empty, the_world = ()\<rparr>)"

text \<open>\<open>as\<close> is what the environment answers to the four connections the pool opens.\<close>

definition clickhouseconnection ::
  "nat list \<Rightarrow> nat list \<Rightarrow> (resolver \<times> int \<times> int) list \<Rightarrow> tcp_world \<Rightarrow> int option" where
  "clickhouseconnection order order2 as w =
     (case tcp_create (take 4 as) ''localhost'' 8123 w of
        None \<Rightarrow> None
      | Some (Inl e, w1) \<Rightarrow> None
      | Some (Inr p, w1) \<Rightarrow>
          map_option fst (pool_test tcp_vtable order order2 \<lparr>the_pool = p, proxies = Map.empty, the_world = w1\<rparr>))"

definition runTests ::
  "nat list \<Rightarrow> nat list \<Rightarrow> nat list \<Rightarrow> nat list \<Rightarrow> (resolver \<times> int \<times> int) list \<Rightarrow> tcp_world \<Rightarrow> test_block option" where
  "runTests o1 o2 o3 o4 as w =
     (case testconnection o1 o2 of
        None \<Rightarrow> None
      | Some r1 \<Rightarrow>
          map_option (\<lambda>r2. UNITTEST_EXEC r2 (UNITTEST_EXEC r1 RUNBLOCK_BEGIN)) (clickhouseconnection o3 o4 as w))"

section \<open>What the harness counts\<close>

named_theorems harness_defs \<open>the macros\<close>

declare UNITTEST_SETUP_def [harness_defs] CASE_BEGIN_def [harness_defs] SUCCESS_def [harness_defs]
  ASSERT_TRUE_def [harness_defs] ASSERT_FALSE_def [harness_defs] ASSERT_INT_EQUAL_def [harness_defs]
  ASSERT_CSTR_EQUAL_def [harness_defs] TRAP_HIT_END_def [harness_defs] TRAP_NOT_HIT_END_def [harness_defs]
  TRAP_HIT_COUNT_END_def [harness_defs] TRAP_HIT_MORE_END_def [harness_defs] TRAP_HIT_LESS_END_def [harness_defs]
  EXCEPTION_START_def [harness_defs] NOEXCEPTION_END_def [harness_defs] THROWEXCEPTION_END_def [harness_defs]
  EXCEPTIONTYPE_END_def [harness_defs] Let_def [harness_defs]

text \<open>An assertion as the test's author means it, and the macros it is written with.\<close>

datatype assertion =
    Holds bool
  | Fails bool
  | Equals int int
  | Same_text string string
  | Trap_hit "32 word"
  | Trap_missed "32 word"
  | Trap_times "32 word" int
  | Trap_more "32 word" int
  | Trap_less "32 word" int
  | Throws_nothing block_end
  | Throws block_end
  | Throws_asked block_end

fun perform :: "assertion \<Rightarrow> test_vars \<Rightarrow> test_vars" where
  "perform (Holds b) v = ASSERT_TRUE b v"
| "perform (Fails b) v = ASSERT_FALSE b v"
| "perform (Equals x y) v = ASSERT_INT_EQUAL x y v"
| "perform (Same_text x y) v = ASSERT_CSTR_EQUAL x y v"
| "perform (Trap_hit t) v = TRAP_HIT_END t v"
| "perform (Trap_missed t) v = TRAP_NOT_HIT_END t v"
| "perform (Trap_times t n) v = TRAP_HIT_COUNT_END t n v"
| "perform (Trap_more t n) v = TRAP_HIT_MORE_END t n v"
| "perform (Trap_less t n) v = TRAP_HIT_LESS_END t n v"
| "perform (Throws_nothing b) v = NOEXCEPTION_END b (EXCEPTION_START v)"
| "perform (Throws b) v = THROWEXCEPTION_END b (EXCEPTION_START v)"
| "perform (Throws_asked b) v = EXCEPTIONTYPE_END b (EXCEPTION_START v)"

fun meant :: "assertion \<Rightarrow> bool" where
  "meant (Holds b) = b"
| "meant (Fails b) = (\<not> b)"
| "meant (Equals x y) = (x = y)"
| "meant (Same_text x y) = (c_str x = c_str y)"
| "meant (Trap_hit t) = (0 < unat t)"
| "meant (Trap_missed t) = (unat t = 0)"
| "meant (Trap_times t n) = (uint t = n mod 2 ^ 32)"
| "meant (Trap_more t n) = (n mod 2 ^ 32 < uint t)"
| "meant (Trap_less t n) = (uint t < n mod 2 ^ 32)"
| "meant (Throws_nothing b) = (b = Finished)"
| "meant (Throws b) = (b \<noteq> Finished)"
| "meant (Throws_asked b) = (b = Asked_exception)"

lemma word_of_int_order:
  fixes t :: "32 word"
  shows "t = word_of_int n \<longleftrightarrow> uint t = n mod 4294967296" "word_of_int n < t \<longleftrightarrow> n mod 4294967296 < uint t"
    "t < word_of_int n \<longleftrightarrow> uint t < n mod 4294967296"
  by (simp_all add: word_uint_eq_iff word_less_def uint_word_of_int)

lemma perform_counts:
  assumes "test_exc v = 0"
  shows "perform a v = v\<lparr>test_count_all := test_count_all v + 1,
    test_count_passed := test_count_passed v + (if meant a then 1 else 0)\<rparr>"
  using assms
  by (cases a) (auto simp: harness_defs word_of_int_order unat_gt_0 unat_eq_zero)

lemma performs_count:
  "test_exc v = 0 \<Longrightarrow> fold perform as v = v\<lparr>test_count_all := test_count_all v + int (length as),
    test_count_passed := test_count_passed v + int (length (filter meant as))\<rparr>"
  by (induction as arbitrary: v) (simp_all add: perform_counts)

text \<open>A test succeeds exactly if all its assertions do.  Whatever assertions a test makes, in whatever
  order - on values, on traps, on blocks that throw -, the function it is returns 1 if every one of
  them means what is the case, and 0 otherwise.\<close>

theorem test_returns_all_meant:
  "UNITTEST_END (fold perform as UNITTEST_SETUP) = (if list_all meant as then 1 else 0)"
proof -
  have "length (filter meant as) \<le> length as" by (rule length_filter_le)
  moreover have "length (filter meant as) = length as \<longleftrightarrow> list_all meant as"
  proof (induction as)
    case (Cons a as)
    have "length (filter meant as) \<le> length as" by (rule length_filter_le)
    then show ?case using Cons by (cases "meant a") (simp_all, metis Suc_n_not_le_n length_filter_le)
  qed simp
  ultimately show ?thesis by (auto simp: performs_count UNITTEST_SETUP_def UNITTEST_END_def)
qed

text \<open>An exit status has eight bits: a program with a multiple of 256 failed tests reports success.\<close>

definition run_results :: "int list \<Rightarrow> test_block" where
  "run_results rs = fold UNITTEST_EXEC rs RUNBLOCK_BEGIN"

lemma run_results_counts:
  assumes "list_all (\<lambda>r. r = 0 \<or> r = 1) rs"
  shows "GET_FAILED (run_results rs) = of_nat (length (filter (\<lambda>r. r = 0) rs))"
proof -
  have "GET_FAILED (fold UNITTEST_EXEC rs r) = GET_FAILED r + of_nat (length (filter (\<lambda>r. r = 0) rs))" for r
    using assms by (induction rs arbitrary: r) (auto simp: GET_FAILED_def UNITTEST_EXEC_def)
  then show ?thesis by (simp add: run_results_def RUNBLOCK_BEGIN_def GET_FAILED_def)
qed

text \<open>The exit status of a test program is the number of its failed tests modulo 256: with 256 failed
  tests it reports success.\<close>

theorem exit_status_wraps:
  assumes "list_all (\<lambda>r. r = 0 \<or> r = 1) rs"
  shows "EXITPROG (run_results rs) = length (filter (\<lambda>r. r = 0) rs) mod 256"
proof -
  have "unat (w AND 255) = unat w mod 256" for w :: "32 word"
  proof -
    have "w AND 255 = take_bit 8 w" by (simp add: take_bit_eq_mask mask_eq_exp_minus_1)
    then show ?thesis by (simp add: take_bit_eq_mod unat_mod)
  qed
  then have "EXITPROG (run_results rs) = unat (of_nat (length (filter (\<lambda>r. r = 0) rs)) :: 32 word) mod 256"
    by (simp add: EXITPROG_def run_results_counts [OF assms])
  also have "\<dots> = length (filter (\<lambda>r. r = 0) rs) mod 2 ^ 32 mod 256" by (simp add: unsigned_of_nat take_bit_eq_mod)
  also have "\<dots> = length (filter (\<lambda>r. r = 0) rs) mod 256" by (simp add: mod_mod_cancel)
  finally show ?thesis .
qed

lemma exit_status_wraps_witness: "EXITPROG (run_results (replicate 256 0)) = 0"
  using exit_status_wraps [of "replicate 256 0"] by (simp add: list_all_length)

section \<open>The tests of the pool\<close>

lemma beat_all_quiet:
  assumes "\<And>c w. \<exists>b. vt_heart_beat vt c w = (Inr b, c, w)"
  shows "\<exists>p1. beat_all vt ks w p = (None, w, p1)"
proof (induction ks arbitrary: p)
  case (Cons k ks)
  show ?case
  proof (cases "map_of (m_connections_idle p) k")
    case None
    then show ?thesis using Cons [of p] by simp
  next
    case (Some c)
    obtain b where "vt_heart_beat vt c w = (Inr b, c, w)" using assms by blast
    then show ?thesis
      using Some Cons [of "p\<lparr>m_connections_idle := AList.update k c (m_connections_idle p)\<rparr>"] by simp
  qed
qed simp

lemma keys_update: "k \<in> fst ` set al \<Longrightarrow> fst ` set (AList.update k c al) = fst ` set al"
  by (auto simp: dom_update)

lemma pool_test_result:
  assumes "pool_wf p" "busy_keys p = {}" "card (idle_keys p) = 4"
    and "get_connection vt order w p = (Some k, w1, p1)" "map_of (m_connections_busy p1) k = Some c"
    and "vt_is_healthy vt c w1 = (Inr healthy, c, w1)"
    and "\<And>c w. \<exists>b. vt_heart_beat vt c w = (Inr b, c, w)"
  shows "\<exists>t. pool_test vt order order2 \<lparr>the_pool = p, proxies = Map.empty, the_world = w\<rparr> =
    Some (if healthy then 1 else 0, t)"
proof -
  define p2 where "p2 = p1\<lparr>m_connections_busy := AList.update k c (m_connections_busy p1)\<rparr>"
  define p3 where "p3 = release_connection (Some k) p2"
  have p1: "pool_wf p1" "k \<in> idle_keys p" "idle_keys p1 = idle_keys p - {k}" "busy_keys p1 = {k}"
    using get_connection_keys [OF assms(4,1)] assms(2) by auto
  have p2: "pool_wf p2" "idle_keys p2 = idle_keys p1" "busy_keys p2 = {k}"
    using p1(1,4) keys_update [of k "m_connections_busy p1" c]
    by (auto simp: p2_def pool_wf_def idle_keys_def busy_keys_def distinct_update)
  have p3: "pool_wf p3" "idle_keys p3 = idle_keys p" "busy_keys p3 = {}"
    using release_keys [OF p2(1), of "Some k"] p2 p1(2,3) by (auto simp: p3_def)
  have "finite (idle_keys p)" by (simp add: idle_keys_def)
  then have sizes: "size_busy p = 0 \<and> size_idle p = 4 \<and> pool_size p = 4"
    "size_busy p1 = 1 \<and> size_idle p1 = 3 \<and> pool_size p1 = 4"
    "size_busy p3 = 0 \<and> size_idle p3 = 4 \<and> pool_size p3 = 4"
    using assms(1-3) p1 p3 by (simp_all add: pool_sizes card_Diff_singleton)
  obtain p4 where p4: "beat_all vt order2 w1 p3 = (None, w1, p4)" using beat_all_quiet [OF assms(7)] by blast
  define r where "r = UNITTEST_END (check_sizes 0 4 4 p3 (ASSERT_TRUE healthy (check_sizes 1 3 4 p1
      (ASSERT_TRUE True (assert_sizes 0 4 4 p UNITTEST_SETUP)))))"
  have "r = (if healthy then 1 else 0)"
    using sizes by (simp add: r_def check_sizes_def assert_sizes_def harness_defs UNITTEST_END_def)
  moreover have "\<exists>t. pool_test vt order order2 \<lparr>the_pool = p, proxies = Map.empty, the_world = w\<rparr> = Some (r, t)"
    using assms(4-6) p4 unfolding r_def
    by (simp add: pool_test_def proxy_valid_def Let_def flip: p2_def p3_def)
  ultimately show ?thesis by simp
qed

lemma tcp_create_from_keys:
  "tcp_create_from made as name port w = Some (Inr ys, w1) \<Longrightarrow> map fst made = [0..<length made] \<Longrightarrow>
   map fst ys = [0..<length made + length as]"
proof (induction made as name port w rule: tcp_create_from.induct)
  case (2 made r rv sock as name port w)
  then show ?case
    by (auto simp: Let_def split: option.splits completion.splits)
qed simp

lemma tcp_create_wf:
  assumes "tcp_create as name port w = Some (Inr p, w1)"
  shows "pool_wf p" "busy_keys p = {}" "idle_keys p = {..<length as}"
proof -
  obtain z where z: "tcp_create_from [] as name port w = Some (z, w1)" "map_sum id pool_ctor z = Inr p"
    using assms by (auto simp: tcp_create_def)
  then obtain ys where ys: "tcp_create_from [] as name port w = Some (Inr ys, w1)" "p = pool_ctor ys"
    by (cases z) auto
  have "map fst ys = [0..<length as]" using tcp_create_from_keys [OF ys(1)] by simp
  moreover from this have "fst ` set ys = {..<length as}" by (metis atLeast0LessThan list.set_map set_upt)
  ultimately show "pool_wf p" "busy_keys p = {}" "idle_keys p = {..<length as}"
    by (simp_all add: ys(2) pool_ctor_def pool_wf_def busy_keys_def idle_keys_def)
qed

lemma testconnection_passes:
  assumes "k < 4" "k \<in> set order"
  shows "testconnection order order2 = Some 1"
proof -
  let ?p = "test_create 4"
  have p: "pool_wf ?p" "busy_keys ?p = {}" "idle_keys ?p = {..<4}"
    by (auto simp: test_create_def pool_ctor_def pool_wf_def busy_keys_def idle_keys_def image_image comp_def)
  obtain j w1 p1 where g: "get_connection test_vtable order () ?p = (Some j, w1, p1)"
    using get_connection_finds [OF test_check_succeeds, of k order ?p "()"] assms p(3) by auto
  obtain c where c: "map_of (m_connections_busy p1) j = Some c" "test_connected c"
    using test_class.get_connection_usable [OF g] test_never_throws by blast
  have "\<exists>t. pool_test test_vtable order order2 \<lparr>the_pool = ?p, proxies = Map.empty, the_world = ()\<rparr> =
      Some (if test_connected c then 1 else 0, t)"
    by (rule pool_test_result [OF p(1,2) _ g c(1)]) (simp_all add: p(3) test_vtable_def)
  then show ?thesis using c(2) by (auto simp: testconnection_def)
qed

lemma clickhouseconnection_fails:
  assumes "k < 4" "k \<in> set order" "length as = 4" "tcp_create as ''localhost'' 8123 w = Some (Inr p, w0)"
  shows "clickhouseconnection order order2 as w = Some 0"
proof -
  have p: "pool_wf p" "busy_keys p = {}" "idle_keys p = {..<4}"
    using tcp_create_wf [OF assms(4)] assms(3) by simp_all
  obtain j w1 p1 where g: "get_connection tcp_vtable order w0 p = (Some j, w1, p1)"
    using get_connection_finds [OF tcp_check_succeeds, of k order p w0] assms(1,2) p(3) by auto
  have "j \<in> busy_keys p1" using get_connection_keys [OF g p(1)] by simp
  then obtain c where c: "map_of (m_connections_busy p1) j = Some c"
    by (metis busy_keys_def map_of_keys not_None_eq)
  have "\<exists>t. pool_test tcp_vtable order order2 \<lparr>the_pool = p, proxies = Map.empty, the_world = w0\<rparr> =
      Some (if False then 1 else 0, t)"
    by (rule pool_test_result [OF p(1,2) _ g c]) (simp_all add: p(3) tcp_vtable_def)
  then show ?thesis using assms(3,4) by (auto simp: clickhouseconnection_def)
qed

text \<open>The repository's tests, run on the model.  However the maps are visited and whatever the network
  does (as long as the four connections can be opened), the test of \<open>TestConnection\<close> passes and the
  test of \<open>TcpConnection\<close> fails: of two tests one is reported failed, because \<open>is_healthy\<close> of a
  \<open>TcpConnection\<close> is false.\<close>

theorem tests_report_one_failure:
  assumes "set o1 = {..<4}" "set o3 = {..<4}" "length as = 4"
    and "tcp_create as ''localhost'' 8123 w = Some (Inr p, w0)"
  shows "testconnection o1 o2 = Some 1 \<and> clickhouseconnection o3 o4 as w = Some 0 \<and>
    (\<exists>r. runTests o1 o2 o3 o4 as w = Some r \<and> unittest_all r = 2 \<and> unittest_passed r = 1 \<and> GET_FAILED r = 1)"
proof -
  have "testconnection o1 o2 = Some 1" by (rule testconnection_passes [of 0]) (simp_all add: assms(1))
  moreover have "clickhouseconnection o3 o4 as w = Some 0"
    by (rule clickhouseconnection_fails [OF _ _ assms(3,4), of 0]) (simp_all add: assms(2))
  ultimately show ?thesis
    by (simp add: runTests_def RUNBLOCK_BEGIN_def UNITTEST_EXEC_def GET_FAILED_def)
qed

lemma tests_report_one_failure_witness:
  "\<exists>r. runTests [3, 1, 0, 2] [] [0, 1, 2, 3] [0] (replicate 4 (\<lparr>by_name = True, by_addr = True\<rparr>, 0, 20))
      (sample_tcp_world 0) = Some r \<and> GET_FAILED r = 1"
proof -
  have "\<exists>p w0. tcp_create (replicate 4 (\<lparr>by_name = True, by_addr = True\<rparr>, 0, 20)) ''localhost'' 8123 (sample_tcp_world 0) =
      Some (Inr p, w0)"
    by (simp add: tcp_create_def numeral_eq_Suc client_ctor_def pool_Connect_def Resolve_def is_alpha_def c_str_def
        sample_tcp_world_def CreateSocket_def Let_def)
  then obtain p w0 where "tcp_create (replicate 4 (\<lparr>by_name = True, by_addr = True\<rparr>, 0, 20)) ''localhost'' 8123
      (sample_tcp_world 0) = Some (Inr p, w0)" by blast
  moreover have "set [3, 1, 0, 2] = {..<4::nat}" "set [0, 1, 2, 3] = {..<4::nat}" by auto
  moreover have "length (replicate 4 (\<lparr>by_name = True, by_addr = True\<rparr>, 0 :: int, 20 :: int)) = 4" by simp
  ultimately show ?thesis using tests_report_one_failure by blast
qed

end
