(* ===== verification/ListenThread.thy ===== *)
theory ListenThread
  imports ServerDispatch Payload
begin

text \<open>
  The listening thread of \<open>CServerSocket.cpp\<close> in detail: what \<open>StartListeningThread\<close> writes into
  the object's \<open>NODE_INFO\<close>, the loop of \<open>ListenThreadProc\<close> with the \<open>CLIENT_DATA\<close> it fills for
  each connection, and how a failing \<open>accept\<close> leaves it.  (\<open>ServerDispatch\<close> has what happens to
  these descriptions afterwards.)
\<close>

section \<open>Addresses\<close>

fun decimal :: "nat \<Rightarrow> string" where
  "decimal n = (if n < 10 then [char_of (48 + n)] else decimal (n div 10) @ [char_of (48 + n mod 10)])"

declare decimal.simps [simp del]

text \<open>The address as its four bytes in memory.\<close>

record sockaddr_in =
  sin_port :: "16 word"
  sin_addr :: "8 word list"

text \<open>\<open>GetIPAddressAsString\<close>: \<open>inet_ntop\<close> writes dotted decimals.\<close>

fun GetIPAddress :: "8 word list \<Rightarrow> string" where
  "GetIPAddress [] = []"
| "GetIPAddress [b] = decimal (unat b)"
| "GetIPAddress (b # bs) = decimal (unat b) @ [CHR ''.''] @ GetIPAddress bs"

text \<open>The constructor clears the address and sets family and port.\<close>

definition server_address :: "int \<Rightarrow> sockaddr_in" where
  "server_address port = \<lparr>sin_port = htons (port_of port), sin_addr = replicate 4 0\<rparr>"

section \<open>Starting the thread\<close>

text \<open>An instance is an address, 0 the null pointer; arrays are their bytes.\<close>

record NODE_INFO =
  ni_node_info :: string
  ni_mode :: int
  ni_instance :: nat

record CLIENT_DATA =
  cd_client_port :: fd
  cd_remote_addr :: string
  cd_instance :: nat
  cd_node_info :: string
  cd_mode :: int
  cd_client_socket :: fd

definition StartListeningThread :: "nat \<Rightarrow> string \<Rightarrow> NODE_INFO \<Rightarrow> (bool \<times> NODE_INFO) option" where
  "StartListeningThread this node_info info =
     (case strcpy (ni_node_info info) node_info of
        None \<Rightarrow> None
      | Some t \<Rightarrow>
          let info1 = info\<lparr>ni_node_info := t, ni_mode := 1, ni_instance := this\<rparr>
          in Some (ni_instance info1 \<noteq> 0, info1))"

section \<open>The thread\<close>

text \<open>
  One iteration up to the push of the task: \<open>c\<close> and \<open>err\<close> are the result of \<open>accept\<close>, \<open>mem\<close> what
  \<open>remote_addr\<close> held.  An exception leaves the thread's function and ends the process; a null
  socket is dereferenced (\<open>None\<close>).
\<close>

definition describe_client ::
  "NODE_INFO \<Rightarrow> sockaddr_in \<Rightarrow> fd \<Rightarrow> int \<Rightarrow> errno \<Rightarrow> string \<Rightarrow> os \<Rightarrow> (CLIENT_DATA option \<times> os) outcome option" where
  "describe_client info address f c err mem s =
     (case server_Accept f c err s of
        (Inl m, s1) \<Rightarrow> Some (Exited 134 (None, s1))
      | (Inr None, s1) \<Rightarrow> None
      | (Inr (Some new_sock), s1) \<Rightarrow>
          (case strcpy mem (GetIPAddress (sin_addr address)) of
             None \<Rightarrow> None
           | Some remote \<Rightarrow>
               Some (Running (Some \<lparr>cd_client_port = new_sock, cd_remote_addr = remote, cd_instance = ni_instance info,
                  cd_node_info = take 255 (ni_node_info info), cd_mode = ni_mode info, cd_client_socket = new_sock\<rparr>, s1))))"

text \<open>The descriptions made, in order; the list of results ends where the observation ends.\<close>

fun listen_loop ::
  "NODE_INFO \<Rightarrow> sockaddr_in \<Rightarrow> fd \<Rightarrow> (int \<times> errno \<times> string) list \<Rightarrow> CLIENT_DATA list \<Rightarrow> os \<Rightarrow>
   (CLIENT_DATA list \<times> os) outcome option" where
  "listen_loop info address f [] ds s = Some (Running (ds, s))"
| "listen_loop info address f ((c, err, mem) # rs) ds s =
     (case describe_client info address f c err mem s of
        None \<Rightarrow> None
      | Some (Exited code (d, s1)) \<Rightarrow> Some (Exited code (ds, s1))
      | Some (Running (Some d, s1)) \<Rightarrow> listen_loop info address f rs (ds @ [d]) s1
      | Some (Running (None, s1)) \<Rightarrow> listen_loop info address f rs ds s1)"

definition ListenThreadProc ::
  "NODE_INFO \<Rightarrow> sockaddr_in \<Rightarrow> fd \<Rightarrow> (int \<times> errno \<times> string) list \<Rightarrow> os \<Rightarrow> (CLIENT_DATA list \<times> os) outcome option" where
  "ListenThreadProc lpParameter address f rs s =
     (if ni_instance lpParameter = 0 then Some (Running ([], s)) else listen_loop lpParameter address f rs [] s)"

text \<open>\<open>ClientThreadProc\<close>: the routine works on a copy, and its exceptions end here.\<close>

definition ClientThreadProc :: "(CLIENT_DATA \<Rightarrow> 's \<Rightarrow> 's completion) \<Rightarrow> CLIENT_DATA \<Rightarrow> 's \<Rightarrow> 's" where
  "ClientThreadProc thread_routine d s = state_of (thread_routine d s)"

section \<open>Properties\<close>

lemma decimal_zero: "decimal 0 = ''0''"
  by code_simp

lemma GetIPAddress_any: "GetIPAddress (replicate 4 0) = ''0.0.0.0''"
proof -
  have "replicate 4 (0::8 word) = [0, 0, 0, 0]" by (simp add: eval_nat_numeral)
  then show ?thesis by (simp add: decimal_zero)
qed

definition accepted :: "int \<times> errno \<times> string \<Rightarrow> bool" where
  "accepted r = (fst r \<noteq> -1 \<and> length (snd (snd r)) = 32)"

lemma describe_client_accepted:
  assumes "accepted (c, err, mem)"
  shows "\<exists>d. describe_client info (server_address port) f c err mem s = Some (Running (Some d, emit (Call_accept f) s)) \<and>
    cd_client_port d = c \<and> cd_client_socket d = c \<and> c_str (cd_remote_addr d) = ''0.0.0.0'' \<and>
    cd_node_info d = take 255 (ni_node_info info) \<and> cd_mode d = ni_mode info \<and> cd_instance d = ni_instance info"
proof -
  have ip: "c_str ''0.0.0.0'' = ''0.0.0.0''" by (rule c_str_id) simp
  have "strcpy mem ''0.0.0.0'' = Some (''0.0.0.0'' @ NUL # drop 8 mem)"
    using assms ip by (simp add: strcpy_fits accepted_def eval_nat_numeral)
  moreover have "c_str (''0.0.0.0'' @ NUL # drop 8 mem) = ''0.0.0.0''"
    unfolding c_str_cut by (rule ip)
  ultimately show ?thesis
    using assms by (simp add: describe_client_def server_Accept_def accepted_def server_address_def GetIPAddress_any)
qed

lemma listen_loop_accepted:
  assumes "list_all accepted rs"
  shows "\<exists>ds' t. listen_loop info (server_address port) f (rs @ others) ds s =
      listen_loop info (server_address port) f others (ds @ ds') t \<and>
    map cd_client_port ds' = map fst rs \<and>
    list_all (\<lambda>d. cd_client_socket d = cd_client_port d \<and> c_str (cd_remote_addr d) = ''0.0.0.0'' \<and>
      cd_node_info d = take 255 (ni_node_info info) \<and> cd_mode d = ni_mode info \<and> cd_instance d = ni_instance info) ds'"
  using assms
proof (induction rs arbitrary: ds s)
  case Nil
  show ?case by (intro exI [of _ "[]"] exI [of _ s]) simp
next
  case (Cons r rs)
  obtain c err mem where r: "r = (c, err, mem)" by (cases r)
  obtain d where d: "describe_client info (server_address port) f c err mem s = Some (Running (Some d, emit (Call_accept f) s))"
    "cd_client_port d = c" "cd_client_socket d = c" "c_str (cd_remote_addr d) = ''0.0.0.0''"
    "cd_node_info d = take 255 (ni_node_info info)" "cd_mode d = ni_mode info" "cd_instance d = ni_instance info"
    using describe_client_accepted [of c err mem info port f s] Cons.prems r by auto
  from Cons.IH [of "ds @ [d]" "emit (Call_accept f) s"] Cons.prems obtain ds' t where
    "listen_loop info (server_address port) f (rs @ others) (ds @ [d]) (emit (Call_accept f) s) =
       listen_loop info (server_address port) f others ((ds @ [d]) @ ds') t"
    "map cd_client_port ds' = map fst rs"
    "list_all (\<lambda>d. cd_client_socket d = cd_client_port d \<and> c_str (cd_remote_addr d) = ''0.0.0.0'' \<and>
      cd_node_info d = take 255 (ni_node_info info) \<and> cd_mode d = ni_mode info \<and> cd_instance d = ni_instance info) ds'"
    by auto
  then show ?case using d r by (intro exI [of _ "d # ds'"] exI [of _ t]) simp
qed

text \<open>C36: A name of up to 254 characters reaches every connection.  Starting the listening thread is
  defined exactly if the name and its NUL fit into the 255 bytes; then every accepted connection is
  described, in order, by its own descriptor, that name, mode 1 and the server's instance - and by
  the server's own address, 0.0.0.0, in place of the client's.\<close>

theorem connections_described:
  assumes "length (ni_node_info info) = 255" "this \<noteq> 0" "list_all accepted rs"
  shows "(StartListeningThread this name info \<noteq> None \<longleftrightarrow> length (c_str name) < 255) \<and>
    (\<forall>ok info1. StartListeningThread this name info = Some (ok, info1) \<longrightarrow> ok \<and>
      (\<exists>ds t. ListenThreadProc info1 (server_address port) f rs s = Some (Running (ds, t)) \<and>
        map cd_client_port ds = map fst rs \<and>
        list_all (\<lambda>d. c_str (cd_node_info d) = c_str name \<and> c_str (cd_remote_addr d) = ''0.0.0.0'' \<and>
          cd_mode d = 1 \<and> cd_instance d = this) ds))"
proof (cases "length (c_str name) < 255")
  case False
  then show ?thesis using assms(1) by (simp add: StartListeningThread_def strcpy_def Let_def)
next
  case True
  define buf where "buf = c_str name @ NUL # drop (Suc (length (c_str name))) (ni_node_info info)"
  define info1 where "info1 = info\<lparr>ni_node_info := buf, ni_mode := 1, ni_instance := this\<rparr>"
  have len: "length buf = 255" using True assms(1) by (simp add: buf_def)
  have start: "StartListeningThread this name info = Some (True, info1)"
    using True assms(1,2) by (simp add: StartListeningThread_def strcpy_fits buf_def info1_def)
  obtain ds t where ds: "listen_loop info1 (server_address port) f (rs @ []) [] s =
      listen_loop info1 (server_address port) f [] ([] @ ds) t" "map cd_client_port ds = map fst rs"
    "list_all (\<lambda>d. cd_client_socket d = cd_client_port d \<and> c_str (cd_remote_addr d) = ''0.0.0.0'' \<and>
      cd_node_info d = take 255 (ni_node_info info1) \<and> cd_mode d = ni_mode info1 \<and> cd_instance d = ni_instance info1) ds"
    using listen_loop_accepted [OF assms(3), of info1 port f "[]" "[]" s] by blast
  have "c_str (take 255 (ni_node_info info1)) = c_str name"
    using len by (simp add: info1_def) (simp add: buf_def c_str_cut)
  then have "list_all (\<lambda>d. c_str (cd_node_info d) = c_str name \<and> c_str (cd_remote_addr d) = ''0.0.0.0'' \<and>
      cd_mode d = 1 \<and> cd_instance d = this) ds"
    using ds(3) by (auto simp: list_all_iff info1_def)
  moreover have "ListenThreadProc info1 (server_address port) f rs s = Some (Running (ds, t))"
    using ds(1) assms(2) by (simp add: ListenThreadProc_def info1_def)
  ultimately show ?thesis using start ds(2) True by auto
qed

lemma connections_described_witness:
  "\<exists>info1 ds t. StartListeningThread 4096 ''<str>''
      \<lparr>ni_node_info = replicate 255 (CHR ''x''), ni_mode = 0, ni_instance = 0\<rparr> = Some (True, info1) \<and>
    ListenThreadProc info1 (server_address 8080) 4 [(5, EAGAIN, replicate 32 NUL), (6, EAGAIN, replicate 32 NUL)]
      \<lparr>trace = []\<rparr> = Some (Running (ds, t)) \<and>
    map cd_client_port ds = [5, 6] \<and> list_all (\<lambda>d. c_str (cd_node_info d) = ''<str>'') ds"
proof -
  let ?info = "\<lparr>ni_node_info = replicate 255 (CHR ''x''), ni_mode = 0, ni_instance = 0\<rparr>"
  let ?rs = "[(5, EAGAIN, replicate 32 NUL), (6, EAGAIN, replicate 32 NUL)]"
  have name: "c_str ''<str>'' = ''<str>''" by (rule c_str_id) simp
  have rs: "list_all accepted ?rs" by (simp add: accepted_def)
  have main: "(StartListeningThread 4096 ''<str>'' ?info \<noteq> None \<longleftrightarrow> length (c_str ''<str>'') < 255) \<and>
    (\<forall>ok info1. StartListeningThread 4096 ''<str>'' ?info = Some (ok, info1) \<longrightarrow> ok \<and>
      (\<exists>ds t. ListenThreadProc info1 (server_address 8080) 4 ?rs \<lparr>trace = []\<rparr> = Some (Running (ds, t)) \<and>
        map cd_client_port ds = map fst ?rs \<and>
        list_all (\<lambda>d. c_str (cd_node_info d) = c_str ''<str>'' \<and> c_str (cd_remote_addr d) = ''0.0.0.0'' \<and>
          cd_mode d = 1 \<and> cd_instance d = 4096) ds))"
    by (rule connections_described [OF _ _ rs]) simp_all
  then have "StartListeningThread 4096 ''<str>'' ?info \<noteq> None" by (simp add: name)
  then obtain ok info1 where i: "StartListeningThread 4096 ''<str>'' ?info = Some (ok, info1)" by auto
  with main obtain ds t where "ok" "ListenThreadProc info1 (server_address 8080) 4 ?rs \<lparr>trace = []\<rparr> = Some (Running (ds, t))"
    "map cd_client_port ds = [5, 6]" "list_all (\<lambda>d. c_str (cd_node_info d) = c_str ''<str>'' \<and>
      c_str (cd_remote_addr d) = ''0.0.0.0'' \<and> cd_mode d = 1 \<and> cd_instance d = 4096) ds" by auto
  then show ?thesis using i unfolding name by (fastforce simp: list_all_iff)
qed

text \<open>One failing \<open>accept\<close> ends the server.  Whatever has been accepted before, a call that fails -
  because the client has already given up, or the process is out of descriptors - throws out of the
  thread's function and the process ends with everything it was serving; only \<open>EAGAIN\<close> is treated
  apart, and there a null pointer is dereferenced.\<close>

theorem accept_error_ends_server:
  assumes "list_all accepted rs" "e \<noteq> EAGAIN"
  shows "(\<exists>ds t. listen_loop info (server_address port) f (rs @ (-1, e, mem) # others) [] s = Some (Exited 134 (ds, t)) \<and>
      map cd_client_port ds = map fst rs) \<and>
    listen_loop info (server_address port) f (rs @ (-1, EAGAIN, mem) # others) [] s = None"
proof -
  obtain ds t where "listen_loop info (server_address port) f (rs @ (-1, e, mem) # others) [] s =
      listen_loop info (server_address port) f ((-1, e, mem) # others) ds t" "map cd_client_port ds = map fst rs"
    using listen_loop_accepted [OF assms(1), of info port f "(-1, e, mem) # others" "[]" s] by auto
  moreover obtain ds' u where "listen_loop info (server_address port) f (rs @ (-1, EAGAIN, mem) # others) [] s =
      listen_loop info (server_address port) f ((-1, EAGAIN, mem) # others) ds' u"
    using listen_loop_accepted [OF assms(1), of info port f "(-1, EAGAIN, mem) # others" "[]" s] by auto
  ultimately show ?thesis using assms(2) by (simp add: describe_client_def server_Accept_def)
qed

lemma accept_error_ends_server_witness:
  "\<exists>ds t. listen_loop \<lparr>ni_node_info = replicate 255 NUL, ni_mode = 1, ni_instance = 4096\<rparr> (server_address 8080) 4
      ([(5, EAGAIN, replicate 32 NUL)] @ (-1, EOTHER 103, []) # []) [] \<lparr>trace = []\<rparr> = Some (Exited 134 (ds, t)) \<and>
    map cd_client_port ds = [5]"
  using accept_error_ends_server [of "[(5, EAGAIN, replicate 32 NUL)]" "EOTHER 103"
      "\<lparr>ni_node_info = replicate 255 NUL, ni_mode = 1, ni_instance = 4096\<rparr>" 8080 4 "[]" "[]" "\<lparr>trace = []\<rparr>"]
  by (simp add: accepted_def)

end
