(* ===== verification/LogDatabase.thy ===== *)
theory LogDatabase
  imports LogService
begin

text \<open>
  What stands behind the logger's media: \<open>util/SQLAccess.h\<close> with \<open>DbContentWriter\<close>, the network
  writer's configuration from the environment, and the one instance of \<open>Logger\<close>.  SQLite is outside
  the repository: its calls are the fields of a record \<open>sqlite\<close> over an arbitrary state \<open>'d\<close>.
\<close>

section \<open>SQLAccess\<close>

text \<open>A handle is a number, 0 the null pointer; a failing \<open>exec\<close> may have no message.\<close>

record 'd sqlite =
  s3_open :: "string \<Rightarrow> 'd \<Rightarrow> int \<times> nat \<times> 'd"
  s3_close :: "nat \<Rightarrow> 'd \<Rightarrow> 'd"
  s3_exec :: "nat \<Rightarrow> string \<Rightarrow> 'd \<Rightarrow> int \<times> string option \<times> 'd"
  s3_prepare :: "nat \<Rightarrow> string \<Rightarrow> 'd \<Rightarrow> int \<times> nat \<times> 'd"
  s3_column_count :: "nat \<Rightarrow> 'd \<Rightarrow> nat"
  s3_step :: "nat \<Rightarrow> 'd \<Rightarrow> int \<times> 'd"
  s3_column_text :: "nat \<Rightarrow> nat \<Rightarrow> 'd \<Rightarrow> string option"
  s3_finalize :: "nat \<Rightarrow> 'd \<Rightarrow> 'd"

definition SQLITE_OK :: int where
  "SQLITE_OK = 0"

definition SQLITE_ROW :: int where
  "SQLITE_ROW = 100"

record sql_access =
  databaseName :: string
  db :: nat

text \<open>The handle is kept whatever \<open>sqlite3_open\<close> answers, and only the handle is asked for later.\<close>

definition SQLAccess_ctor :: "'d sqlite \<Rightarrow> string \<Rightarrow> 'd \<Rightarrow> sql_access \<times> 'd" where
  "SQLAccess_ctor lib dbName d =
     (case s3_open lib (c_str dbName) d of (r, h, d1) \<Rightarrow> (\<lparr>databaseName = dbName, db = h\<rparr>, d1))"

definition SQLAccess_dtor :: "'d sqlite \<Rightarrow> sql_access \<Rightarrow> 'd \<Rightarrow> 'd" where
  "SQLAccess_dtor lib a d = (if db a \<noteq> 0 then s3_close lib (db a) d else d)"

definition sql_Open :: "sql_access \<Rightarrow> bool" where
  "sql_Open a \<longleftrightarrow> db a \<noteq> 0"

text \<open>A null message is printed (\<open>None\<close>).\<close>

definition executeQuery :: "'d sqlite \<Rightarrow> string \<Rightarrow> sql_access \<Rightarrow> 'd \<Rightarrow> (bool \<times> 'd) option" where
  "executeQuery lib query a d =
     (case s3_exec lib (db a) (c_str query) d of
        (r, errorMessage, d1) \<Rightarrow>
          if r \<noteq> SQLITE_OK then (if errorMessage = None then None else Some (False, d1)) else Some (True, d1))"

definition row_of :: "'d sqlite \<Rightarrow> nat \<Rightarrow> nat \<Rightarrow> 'd \<Rightarrow> string list" where
  "row_of lib statement columnCount d =
     map (\<lambda>i. case s3_column_text lib statement i d of None \<Rightarrow> [] | Some columnValue \<Rightarrow> c_str columnValue) [0..<columnCount]"

text \<open>The loop over the rows, which ends only when the statement does.\<close>

partial_function (option) select_rows ::
  "'d sqlite \<Rightarrow> nat \<Rightarrow> nat \<Rightarrow> string list list \<Rightarrow> 'd \<Rightarrow> (string list list \<times> 'd) option" where
  "select_rows lib statement columnCount resultRows d =
     (if fst (s3_step lib statement d) = SQLITE_ROW
      then select_rows lib statement columnCount
        (resultRows @ [row_of lib statement columnCount (snd (s3_step lib statement d))]) (snd (s3_step lib statement d))
      else Some (resultRows, snd (s3_step lib statement d)))"

definition executeSelect ::
  "'d sqlite \<Rightarrow> string \<Rightarrow> sql_access \<Rightarrow> 'd \<Rightarrow> (string list list \<times> 'd) option" where
  "executeSelect lib query a d =
     (case s3_prepare lib (db a) (c_str query) d of
        (r, statement, d1) \<Rightarrow>
          if r = SQLITE_OK
          then map_option (\<lambda>(rows, d2). (rows, s3_finalize lib statement d2))
            (select_rows lib statement (s3_column_count lib statement d1) [] d1)
          else Some ([], d1))"

section \<open>DbContentWriter\<close>

definition create_table :: string where
  "create_table = ''CREATE TABLE IF NOT EXISTS logs (logcontent TEXT);''"

definition DbContentWriter_ctor :: "'d sqlite \<Rightarrow> 'd \<Rightarrow> (sql_access \<times> 'd) option" where
  "DbContentWriter_ctor lib d =
     (case SQLAccess_ctor lib ''./Logstorage.db'' d of
        (a, d1) \<Rightarrow>
          if sql_Open a then map_option (\<lambda>(ok, d2). (a, d2)) (executeQuery lib create_table a d1) else Some (a, d1))"

definition db_WriteToMedia :: "'d sqlite \<Rightarrow> string \<Rightarrow> sql_access \<Rightarrow> 'd \<Rightarrow> (bool \<times> 'd) option" where
  "db_WriteToMedia lib logcontent a d =
     (if sql_Open a then executeQuery lib (insert_query logcontent) a d else Some (False, d))"

section \<open>The network writer and the instance\<close>

text \<open>\<open>std::stoi\<close>: \<open>None\<close> when it throws.\<close>

definition stoi :: "string \<Rightarrow> int option" where
  "stoi s =
     (let t = dropWhile is_space (c_str s);
          neg = (t \<noteq> [] \<and> hd t = CHR ''-'');
          u = (if t \<noteq> [] \<and> (hd t = CHR ''-'' \<or> hd t = CHR ''+'') then tl t else t);
          v = (if neg then - int (read_digits 0 u) else int (read_digits 0 u)) in
      if u = [] \<or> digit_val (hd u) = None then None
      else if v < - (2 ^ 31) \<or> 2 ^ 31 \<le> v then None
      else Some v)"

definition NetworkContentWriter_ctor ::
  "(string \<Rightarrow> string option) \<Rightarrow> resolver \<Rightarrow> int \<Rightarrow> int \<Rightarrow> 'a os_scheme \<Rightarrow> (fd \<times> 'a os_scheme completion) option" where
  "NetworkContentWriter_ctor getenv r sock rv s =
     (let domain = (case getenv ''NETWORK_LOGGER_HOST'' of Some h \<Rightarrow> h | None \<Rightarrow> ''127.0.0.1'') in
      case (case getenv ''NETWORK_LOGGER_PORT'' of Some p \<Rightarrow> stoi p | None \<Rightarrow> Some 5170) of
        None \<Rightarrow> Some (0, Raised ''stoi'' s)
      | Some port \<Rightarrow> TcpClient_ctor (c_str domain) port r sock rv s)"

text \<open>\<open>Logger\<close>'s constructor with its reading of the environment; the strategies other than the
  network's cannot fail.\<close>

definition Logger_new ::
  "(string \<Rightarrow> string option) \<Rightarrow> string \<Rightarrow> resolver \<Rightarrow> int \<Rightarrow> int \<Rightarrow> 'a os_scheme \<Rightarrow>
   (log_state \<times> 'a os_scheme completion) option" where
  "Logger_new getenv today r sock rv s =
     (let loggerType = (case getenv ''LOGGER_TYPE'' of Some t \<Rightarrow> t | None \<Rightarrow> []) in
      if CreateLogger loggerType = Net_strategy
      then map_option (\<lambda>(f, c). (fst (logger_ctor loggerType today f), c)) (NetworkContentWriter_ctor getenv r sock rv s)
      else Some (fst (logger_ctor loggerType today 0), Done s))"

text \<open>\<open>getInstance\<close>: an exception of the constructor leaves the instance null.\<close>

definition getInstance ::
  "(string \<Rightarrow> string option) \<Rightarrow> string \<Rightarrow> resolver \<Rightarrow> int \<Rightarrow> int \<Rightarrow> log_state option \<Rightarrow> 'a os_scheme \<Rightarrow>
   (log_state option \<times> 'a os_scheme completion) option" where
  "getInstance getenv today r sock rv ins s =
     (case ins of
        Some l \<Rightarrow> Some (Some l, Done s)
      | None \<Rightarrow>
          (case Logger_new getenv today r sock rv s of
             None \<Rightarrow> None
           | Some (l, Done s1) \<Rightarrow> Some (Some l, Done s1)
           | Some (l, Raised m s1) \<Rightarrow> Some (None, Raised m s1)))"

section \<open>Reading rows\<close>

text \<open>What a statement delivers from a state \<open>d\<close> on: the rows \<open>rs\<close>, ending in state \<open>e\<close>.\<close>

fun delivers :: "'d sqlite \<Rightarrow> nat \<Rightarrow> nat \<Rightarrow> string option list list \<Rightarrow> 'd \<Rightarrow> 'd \<Rightarrow> bool" where
  "delivers lib st n [] d e \<longleftrightarrow> fst (s3_step lib st d) \<noteq> SQLITE_ROW \<and> snd (s3_step lib st d) = e"
| "delivers lib st n (r # rs) d e \<longleftrightarrow>
     fst (s3_step lib st d) = SQLITE_ROW \<and>
     map (\<lambda>i. s3_column_text lib st i (snd (s3_step lib st d))) [0..<n] = r \<and>
     delivers lib st n rs (snd (s3_step lib st d)) e"

definition shown :: "string option list \<Rightarrow> string list" where
  "shown r = map (\<lambda>c. case c of None \<Rightarrow> [] | Some t \<Rightarrow> c_str t) r"

lemma row_of_shown: "row_of lib st n d = shown (map (\<lambda>i. s3_column_text lib st i d) [0..<n])"
  by (simp add: row_of_def shown_def)

lemma select_rows_delivers:
  "delivers lib st n rs d e \<Longrightarrow> select_rows lib st n acc d = Some (acc @ map shown rs, e)"
proof (induction rs arbitrary: acc d)
  case Nil
  then show ?case by (simp add: select_rows.simps [of lib st n acc d])
next
  case (Cons r rs)
  then show ?case by (simp add: select_rows.simps [of lib st n acc d]) (auto simp: row_of_shown)
qed

lemma select_rows_returns:
  "select_rows lib st n acc d = Some y \<Longrightarrow> \<exists>rs. delivers lib st n rs d (snd y) \<and> fst y = acc @ map shown rs"
proof (rule select_rows.raw_induct [where P = "\<lambda>lib st n acc d y.
    \<exists>rs. delivers lib st n rs d (snd y) \<and> fst y = acc @ map shown rs"])
  fix f lib st n acc d y
  assume IH: "\<And>lib st n acc d y. f lib st n acc d = Some y \<Longrightarrow>
      \<exists>rs. delivers lib st n rs d (snd y) \<and> fst y = acc @ map shown rs"
    and step: "(if fst (s3_step lib st d) = SQLITE_ROW
      then f lib st n (acc @ [row_of lib st n (snd (s3_step lib st d))]) (snd (s3_step lib st d))
      else Some (acc, snd (s3_step lib st d))) = Some y"
  show "\<exists>rs. delivers lib st n rs d (snd y) \<and> fst y = acc @ map shown rs"
  proof (cases "fst (s3_step lib st d) = SQLITE_ROW")
    case True
    then obtain rs where "delivers lib st n rs (snd (s3_step lib st d)) (snd y)"
      "fst y = (acc @ [row_of lib st n (snd (s3_step lib st d))]) @ map shown rs"
      using step IH by (metis (no_types, lifting))
    then show ?thesis using True
      by (intro exI [of _ "map (\<lambda>i. s3_column_text lib st i (snd (s3_step lib st d))) [0..<n] # rs"]) (simp add: row_of_shown)
  next
    case False
    then show ?thesis using step by (intro exI [of _ "[]"]) auto
  qed
qed

text \<open>C37: \<open>executeSelect\<close> returns exactly the rows the statement delivers, and returns exactly if it
  delivers finitely many.  The rows come in order, a NULL column as the empty string and a text up to
  its first NUL byte, and the statement is finalized.  What ended the rows is not looked at: a
  statement that fails after some rows looks like one that is done.\<close>

theorem select_returns_delivered:
  assumes "s3_prepare lib (db a) (c_str query) d = (SQLITE_OK, st, d1)"
  shows "executeSelect lib query a d = Some (rows, d2) \<longleftrightarrow>
    (\<exists>rs e. delivers lib st (s3_column_count lib st d1) rs d1 e \<and> rows = map shown rs \<and> d2 = s3_finalize lib st e)"
proof
  assume "executeSelect lib query a d = Some (rows, d2)"
  then obtain e where "select_rows lib st (s3_column_count lib st d1) [] d1 = Some (rows, e)" "d2 = s3_finalize lib st e"
    using assms by (auto simp: executeSelect_def)
  then show "\<exists>rs e. delivers lib st (s3_column_count lib st d1) rs d1 e \<and> rows = map shown rs \<and> d2 = s3_finalize lib st e"
    using select_rows_returns by fastforce
next
  assume "\<exists>rs e. delivers lib st (s3_column_count lib st d1) rs d1 e \<and> rows = map shown rs \<and> d2 = s3_finalize lib st e"
  then obtain rs e where r: "delivers lib st (s3_column_count lib st d1) rs d1 e" "rows = map shown rs" "d2 = s3_finalize lib st e"
    by blast
  show "executeSelect lib query a d = Some (rows, d2)"
    using assms select_rows_delivers [OF r(1), of "[]"] r(2,3) by (simp add: executeSelect_def)
qed

text \<open>A library whose state is the rows still to come, the current row, and the finalized statements.\<close>

definition sample_sqlite :: "(string option list list \<times> string option list \<times> nat list) sqlite" where
  "sample_sqlite = \<lparr>s3_open = (\<lambda>name d. (SQLITE_OK, 1, d)), s3_close = (\<lambda>h d. d), s3_exec = (\<lambda>h q d. (SQLITE_OK, None, d)),
     s3_prepare = (\<lambda>h q d. (SQLITE_OK, 7, d)), s3_column_count = (\<lambda>st d. 2),
     s3_step = (\<lambda>st d. case d of ([], c, f) \<Rightarrow> (101, [], c, f) | (r # rs, c, f) \<Rightarrow> (SQLITE_ROW, rs, r, f)),
     s3_column_text = (\<lambda>st i d. fst (snd d) ! i),
     s3_finalize = (\<lambda>st d. case d of (rs, c, f) \<Rightarrow> (rs, c, f @ [st]))\<rparr>"

lemma select_returns_delivered_witness:
  "executeSelect sample_sqlite ''SELECT'' \<lparr>databaseName = ''x'', db = 1\<rparr>
     ([[Some ''ab'', None], [Some ''c'', Some ''d'']], [], []) =
   Some ([[''ab'', []], [''c'', ''d'']], ([], [Some ''c'', Some ''d''], [7]))"
proof -
  let ?d = "([[Some ''ab'', None], [Some ''c'', Some ''d'']], [], [])"
  let ?a = "\<lparr>databaseName = ''x'', db = 1\<rparr>"
  have p: "s3_prepare sample_sqlite (db ?a) (c_str ''SELECT'') ?d = (SQLITE_OK, 7, ?d)"
    by (simp add: sample_sqlite_def)
  let ?rs = "[[Some ''ab'', None], [Some ''c'', Some ''d'']]"
  let ?e = "([], [Some ''c'', Some ''d''], [])"
  have cc: "s3_column_count sample_sqlite 7 ?d = 2" by (simp add: sample_sqlite_def)
  have "delivers sample_sqlite 7 2 ?rs ?d ?e"
    by (simp add: sample_sqlite_def SQLITE_ROW_def upt_conv_Cons numeral_2_eq_2)
  moreover have "[[''ab'', []], [''c'', ''d'']] = map shown ?rs" by (simp add: shown_def c_str_def)
  moreover have "([], [Some ''c'', Some ''d''], [7]) = s3_finalize sample_sqlite 7 ?e" by (simp add: sample_sqlite_def)
  ultimately show ?thesis
    unfolding select_returns_delivered [OF p] cc by (intro exI conjI)
qed

section \<open>What a logged text becomes\<close>

text \<open>The lexical rule of SQL, as documented: a text constant ends at the first quote that is not
  doubled.  The value, and what follows, of the text behind an opening quote.\<close>

abbreviation QUOTE :: char where
  "QUOTE \<equiv> CHR 0x27"

fun sql_literal :: "string \<Rightarrow> (string \<times> string) option" where
  "sql_literal [] = None"
| "sql_literal [c] = (if c = QUOTE then Some ([], []) else None)"
| "sql_literal (c # e # s) =
     (if c = QUOTE then (if e = QUOTE then map_option (\<lambda>(v, r). (QUOTE # v, r)) (sql_literal s) else Some ([], e # s))
      else map_option (\<lambda>(v, r). (c # v, r)) (sql_literal (e # s)))"

definition doubled :: "string \<Rightarrow> string" where
  "doubled v = concat (map (\<lambda>c. if c = QUOTE then [QUOTE, QUOTE] else [c]) v)"

text \<open>The text constant and the rest of the statement that the database gets for a logged text.\<close>

definition inserted :: "string \<Rightarrow> (string \<times> string) option" where
  "inserted logcontent =
     sql_literal (drop (length (''INSERT INTO logs VALUES('' @ [QUOTE])) (c_str (insert_query logcontent)))"

lemma sql_literal_splits: "sql_literal s = Some (v, r) \<Longrightarrow> s = doubled v @ QUOTE # r"
  by (induction s arbitrary: v r rule: sql_literal.induct) (auto simp: doubled_def split: if_splits)

lemma sql_literal_plain: "QUOTE \<notin> set a \<Longrightarrow> e \<noteq> QUOTE \<Longrightarrow> sql_literal (a @ QUOTE # e # s) = Some (a, e # s)"
proof (induction a)
  case (Cons c a)
  then show ?case by (cases a) auto
qed simp

lemma doubled_id: "doubled v = v \<Longrightarrow> QUOTE \<notin> set v"
proof (induction v)
  case (Cons c v)
  have len: "length v \<le> length (doubled v)" for v by (induction v) (auto simp: doubled_def)
  have "c \<noteq> QUOTE"
  proof
    assume "c = QUOTE"
    then have "length (doubled (c # v)) = Suc (Suc (length (doubled v)))" by (simp add: doubled_def)
    then show False using len [of v] Cons.prems by simp
  qed
  then show ?case using Cons by (simp add: doubled_def)
qed simp

lemma inserted_literal:
  "NUL \<notin> set logcontent \<Longrightarrow> inserted logcontent = sql_literal (logcontent @ QUOTE # '');'')"
  by (simp add: inserted_def insert_query_def c_str_id)

text \<open>Logged text is stored as it is exactly if it has no quotation mark; otherwise it is read as SQL.
  For a text without NUL bytes the statement inserts the text itself, and ends behind it, if and only
  if there is no quotation mark in it.  If there is one (not followed by another), the inserted text
  ends there, and the rest of the logged text is read as part of the SQL statement.\<close>

theorem logged_text_becomes_sql:
  assumes "NUL \<notin> set logcontent"
  shows "(inserted logcontent = Some (logcontent, '');'') \<longleftrightarrow> QUOTE \<notin> set logcontent) \<and>
    (\<forall>a e b. logcontent = a @ QUOTE # e # b \<and> QUOTE \<notin> set a \<and> e \<noteq> QUOTE \<longrightarrow>
      inserted logcontent = Some (a, e # b @ QUOTE # '');''))"
proof -
  have "QUOTE \<notin> set logcontent" if "inserted logcontent = Some (logcontent, '');'')"
  proof -
    have "sql_literal (logcontent @ QUOTE # '');'') = Some (logcontent, '');'')"
      using that by (simp add: inserted_literal [OF assms])
    from sql_literal_splits [OF this] show ?thesis using doubled_id [of logcontent] by simp
  qed
  moreover have "inserted logcontent = Some (logcontent, '');'')" if "QUOTE \<notin> set logcontent"
    using that assms sql_literal_plain [of logcontent "CHR '')''" "'';''"] by (simp add: inserted_literal)
  ultimately show ?thesis using assms sql_literal_plain by (auto simp: inserted_literal)
qed

lemma logged_text_becomes_sql_witness:
  "inserted (''x'' @ QUOTE # ''); DROP TABLE logs; --'') =
     Some (''x'', ''); DROP TABLE logs; --'' @ QUOTE # '');'')"
proof -
  have "inserted (''x'' @ QUOTE # CHR '')'' # ''; DROP TABLE logs; --'') =
      Some (''x'', CHR '')'' # ''; DROP TABLE logs; --'' @ QUOTE # '');'')"
    by (rule logged_text_becomes_sql [THEN conjunct2, rule_format]) auto
  then show ?thesis by simp
qed

section \<open>The instance\<close>

text \<open>Without a reachable server the network logger never comes to be: every call of \<open>Log\<close> makes a
  new attempt that throws, and the failed attempts leave no socket open.\<close>

lemma unreachable_logger:
  assumes "getenv ''LOGGER_TYPE'' = Some ''NET''" "getenv ''NETWORK_LOGGER_HOST'' = None" "getenv ''NETWORK_LOGGER_PORT'' = None"
    and "by_addr r" "sock \<noteq> -1"
  shows "getInstance getenv today r sock (-1) None s =
    Some (None, Raised ''TcpClient:: Error connecting to the server''
      (emit (Call_close sock) (emit (Call_connect sock (port_of 5170)) (emit Call_socket s))))"
  using assms
  by (simp add: getInstance_def Logger_new_def NetworkContentWriter_ctor_def TcpClient_ctor_def CreateLogger_def
      Resolve_def is_alpha_def c_str_def Let_def)

text \<open>The port is cut to 16 bits: 65536 + 5170 in the environment connects to 5170.\<close>

lemma network_port_wraps:
  assumes "getenv ''NETWORK_LOGGER_HOST'' = None" "getenv ''NETWORK_LOGGER_PORT'' = Some p" "stoi p = Some v"
    and "by_addr r" "sock \<noteq> -1" "rv \<noteq> -1"
  shows "NetworkContentWriter_ctor getenv r sock rv s =
    Some (sock, Done (emit (Call_connect sock (port_of (v mod 2 ^ 16))) (emit Call_socket s)))"
proof -
  have "port_of (v mod 2 ^ 16) = port_of v"
    by (simp add: port_of_def word_of_int_eq_iff take_bit_eq_mod)
  then show ?thesis
    using assms by (simp add: NetworkContentWriter_ctor_def TcpClient_ctor_def Resolve_def is_alpha_def c_str_def Let_def)
qed

end
