(* ===== verification/TlsEchoMain.thy ===== *)
theory TlsEchoMain
  imports TlsEcho
begin

text \<open>
  \<open>ssl-client/Client.cpp\<close> from \<open>main\<close>: the arguments, the OpenSSL context, the client's connection
  and the common clean-up, around the loops of \<open>TlsEcho\<close>.  What OpenSSL answers is in the
  environment; a context is what has been asked of it.
\<close>

section \<open>Contexts\<close>

datatype tls_method = Server_method | Client_method

record tls_context =
  ctx_method :: tls_method
  ctx_chain :: "string option"
  ctx_key :: "string option"
  ctx_verify_peer :: bool
  ctx_default_paths :: bool

record echo_env =
  ee_ctx_new :: bool  \<comment> \<open>\<open>SSL_CTX_new\<close> yields a context\<close>
  ee_use_chain :: int
  ee_use_key :: int
  ee_setup :: setup_env
  ee_clients :: "(int \<times> int \<times> recv_res list) list"
  ee_resolver :: resolver
  ee_connect :: int
  ee_ssl_connect :: int
  ee_request_write :: int
  ee_request_read :: recv_res
  ee_lines :: "(string \<times> int \<times> recv_res) list"

text \<open>\<open>None\<close> where the program exits with status 1.  A new context verifies nothing.\<close>

definition create_context :: "bool \<Rightarrow> bool \<Rightarrow> tls_context option" where
  "create_context isServer ctx_new =
     (let method = (if isServer then Server_method else Client_method) in
      if \<not> ctx_new then None
      else Some \<lparr>ctx_method = method, ctx_chain = None, ctx_key = None, ctx_verify_peer = False, ctx_default_paths = False\<rparr>)"

definition configure_server_context :: "int \<Rightarrow> int \<Rightarrow> tls_context \<Rightarrow> tls_context option" where
  "configure_server_context chain key ctx =
     (if chain \<le> 0 then None
      else
        let ctx1 = ctx\<lparr>ctx_chain := Some ''cert.pem''\<rparr> in
        if key \<le> 0 then None else Some (ctx1\<lparr>ctx_key := Some ''key.pem''\<rparr>))"

definition configure_client_context :: "tls_context \<Rightarrow> tls_context" where
  "configure_client_context ctx = ctx\<lparr>ctx_verify_peer := False, ctx_default_paths := True\<rparr>"

definition echo_context :: "bool \<Rightarrow> echo_env \<Rightarrow> tls_context option" where
  "echo_context isServer e =
     Option.bind (create_context isServer (ee_ctx_new e))
       (\<lambda>ctx. if isServer then configure_server_context (ee_use_chain e) (ee_use_key e) ctx
              else Some (configure_client_context ctx))"

section \<open>main\<close>

definition crlf :: string where
  "crlf = [CHR 0x0D, CHR 0x0A]"

definition echo_request :: string where
  "echo_request =
     ''POST /session/v1/login-request?request_id=cd1e0a0c-01ee-41fa-b7c3-39f30006afc7&databaseName=demo&schemaName=test&warehouse=compute_wh HTTP/1.1'' @ crlf @
     ''Host: ip24827.ap-southeast-1.snowflakecomputing.com'' @ crlf @
     ''User-Agent: PythonConnector/3.7.1 (macOS-14.2.1-arm64-arm-64bit) CPython/3.12.2'' @ crlf @
     ''Accept-Encoding: gzip, deflate'' @ crlf @
     ''accept: application/snowflake'' @ crlf @
     ''Connection: keep-alive'' @ crlf @
     ''Content-Type: application/json'' @ crlf @
     ''Content-Encoding: gzip'' @ crlf @
     ''Content-Length: 354'' @ crlf @
     ''Authorization: Snowflake Token='' @ [CHR 0x22] @ ''None'' @ [CHR 0x22] @ crlf @
     crlf @
     [CHR 0x5C] @ ''U0000001''"

text \<open>The client: resolving (an exception ends the process, a null host pointer is dereferenced),
  connecting, the request and the keyboard loop; at \<open>exit:\<close> the socket is closed.\<close>

definition client_cleanup :: "fd \<Rightarrow> echo_state \<Rightarrow> echo_state outcome" where
  "client_cleanup f s = Exited 0 (emit (Call_close f) s)"

definition echo_client_branch ::
  "echo_env \<Rightarrow> string \<Rightarrow> echo_state \<Rightarrow> (stuck + echo_state outcome) option" where
  "echo_client_branch e rem_server_ip s =
     (case create_socket False (ee_setup e) s of
        Exited c s1 \<Rightarrow> Some (Inr (Exited c s1))
      | Running s1 \<Rightarrow>
          (let f = e_socket (ee_setup e) in
           case echo_resolve rem_server_ip (ee_resolver e) of
             Inl m \<Rightarrow> Some (Inr (Exited 134 s1))
           | Inr False \<Rightarrow> None
           | Inr True \<Rightarrow>
               (let s2 = emit (Call_connect f (port_of 443)) s1 in
                if ee_connect e \<noteq> 0 then Some (Inr (client_cleanup f s2))
                else if ee_ssl_connect e \<noteq> 1 then Some (Inr (client_cleanup f s2))
                else
                  (case echo_sendRequest echo_request (ee_request_write e) (ee_request_read e) s2 of
                     Inl x \<Rightarrow> Some (Inl x)
                   | Inr s3 \<Rightarrow>
                       (case echo_client (ee_lines e) s3 of
                          Inl x \<Rightarrow> Some (Inl x)
                        | Inr s4 \<Rightarrow> Some (Inr (client_cleanup f s4)))))))"

definition echo_server_branch :: "echo_env \<Rightarrow> echo_state \<Rightarrow> stuck + echo_state outcome" where
  "echo_server_branch e s =
     (case create_socket True (ee_setup e) s of
        Exited c s1 \<Rightarrow> Inr (Exited c s1)
      | Running s1 \<Rightarrow> echo_server (ee_clients e) (e_socket (ee_setup e)) s1)"

definition echo_main :: "echo_env \<Rightarrow> string list \<Rightarrow> echo_state \<Rightarrow> (stuck + echo_state outcome) option" where
  "echo_main e argv s =
     (if length argv < 2 then Some (Inr (Exited 1 s))
      else
        (let isServer = (hd (argv ! 1 @ [NUL]) = CHR ''s'') in
         if \<not> isServer \<and> length argv \<noteq> 3 then Some (Inr (Exited 1 s))
         else
           (case echo_context isServer e of
              None \<Rightarrow> Some (Inr (Exited 1 s))
            | Some ctx \<Rightarrow>
                if isServer then Some (echo_server_branch e s) else echo_client_branch e (argv ! 2) s)))"

section \<open>Properties\<close>

lemma client_context: "echo_context False e = (if ee_ctx_new e
    then Some \<lparr>ctx_method = Client_method, ctx_chain = None, ctx_key = None, ctx_verify_peer = False, ctx_default_paths = True\<rparr>
    else None)"
  by (simp add: echo_context_def create_context_def configure_client_context_def)

lemma server_context:
  "echo_context True e \<noteq> None \<longleftrightarrow> ee_ctx_new e \<and> 0 < ee_use_chain e \<and> 0 < ee_use_key e"
  by (auto simp: echo_context_def create_context_def configure_server_context_def Let_def)

definition setup_works :: "setup_env \<Rightarrow> bool" where
  "setup_works e \<longleftrightarrow> 0 \<le> e_socket e \<and> 0 \<le> e_setsockopt e \<and> 0 \<le> e_bind e \<and> 0 \<le> e_listen e"

lemma create_socket_works:
  "setup_works e \<Longrightarrow> \<exists>s1. create_socket isServer e s = Running s1 \<and> os.more s1 = os.more s \<and> closes (trace s1) = closes (trace s)"
  by (cases isServer) (simp_all add: create_socket_def setup_works_def Let_def)

lemma long_request: "rxcap \<le> length echo_request"
  by (simp add: echo_request_def crlf_def rxcap_def)

lemma echo_client_closes: "echo_client ls s = Inr t \<Longrightarrow> trace t = trace s"
proof (induction ls arbitrary: s)
  case (Cons x ls)
  obtain l w r where x: "x = (l, w, r)" by (cases x)
  show ?case
    using Cons.prems Cons.IH
    by (auto simp: x Let_def split: if_splits option.splits)
qed simp

lemma echo_sendRequest_trace: "echo_sendRequest q w r s = Inr t \<Longrightarrow> trace t = trace s"
  by (auto simp: echo_sendRequest_def Let_def split: if_splits option.splits)

text \<open>However the connection goes - refused, without a TLS session, cut off, or used -, the client closes
  its socket once and reports success.\<close>

lemma echo_client_exits:
  assumes "hd (mode @ [NUL]) \<noteq> CHR ''s''" "ee_ctx_new e" "setup_works (ee_setup e)"
    and "echo_resolve host (ee_resolver e) = Inr True"
    and "echo_main e [prog, mode, host] s = Some (Inr r)"
  shows "\<exists>t. r = Exited 0 t \<and> closes (trace t) = closes (trace s) @ [e_socket (ee_setup e)]"
proof -
  obtain s1 where s1: "create_socket False (ee_setup e) s = Running s1" "closes (trace s1) = closes (trace s)"
    using create_socket_works [OF assms(3)] by blast
  have "echo_client_branch e host s = Some (Inr r)"
    using assms by (simp add: echo_main_def client_context)
  then show ?thesis
    using assms(4) s1
    by (auto simp: echo_client_branch_def client_cleanup_def Let_def dest!: echo_sendRequest_trace echo_client_closes
        split: if_splits sum.splits)
qed

text \<open>C38: The program's own client brings down its own server.  A server that has started and takes up a
  connection of the client reads, with the 128 bytes it asks for, the first 128 bytes of the
  client's fixed request, and stores the terminating NUL behind its buffer.\<close>

theorem own_client_overflows_server:
  assumes "ee_ctx_new k" "setup_works (ee_setup k)" "echo_resolve host (ee_resolver k) = Inr True"
    and "ee_connect k = 0" "ee_ssl_connect k = 1" "0 < ee_request_write k" "recv_status (ee_request_read k) \<le> 0" "ee_lines k = []"
    and "echo_context True e \<noteq> None" "setup_works (ee_setup e)"
    and "ee_clients e = (c, 1, RData (take rxcap (concat (tls_out t))) # rs) # cls" "0 \<le> c"
    and "echo_main k [prog, ''c'', host] s0 = Some (Inr (Exited 0 t))" "tls_out s0 = []"
  shows "echo_main e [prog, ''s''] s = Some (Inl Overflow)"
proof -
  obtain s1 where s1: "create_socket False (ee_setup k) s0 = Running s1" "os.more s1 = os.more s0"
    using create_socket_works [OF assms(2)] by blast
  have "tls_out s1 = []" using s1(2) assms(14) by (cases s0; cases s1) simp
  then have "tls_out t = [echo_request]"
    using assms s1(1)
    by (simp add: echo_main_def client_context echo_client_branch_def echo_sendRequest_def client_cleanup_def Let_def)
      (auto simp: emit_def)
  then have full: "length (take rxcap (concat (tls_out t))) = rxcap" using long_request by simp
  obtain s2 where s2: "create_socket True (ee_setup e) s = Running s2"
    using create_socket_works [OF assms(10)] by blast
  obtain ctx where "echo_context True e = Some ctx" using assms(9) by blast
  then show ?thesis
    using full assms(11,12) s2
    by (simp add: echo_main_def echo_server_branch_def terminate_rx_def rxcap_def Let_def)
qed

definition sample_env :: "(int \<times> int \<times> recv_res list) list \<Rightarrow> echo_env" where
  "sample_env cls = \<lparr>ee_ctx_new = True, ee_use_chain = 1, ee_use_key = 1,
     ee_setup = \<lparr>e_socket = 3, e_setsockopt = 0, e_bind = 0, e_listen = 0, e_getfl = 0, e_setfl = 0\<rparr>,
     ee_clients = cls, ee_resolver = \<lparr>by_name = True, by_addr = True\<rparr>, ee_connect = 0, ee_ssl_connect = 1,
     ee_request_write = 492, ee_request_read = REof, ee_lines = []\<rparr>"

definition sample_echo :: echo_state where
  "sample_echo = \<lparr>trace = [], tls_out = [], echo_shown = [], server_running = True\<rparr>"

lemma sample_client:
  "echo_main (sample_env []) [''sslecho'', ''c'', ''1''] sample_echo =
     Some (Inr (Exited 0 (emit (Call_close 3) (emit (Call_connect 3 (port_of 443))
       (emit Call_socket sample_echo)\<lparr>tls_out := [echo_request]\<rparr>))))"
  by (simp add: echo_main_def client_context echo_client_branch_def create_socket_def echo_resolve_def is_alpha_def
      sample_env_def echo_sendRequest_def client_cleanup_def Let_def) (simp add: sample_echo_def emit_def)

lemma own_client_overflows_server_witness:
  "echo_main (sample_env [(5, 1, [RData (take rxcap echo_request)])]) [''sslecho'', ''s''] sample_echo = Some (Inl Overflow)"
proof (rule own_client_overflows_server [where k = "sample_env []" and host = "''1''" and rs = "[]" and cls = "[]" and c = 5,
    OF _ _ _ _ _ _ _ _ _ _ _ _ sample_client])
  show "echo_context True (sample_env [(5, 1, [RData (take rxcap echo_request)])]) \<noteq> None"
    unfolding server_context by (simp add: sample_env_def)
qed (simp_all add: sample_env_def setup_works_def echo_resolve_def is_alpha_def sample_echo_def emit_def)

end
