(* ===== verification/ByteOrder.thy ===== *)
theory ByteOrder
  imports WireReaders
begin

text \<open>
  \<open>utils/endian_utils.h\<close>: the byte-order functions \<open>htobe16\<close> to \<open>le64toh\<close>, which the preprocessor
  selects by platform.  A branch is the list of macros it defines; a name without a macro is the
  system's own function.  The systems' functions are outside the repository: what they do, on integers of
  which width, is a function \<open>sys\<close>, and what their documentation says is \<open>meant\<close>.  The macros are not typed: they
  are applied to whatever integer they are given, which a function cuts to the width of its parameter.
\<close>

section \<open>The branches\<close>

datatype platform = Linux | Cygwin | Apple_OS | OpenBSD | NetBSD | FreeBSD | DragonFly | Windows | Other_platform

datatype byte_order = Little | Big | Pdp

datatype replacement = Same | Apply string

type_synonym macros = "(string \<times> replacement) list"

definition apple_macros :: macros where
  "apple_macros =
    [(''htobe16'', Apply ''OSSwapHostToBigInt16''), (''htole16'', Apply ''OSSwapHostToLittleInt16''),
     (''be16toh'', Apply ''OSSwapBigToHostInt16''), (''le16toh'', Apply ''OSSwapLittleToHostInt16''),
     (''htobe32'', Apply ''OSSwapHostToBigInt32''), (''htole32'', Apply ''OSSwapHostToLittleInt32''),
     (''be32toh'', Apply ''OSSwapBigToHostInt32''), (''le32toh'', Apply ''OSSwapLittleToHostInt32''),
     (''htobe64'', Apply ''OSSwapHostToBigInt64''), (''htole64'', Apply ''OSSwapHostToLittleInt64''),
     (''be64toh'', Apply ''OSSwapBigToHostInt64''), (''le64toh'', Apply ''OSSwapLittleToHostInt64'')]"

definition bsd_macros :: macros where
  "bsd_macros =
    [(''be16toh'', Apply ''betoh16''), (''le16toh'', Apply ''letoh16''),
     (''be32toh'', Apply ''betoh32''), (''le32toh'', Apply ''letoh32''),
     (''be64toh'', Apply ''betoh64''), (''le64toh'', Apply ''letoh64'')]"

definition windows_little_macros :: macros where
  "windows_little_macros =
    [(''htobe16'', Apply ''htons''), (''htole16'', Same),
     (''be16toh'', Apply ''ntohs''), (''le16toh'', Same),
     (''htobe32'', Apply ''htonl''), (''htole32'', Same),
     (''be32toh'', Apply ''ntohl''), (''le32toh'', Same),
     (''htobe64'', Apply ''htonll''), (''htole64'', Same),
     (''be64toh'', Apply ''ntohll''), (''le64toh'', Same)]"

definition windows_big_macros :: macros where
  "windows_big_macros =
    [(''htobe16'', Same), (''htole16'', Apply ''__builtin_bswap16''),
     (''be16toh'', Same), (''le16toh'', Apply ''__builtin_bswap16''),
     (''htobe32'', Same), (''htole32'', Apply ''__builtin_bswap32''),
     (''be32toh'', Same), (''le32toh'', Apply ''__builtin_bswap32''),
     (''htobe64'', Same), (''htole64'', Apply ''__builtin_bswap64''),
     (''be64toh'', Same), (''le64toh'', Apply ''__builtin_bswap64'')]"

text \<open>\<open>None\<close> where the preprocessor stops with \<open>#error\<close>; only the Windows branch asks for the order.\<close>

definition endian_macros :: "platform \<Rightarrow> byte_order \<Rightarrow> macros option" where
  "endian_macros p order =
     (case p of
        Linux \<Rightarrow> Some []
      | Cygwin \<Rightarrow> Some []
      | Apple_OS \<Rightarrow> Some apple_macros
      | OpenBSD \<Rightarrow> Some []
      | NetBSD \<Rightarrow> Some bsd_macros
      | FreeBSD \<Rightarrow> Some bsd_macros
      | DragonFly \<Rightarrow> Some bsd_macros
      | Windows \<Rightarrow>
          (case order of
             Little \<Rightarrow> Some windows_little_macros
           | Big \<Rightarrow> Some windows_big_macros
           | Pdp \<Rightarrow> None)
      | Other_platform \<Rightarrow> None)"

section \<open>What a name does\<close>

text \<open>
  \<open>Unchanged\<close> is the macro \<open>(x)\<close>; the others are functions on unsigned integers of so many bytes, that keep
  the value or reverse its bytes.
\<close>

datatype conversion = Unchanged | Keep nat | Swap nat

fun converted :: "conversion \<Rightarrow> nat \<Rightarrow> nat" where
  "converted Unchanged x = x"
| "converted (Keep n) x = x mod 256 ^ n"
| "converted (Swap n) x = le_value (rev (le_bytes n x))"

definition resolved :: "macros \<Rightarrow> (string \<Rightarrow> conversion option) \<Rightarrow> string \<Rightarrow> conversion option" where
  "resolved ms sys name =
     (case map_of ms name of None \<Rightarrow> sys name | Some Same \<Rightarrow> Some Unchanged | Some (Apply f) \<Rightarrow> sys f)"

text \<open>The names the header is for: the order the integer has outside the host, and its width in bytes.\<close>

type_synonym conversions = "(string \<times> byte_order \<times> nat) list"

definition to_host :: conversions where
  "to_host =
    [(''be16toh'', Big, 2), (''le16toh'', Little, 2), (''be32toh'', Big, 4), (''le32toh'', Little, 4),
     (''be64toh'', Big, 8), (''le64toh'', Little, 8)]"

definition from_host :: conversions where
  "from_host =
    [(''htobe16'', Big, 2), (''htole16'', Little, 2), (''htobe32'', Big, 4), (''htole32'', Little, 4),
     (''htobe64'', Big, 8), (''htole64'', Little, 8)]"

text \<open>The systems' functions by their documentation, and those a branch relies on.\<close>

definition apple_functions :: conversions where
  "apple_functions =
    [(''OSSwapHostToBigInt16'', Big, 2), (''OSSwapHostToLittleInt16'', Little, 2), (''OSSwapBigToHostInt16'', Big, 2),
     (''OSSwapLittleToHostInt16'', Little, 2), (''OSSwapHostToBigInt32'', Big, 4), (''OSSwapHostToLittleInt32'', Little, 4),
     (''OSSwapBigToHostInt32'', Big, 4), (''OSSwapLittleToHostInt32'', Little, 4), (''OSSwapHostToBigInt64'', Big, 8),
     (''OSSwapHostToLittleInt64'', Little, 8), (''OSSwapBigToHostInt64'', Big, 8), (''OSSwapLittleToHostInt64'', Little, 8)]"

definition bsd_functions :: conversions where
  "bsd_functions =
    [(''betoh16'', Big, 2), (''letoh16'', Little, 2), (''betoh32'', Big, 4), (''letoh32'', Little, 4),
     (''betoh64'', Big, 8), (''letoh64'', Little, 8)]"

definition network_functions :: conversions where
  "network_functions =
    [(''htons'', Big, 2), (''ntohs'', Big, 2), (''htonl'', Big, 4), (''ntohl'', Big, 4), (''htonll'', Big, 8), (''ntohll'', Big, 8)]"

definition swap_functions :: "(string \<times> nat) list" where
  "swap_functions = [(''__builtin_bswap16'', 2), (''__builtin_bswap32'', 4), (''__builtin_bswap64'', 8)]"

definition documented :: conversions where
  "documented = to_host @ from_host @ apple_functions @ bsd_functions @ network_functions"

definition meant :: "byte_order \<Rightarrow> string \<Rightarrow> conversion option" where
  "meant order f =
     (case map_of documented f of
        Some (b, n) \<Rightarrow> Some (if order = b then Keep n else Swap n)
      | None \<Rightarrow> map_option Swap (map_of swap_functions f))"

definition relied_on :: "platform \<Rightarrow> byte_order \<Rightarrow> string list" where
  "relied_on p order =
     (if p = Apple_OS then map fst apple_functions
      else if p = Windows then (if order = Big then map fst swap_functions else map fst network_functions)
      else if p \<in> {NetBSD, FreeBSD, DragonFly} then map fst (from_host @ bsd_functions)
      else map fst (to_host @ from_host))"

section \<open>Properties\<close>

text \<open>Bytes read as an integer in some order, and the bytes of an integer of some width in memory.\<close>

definition value_in :: "byte_order \<Rightarrow> string \<Rightarrow> nat" where
  "value_in order bytes = (if order = Big then be_value bytes else le_value bytes)"

definition bytes_in :: "byte_order \<Rightarrow> nat \<Rightarrow> nat \<Rightarrow> string" where
  "bytes_in order n x = (if order = Big then rev (le_bytes n x) else le_bytes n x)"

lemma le_value_less: "le_value bytes < 256 ^ length bytes"
proof (induction bytes)
  case (Cons c bytes)
  have step: "c0 + 256 * v < 256 * p" if "c0 < 256" "v < p" for c0 v p :: nat using that by linarith
  have "(of_char c :: nat) < 256" by simp
  from step [OF this Cons] show ?case by simp
qed simp

lemma le_bytes_value: "le_bytes (length bytes) (le_value bytes) = bytes"
  by (induction bytes) simp_all

lemma value_in_bytes_in: "x < 256 ^ n \<Longrightarrow> value_in order (bytes_in order n x) = x"
  by (simp add: value_in_def bytes_in_def be_value_def le_value_bytes)

text \<open>What makes a conversion right on a host of the given order, for integers of \<open>n\<close> bytes.\<close>

definition right :: "byte_order \<Rightarrow> byte_order \<Rightarrow> nat \<Rightarrow> conversion \<Rightarrow> bool" where
  "right order b n c \<longleftrightarrow> (if order = b then c = Unchanged \<or> c = Keep n else c = Swap n)"

lemma swap_bytes:
  assumes "length bytes = n"
  shows "converted (Swap n) (le_value bytes) = be_value bytes" "converted (Swap n) (be_value bytes) = le_value bytes"
  using le_bytes_value [of bytes] le_bytes_value [of "rev bytes"] assms by (simp_all add: be_value_def)

lemma right_to_host:
  assumes "right order b n c" "length bytes = n" "order \<noteq> Pdp" "b \<noteq> Pdp"
  shows "converted c (value_in order bytes) = value_in b bytes"
proof (cases "order = b")
  case True
  have "value_in b bytes < 256 ^ n" using le_value_less [of bytes] le_value_less [of "rev bytes"] assms(2) by (auto simp: value_in_def be_value_def)
  then show ?thesis using True assms(1) by (auto simp: right_def)
next
  case False
  then show ?thesis
    using assms(1,3,4) swap_bytes [OF assms(2)] by (cases order; cases b) (simp_all add: right_def value_in_def)
qed

lemma right_from_host:
  assumes "right order b n c" "x < 256 ^ n" "order \<noteq> Pdp" "b \<noteq> Pdp"
  shows "value_in b (bytes_in order n (converted c x)) = x"
proof (cases "order = b")
  case True
  then have "converted c x = x" using assms(1,2) by (auto simp: right_def)
  then show ?thesis using True value_in_bytes_in [OF assms(2)] by simp
next
  case False
  then have c: "c = Swap n" using assms(1) by (simp add: right_def)
  have "bytes_in order n (converted c x) = bytes_in b n x"
    using False assms(3,4) le_bytes_value [of "rev (le_bytes n x)"] unfolding c
    by (cases order; cases b) (simp_all add: bytes_in_def)
  then show ?thesis using value_in_bytes_in [OF assms(2)] by simp
qed

lemmas branch_defs = apple_macros_def bsd_macros_def windows_little_macros_def windows_big_macros_def
lemmas function_defs = to_host_def from_host_def apple_functions_def bsd_functions_def network_functions_def swap_functions_def

lemma documented_once: "distinct (map fst documented)" "list_all (\<lambda>(f, n). map_of documented f = None) swap_functions"
  by code_simp+

lemma sys_documented:
  assumes "list_all (\<lambda>f. sys f = meant order f) (map fst fs)" "set fs \<subseteq> set documented"
  shows "list_all (\<lambda>(f, b, n). sys f = Some (if order = b then Keep n else Swap n)) fs"
proof -
  have "meant order f = Some (if order = b then Keep n else Swap n)" if "(f, b, n) \<in> set fs" for f b n
    using map_of_is_SomeI [OF documented_once(1)] assms(2) that by (auto simp: meant_def)
  then show ?thesis using assms(1) by (fastforce simp: list_all_iff)
qed

lemma sys_swaps:
  assumes "list_all (\<lambda>f. sys f = meant order f) (map fst swap_functions)"
  shows "list_all (\<lambda>(f, n). sys f = Some (Swap n)) swap_functions"
  using assms documented_once(2) by (simp add: meant_def swap_functions_def)

lemma branches_resolve:
  assumes "endian_macros p order = Some ms" "order \<noteq> Pdp"
    and "list_all (\<lambda>f. sys f = meant order f) (relied_on p order)"
  shows "list_all (\<lambda>(f, b, n). b \<noteq> Pdp \<and> (\<exists>c. resolved ms sys f = Some c \<and> right order b n c)) (to_host @ from_host)"
proof -
  have std: ?thesis if m: "ms = []" "relied_on p order = map fst (to_host @ from_host)"
  proof -
    have "set (to_host @ from_host) \<subseteq> set documented" by (auto simp: documented_def)
    then have "list_all (\<lambda>(f, b, n). sys f = Some (if order = b then Keep n else Swap n)) (to_host @ from_host)"
      using sys_documented assms(3) m(2) by simp
    then show ?thesis
      using assms(2) m(1) by (cases order) (simp_all add: branch_defs function_defs resolved_def right_def)
  qed
  have bsd: ?thesis if m: "ms = bsd_macros" "relied_on p order = map fst (from_host @ bsd_functions)"
  proof -
    have "set (from_host @ bsd_functions) \<subseteq> set documented" by (auto simp: documented_def)
    then have "list_all (\<lambda>(f, b, n). sys f = Some (if order = b then Keep n else Swap n)) (from_host @ bsd_functions)"
      using sys_documented assms(3) m(2) by simp
    then show ?thesis
      using assms(2) m(1) by (cases order) (simp_all add: branch_defs function_defs resolved_def right_def)
  qed
  have apple: ?thesis if m: "ms = apple_macros" "relied_on p order = map fst (apple_functions)"
  proof -
    have "set (apple_functions) \<subseteq> set documented" by (auto simp: documented_def)
    then have "list_all (\<lambda>(f, b, n). sys f = Some (if order = b then Keep n else Swap n)) (apple_functions)"
      using sys_documented assms(3) m(2) by simp
    then show ?thesis
      using assms(2) m(1) by (cases order) (simp_all add: branch_defs function_defs resolved_def right_def)
  qed
  have little: ?thesis if m: "ms = windows_little_macros" "relied_on p order = map fst (network_functions)" "order = Little"
  proof -
    have "set (network_functions) \<subseteq> set documented" by (auto simp: documented_def)
    then have "list_all (\<lambda>(f, b, n). sys f = Some (if order = b then Keep n else Swap n)) (network_functions)"
      using sys_documented assms(3) m(2) by simp
    then show ?thesis
      using assms(2) m(1) m(3) by (simp_all add: branch_defs function_defs resolved_def right_def)
  qed
  have big: ?thesis if m: "ms = windows_big_macros" "relied_on p order = map fst swap_functions" "order = Big"
    using sys_swaps [of sys order] assms(3) m by (simp add: branch_defs function_defs resolved_def right_def)
  show ?thesis
    using assms(1,2) std bsd apple little big
    by (cases p; cases order) (simp_all add: endian_macros_def relied_on_def)
qed

text \<open>C39: The header gives the same conversions everywhere, at every width.  In every branch that compiles, on little- and
  big-endian hosts, and provided the functions the branch relies on do what they are documented to do: 2, 4 or 8
  bytes that were read into an integer of the host and passed through \<open>be16toh\<close> to \<open>be64toh\<close> yield their
  big-endian value, and through \<open>le16toh\<close> to \<open>le64toh\<close> their little-endian value; and an integer of 16, 32 or 64 bits passed
  through \<open>htobe16\<close> to \<open>htole64\<close> lies in memory as its bytes in big- or little-endian order.\<close>

theorem conversions_portable:
  assumes "endian_macros p order = Some ms" "order \<noteq> Pdp"
    and "list_all (\<lambda>f. sys f = meant order f) (relied_on p order)"
  shows "list_all (\<lambda>(f, b, n). \<exists>c. resolved ms sys f = Some c \<and>
      (\<forall>bytes. length bytes = n \<longrightarrow> converted c (value_in order bytes) = value_in b bytes)) to_host \<and>
    list_all (\<lambda>(f, b, n). \<exists>c. resolved ms sys f = Some c \<and>
      (\<forall>x < 256 ^ n. value_in b (bytes_in order n (converted c x)) = x)) from_host"
proof -
  have "\<exists>c. resolved ms sys f = Some c \<and> b \<noteq> Pdp \<and> right order b n c" if "(f, b, n) \<in> set (to_host @ from_host)" for f b n
    using branches_resolve [OF assms] that unfolding list_all_iff by fast
  then show ?thesis
    using right_to_host [OF _ _ assms(2)] right_from_host [OF _ _ assms(2)] by (fastforce simp: list_all_iff)
qed

lemma conversions_portable_witness:
  "\<exists>c. resolved apple_macros (meant Little) ''be16toh'' = Some c \<and> converted c (value_in Little [CHR 0x01, CHR 0x02]) = 258"
proof -
  have "list_all (\<lambda>(f, b, n). \<exists>c. resolved apple_macros (meant Little) f = Some c \<and>
      (\<forall>bytes. length bytes = n \<longrightarrow> converted c (value_in Little bytes) = value_in b bytes)) to_host"
    by (rule conversions_portable [of Apple_OS, THEN conjunct1]) (simp_all add: endian_macros_def list_all_iff)
  then obtain c where "resolved apple_macros (meant Little) ''be16toh'' = Some c"
    "converted c (value_in Little [CHR 0x01, CHR 0x02]) = value_in Big [CHR 0x01, CHR 0x02]"
    by (auto simp: to_host_def)
  moreover have "value_in Big [CHR 0x01, CHR 0x02] = 258" by (simp add: value_in_def be_value_def)
  ultimately show ?thesis by simp
qed

text \<open>Where the system has only the standard names, the branch for the other BSDs makes them unusable.\<close>

lemma bsd_branch_hides_functions:
  assumes "sys ''betoh16'' = None"
  shows "endian_macros FreeBSD order = Some bsd_macros \<and> resolved bsd_macros sys ''be16toh'' = None"
  using assms by (simp add: endian_macros_def resolved_def bsd_macros_def)

end
