(* ===== verification/BalancerRace.thy ===== *)
theory BalancerRace
  imports LoadBalancer
begin

text \<open>
  The weighted strategy under several threads.  \<open>ThreadHandler\<close> asks the balancer from the worker
  threads of the pool, and \<open>WeightedRoundRobinStrategy::selectServer\<close> keeps its state in two
  \<open>static\<close> variables without a lock.  Here each access to one of them is a step of a thread, and a
  run interleaves the steps of any number of threads; a single access is taken to be indivisible.
\<close>

section \<open>Steps\<close>

text \<open>Where a thread is in \<open>selectServer\<close>, with what it holds in a register.\<close>

datatype wrr_pc =
    Test_weight  \<comment> \<open>\<open>if (weight > 0)\<close>\<close>
  | Load_dec  \<comment> \<open>\<open>weight--\<close>\<close>
  | Store_dec "32 word"
  | Test_zero  \<comment> \<open>\<open>if (weight == 0)\<close>\<close>
  | Load_index  \<comment> \<open>\<open>currentIndex = (currentIndex + 1) % servers.size()\<close>\<close>
  | Store_index "32 word"
  | Load_weight  \<comment> \<open>\<open>weight = servers[currentIndex].weight\<close>\<close>
  | Store_weight "32 word"
  | Pick  \<comment> \<open>\<open>return servers[currentIndex]\<close>\<close>

datatype 't wrr_next = Goto wrr_pc | Return 't

text \<open>A step on \<open>currentIndex\<close> and \<open>weight\<close>; \<open>None\<close> is a division by zero or an index outside.\<close>

fun pc_step ::
  "('t \<Rightarrow> 32 word) \<Rightarrow> 't list \<Rightarrow> wrr_pc \<Rightarrow> 32 word \<times> 32 word \<Rightarrow> ('t wrr_next \<times> 32 word \<times> 32 word) option" where
  "pc_step weight_of servers Test_weight (i, w) = Some (Goto (if sint w > 0 then Load_dec else Test_zero), i, w)"
| "pc_step weight_of servers Load_dec (i, w) = Some (Goto (Store_dec (w - 1)), i, w)"
| "pc_step weight_of servers (Store_dec v) (i, w) = Some (Goto Test_zero, i, v)"
| "pc_step weight_of servers Test_zero (i, w) = Some (Goto (if w = 0 then Load_index else Pick), i, w)"
| "pc_step weight_of servers Load_index (i, w) =
     (if servers = [] then None else Some (Goto (Store_index (next_index i (word_of_nat (length servers)))), i, w))"
| "pc_step weight_of servers (Store_index v) (i, w) = Some (Goto Load_weight, v, w)"
| "pc_step weight_of servers Load_weight (i, w) =
     map_option (\<lambda>t. (Goto (Store_weight (weight_of t)), i, w)) (vector_at servers i)"
| "pc_step weight_of servers (Store_weight v) (i, w) = Some (Goto Pick, i, v)"
| "pc_step weight_of servers Pick (i, w) = map_option (\<lambda>t. (Return t, i, w)) (vector_at servers i)"

record 't race_state =
  statics :: "32 word \<times> 32 word"  \<comment> \<open>\<open>currentIndex\<close>, \<open>weight\<close>\<close>
  active :: "nat \<rightharpoonup> wrr_pc"
  picks :: "'t list"

definition race_initial :: "'t race_state" where
  "race_initial = \<lparr>statics = (-1, 0), active = Map.empty, picks = []\<rparr>"

inductive race_step :: "('t \<Rightarrow> 32 word) \<Rightarrow> 't list \<Rightarrow> 't race_state \<Rightarrow> 't race_state \<Rightarrow> bool"
  for weight_of :: "'t \<Rightarrow> 32 word" and servers :: "'t list" where
  Enter: "active s k = None \<Longrightarrow> race_step weight_of servers s (s\<lparr>active := (active s)(k \<mapsto> Test_weight)\<rparr>)"
| Move: "active s k = Some p \<Longrightarrow> pc_step weight_of servers p (statics s) = Some (Goto q, st) \<Longrightarrow>
    race_step weight_of servers s (s\<lparr>statics := st, active := (active s)(k \<mapsto> q)\<rparr>)"
| Leave: "active s k = Some p \<Longrightarrow> pc_step weight_of servers p (statics s) = Some (Return t, st) \<Longrightarrow>
    race_step weight_of servers s (s\<lparr>statics := st, active := (active s)(k := None), picks := picks s @ [t]\<rparr>)"

abbreviation race_run :: "('t \<Rightarrow> 32 word) \<Rightarrow> 't list \<Rightarrow> 't race_state \<Rightarrow> 't race_state \<Rightarrow> bool" where
  "race_run weight_of servers \<equiv> rtranclp (race_step weight_of servers)"

section \<open>One thread alone\<close>

lemma race_invariant:
  assumes "race_run wt ss s t" "I s" "\<And>u v. race_step wt ss u v \<Longrightarrow> I u \<Longrightarrow> I v"
  shows "I t"
  using assms by (induction rule: rtranclp_induct) blast+

text \<open>The steps of a thread that is not disturbed, up to its return.\<close>

fun alone :: "nat \<Rightarrow> ('t \<Rightarrow> 32 word) \<Rightarrow> 't list \<Rightarrow> wrr_pc \<Rightarrow> 32 word \<times> 32 word \<Rightarrow> ('t \<times> 32 word \<times> 32 word) option" where
  "alone 0 wt ss p st = None"
| "alone (Suc n) wt ss p st =
     (case pc_step wt ss p st of
        None \<Rightarrow> None
      | Some (Goto q, st1) \<Rightarrow> alone n wt ss q st1
      | Some (Return t, st1) \<Rightarrow> Some (t, st1))"

lemma alone_run:
  "alone n wt ss p st = Some (t, st') \<Longrightarrow> active s k = Some p \<Longrightarrow> statics s = st \<Longrightarrow>
   race_run wt ss s (s\<lparr>statics := st', active := (active s)(k := None), picks := picks s @ [t]\<rparr>)"
proof (induction n wt ss p st arbitrary: s rule: alone.induct)
  case (2 n wt ss p st)
  from 2(2) obtain x st1 where x: "pc_step wt ss p st = Some (x, st1)"
    by (auto split: option.splits)
  show ?case
  proof (cases x)
    case (Goto q)
    let ?u = "s\<lparr>statics := st1, active := (active s)(k \<mapsto> q)\<rparr>"
    have "race_step wt ss s ?u" using Move [OF 2(3)] x Goto 2(4) by simp
    moreover have "race_run wt ss ?u (?u\<lparr>statics := st', active := (active ?u)(k := None), picks := picks ?u @ [t]\<rparr>)"
      by (rule 2(1) [OF x [unfolded Goto]]) (use 2(2) x Goto in simp_all)
    moreover have "?u\<lparr>statics := st', active := (active ?u)(k := None), picks := picks ?u @ [t]\<rparr> =
        s\<lparr>statics := st', active := (active s)(k := None), picks := picks s @ [t]\<rparr>" by simp
    ultimately show ?thesis by (simp only: converse_rtranclp_into_rtranclp)
  next
    case (Return y)
    then have "y = t" "st1 = st'" using 2(2) x by simp_all
    then have "race_step wt ss s (s\<lparr>statics := st', active := (active s)(k := None), picks := picks s @ [t]\<rparr>)"
      using Leave [OF 2(3), of wt ss t st'] x Return 2(4) by simp
    then show ?thesis by (rule r_into_rtranclp)
  qed
qed simp

text \<open>Its steps are the strategy's function.\<close>

lemma alone_selectServer:
  "WeightedRoundRobin wt ss st = Some r \<Longrightarrow> \<exists>n. alone n wt ss Test_weight st = Some r"
proof -
  assume a: "WeightedRoundRobin wt ss st = Some r"
  obtain i w where st: "st = (i, w)" by (cases st)
  have "alone 9 wt ss Test_weight st = Some r"
    using a by (auto simp: WeightedRoundRobin_def st eval_nat_numeral Let_def split: if_splits option.splits)
  then show ?thesis by blast
qed

lemma select_run:
  assumes "WeightedRoundRobin wt ss (statics s) = Some (t, st)" "active s = Map.empty"
  shows "race_run wt ss s (s\<lparr>statics := st, picks := picks s @ [t]\<rparr>)"
proof -
  obtain n where n: "alone n wt ss Test_weight (statics s) = Some (t, st)" using alone_selectServer [OF assms(1)] by blast
  let ?u = "s\<lparr>active := (active s)(0 \<mapsto> Test_weight)\<rparr>"
  have "race_step wt ss s ?u" using Enter [of s 0] assms(2) by simp
  moreover have "race_run wt ss ?u (?u\<lparr>statics := st, active := (active ?u)(0 := None), picks := picks ?u @ [t]\<rparr>)"
    by (rule alone_run [OF n]) simp_all
  moreover have "?u\<lparr>statics := st, active := (active ?u)(0 := None), picks := picks ?u @ [t]\<rparr> =
      s\<lparr>statics := st, picks := picks s @ [t]\<rparr>"
    using assms(2) by (cases s) (simp add: fun_upd_idem)
  ultimately show ?thesis by (metis converse_rtranclp_into_rtranclp)
qed

lemma requests_run:
  "requests (WeightedRoundRobin wt) ss n (statics s) = Some (ts, st) \<Longrightarrow> active s = Map.empty \<Longrightarrow>
   race_run wt ss s (s\<lparr>statics := st, picks := picks s @ ts\<rparr>)"
proof (induction n arbitrary: s ts)
  case (Suc n)
  then obtain t st1 us where t: "WeightedRoundRobin wt ss (statics s) = Some (t, st1)"
    "requests (WeightedRoundRobin wt) ss n st1 = Some (us, st)" "ts = t # us"
    by (auto split: option.splits)
  let ?u = "s\<lparr>statics := st1, picks := picks s @ [t]\<rparr>"
  have "race_run wt ss s ?u" by (rule select_run [OF t(1) Suc.prems(2)])
  moreover have "race_run wt ss ?u (?u\<lparr>statics := st, picks := picks ?u @ us\<rparr>)"
    by (rule Suc.IH) (use t(2) Suc.prems(2) in simp_all)
  ultimately show ?case using t(3) by (simp add: rtranclp_trans)
next
  case 0
  then show ?case by (cases s) auto
qed

section \<open>No interleaving leaves the vector\<close>

definition legal_index :: "'t list \<Rightarrow> 32 word \<Rightarrow> bool" where
  "legal_index servers i \<longleftrightarrow> (\<exists>k < length servers. i = word_of_nat k)"

text \<open>As long as the index is the initial one, the weight is zero and no thread is on its way to use it.\<close>

fun pc_early :: "wrr_pc \<Rightarrow> bool" where
  "pc_early Test_weight = True"
| "pc_early Test_zero = True"
| "pc_early Load_index = True"
| "pc_early (Store_index v) = True"
| "pc_early p = False"

definition race_ok :: "'t list \<Rightarrow> 't race_state \<Rightarrow> bool" where
  "race_ok servers s \<longleftrightarrow>
     (legal_index servers (fst (statics s)) \<or>
        statics s = (-1, 0) \<and> (\<forall>k p. active s k = Some p \<longrightarrow> pc_early p)) \<and>
     (\<forall>k v. active s k = Some (Store_index v) \<longrightarrow> legal_index servers v) \<and>
     set (picks s) \<subseteq> set servers"

lemma vector_at_legal:
  assumes "legal_index servers i" "length servers < 2 ^ 31"
  shows "\<exists>t \<in> set servers. vector_at servers i = Some t"
  using assms vector_at_index [of _ servers] by (auto simp: legal_index_def)

lemma pc_step_ok:
  assumes "servers \<noteq> []" "length servers < 2 ^ 31"
    and "legal_index servers (fst st) \<or> st = (-1, 0) \<and> pc_early p"
    and "\<And>v. p = Store_index v \<Longrightarrow> legal_index servers v"
  shows "\<exists>x st1. pc_step weight_of servers p st = Some (x, st1) \<and>
    (legal_index servers (fst st1) \<or> st1 = (-1, 0) \<and> st = (-1, 0) \<and> (\<exists>q. x = Goto q \<and> pc_early q)) \<and>
    (\<forall>v. x = Goto (Store_index v) \<longrightarrow> legal_index servers v) \<and> (\<forall>t. x = Return t \<longrightarrow> t \<in> set servers)"
proof -
  obtain i w where st: "st = (i, w)" by (cases st)
  have nxt: "legal_index servers (next_index i (word_of_nat (length servers)))"
    using next_index_legal [OF assms(1,2), of i] assms(3) st by (auto simp: legal_index_def)
  have vec: "\<exists>t \<in> set servers. vector_at servers i = Some t" if "legal_index servers i"
    using vector_at_legal [OF that assms(2)] .
  show ?thesis
    using assms nxt vec by (cases p) (auto simp: st)
qed

lemma race_ok_pc:
  assumes "race_ok servers s" "active s k = Some p" "servers \<noteq> []" "length servers < 2 ^ 31"
    and "pc_step weight_of servers p (statics s) = Some (x, st)"
  shows "(legal_index servers (fst st) \<or> st = (-1, 0) \<and> statics s = (-1, 0) \<and> (\<exists>q. x = Goto q \<and> pc_early q)) \<and>
    (\<forall>v. x = Goto (Store_index v) \<longrightarrow> legal_index servers v) \<and> (\<forall>t. x = Return t \<longrightarrow> t \<in> set servers)"
proof -
  have "legal_index servers (fst (statics s)) \<or> statics s = (-1, 0) \<and> pc_early p"
    using assms(1,2) by (auto simp: race_ok_def)
  moreover have "legal_index servers v" if "p = Store_index v" for v
    using assms(1,2) that by (auto simp: race_ok_def)
  ultimately show ?thesis using pc_step_ok [OF assms(3,4), of "statics s" p weight_of] assms(5) by auto
qed

lemma race_ok_later:
  assumes "race_ok servers s" "legal_index servers (fst st) \<or> st = (-1, 0) \<and> statics s = (-1, 0) \<and> (\<exists>q. x = Some q \<and> pc_early q)"
    and "\<And>v. x = Some (Store_index v) \<Longrightarrow> legal_index servers v" "set ts \<subseteq> set servers"
  shows "race_ok servers (s\<lparr>statics := st, active := (active s)(k := x), picks := picks s @ ts\<rparr>)"
proof (cases "legal_index servers (fst st)")
  case True
  then show ?thesis using assms(1,3,4) by (simp add: race_ok_def)
next
  case False
  then obtain q where q: "st = (-1, 0)" "statics s = (-1, 0)" "x = Some q" "pc_early q" using assms(2) by blast
  then have "\<not> legal_index servers (fst (statics s))" using False by simp
  then have "\<forall>k p. active s k = Some p \<longrightarrow> pc_early p" using assms(1) by (simp add: race_ok_def)
  then show ?thesis using assms(1,3,4) q by (simp add: race_ok_def)
qed

lemma race_ok_step: "race_step weight_of servers s t \<Longrightarrow> servers \<noteq> [] \<Longrightarrow> length servers < 2 ^ 31 \<Longrightarrow>
  race_ok servers s \<Longrightarrow> race_ok servers t"
proof (induction rule: race_step.induct)
  case (Enter s k)
  then show ?case by (auto simp: race_ok_def)
next
  case (Move s k p q st)
  then show ?case
    using race_ok_pc [OF Move(5,1,3,4,2)] race_ok_later [OF Move(5), of st "Some q" "[]" k] by simp
next
  case (Leave s k p t st)
  then show ?case
    using race_ok_pc [OF Leave(5,1,3,4,2)] race_ok_later [OF Leave(5), of st None "[t]" k] by simp
qed

text \<open>However the threads race, the balancer never leaves its vector.  From the start of the program,
  for any weights, any number of threads and any interleaving of their accesses, the next access of
  every thread is defined - no index outside the vector, the initial -1 included - and every server
  handed out is one of the servers.\<close>

theorem race_stays_inside:
  assumes "race_run weight_of servers race_initial s" "servers \<noteq> []" "length servers < 2 ^ 31"
  shows "(\<forall>k p. active s k = Some p \<longrightarrow> pc_step weight_of servers p (statics s) \<noteq> None) \<and> set (picks s) \<subseteq> set servers"
proof -
  have ok: "race_ok servers s"
    using assms(1)
  proof (rule race_invariant [where I = "race_ok servers"])
    show "race_ok servers race_initial" by (simp add: race_ok_def race_initial_def)
  qed (use race_ok_step assms(2,3) in blast)
  have "pc_step weight_of servers p (statics s) \<noteq> None" if "active s k = Some p" for k p
  proof -
    have "legal_index servers (fst (statics s)) \<or> statics s = (-1, 0) \<and> pc_early p"
      using ok that by (auto simp: race_ok_def)
    moreover have "legal_index servers v" if "p = Store_index v" for v
      using ok \<open>active s k = Some p\<close> that by (auto simp: race_ok_def)
    ultimately show ?thesis using pc_step_ok [OF assms(2,3), of "statics s" p weight_of] by fastforce
  qed
  then show ?thesis using ok by (simp add: race_ok_def)
qed

lemma race_stays_inside_witness:
  "\<exists>s. race_run snd [(''a'', 1), (''b'', 2)] race_initial s \<and> active s 7 = Some Test_weight \<and>
    pc_step snd [(''a'', 1), (''b'', 2)] Test_weight (statics s) \<noteq> None"
proof -
  let ?s = "(race_initial :: (string \<times> 32 word) race_state)\<lparr>active := [7 \<mapsto> Test_weight]\<rparr>"
  have run: "race_run snd [(''a'', 1), (''b'', 2)] race_initial ?s"
    using Enter [of race_initial 7 snd "[(''a'', 1), (''b'', 2)]"] by (simp add: race_initial_def r_into_rtranclp)
  have "pc_step snd [(''a'', 1), (''b'', 2)] Test_weight (statics ?s) \<noteq> None"
    using race_stays_inside [OF run] by (simp del: pc_step.simps)
  then show ?thesis using run by (intro exI [of _ ?s]) simp
qed

section \<open>Two threads can capture the balancer\<close>

text \<open>The weight is -1 and no thread is about to change it.\<close>

fun pc_harmless :: "wrr_pc \<Rightarrow> bool" where
  "pc_harmless Test_weight = True"
| "pc_harmless Test_zero = True"
| "pc_harmless Pick = True"
| "pc_harmless p = False"

definition captured :: "'t list \<Rightarrow> nat \<Rightarrow> 't list \<Rightarrow> 't race_state \<Rightarrow> bool" where
  "captured servers k ts s \<longleftrightarrow> statics s = (word_of_nat k, -1) \<and> (\<forall>j p. active s j = Some p \<longrightarrow> pc_harmless p) \<and>
     (\<exists>n. picks s = ts @ replicate n (servers ! k))"

lemma captured_step:
  assumes "race_step weight_of servers s t" "k < length servers" "length servers < 2 ^ 31" "captured servers k ts s"
  shows "captured servers k ts t"
proof -
  have v: "vector_at servers (word_of_nat k) = Some (servers ! k)"
    using vector_at_index [OF assms(2)] assms(3) by simp
  from assms(1,4) show ?thesis
  proof (induction rule: race_step.induct)
    case (Move s j p q st)
    then have "pc_harmless p" by (simp add: captured_def)
    then show ?case using Move by (cases p) (auto simp: captured_def)
  next
    case (Leave s j p t st)
    then have "pc_harmless p" by (simp add: captured_def)
    moreover have "\<exists>m. (ts @ replicate n (servers ! k)) @ [servers ! k] = ts @ replicate m (servers ! k)" for n
      by (rule exI [of _ "Suc n"]) (simp add: replicate_append_same)
    ultimately show ?case using Leave v by (cases p) (auto simp: captured_def)
  qed (auto simp: captured_def)
qed

text \<open>The schedule: when a server's turn is over at the next request, two threads see the weight 1, and
  both decrement it.\<close>

lemma two_threads_capture:
  assumes "statics s = (word_of_nat k, 1)" "active s = Map.empty" "k < length servers" "length servers < 2 ^ 31"
  shows "\<exists>t. race_run weight_of servers s t \<and> captured servers k (picks s) t"
proof -
  let ?a = "\<lambda>p q. [0 \<mapsto> p, 1 \<mapsto> q]"
  let ?s = "\<lambda>w p q. s\<lparr>statics := (word_of_nat k, w), active := ?a p q\<rparr>"
  have zero: "race_step weight_of servers (?s w p q) (?s v p' q)"
    if "pc_step weight_of servers p (word_of_nat k, w) = Some (Goto p', word_of_nat k, v)" for w v p p' q
    using Move [of "?s w p q" 0 p weight_of servers p'] that by (simp add: fun_upd_twist)
  have one: "race_step weight_of servers (?s w p q) (?s v p q')"
    if "pc_step weight_of servers q (word_of_nat k, w) = Some (Goto q', word_of_nat k, v)" for w v p q q'
    using Move [of "?s w p q" 1 q weight_of servers q'] that by simp
  have e0: "race_step weight_of servers s (s\<lparr>active := [0 \<mapsto> Test_weight]\<rparr>)"
    using Enter [of s 0 weight_of servers] assms(2) by simp
  have e1: "race_step weight_of servers (s\<lparr>active := [0 \<mapsto> Test_weight]\<rparr>) (?s 1 Test_weight Test_weight)"
    using Enter [of "s\<lparr>active := [0 \<mapsto> Test_weight]\<rparr>" 1 weight_of servers] assms(1) by (cases s) simp
  have "race_run weight_of servers s (?s (-1) Test_zero Test_zero)"
    using e0 e1
      zero [of Test_weight 1 Load_dec 1 Test_weight] one [of Test_weight 1 Load_dec 1 Load_dec]
      zero [of Load_dec 1 "Store_dec 0" 1 Load_dec] zero [of "Store_dec 0" 1 Test_zero 0 Load_dec]
      one [of Load_dec 0 "Store_dec (-1)" 0 Test_zero] one [of "Store_dec (-1)" 0 Test_zero "-1" Test_zero]
    by (simp del: fun_upd_apply)
  moreover have "captured servers k (picks s) (?s (-1) Test_zero Test_zero)"
    by (auto simp: captured_def intro: exI [of _ 0])
  ultimately show ?thesis by blast
qed

definition served_for_ever :: "('t \<Rightarrow> 32 word) \<Rightarrow> 't list \<Rightarrow> 't \<Rightarrow> 't race_state \<Rightarrow> bool" where
  "served_for_ever weight_of servers x s \<longleftrightarrow>
     (\<forall>t. race_run weight_of servers s t \<longrightarrow> (\<exists>n. picks t = picks s @ replicate n x) \<and> statics t = statics s)"

text \<open>C31: Two threads can give one server everything, for ever.  If the first server has a positive
  weight, a run exists from the start - as many requests as its weight says, and then two at
  once - after which, whatever happens, every further request is answered with that server:
  both threads decrement the weight 1, and a negative weight is neither counted down nor renewed.\<close>

theorem race_captures_balancer:
  assumes "servers \<noteq> []" "length servers < 2 ^ 31" "0 < sint (weight_of (servers ! 0))"
  shows "\<exists>s. race_run weight_of servers race_initial s \<and> served_for_ever weight_of servers (servers ! 0) s"
proof -
  obtain w where w: "sint (weight_of (servers ! 0)) = int (Suc w)"
    using pos_int_cases [OF assms(3)] by (metis gr0_conv_Suc)
  have w31: "Suc w < 2 ^ 31" using sint_lt [of "weight_of (servers ! 0)"] w by simp
  have weight: "weight_of (servers ! 0) = word_of_nat (Suc w)" by (metis w of_int_sint of_int_of_nat_eq scast_id)
  have len: "0 < length servers" using assms(1) by simp
  have first: "WeightedRoundRobin weight_of servers (-1, 0) = Some (servers ! 0, word_of_nat 0, word_of_nat (Suc w))"
    using vector_at_index [OF len] assms(1,2) weight by (simp add: WeightedRoundRobin_def next_index_start Let_def)
  have "requests (WeightedRoundRobin weight_of) servers (Suc w) (-1, 0) =
      Some (servers ! 0 # replicate w (servers ! 0), word_of_nat 0, 1)"
    using first weighted_stay [OF len assms(2) w31, of weight_of] by (simp del: of_nat_Suc)
  then have "race_run weight_of servers race_initial
      (race_initial\<lparr>statics := (word_of_nat 0, 1), picks := picks race_initial @ servers ! 0 # replicate w (servers ! 0)\<rparr>)"
    using requests_run [of weight_of servers "Suc w" race_initial] by (simp add: race_initial_def)
  moreover obtain s where s: "race_run weight_of servers
      (race_initial\<lparr>statics := (word_of_nat 0, 1), picks := picks race_initial @ servers ! 0 # replicate w (servers ! 0)\<rparr>) s"
    "captured servers 0 (servers ! 0 # replicate w (servers ! 0)) s"
    using two_threads_capture [OF _ _ len assms(2), of "race_initial\<lparr>statics := (word_of_nat 0, 1),
        picks := picks race_initial @ servers ! 0 # replicate w (servers ! 0)\<rparr>" weight_of]
    by (auto simp: race_initial_def)
  moreover have "captured servers 0 (picks s) t" if "race_run weight_of servers s t" for t
    using that
  proof (rule race_invariant [where I = "captured servers 0 (picks s)"])
    show "captured servers 0 (picks s) s" using s(2) by (auto simp: captured_def intro: exI [of _ 0])
  qed (use captured_step len assms(2) in blast)
  ultimately show ?thesis using s(2) by (intro exI [of _ s]) (auto simp: captured_def served_for_ever_def intro: rtranclp_trans)
qed

lemma race_captures_balancer_witness:
  "\<exists>s. race_run snd [(''a'', 3 :: 32 word), (''b'', 5)] race_initial s \<and>
    served_for_ever snd [(''a'', 3), (''b'', 5)] (''a'', 3) s"
  using race_captures_balancer [of "[(''a'', 3 :: 32 word), (''b'', 5)]" snd] by simp

end
