(* ===== verification/ProxySystem.thy ===== *)
theory ProxySystem
  imports ProxySocket ThreadPool
begin

text \<open>
  The balancing proxy as a running system (\<open>engine/interface/CProxySocket.cpp\<close>, \<open>engine/socket/CServerSocket.cpp\<close>,
  \<open>engine/load_balancer/RoundRobinStrategy.h\<close>): the listening thread, the thread pool, and on its workers the
  sessions of \<open>ThreadHandler\<close>, interleaved.  They share the variable \<open>clientData\<close> of the listening thread, the
  strategy's \<open>static int currentIndex\<close>, which nothing protects, and the process's descriptors, of which there
  are at most \<open>limit\<close>.  The turns of a session are steps, as are the accesses to \<open>currentIndex\<close>.
\<close>

section \<open>State and steps\<close>

datatype proxy_task = Serve_connection

text \<open>Where a session is: about to ask for a server; with \<open>(currentIndex + 1) % servers.size()\<close> in a register;
  about to return \<open>servers[currentIndex]\<close>; relaying, with its \<open>EXECUTION_CONTEXT\<close>.\<close>

datatype 'h session_stage =
    Requesting fd
  | Index_loaded fd "32 word"
  | Index_stored fd
  | In_session fd fd 'h

text \<open>\<open>bp_client_data\<close> is the loop variable while it exists, whose address the tasks hold; \<open>bp_served\<close> are the
  sessions established so far.\<close>

record 'h balanced_proxy =
  bp_pool :: "proxy_task thread_pool"
  bp_client_data :: "fd option"
  bp_sessions :: "nat \<rightharpoonup> 'h session_stage"
  bp_index :: "32 word"
  bp_os :: os
  bp_open :: "fd list"
  bp_served :: "(fd \<times> resolved_service \<times> fd) list"

definition bp_initial :: "nat \<Rightarrow> os \<Rightarrow> fd list \<Rightarrow> 'h balanced_proxy" where
  "bp_initial n s fds = \<lparr>bp_pool = pool_start n, bp_client_data = None, bp_sessions = Map.empty, bp_index = -1,
     bp_os = s, bp_open = fds, bp_served = []\<rparr>"

text \<open>\<open>Accept\<close> has returned a socket: the variable is filled and the task pushed.\<close>

definition bp_accept :: "nat \<Rightarrow> fd \<Rightarrow> 'h balanced_proxy \<Rightarrow> 'h balanced_proxy option" where
  "bp_accept limit f z =
     (if f \<in> set (bp_open z) \<or> limit \<le> length (bp_open z) then None
      else Some (z\<lparr>bp_open := f # bp_open z, bp_client_data := Some f, bp_pool := pool_push Serve_connection (bp_pool z)\<rparr>))"

text \<open>A worker takes a task, which copies the variable.\<close>

definition bp_take :: "nat \<Rightarrow> 'h balanced_proxy \<Rightarrow> 'h balanced_proxy option" where
  "bp_take i z =
     (if i < length (workers (bp_pool z)) \<and> workers (bp_pool z) ! i = Idle then
        (case (worker_pop i (bp_pool z), bp_client_data z) of
           (Some q, Some f) \<Rightarrow> Some (z\<lparr>bp_pool := q, bp_sessions := (bp_sessions z)(i \<mapsto> Requesting f)\<rparr>)
         | _ \<Rightarrow> None)
      else None)"

definition set_stage :: "nat \<Rightarrow> 'h session_stage \<Rightarrow> 'h balanced_proxy \<Rightarrow> 'h balanced_proxy" where
  "set_stage i x z = z\<lparr>bp_sessions := (bp_sessions z)(i \<mapsto> x)\<rparr>"

text \<open>The routine has returned, and with it the task.\<close>

definition bp_end :: "nat \<Rightarrow> 'h balanced_proxy \<Rightarrow> 'h balanced_proxy" where
  "bp_end i z = z\<lparr>bp_sessions := (bp_sessions z)(i := None), bp_pool := worker_finish i Serve_connection (bp_pool z)\<rparr>"

text \<open>The three accesses of \<open>selectServer\<close>; without a handler the routine returns at once.\<close>

definition bp_load :: "'h proxy_socket \<Rightarrow> nat \<Rightarrow> 'h balanced_proxy \<Rightarrow> 'h balanced_proxy option" where
  "bp_load p i z =
     (case bp_sessions z i of
        Some (Requesting c) \<Rightarrow>
          (if px_handler p = None then Some (bp_end i z)
           else if lb_servers (px_balancer p) = [] then None
           else Some (set_stage i (Index_loaded c
             (next_index (bp_index z) (word_of_nat (length (lb_servers (px_balancer p)))))) z))
      | _ \<Rightarrow> None)"

definition bp_store :: "nat \<Rightarrow> 'h balanced_proxy \<Rightarrow> 'h balanced_proxy option" where
  "bp_store i z =
     (case bp_sessions z i of
        Some (Index_loaded c v) \<Rightarrow> Some ((set_stage i (Index_stored c) z)\<lparr>bp_index := v\<rparr>)
      | _ \<Rightarrow> None)"

text \<open>The options of \<open>ThreadHandler\<close>: keep-alive twice on the client.\<close>

definition session_options :: "fd \<Rightarrow> fd \<Rightarrow> os \<Rightarrow> os" where
  "session_options c t s =
     snd (SetKeepAlive c 0 (snd (SetReadTimeOut t 0 (snd (SetKeepAlive c 0 (snd (SetReadTimeOut c 0 s)))))))"

text \<open>
  The server is read from the vector and a socket to it is opened: \<open>sock\<close> is what \<open>socket\<close> returns, a free
  descriptor or -1, \<open>r\<close> and \<open>rv\<close> the answers of the resolver and of \<open>connect\<close>, \<open>h\<close> the new
  \<open>EXECUTION_CONTEXT\<close>.  An exception of the constructor ends the routine.
\<close>

definition bp_connect ::
  "'h proxy_socket \<Rightarrow> nat \<Rightarrow> nat \<Rightarrow> resolver \<Rightarrow> int \<Rightarrow> int \<Rightarrow> 'h \<Rightarrow> 'h balanced_proxy \<Rightarrow> 'h balanced_proxy option" where
  "bp_connect p limit i r rv sock h z =
     (case bp_sessions z i of
        Some (Index_stored c) \<Rightarrow>
          (if sock \<noteq> -1 \<and> (sock \<in> set (bp_open z) \<or> limit \<le> length (bp_open z)) then None
           else
             (case vector_at (lb_servers (px_balancer p)) (bp_index z) of
                None \<Rightarrow> None
              | Some service \<Rightarrow>
                  (case client_ctor (server_Connect (rs_ipaddress service) (rs_port service) r rv) (rs_ipaddress service) sock (bp_os z) of
                     None \<Rightarrow> None
                   | Some (t, Raised m s) \<Rightarrow> Some ((bp_end i z)\<lparr>bp_os := s\<rparr>)
                   | Some (t, Done s) \<Rightarrow>
                       Some ((set_stage i (In_session c t h) z)\<lparr>bp_os := session_options c t s,
                         bp_open := t # bp_open z, bp_served := bp_served z @ [(c, service, t)]\<rparr>))))
      | _ \<Rightarrow> None)"

text \<open>A turn of the relay loop.\<close>

definition bp_turn :: "'h proxy_socket \<Rightarrow> nat \<Rightarrow> relay_env \<Rightarrow> 'h balanced_proxy \<Rightarrow> 'h balanced_proxy option" where
  "bp_turn p i e z =
     (case (bp_sessions z i, px_handler p) of
        (Some (In_session c t h), Some H) \<Rightarrow>
          (case px_turn H e c t (bp_os z) h of
             None \<Rightarrow> None
           | Some (True, s, h1) \<Rightarrow> Some ((set_stage i (In_session c t h1) z)\<lparr>bp_os := s\<rparr>)
           | Some (False, s, h1) \<Rightarrow> Some ((bp_end i z)\<lparr>bp_os := s\<rparr>))
      | _ \<Rightarrow> None)"

datatype 'h bp_event =
    Client_comes fd
  | Accept_fails
  | Variable_dies
  | Task_taken nat
  | Load_current nat
  | Store_current nat
  | Connect_target nat resolver int int 'h
  | Session_turn nat relay_env

text \<open>\<open>None\<close>: the event cannot happen, or its effect is undefined.  An error of \<open>accept\<close> is thrown out of the
  listening thread's function, which ends the process.\<close>

fun bp_step :: "'h proxy_socket \<Rightarrow> nat \<Rightarrow> 'h bp_event \<Rightarrow> 'h balanced_proxy \<Rightarrow> 'h balanced_proxy outcome option" where
  "bp_step p limit (Client_comes f) z = map_option Running (bp_accept limit f z)"
| "bp_step p limit Accept_fails z = Some (Exited 134 z)"
| "bp_step p limit Variable_dies z = Some (Running (z\<lparr>bp_client_data := None\<rparr>))"
| "bp_step p limit (Task_taken i) z = map_option Running (bp_take i z)"
| "bp_step p limit (Load_current i) z = map_option Running (bp_load p i z)"
| "bp_step p limit (Store_current i) z = map_option Running (bp_store i z)"
| "bp_step p limit (Connect_target i r rv sock h) z = map_option Running (bp_connect p limit i r rv sock h z)"
| "bp_step p limit (Session_turn i e) z = map_option Running (bp_turn p i e z)"

fun bp_run :: "'h proxy_socket \<Rightarrow> nat \<Rightarrow> 'h bp_event list \<Rightarrow> 'h balanced_proxy \<Rightarrow> 'h balanced_proxy outcome option" where
  "bp_run p limit [] z = Some (Running z)"
| "bp_run p limit (e # es) z =
     (case bp_step p limit e z of
        None \<Rightarrow> None
      | Some (Exited c y) \<Rightarrow> Some (Exited c y)
      | Some (Running y) \<Rightarrow> bp_run p limit es y)"

section \<open>The cases of a step\<close>

lemma bp_accept_cases:
  assumes "bp_accept limit f z = Some y"
  obtains "f \<notin> set (bp_open z)" "length (bp_open z) < limit"
    "y = z\<lparr>bp_open := f # bp_open z, bp_client_data := Some f, bp_pool := pool_push Serve_connection (bp_pool z)\<rparr>"
  using assms by (auto simp: bp_accept_def split: if_splits)

lemma bp_take_cases:
  assumes "bp_take i z = Some y"
  obtains q f where "i < length (workers (bp_pool z))" "workers (bp_pool z) ! i = Idle" "worker_pop i (bp_pool z) = Some q"
    "bp_client_data z = Some f" "y = z\<lparr>bp_pool := q, bp_sessions := (bp_sessions z)(i \<mapsto> Requesting f)\<rparr>"
  using assms by (auto simp: bp_take_def split: if_splits option.splits)

lemma bp_load_cases:
  assumes "bp_load p i z = Some y"
  obtains (no_handler) c where "bp_sessions z i = Some (Requesting c)" "y = bp_end i z"
  | (loaded) c where "bp_sessions z i = Some (Requesting c)" "lb_servers (px_balancer p) \<noteq> []"
      "y = set_stage i (Index_loaded c (next_index (bp_index z) (word_of_nat (length (lb_servers (px_balancer p)))))) z"
  using assms by (auto simp: bp_load_def split: option.splits session_stage.splits if_splits)

lemma bp_store_cases:
  assumes "bp_store i z = Some y"
  obtains c v where "bp_sessions z i = Some (Index_loaded c v)" "y = (set_stage i (Index_stored c) z)\<lparr>bp_index := v\<rparr>"
  using assms by (auto simp: bp_store_def split: option.splits session_stage.splits)

lemma client_ctor_fd: "client_ctor connect name sock s = Some (t, c) \<Longrightarrow> t = sock \<and> (sock = -1 \<longrightarrow> (\<exists>m s1. c = Raised m s1))"
  by (auto simp: client_ctor_def CreateSocket_def Let_def split: if_splits option.splits completion.splits)

lemma bp_connect_cases:
  assumes "bp_connect p limit i r rv sock h z = Some y"
  obtains (failed) c m s and service :: resolved_service where "bp_sessions z i = Some (Index_stored c)"
      "client_ctor (server_Connect (rs_ipaddress service) (rs_port service) r rv) (rs_ipaddress service) sock (bp_os z) = Some (sock, Raised m s)"
      "y = (bp_end i z)\<lparr>bp_os := s\<rparr>"
  | (connected) c s and service :: resolved_service where "bp_sessions z i = Some (Index_stored c)" "sock \<notin> set (bp_open z)" "length (bp_open z) < limit"
      "vector_at (lb_servers (px_balancer p)) (bp_index z) = Some service"
      "client_ctor (server_Connect (rs_ipaddress service) (rs_port service) r rv) (rs_ipaddress service) sock (bp_os z) = Some (sock, Done s)"
      "y = (set_stage i (In_session c sock h) z)\<lparr>bp_os := session_options c sock s, bp_open := sock # bp_open z,
         bp_served := bp_served z @ [(c, service, sock)]\<rparr>"
proof -
  from assms obtain c service t x where c: "bp_sessions z i = Some (Index_stored c)"
    "sock \<noteq> -1 \<longrightarrow> sock \<notin> set (bp_open z) \<and> length (bp_open z) < limit"
    "vector_at (lb_servers (px_balancer p)) (bp_index z) = Some service"
    "client_ctor (server_Connect (rs_ipaddress service) (rs_port service) r rv) (rs_ipaddress service) sock (bp_os z) = Some (t, x)"
    by (auto simp: bp_connect_def not_le split: option.splits session_stage.splits if_splits)
  note t = client_ctor_fd [OF c(4)]
  show ?thesis
  proof (cases x)
    case (Raised m s)
    then show ?thesis using assms c t failed [of c service m s] by (auto simp: bp_connect_def split: if_splits)
  next
    case (Done s)
    then have "sock \<noteq> -1" using t by auto
    then show ?thesis using assms c t Done connected [of c service s] by (auto simp: bp_connect_def split: if_splits)
  qed
qed

lemma bp_turn_cases:
  assumes "bp_turn p i e z = Some y"
  obtains (goes_on) c t h H s h1 where "bp_sessions z i = Some (In_session c t h)" "px_handler p = Some H"
      "px_turn H e c t (bp_os z) h = Some (True, s, h1)" "y = (set_stage i (In_session c t h1) z)\<lparr>bp_os := s\<rparr>"
  | (ends) c t h H s h1 where "bp_sessions z i = Some (In_session c t h)" "px_handler p = Some H"
      "px_turn H e c t (bp_os z) h = Some (False, s, h1)" "y = (bp_end i z)\<lparr>bp_os := s\<rparr>"
proof -
  from assms obtain c t h H ok s h1 where 1: "bp_sessions z i = Some (In_session c t h)" "px_handler p = Some H"
    "px_turn H e c t (bp_os z) h = Some (ok, s, h1)"
    by (auto simp: bp_turn_def split: option.splits session_stage.splits)
  show ?thesis by (cases ok) (use assms 1 goes_on ends in \<open>auto simp: bp_turn_def\<close>)
qed

text \<open>All the ways a running system goes on.\<close>

lemma bp_step_cases:
  assumes "bp_step p limit e z = Some (Running y)"
  obtains (accepted) f where "e = Client_comes f" "f \<notin> set (bp_open z)" "length (bp_open z) < limit"
      "y = z\<lparr>bp_open := f # bp_open z, bp_client_data := Some f, bp_pool := pool_push Serve_connection (bp_pool z)\<rparr>"
  | (died) "e = Variable_dies" "y = z\<lparr>bp_client_data := None\<rparr>"
  | (taken) i q f where "e = Task_taken i" "i < length (workers (bp_pool z))" "workers (bp_pool z) ! i = Idle"
      "worker_pop i (bp_pool z) = Some q" "bp_client_data z = Some f"
      "y = z\<lparr>bp_pool := q, bp_sessions := (bp_sessions z)(i \<mapsto> Requesting f)\<rparr>"
  | (no_handler) i c where "e = Load_current i" "bp_sessions z i = Some (Requesting c)" "y = bp_end i z"
  | (loaded) i c where "e = Load_current i" "bp_sessions z i = Some (Requesting c)" "lb_servers (px_balancer p) \<noteq> []"
      "y = set_stage i (Index_loaded c (next_index (bp_index z) (word_of_nat (length (lb_servers (px_balancer p)))))) z"
  | (stored) i c v where "e = Store_current i" "bp_sessions z i = Some (Index_loaded c v)"
      "y = (set_stage i (Index_stored c) z)\<lparr>bp_index := v\<rparr>"
  | (failed) i r rv sock h c m s and service :: resolved_service where "e = Connect_target i r rv sock h"
      "bp_sessions z i = Some (Index_stored c)"
      "client_ctor (server_Connect (rs_ipaddress service) (rs_port service) r rv) (rs_ipaddress service) sock (bp_os z) = Some (sock, Raised m s)"
      "y = (bp_end i z)\<lparr>bp_os := s\<rparr>"
  | (connected) i r rv sock h c s and service :: resolved_service where "e = Connect_target i r rv sock h"
      "bp_sessions z i = Some (Index_stored c)" "sock \<notin> set (bp_open z)" "length (bp_open z) < limit"
      "vector_at (lb_servers (px_balancer p)) (bp_index z) = Some service"
      "client_ctor (server_Connect (rs_ipaddress service) (rs_port service) r rv) (rs_ipaddress service) sock (bp_os z) = Some (sock, Done s)"
      "y = (set_stage i (In_session c sock h) z)\<lparr>bp_os := session_options c sock s, bp_open := sock # bp_open z,
         bp_served := bp_served z @ [(c, service, sock)]\<rparr>"
  | (goes_on) i x c t h H s h1 where "e = Session_turn i x" "bp_sessions z i = Some (In_session c t h)" "px_handler p = Some H"
      "px_turn H x c t (bp_os z) h = Some (True, s, h1)" "y = (set_stage i (In_session c t h1) z)\<lparr>bp_os := s\<rparr>"
  | (ends) i x c t h H s h1 where "e = Session_turn i x" "bp_sessions z i = Some (In_session c t h)" "px_handler p = Some H"
      "px_turn H x c t (bp_os z) h = Some (False, s, h1)" "y = (bp_end i z)\<lparr>bp_os := s\<rparr>"
proof (cases e)
  case (Client_comes f)
  then have "bp_accept limit f z = Some y" using assms by simp
  then show thesis by (cases rule: bp_accept_cases) (rule accepted [OF Client_comes])
next
  case (Task_taken i)
  then have "bp_take i z = Some y" using assms by simp
  then show thesis by (cases rule: bp_take_cases) (rule taken [OF Task_taken])
next
  case (Load_current i)
  then have "bp_load p i z = Some y" using assms by simp
  then show thesis by (cases rule: bp_load_cases) (rule no_handler [OF Load_current] loaded [OF Load_current]; assumption)+
next
  case (Store_current i)
  then have "bp_store i z = Some y" using assms by simp
  then show thesis by (cases rule: bp_store_cases) (rule stored [OF Store_current])
next
  case (Connect_target i r rv sock h)
  then have "bp_connect p limit i r rv sock h z = Some y" using assms by simp
  then show thesis
    by (cases rule: bp_connect_cases) (rule failed [OF Connect_target] connected [OF Connect_target]; assumption)+
next
  case (Session_turn i x)
  then have "bp_turn p i x z = Some y" using assms by simp
  then show thesis by (cases rule: bp_turn_cases) (rule goes_on [OF Session_turn] ends [OF Session_turn]; assumption)+
qed (use assms died in auto)

section \<open>Sessions do not disturb each other\<close>

lemma px_side_other:
  assumes "px_side handle a b readable as s h = Some (ok, u, h1)" "f \<noteq> b"
  shows "stream_to f u = stream_to f s"
proof (cases readable)
  case True
  then obtain bytes rest v where v: "ReceiveBytes a as s = Some (bytes, rest, v)"
    "u = SendBytes b (fst (handle bytes h) @ [NUL]) (length (fst (handle bytes h))) v"
    using assms(1) by (auto simp: px_side_def case_prod_beta Let_def split: option.splits)
  have "stream_to f v = stream_to f s"
    using receiveBytes_sends [OF v(1) [unfolded ReceiveBytes_def]] by (simp add: stream_to_def)
  then show ?thesis using assms(2) by (simp add: v(2))
qed (use assms in \<open>simp add: px_side_def\<close>)

lemma px_turn_other:
  assumes "px_turn H e c t s h = Some (ok, u, h1)" "f \<noteq> c" "f \<noteq> t"
  shows "stream_to f u = stream_to f s"
proof -
  obtain fds s1 where s1: "server_SocketSelect c (Some t) (re_select e) (re_ready e) s = (fds, s1)" by fastforce
  then obtain ok1 s2 h2 ok2 h3 where r:
    "px_side (HandleUpstreamData H) c t (Readable c fds) (re_client e) s1 h = Some (ok1, s2, h2)"
    "px_side (HandleDownStreamData H) t c (Readable t fds) (re_target e) s2 h2 = Some (ok2, u, h3)"
    using assms(1) by (fastforce simp: px_turn_def split: option.splits prod.splits)
  have "stream_to f u = stream_to f s2" "stream_to f s2 = stream_to f s1"
    by (rule px_side_other [OF r(2) assms(2)], rule px_side_other [OF r(1) assms(3)])
  moreover have "stream_to f s1 = stream_to f s"
    using s1 by (auto simp: server_SocketSelect_def Let_def split: if_splits)
  ultimately show ?thesis by simp
qed

lemma client_ctor_streams:
  assumes "client_ctor (server_Connect name port r rv) name sock s = Some (t, x)"
  shows "stream_to f (state_of x) = stream_to f s"
  using assms
  by (auto simp: client_ctor_def CreateSocket_def server_Connect_def stream_to_def Let_def
      split: completion.splits option.splits if_splits sum.splits bool.splits)

lemma px_turn_hangups:
  assumes "px_turn H e c t s h = Some (ok, u, h1)"
  shows "hangups (trace u) = hangups (trace s)"
proof -
  have side: "hangups (trace v) = hangups (trace w)" if ran: "px_side handle a b readable as w k = Some (b1, v, k1)" for handle a b readable as w k b1 v k1
  proof (cases readable)
    case True
    then obtain bytes rest x where x: "ReceiveBytes a as w = Some (bytes, rest, x)"
      "v = SendBytes b (fst (handle bytes k) @ [NUL]) (length (fst (handle bytes k))) x"
      using ran by (auto simp: px_side_def case_prod_beta Let_def split: option.splits)
    have "hangups (trace x) = hangups (trace w)"
      using receiveBytes_sends [OF x(1) [unfolded ReceiveBytes_def]] by simp
    then show ?thesis by (simp add: x(2) SendBytes_def)
  qed (use ran in \<open>simp add: px_side_def\<close>)
  obtain fds s1 where s1: "server_SocketSelect c (Some t) (re_select e) (re_ready e) s = (fds, s1)" by fastforce
  then obtain ok1 s2 h2 ok2 h3 where r:
    "px_side (HandleUpstreamData H) c t (Readable c fds) (re_client e) s1 h = Some (ok1, s2, h2)"
    "px_side (HandleDownStreamData H) t c (Readable t fds) (re_target e) s2 h2 = Some (ok2, u, h3)"
    using assms by (fastforce simp: px_turn_def split: option.splits prod.splits)
  have "hangups (trace s1) = hangups (trace s)"
    using s1 by (auto simp: server_SocketSelect_def Let_def split: if_splits)
  then show ?thesis using side [OF r(1)] side [OF r(2)] by simp
qed

text \<open>The constructor of a connection closes its socket exactly if there is one and the connection fails.\<close>

lemma client_ctor_hangups:
  assumes "client_ctor (server_Connect name port r rv) name sock s = Some (t, x)"
  shows "hangups (trace (state_of x)) =
    hangups (trace s) @ (case x of Done u \<Rightarrow> [] | Raised m u \<Rightarrow> if sock = -1 then [] else [sock])"
  using assms
  by (auto simp: client_ctor_def CreateSocket_def server_Connect_def Let_def
      split: completion.splits option.splits if_splits sum.splits bool.splits)

lemma session_options_hangups [simp]: "hangups (trace (session_options c t s)) = hangups (trace s)"
  by (simp add: session_options_def SetKeepAlive_def SetReadTimeOut_def)

lemma session_options_streams [simp]: "stream_to f (session_options c t s) = stream_to f s"
  by (simp add: session_options_def SetKeepAlive_def SetReadTimeOut_def stream_to_def)

text \<open>The structure of the system: sessions run on working workers and use open descriptors.\<close>

fun stage_fds :: "'h session_stage \<Rightarrow> fd set" where
  "stage_fds (Requesting c) = {c}"
| "stage_fds (Index_loaded c v) = {c}"
| "stage_fds (Index_stored c) = {c}"
| "stage_fds (In_session c t h) = {c, t}"

definition bp_ok :: "nat \<Rightarrow> 'h balanced_proxy \<Rightarrow> bool" where
  "bp_ok limit z \<longleftrightarrow> distinct (bp_open z) \<and> length (bp_open z) \<le> limit \<and> Stop \<notin> set (pool_queue (bp_pool z)) \<and>
     (\<forall>f. bp_client_data z = Some f \<longrightarrow> f \<in> set (bp_open z)) \<and>
     (\<forall>i st. bp_sessions z i = Some st \<longrightarrow> stage_fds st \<subseteq> set (bp_open z) \<and>
        i < length (workers (bp_pool z)) \<and> workers (bp_pool z) ! i = Working Serve_connection)"

lemma bp_ok_initial: "distinct fds \<Longrightarrow> length fds \<le> limit \<Longrightarrow> bp_ok limit (bp_initial n s fds)"
  by (simp add: bp_ok_def bp_initial_def pool_start_def)

lemma worker_pop_serve:
  assumes "worker_pop i q = Some q'" "Stop \<notin> set (pool_queue q)"
  obtains rest where "pool_queue q = Execute Serve_connection # rest"
    "q' = q\<lparr>pool_queue := rest, workers := (workers q)[i := Working Serve_connection], started := started q @ [Serve_connection]\<rparr>"
  using assms(1)
proof (cases rule: worker_pop_cases)
  case (1 x rest)
  then show ?thesis using that by (cases x) simp
qed (use assms(2) in auto)

lemma bp_ok_set_stage:
  "bp_ok limit z \<Longrightarrow> bp_sessions z i = Some st \<Longrightarrow> stage_fds st' \<subseteq> set (bp_open z) \<Longrightarrow> bp_ok limit (set_stage i st' z)"
  by (auto simp: bp_ok_def set_stage_def)

lemma bp_ok_end:
  assumes "bp_ok limit z" "bp_sessions z i = Some st"
  shows "bp_ok limit (bp_end i z)"
proof -
  have "i < length (workers (bp_pool z))" using assms by (auto simp: bp_ok_def)
  then show ?thesis using assms(1) by (auto simp: bp_ok_def bp_end_def worker_finish_def nth_list_update)
qed

lemma bp_ok_os: "bp_ok limit (z\<lparr>bp_os := s\<rparr>) = bp_ok limit z" "bp_ok limit (z\<lparr>bp_index := v\<rparr>) = bp_ok limit z"
  by (simp_all add: bp_ok_def)

lemma bp_ok_accept:
  "bp_ok limit z \<Longrightarrow> f \<notin> set (bp_open z) \<Longrightarrow> length (bp_open z) < limit \<Longrightarrow>
   bp_ok limit (z\<lparr>bp_open := f # bp_open z, bp_client_data := Some f, bp_pool := pool_push Serve_connection (bp_pool z)\<rparr>)"
  by (auto simp: bp_ok_def pool_push_def tsq_push_def)

lemma bp_ok_dies: "bp_ok limit z \<Longrightarrow> bp_ok limit (z\<lparr>bp_client_data := None\<rparr>)"
  by (simp add: bp_ok_def)

lemma stage_open: "bp_ok limit z \<Longrightarrow> bp_sessions z i = Some st \<Longrightarrow> stage_fds st \<subseteq> set (bp_open z)"
  by (simp add: bp_ok_def)

lemma bp_ok_step:
  assumes "bp_step p limit e z = Some (Running y)" "bp_ok limit z"
  shows "bp_ok limit y"
  using assms(1)
proof (cases rule: bp_step_cases)
  case (taken i q f)
  have "Stop \<notin> set (pool_queue (bp_pool z))" using assms(2) by (simp add: bp_ok_def)
  then obtain rest where r: "pool_queue (bp_pool z) = Execute Serve_connection # rest"
    "q = (bp_pool z)\<lparr>pool_queue := rest, workers := (workers (bp_pool z))[i := Working Serve_connection],
       started := started (bp_pool z) @ [Serve_connection]\<rparr>"
    using worker_pop_serve [OF taken(4)] by blast
  have "f \<in> set (bp_open z)" using assms(2) taken(5) by (simp add: bp_ok_def)
  then show ?thesis
    using assms(2) taken(2,6) unfolding bp_ok_def r by (simp add: nth_list_update)
next
  case (connected i r rv sock h c s service)
  have "c \<in> set (bp_open z)" using stage_open [OF assms(2) connected(2)] by simp
  then show ?thesis using assms(2) connected by (auto simp: bp_ok_def set_stage_def)
qed (use assms(2) bp_ok_end [OF assms(2)] bp_ok_set_stage [OF assms(2)] stage_open [OF assms(2)] in
  \<open>fastforce simp: bp_ok_os intro: bp_ok_accept bp_ok_dies\<close>)+

text \<open>A descriptor that only the session of worker \<open>i\<close> uses, and that no task can still be given.\<close>

definition own_fd :: "nat \<Rightarrow> fd \<Rightarrow> 'h balanced_proxy \<Rightarrow> bool" where
  "own_fd i f z \<longleftrightarrow> f \<in> set (bp_open z) \<and> (pool_queue (bp_pool z) \<noteq> [] \<longrightarrow> bp_client_data z \<noteq> Some f) \<and>
     (\<forall>j st. j \<noteq> i \<longrightarrow> bp_sessions z j = Some st \<longrightarrow> f \<notin> stage_fds st)"

text \<open>The turns of a worker in a run.\<close>

fun turns_of :: "nat \<Rightarrow> 'h bp_event list \<Rightarrow> relay_env list" where
  "turns_of i [] = []"
| "turns_of i (Session_turn j e # es) = (if j = i then e # turns_of i es else turns_of i es)"
| "turns_of i (_ # es) = turns_of i es"

text \<open>A step of anything else leaves the descriptor, its stream and the session alone.\<close>

lemma own_fd_step:
  assumes "bp_step p limit e z = Some (Running y)" "own_fd i f z" "bp_sessions z i = Some (In_session c t h)"
    and "\<forall>x. e \<noteq> Session_turn i x" "bp_ok limit z"
  shows "own_fd i f y \<and> stream_to f (bp_os y) = stream_to f (bp_os z) \<and> bp_sessions y i = bp_sessions z i"
  using assms(1)
proof (cases rule: bp_step_cases)
  case (taken j q g)
  have "j \<noteq> i" using taken(3) assms(3,5) by (auto simp: bp_ok_def)
  moreover have "pool_queue (bp_pool z) \<noteq> []" using taken(4) by (auto simp: worker_pop_def tsq_pop_def)
  ultimately show ?thesis using taken assms(2) by (auto simp: own_fd_def)
next
  case (failed j r rv sock h' c' m s service)
  then have "stream_to f s = stream_to f (bp_os z)" using client_ctor_streams by fastforce
  then show ?thesis using failed assms(2,3) by (cases "j = i") (auto simp: own_fd_def bp_end_def worker_finish_def)
next
  case (connected j r rv sock h' c' s service)
  then have "stream_to f s = stream_to f (bp_os z)" using client_ctor_streams by fastforce
  then show ?thesis using connected assms(2,3) by (cases "j = i") (auto simp: own_fd_def set_stage_def)
next
  case (goes_on j x c' t' h' H s h1)
  then have "stream_to f s = stream_to f (bp_os z)" using px_turn_other assms(2,4) by (fastforce simp: own_fd_def)
  then show ?thesis using goes_on assms(2,4) by (auto simp: own_fd_def set_stage_def)
next
  case (ends j x c' t' h' H s h1)
  then have "stream_to f s = stream_to f (bp_os z)" using px_turn_other assms(2,4) by (fastforce simp: own_fd_def)
  then show ?thesis using ends assms(2,4) by (auto simp: own_fd_def bp_end_def worker_finish_def)
next
  case (loaded j c')
  then show ?thesis using assms(2,3) by (cases "j = i") (auto simp: own_fd_def set_stage_def)
next
  case (stored j c' v)
  then show ?thesis using assms(2,3) by (cases "j = i") (auto simp: own_fd_def set_stage_def)
next
  case (no_handler j c')
  then show ?thesis using assms(2,3) by (cases "j = i") (auto simp: own_fd_def bp_end_def worker_finish_def)
qed (use assms in \<open>auto simp: own_fd_def\<close>)

text \<open>
  The listening thread sleeps for three milliseconds after it has pushed a task, so that a worker may copy the variable
  before the next client is written into it.  In a prompt run that has always happened: no client is accepted while
  a task is waiting.  Nothing in the code makes sure of it.
\<close>

fun prompt :: "'h proxy_socket \<Rightarrow> nat \<Rightarrow> 'h bp_event list \<Rightarrow> 'h balanced_proxy \<Rightarrow> bool" where
  "prompt p limit [] z = True"
| "prompt p limit (e # es) z =
     ((case e of Client_comes f \<Rightarrow> pool_queue (bp_pool z) = [] | _ \<Rightarrow> True) \<and>
      (case bp_step p limit e z of Some (Running y) \<Rightarrow> prompt p limit es y | _ \<Rightarrow> True))"

definition handed_over :: "'h balanced_proxy \<Rightarrow> bool" where
  "handed_over z \<longleftrightarrow>
     (\<forall>i j st st'. i \<noteq> j \<longrightarrow> bp_sessions z i = Some st \<longrightarrow> bp_sessions z j = Some st' \<longrightarrow> stage_fds st \<inter> stage_fds st' = {}) \<and>
     (\<forall>i c t h. bp_sessions z i = Some (In_session c t h) \<longrightarrow> c \<noteq> t) \<and>
     length (pool_queue (bp_pool z)) \<le> 1 \<and>
     (pool_queue (bp_pool z) \<noteq> [] \<longrightarrow>
       (\<forall>f i st. bp_client_data z = Some f \<longrightarrow> bp_sessions z i = Some st \<longrightarrow> f \<notin> stage_fds st))"

lemma handed_over_initial: "handed_over (bp_initial n s fds)"
  by (simp add: handed_over_def bp_initial_def pool_start_def)

lemma handed_over_stage:
  assumes "handed_over z" "bp_sessions z i = Some st" "stage_fds st' \<subseteq> stage_fds st"
    and "\<And>c t h. st' = In_session c t h \<Longrightarrow> c \<noteq> t"
  shows "handed_over (set_stage i st' z)"
  using assms unfolding handed_over_def set_stage_def by (auto; blast)

lemma handed_over_end: "handed_over z \<Longrightarrow> handed_over (bp_end i z)"
  by (auto simp: handed_over_def bp_end_def worker_finish_def)

lemma handed_over_os [simp]:
  "handed_over (z\<lparr>bp_os := s\<rparr>) = handed_over z" "handed_over (z\<lparr>bp_index := v\<rparr>) = handed_over z"
  by (simp_all add: handed_over_def)

lemma handed_over_step:
  assumes "bp_step p limit e z = Some (Running y)" "handed_over z" "bp_ok limit z"
    and "\<And>f. e = Client_comes f \<Longrightarrow> pool_queue (bp_pool z) = []"
  shows "handed_over y"
  using assms(1)
proof (cases rule: bp_step_cases)
  case (accepted f)
  have "f \<notin> stage_fds st" if "bp_sessions z i = Some st" for i st using stage_open [OF assms(3) that] accepted(2) by blast
  then show ?thesis using accepted(4) assms(2) assms(4) [OF accepted(1)]
    by (auto simp: handed_over_def pool_push_def tsq_push_def)
next
  case (taken i q f)
  have "Stop \<notin> set (pool_queue (bp_pool z))" using assms(3) by (simp add: bp_ok_def)
  then obtain rest where r: "pool_queue (bp_pool z) = Execute Serve_connection # rest" "pool_queue q = rest"
    using worker_pop_serve [OF taken(4)] by fastforce
  then have "rest = []" using assms(2) by (simp add: handed_over_def)
  moreover have "f \<notin> stage_fds st" if "bp_sessions z j = Some st" for j st
    using assms(2) r(1) taken(5) that by (auto simp: handed_over_def)
  ultimately show ?thesis using taken(6) assms(2) r(2) by (auto simp: handed_over_def split: if_splits)
next
  case (connected i r rv sock h c s service)
  have old: "sock \<notin> stage_fds st" if "bp_sessions z j = Some st" for j st using stage_open [OF assms(3) that] connected(3) by blast
  have c: "c \<in> set (bp_open z)" using stage_open [OF assms(3) connected(2)] by simp
  have client: "bp_client_data z \<noteq> Some sock" using assms(3) connected(3) by (auto simp: bp_ok_def)
  have apart: "c \<notin> stage_fds st" if "bp_sessions z j = Some st" "j \<noteq> i" for j st
    using assms(2) connected(2) that unfolding handed_over_def by fastforce
  have var: "pool_queue (bp_pool z) \<noteq> [] \<Longrightarrow> bp_client_data z \<noteq> Some c"
    using assms(2) connected(2) unfolding handed_over_def by fastforce
  show ?thesis
    using connected(3,7) assms(2) old c client apart var
    by (auto simp: handed_over_def set_stage_def split: if_splits)
next
  case (goes_on i x c t h H s h1)
  have "c \<noteq> t" using assms(2) goes_on(2) unfolding handed_over_def by blast
  then show ?thesis using goes_on handed_over_stage [OF assms(2) goes_on(2), of "In_session c t h1"] by simp
next
  case died
  then show ?thesis using assms(2) by (simp add: handed_over_def)
next
  case (loaded i c)
  then show ?thesis using handed_over_stage [OF assms(2) loaded(2), of
      "Index_loaded c (next_index (bp_index z) (word_of_nat (length (lb_servers (px_balancer p)))))"] by simp
next
  case (stored i c v)
  then show ?thesis using handed_over_stage [OF assms(2) stored(2), of "Index_stored c"] by simp
qed (use assms(2) handed_over_end [OF assms(2)] in simp_all)

section \<open>The strategy's index\<close>

definition valid_index :: "'h proxy_socket \<Rightarrow> 32 word \<Rightarrow> bool" where
  "valid_index p v \<longleftrightarrow> (\<exists>k < length (lb_servers (px_balancer p)). v = word_of_nat k)"

definition bp_index_ok :: "'h proxy_socket \<Rightarrow> 'h balanced_proxy \<Rightarrow> bool" where
  "bp_index_ok p z \<longleftrightarrow> (bp_index z = -1 \<or> valid_index p (bp_index z)) \<and>
     (\<forall>i c v. bp_sessions z i = Some (Index_loaded c v) \<longrightarrow> valid_index p v) \<and>
     (\<forall>i c. bp_sessions z i = Some (Index_stored c) \<longrightarrow> valid_index p (bp_index z))"

lemma valid_next_index:
  assumes "v = -1 \<or> valid_index p v" "lb_servers (px_balancer p) \<noteq> []" "length (lb_servers (px_balancer p)) < 2 ^ 31 - 1"
  shows "valid_index p (next_index v (word_of_nat (length (lb_servers (px_balancer p)))))"
proof (cases "v = -1")
  case True
  then show ?thesis using assms(2) by (auto simp: valid_index_def next_index_start intro!: exI [of _ 0])
next
  case False
  let ?n = "length (lb_servers (px_balancer p))"
  obtain k where k: "k < ?n" "v = word_of_nat k" using assms(1) False by (auto simp: valid_index_def)
  have "next_index v (word_of_nat ?n) = word_of_nat (Suc k mod ?n)"
    unfolding k(2) by (rule next_index_less) (use k assms in auto)
  moreover have "Suc k mod ?n < ?n" using assms(2) by simp
  ultimately show ?thesis unfolding valid_index_def by blast
qed

lemma valid_vector_at:
  assumes "valid_index p v" "length (lb_servers (px_balancer p)) < 2 ^ 31 - 1"
  shows "\<exists>x \<in> set (lb_servers (px_balancer p)). vector_at (lb_servers (px_balancer p)) v = Some x"
proof -
  obtain k where k: "k < length (lb_servers (px_balancer p))" "v = word_of_nat k" using assms(1) by (auto simp: valid_index_def)
  then have "unat (scast v :: 64 word) = k" using assms(2) by (simp add: scast_index unat_of_nat)
  then show ?thesis using k(1) by (auto simp: vector_at_def)
qed

lemma bp_index_step:
  assumes "bp_step p limit e z = Some (Running y)" "bp_index_ok p z" "length (lb_servers (px_balancer p)) < 2 ^ 31 - 1"
  shows "bp_index_ok p y"
  using assms(1)
  by (cases rule: bp_step_cases)
    (use assms(2,3) valid_next_index [of "bp_index z" p] in \<open>auto simp: bp_index_ok_def bp_end_def set_stage_def\<close>)

end
