(* ===== verification/ProxyRuns.thy ===== *)
theory ProxyRuns
  imports ProxySystem
begin

text \<open>
  What holds of every run of the balancing proxy: sessions on different workers do not disturb each other; the
  descriptors run out; the shared index stays inside the vector but may serve two clients the same server;
  and a session whose steps are not interrupted is \<open>ThreadHandler\<close>.
\<close>

section \<open>Properties\<close>

lemma bp_run_invariant:
  assumes "bp_run p limit es z = Some (Running y)" "I z"
    and "\<And>e u v. bp_step p limit e u = Some (Running v) \<Longrightarrow> I u \<Longrightarrow> I v"
  shows "I y"
  using assms(1,2)
proof (induction es arbitrary: z)
  case (Cons e es)
  then obtain u where "bp_step p limit e z = Some (Running u)" "bp_run p limit es u = Some (Running y)"
    by (auto split: option.splits outcome.splits)
  then show ?case using Cons.IH assms(3) Cons.prems(2) by blast
qed simp

text \<open>A session whose descriptors are its own, through whatever the rest of the system does.\<close>

lemma session_undisturbed:
  assumes "bp_run p limit es z = Some (Running y)" "bp_ok limit z" "px_handler p = Some H"
    and "bp_sessions z i = Some (In_session c t h)" "c \<noteq> t" "own_fd i c z" "own_fd i t z"
    and "\<forall>e \<in> set (turns_of i es). turn_ok c t P Q e \<and> \<not> turn_ends c t P Q e"
    and "handled H (concat (map (turn_chunks c t P Q) (turns_of i es))) h = (to_target, to_client, h')"
  shows "bp_sessions y i = Some (In_session c t h') \<and> own_fd i c y \<and> own_fd i t y \<and>
    stream_to t (bp_os y) = stream_to t (bp_os z) @ to_target \<and> stream_to c (bp_os y) = stream_to c (bp_os z) @ to_client"
  using assms(1,2,4,6-9)
proof (induction es arbitrary: z h to_target to_client)
  case (Cons e es)
  then obtain u where u: "bp_step p limit e z = Some (Running u)" "bp_run p limit es u = Some (Running y)"
    by (auto split: option.splits outcome.splits)
  have ok: "bp_ok limit u" using bp_ok_step [OF u(1)] Cons.prems by blast
  show ?case
  proof (cases "\<exists>x. e = Session_turn i x")
    case True
    then obtain x where e: "e = Session_turn i x" by blast
    obtain a b h1 where 1: "handled H (turn_chunks c t P Q x) h = (a, b, h1)" by (metis prod_cases3)
    obtain a2 b2 h2 where 2: "handled H (concat (map (turn_chunks c t P Q) (turns_of i es))) h1 = (a2, b2, h2)" by (metis prod_cases3)
    have all: "to_target = a @ a2" "to_client = b @ b2" "h' = h2" using Cons.prems(7) e 1 2 by (simp_all add: handled_append)
    obtain s where s: "px_turn H x c t (bp_os z) h = Some (True, s, h1)" "stream_to t s = stream_to t (bp_os z) @ a"
      "stream_to c s = stream_to c (bp_os z) @ b"
      using px_turn_serves [OF _ assms(5) 1, of "bp_os z"] Cons.prems(6) e by auto
    have "u = (set_stage i (In_session c t h1) z)\<lparr>bp_os := s\<rparr>"
      using u(1) e Cons.prems(3) assms(3) s(1) by (simp add: bp_turn_def)
    then have "bp_sessions u i = Some (In_session c t h1)" "own_fd i c u" "own_fd i t u" "bp_os u = s"
      using Cons.prems(4,5) by (auto simp: set_stage_def own_fd_def)
    with Cons.IH [OF u(2) ok, of h1 a2 b2] Cons.prems(6) e 2 all s show ?thesis by simp
  next
    case False
    then have e: "\<forall>x. e \<noteq> Session_turn i x" "turns_of i (e # es) = turns_of i es" by (cases e; auto)+
    note other = own_fd_step [OF u(1) _ Cons.prems(3) e(1) Cons.prems(2)]
    show ?thesis
      using Cons.IH [OF u(2) ok, of h to_target to_client] other [OF Cons.prems(4)] other [OF Cons.prems(5)]
        Cons.prems(3,6,7) e(2)
      by simp
  qed
qed simp

lemma prompt_append:
  "prompt p limit (xs @ ys) z \<Longrightarrow> bp_run p limit xs z = Some (Running y) \<Longrightarrow> prompt p limit xs z \<and> prompt p limit ys y"
  by (induction xs arbitrary: z) (auto split: option.splits outcome.splits)

lemma bp_run_handed_over:
  assumes "bp_run p limit es z = Some (Running y)" "prompt p limit es z" "handed_over z" "bp_ok limit z"
  shows "handed_over y \<and> bp_ok limit y"
  using assms
proof (induction es arbitrary: z)
  case (Cons e es)
  then obtain u where u: "bp_step p limit e z = Some (Running u)" "bp_run p limit es u = Some (Running y)"
    by (auto split: option.splits outcome.splits)
  have "pool_queue (bp_pool z) = []" if "e = Client_comes f" for f using Cons.prems(2) that by simp
  then have "handed_over u \<and> bp_ok limit u"
    using handed_over_step [OF u(1) Cons.prems(3,4)] bp_ok_step [OF u(1) Cons.prems(4)] by blast
  then show ?case using Cons.IH [OF u(2)] Cons.prems(2) u(1) by simp
qed simp

text \<open>C11: The sessions of the balancing proxy do not disturb each other.  Take any session of any run in which, so far, each
  client was taken by a worker before the next one was accepted (the listening thread only hopes for that, by
  sleeping after each client).  From there on, whatever the other workers, the listening thread and any number of new
  clients do, and however new clients are taken: as long as \<open>select\<close> succeeds in the session's own turns and reports only
  sockets that have data, the session goes on, its target is handed exactly what the upstream handler makes of the
  client's chunks, and its client what the downstream handler makes of the target's, in the order of its turns.\<close>

theorem sessions_undisturbed:
  assumes "bp_run p limit es0 (bp_initial n s fds) = Some (Running z)" "bp_run p limit es z = Some (Running y)"
    and "prompt p limit es0 (bp_initial n s fds)" "distinct fds" "length fds \<le> limit"
    and "px_handler p = Some H" "bp_sessions z i = Some (In_session c t h)"
    and "\<forall>e \<in> set (turns_of i es). turn_ok c t P Q e \<and> \<not> turn_ends c t P Q e"
    and "handled H (concat (map (turn_chunks c t P Q) (turns_of i es))) h = (to_target, to_client, h')"
  shows "bp_sessions y i = Some (In_session c t h') \<and>
    stream_to t (bp_os y) = stream_to t (bp_os z) @ to_target \<and> stream_to c (bp_os y) = stream_to c (bp_os z) @ to_client"
proof -
  have z: "handed_over z" "bp_ok limit z"
    using bp_run_handed_over [OF assms(1,3) handed_over_initial bp_ok_initial [OF assms(4,5)]] by simp_all
  have own: "own_fd i f z" if "f \<in> stage_fds (In_session c t h)" for f
    using z(1) assms(7) stage_open [OF z(2) assms(7)] that unfolding own_fd_def handed_over_def by blast
  have "c \<noteq> t" using z(1) assms(7) unfolding handed_over_def by blast
  then show ?thesis using session_undisturbed [OF assms(2) z(2) assms(6,7) _ own own assms(8,9)] by simp
qed

fun clients_in :: "'h bp_event list \<Rightarrow> fd list" where
  "clients_in [] = []"
| "clients_in (Client_comes f # es) = f # clients_in es"
| "clients_in (_ # es) = clients_in es"

text \<open>The descriptors the kernel hands out in a run: to \<open>accept\<close>, and to \<open>socket\<close>.\<close>

fun handed_out :: "'h bp_event list \<Rightarrow> fd list" where
  "handed_out [] = []"
| "handed_out (Client_comes f # es) = f # handed_out es"
| "handed_out (Connect_target i r rv sock h # es) = (if sock = -1 then [] else [sock]) @ handed_out es"
| "handed_out (_ # es) = handed_out es"

lemma clients_in_Cons: "clients_in (e # es) = clients_in [e] @ clients_in es"
  by (cases e) auto

lemma handed_out_Cons: "handed_out (e # es) = handed_out [e] @ handed_out es"
  by (cases e) auto

lemma bp_step_open:
  assumes "bp_step p limit e z = Some (Running y)"
  shows "length (bp_open y) + length (bp_served z) = length (bp_open z) + length (clients_in [e]) + length (bp_served y)"
    "\<exists>closed. hangups (trace (bp_os y)) = hangups (trace (bp_os z)) @ closed \<and>
      mset (bp_open z) + mset (handed_out [e]) = mset closed + mset (bp_open y)"
proof -
  show "length (bp_open y) + length (bp_served z) = length (bp_open z) + length (clients_in [e]) + length (bp_served y)"
    using assms by (cases rule: bp_step_cases) (auto simp: bp_end_def set_stage_def)
  show "\<exists>closed. hangups (trace (bp_os y)) = hangups (trace (bp_os z)) @ closed \<and>
      mset (bp_open z) + mset (handed_out [e]) = mset closed + mset (bp_open y)"
    using assms
  proof (cases rule: bp_step_cases)
    case (failed i r rv sock h c m s service)
    then show ?thesis using client_ctor_hangups [OF failed(3)] by (simp add: bp_end_def)
  next
    case (connected i r rv sock h c s service)
    have "sock \<noteq> -1" using client_ctor_fd [OF connected(6)] by auto
    then show ?thesis using connected client_ctor_hangups [OF connected(6)] by (simp add: set_stage_def)
  next
    case (goes_on i x c t h H s h1)
    then show ?thesis using px_turn_hangups [OF goes_on(4)] by (simp add: set_stage_def)
  next
    case (ends i x c t h H s h1)
    then show ?thesis using px_turn_hangups [OF ends(4)] by (simp add: bp_end_def)
  qed (simp_all add: bp_end_def set_stage_def)
qed

lemma bp_run_open:
  assumes "bp_run p limit es z = Some (Running y)" "bp_ok limit z"
  shows "bp_ok limit y \<and>
    length (bp_open y) + length (bp_served z) = length (bp_open z) + length (clients_in es) + length (bp_served y) \<and>
    (\<exists>closed. hangups (trace (bp_os y)) = hangups (trace (bp_os z)) @ closed \<and>
      mset (bp_open z) + mset (handed_out es) = mset closed + mset (bp_open y))"
  using assms
proof (induction es arbitrary: z)
  case (Cons e es)
  then obtain u where u: "bp_step p limit e z = Some (Running u)" "bp_run p limit es u = Some (Running y)"
    by (auto split: option.splits outcome.splits)
  have "bp_ok limit u" using bp_ok_step [OF u(1)] Cons.prems(2) by blast
  from Cons.IH [OF u(2) this] obtain closed where IH: "bp_ok limit y"
    "length (bp_open y) + length (bp_served u) = length (bp_open u) + length (clients_in es) + length (bp_served y)"
    "hangups (trace (bp_os y)) = hangups (trace (bp_os u)) @ closed" "mset (bp_open u) + mset (handed_out es) = mset closed + mset (bp_open y)"
    by blast
  obtain closed1 where 1: "hangups (trace (bp_os u)) = hangups (trace (bp_os z)) @ closed1"
    "mset (bp_open z) + mset (handed_out [e]) = mset closed1 + mset (bp_open u)"
    using bp_step_open(2) [OF u(1)] by blast
  have "mset (bp_open z) + mset (handed_out (e # es)) = mset (closed1 @ closed) + mset (bp_open y)"
    using 1(2) IH(4) by (simp add: handed_out_Cons [of e es] ac_simps)
  then show ?case
    using IH(1-3) 1(1) bp_step_open(1) [OF u(1)] by (auto simp: clients_in_Cons [of e es])
qed simp

text \<open>C16: The balancing proxy is not made to last.  The only descriptors it ever closes or shuts down are those of
  connections to a target that could not be established: in every run, the descriptors the process began
  with and all that the kernel has handed out since, to \<open>accept\<close> and to \<open>socket\<close>, are together those closed and those still
  open; and those still open are as many as it began with, plus one for every client that ever
  came, plus one for every session that was ever established, whether or not these have ended.  So where the kernel
  leaves a process at most \<open>limit\<close> descriptors, no run has more clients and sessions in its whole life than
  \<open>limit\<close> less the descriptors it began with.\<close>

theorem proxy_runs_out:
  assumes "bp_run p limit es (bp_initial n s fds) = Some (Running z)" "distinct fds" "length fds \<le> limit"
  shows "\<exists>closed still_open. hangups (trace (bp_os z)) = hangups (trace s) @ closed \<and>
    mset fds + mset (handed_out es) = mset closed + mset still_open \<and> distinct still_open \<and>
    length still_open = length fds + length (clients_in es) + length (bp_served z) \<and>
    length (clients_in es) + length (bp_served z) \<le> limit - length fds"
proof -
  from bp_run_open [OF assms(1) bp_ok_initial [OF assms(2,3)]] obtain closed where
    run: "bp_ok limit z" "length (bp_open z) = length fds + length (clients_in es) + length (bp_served z)"
      "hangups (trace (bp_os z)) = hangups (trace s) @ closed" "mset fds + mset (handed_out es) = mset closed + mset (bp_open z)"
    by (auto simp: bp_initial_def)
  then show ?thesis by (intro exI [of _ closed] exI [of _ "bp_open z"]) (auto simp: bp_ok_def)
qed

section \<open>The shared index\<close>

lemma vector_at_member: "vector_at xs v = Some x \<Longrightarrow> x \<in> set xs"
  by (auto simp: vector_at_def split: if_splits)

definition served_ok :: "'h proxy_socket \<Rightarrow> 'h balanced_proxy \<Rightarrow> bool" where
  "served_ok p z \<longleftrightarrow> (\<forall>x \<in> set (bp_served z). fst (snd x) \<in> set (lb_servers (px_balancer p)))"

lemma served_ok_step:
  assumes "bp_step p limit e z = Some (Running y)" "served_ok p z"
  shows "served_ok p y"
  using assms(1)
  by (cases rule: bp_step_cases)
    (use assms(2) vector_at_member in \<open>auto simp: served_ok_def bp_end_def set_stage_def\<close>)

text \<open>C32: The race on \<open>currentIndex\<close> does not lead outside the vector: in every run of the proxy, however the
  accesses of the workers mix, a session that is about to read \<open>servers[currentIndex]\<close> finds a configured
  server there, and every session established went to a configured server.\<close>

theorem balancer_stays_inside:
  assumes "bp_run p limit es (bp_initial n s fds) = Some (Running z)" "length (lb_servers (px_balancer p)) < 2 ^ 31 - 1"
  shows "(\<forall>i c. bp_sessions z i = Some (Index_stored c) \<longrightarrow>
      (\<exists>service \<in> set (lb_servers (px_balancer p)). vector_at (lb_servers (px_balancer p)) (bp_index z) = Some service)) \<and>
    (\<forall>x \<in> set (bp_served z). fst (snd x) \<in> set (lb_servers (px_balancer p)))"
proof -
  have "bp_index_ok p z"
    by (rule bp_run_invariant [where I = "bp_index_ok p", OF assms(1) _ bp_index_step [OF _ _ assms(2)]])
      (simp_all add: bp_index_ok_def bp_initial_def)
  moreover have "served_ok p z"
    by (rule bp_run_invariant [where I = "served_ok p", OF assms(1) _ served_ok_step]) (simp_all add: served_ok_def bp_initial_def)
  ultimately show ?thesis using valid_vector_at [OF _ assms(2)] unfolding bp_index_ok_def served_ok_def by blast
qed

lemma connect_served:
  assumes "bp_connect p limit i r rv sock h z = Some y"
  shows "bp_index y = bp_index z \<and> (\<forall>j. j \<noteq> i \<longrightarrow> bp_sessions y j = bp_sessions z j) \<and>
    (\<exists>new. bp_served y = bp_served z @ new \<and>
      (\<forall>x \<in> set new. vector_at (lb_servers (px_balancer p)) (bp_index z) = Some (fst (snd x))))"
  using assms by (cases rule: bp_connect_cases) (auto simp: bp_end_def set_stage_def)

text \<open>What the race does: when two workers have both written \<open>currentIndex\<close> before either reads the vector, and
  whether or not they had also loaded the same value, both clients are sent to the same server.\<close>

theorem balancer_race:
  assumes "i \<noteq> j" "bp_sessions z i = Some (Requesting c)" "bp_sessions z j = Some (Requesting d)" "px_handler p \<noteq> None"
    and "accesses = [Load_current i, Load_current j, Store_current i, Store_current j] \<or>
      accesses = [Load_current i, Store_current i, Load_current j, Store_current j]"
    and "bp_run p limit (accesses @ [Connect_target i r rv a h, Connect_target j r' rv' b g]) z = Some (Running y)"
  shows "\<exists>new. bp_served y = bp_served z @ new \<and>
    (\<forall>x \<in> set new. vector_at (lb_servers (px_balancer p)) (bp_index y) = Some (fst (snd x)))"
proof -
  obtain u where u: "bp_run p limit [Connect_target i r rv a h, Connect_target j r' rv' b g] u = Some (Running y)"
    "bp_served u = bp_served z"
    using assms
    by (elim disjE) (auto simp: bp_load_def bp_store_def bp_end_def set_stage_def split: if_splits option.splits)
  then obtain v where v: "bp_connect p limit i r rv a h u = Some v" "bp_connect p limit j r' rv' b g v = Some y"
    by (auto split: option.splits)
  obtain new1 new2 where "bp_served v = bp_served u @ new1" "bp_served y = bp_served v @ new2"
    "\<forall>x \<in> set new1. vector_at (lb_servers (px_balancer p)) (bp_index u) = Some (fst (snd x))"
    "\<forall>x \<in> set new2. vector_at (lb_servers (px_balancer p)) (bp_index v) = Some (fst (snd x))"
    "bp_index v = bp_index u" "bp_index y = bp_index v"
    using connect_served [OF v(1)] connect_served [OF v(2)] by blast
  then show ?thesis using u(2) by (intro exI [of _ "new1 @ new2"]) auto
qed

section \<open>The steps are the routine\<close>

lemma bp_turns_loop:
  assumes "px_loop H es c t (bp_os z) h = Some (True, s, h')" "bp_sessions z i = Some (In_session c t h)" "px_handler p = Some H"
  shows "\<exists>k. bp_run p limit (map (Session_turn i) (take k es)) z = Some (Running ((bp_end i z)\<lparr>bp_os := s\<rparr>))"
  using assms(1,2)
proof (induction es arbitrary: z h)
  case (Cons e es)
  from Cons.prems(1) obtain ok s1 h1 where 1: "px_turn H e c t (bp_os z) h = Some (ok, s1, h1)"
    by (auto split: option.splits)
  show ?case
  proof (cases ok)
    case True
    let ?u = "(set_stage i (In_session c t h1) z)\<lparr>bp_os := s1\<rparr>"
    have step: "bp_step p limit (Session_turn i e) z = Some (Running ?u)"
      using 1 True Cons.prems(2) assms(3) by (simp add: bp_turn_def)
    have "px_loop H es c t (bp_os ?u) h1 = Some (True, s, h')" using Cons.prems(1) 1 True by simp
    then obtain k where "bp_run p limit (map (Session_turn i) (take k es)) ?u = Some (Running ((bp_end i ?u)\<lparr>bp_os := s\<rparr>))"
      using Cons.IH [of ?u h1] by (auto simp: set_stage_def)
    moreover have "(bp_end i ?u)\<lparr>bp_os := s\<rparr> = (bp_end i z)\<lparr>bp_os := s\<rparr>" by (simp add: bp_end_def set_stage_def)
    ultimately show ?thesis using step by (intro exI [of _ "Suc k"]) simp
  next
    case False
    then have "bp_step p limit (Session_turn i e) z = Some (Running ((bp_end i z)\<lparr>bp_os := s\<rparr>))"
      using 1 Cons.prems assms(3) by (simp add: bp_turn_def)
    then show ?thesis by (intro exI [of _ 1]) simp
  qed
qed simp

text \<open>Run without interruption, the steps of a worker are \<open>ThreadHandler\<close> with the round-robin strategy: the
  same index afterwards, the same calls, and the worker is idle again; the rest of the system is untouched.\<close>

theorem steps_are_ThreadHandler:
  assumes "bp_sessions z i = Some (Requesting c)" "px_handler p = Some H"
    and "proxy_ThreadHandler RoundRobin p r rv sock es c (bp_index z) (bp_os z) h = Some (True, st, s, h')"
    and "sock \<noteq> -1 \<longrightarrow> sock \<notin> set (bp_open z) \<and> length (bp_open z) < limit"
  shows "\<exists>k y. bp_run p limit ([Load_current i, Store_current i, Connect_target i r rv sock h] @ map (Session_turn i) (take k es)) z =
      Some (Running y) \<and>
    bp_index y = st \<and> bp_os y = s \<and> bp_sessions y = (bp_sessions z)(i := None) \<and>
    bp_pool y = worker_finish i Serve_connection (bp_pool z) \<and> bp_client_data y = bp_client_data z"
proof -
  let ?n = "word_of_nat (length (lb_servers (px_balancer p))) :: 64 word"
  let ?v = "next_index (bp_index z) ?n"
  obtain service t x where c: "lb_servers (px_balancer p) \<noteq> []" "vector_at (lb_servers (px_balancer p)) ?v = Some service" "st = ?v"
    "client_ctor (server_Connect (rs_ipaddress service) (rs_port service) r rv) (rs_ipaddress service) sock (bp_os z) = Some (t, x)"
    using assms(2,3)
    by (auto simp: proxy_ThreadHandler_def requestServer_def RoundRobin_def Let_def
        split: if_splits option.splits completion.splits)
  define u where "u = (set_stage i (Index_stored c) z)\<lparr>bp_index := ?v\<rparr>"
  have u: "bp_run p limit ([Load_current i, Store_current i] @ rest) z = bp_run p limit rest u" for rest
    using assms(1,2) c(1) by (simp add: bp_load_def bp_store_def set_stage_def u_def)
  have free: "\<not> (sock \<noteq> -1 \<and> (sock \<in> set (bp_open u) \<or> limit \<le> length (bp_open u)))"
    using assms(4) by (auto simp: u_def set_stage_def)
  show ?thesis
  proof (cases x)
    case (Raised m s1)
    then have "bp_connect p limit i r rv sock h u = Some ((bp_end i u)\<lparr>bp_os := s1\<rparr>)"
      using c free by (auto simp: bp_connect_def u_def set_stage_def)
    moreover have "s1 = s" "st = ?v"
      using assms(2,3) c Raised by (auto simp: proxy_ThreadHandler_def requestServer_def RoundRobin_def Let_def)
    ultimately show ?thesis
      using u [of "[Connect_target i r rv sock h]"]
      by (intro exI [of _ 0] exI [of _ "(bp_end i u)\<lparr>bp_os := s1\<rparr>"]) (simp add: u_def bp_end_def set_stage_def)
  next
    case (Done s1)
    let ?w = "(set_stage i (In_session c t h) u)\<lparr>bp_os := session_options c t s1, bp_open := t # bp_open u,
      bp_served := bp_served u @ [(c, service, t)]\<rparr>"
    have w: "bp_connect p limit i r rv sock h u = Some ?w"
      using c free Done by (auto simp: bp_connect_def u_def set_stage_def)
    have "px_loop H es c t (bp_os ?w) h = Some (True, s, h')"
      using assms(2,3) c Done
      by (auto simp: proxy_ThreadHandler_def requestServer_def RoundRobin_def session_options_def Let_def)
    then obtain k where "bp_run p limit (map (Session_turn i) (take k es)) ?w = Some (Running ((bp_end i ?w)\<lparr>bp_os := s\<rparr>))"
      using bp_turns_loop [OF _ _ assms(2), of es c t ?w h s h' i limit] by (auto simp: set_stage_def)
    then show ?thesis
      using u [of "Connect_target i r rv sock h # map (Session_turn i) (take k es)"] w c(3)
      by (intro exI [of _ k] exI [of _ "(bp_end i ?w)\<lparr>bp_os := s\<rparr>"]) (simp add: u_def bp_end_def set_stage_def)
  qed
qed

section \<open>Witnesses\<close>

definition sample_proxy :: "nat proxy_socket" where
  "sample_proxy = \<lparr>px_handler = Some counting_handler, px_services = [sample_service],
     px_balancer = addServer sample_service lb_ctor\<rparr>"

text \<open>Two clients on two workers.\<close>

definition two_arrive :: "nat bp_event list" where
  "two_arrive = [Client_comes 4, Task_taken 0, Variable_dies, Client_comes 5, Task_taken 1, Variable_dies]"

definition two_connect :: "nat bp_event list" where
  "two_connect = [Load_current 0, Load_current 1, Store_current 0, Store_current 1,
     Connect_target 0 \<lparr>by_name = True, by_addr = True\<rparr> 0 9 0, Connect_target 1 \<lparr>by_name = True, by_addr = True\<rparr> 0 10 0]"

definition one_turn :: "fd \<Rightarrow> string \<Rightarrow> relay_env" where
  "one_turn c b = \<lparr>re_select = 1, re_ready = [c], re_client = [ARecv (RData b), AIoctl 0 0], re_target = []\<rparr>"

definition last_turn :: "fd \<Rightarrow> relay_env" where
  "last_turn c = \<lparr>re_select = 1, re_ready = [c], re_client = [ARecv REof], re_target = []\<rparr>"

definition sample_start :: "nat balanced_proxy" where
  "sample_start = bp_initial 2 \<lparr>trace = []\<rparr> [3]"

definition two_turns :: "nat bp_event list" where
  "two_turns = [Session_turn 1 (one_turn 5 ''b''), Session_turn 0 (one_turn 4 ''ab''), Session_turn 1 (last_turn 5)]"

lemma sample_arrive:
  "runs_to (bp_run sample_proxy 5 two_arrive sample_start)
     (\<lambda>z. bp_sessions z 0 = Some (Requesting 4) \<and> bp_sessions z 1 = Some (Requesting 5) \<and>
       bp_open z = [5, 4, 3] \<and> bp_index z = -1 \<and> bp_os z = \<lparr>trace = []\<rparr> \<and>
       runs_to (bp_run sample_proxy 5 two_connect z) (\<lambda>y. length (bp_served y) = 2))"
  by code_simp

lemma sample_sessions:
  "runs_to (bp_run sample_proxy 5 (two_arrive @ two_connect) sample_start)
     (\<lambda>z. bp_sessions z 0 = Some (In_session 4 9 0) \<and> bp_sessions z 1 = Some (In_session 5 10 0) \<and>
       bp_open z = [10, 9, 5, 4, 3] \<and> bp_client_data z = None \<and> length (workers (bp_pool z)) = 2 \<and>
       runs_to (bp_run sample_proxy 5 two_turns z) (\<lambda>y. True))"
  by code_simp

lemma sample_served:
  "runs_to (bp_run sample_proxy 5 (two_arrive @ two_connect) sample_start) (\<lambda>z. length (bp_served z) = 2)"
  by code_simp

lemma sample_ok: "bp_ok 5 sample_start"
  unfolding sample_start_def by (rule bp_ok_initial) simp_all

lemma sample_prompt: "prompt sample_proxy 5 (two_arrive @ two_connect) sample_start"
  by code_simp

lemma sessions_undisturbed_witness:
  "\<exists>z y. bp_run sample_proxy 5 (two_arrive @ two_connect) sample_start = Some (Running z) \<and>
    bp_run sample_proxy 5 two_turns z = Some (Running y) \<and> bp_sessions y 0 = Some (In_session 4 9 1) \<and>
    stream_to 9 (bp_os y) = stream_to 9 (bp_os z) @ ''ab''"
proof -
  obtain z y where z: "bp_run sample_proxy 5 (two_arrive @ two_connect) sample_start = Some (Running z)"
    "bp_sessions z 0 = Some (In_session 4 9 0)" "bp_run sample_proxy 5 two_turns z = Some (Running y)"
    using sample_sessions by (auto elim!: runs_toE)
  have "bp_sessions y 0 = Some (In_session 4 9 1) \<and>
      stream_to 9 (bp_os y) = stream_to 9 (bp_os z) @ ''ab'' \<and> stream_to 4 (bp_os y) = stream_to 4 (bp_os z) @ []"
    by (rule sessions_undisturbed [OF z(1) [unfolded sample_start_def] z(3) sample_prompt [unfolded sample_start_def] _ _ _ z(2),
        where H = counting_handler and P = "\<lambda>e. ''ab''" and Q = "\<lambda>e. []"])
      (auto simp: sample_proxy_def two_turns_def one_turn_def turn_ok_def turn_ends_def turn_chunks_def side_serves_def
        counting_handler_def intro!: serves.intros)
  with z show ?thesis by blast
qed

lemma proxy_runs_out_witness:
  "\<exists>z closed still_open. bp_run sample_proxy 5 (two_arrive @ two_connect) sample_start = Some (Running z) \<and>
    mset [3] + mset (handed_out (two_arrive @ two_connect)) = mset closed + mset still_open \<and>
    length still_open = 5"
proof -
  obtain z where z: "bp_run sample_proxy 5 (two_arrive @ two_connect) sample_start = Some (Running z)" "length (bp_served z) = 2"
    using sample_sessions sample_served by (auto elim!: runs_toE)
  from proxy_runs_out [OF z(1) [unfolded sample_start_def]] z show ?thesis by (fastforce simp: two_arrive_def two_connect_def)
qed

lemma balancer_stays_inside_witness:
  "\<exists>z. bp_run sample_proxy 5 (two_arrive @ two_connect) sample_start = Some (Running z) \<and>
    (\<forall>x \<in> set (bp_served z). fst (snd x) \<in> set (lb_servers (px_balancer sample_proxy)))"
proof -
  obtain z where z: "bp_run sample_proxy 5 (two_arrive @ two_connect) sample_start = Some (Running z)"
    using sample_sessions by (auto elim!: runs_toE)
  from balancer_stays_inside [OF z [unfolded sample_start_def]] z show ?thesis
    by (simp add: sample_proxy_def lb_ctor_def addServer_def)
qed

lemma balancer_race_witness:
  "\<exists>z y. bp_run sample_proxy 5 two_connect z = Some (Running y) \<and> length (bp_served y) = 2 \<and>
    (\<exists>new. bp_served y = bp_served z @ new \<and>
      (\<forall>x \<in> set new. vector_at (lb_servers (px_balancer sample_proxy)) (bp_index y) = Some (fst (snd x))))"
proof -
  obtain z y where z: "bp_run sample_proxy 5 two_connect z = Some (Running y)" "length (bp_served y) = 2"
    "bp_sessions z 0 = Some (Requesting 4)" "bp_sessions z 1 = Some (Requesting 5)"
    using sample_arrive by (auto elim!: runs_toE)
  have "\<exists>new. bp_served y = bp_served z @ new \<and>
      (\<forall>x \<in> set new. vector_at (lb_servers (px_balancer sample_proxy)) (bp_index y) = Some (fst (snd x)))"
    by (rule balancer_race [OF _ z(3,4), where accesses = "[Load_current 0, Load_current 1, Store_current 0, Store_current 1]"])
      (use z(1) in \<open>simp_all add: sample_proxy_def two_connect_def\<close>)
  with z show ?thesis by blast
qed

lemma sample_handler_run:
  "case proxy_ThreadHandler RoundRobin sample_proxy \<lparr>by_name = True, by_addr = True\<rparr> 0 9 [one_turn 4 ''a'', last_turn 4] 4 (-1)
      \<lparr>trace = []\<rparr> 0 of
     Some (b, st, s, h) \<Rightarrow> b | _ \<Rightarrow> False"
  by code_simp

lemma steps_are_ThreadHandler_witness:
  "\<exists>z k y. bp_run sample_proxy 5 ([Load_current 0, Store_current 0, Connect_target 0 \<lparr>by_name = True, by_addr = True\<rparr> 0 9 0] @
      map (Session_turn 0) (take k [one_turn 4 ''a'', last_turn 4])) z = Some (Running y) \<and> bp_sessions y 0 = None"
proof -
  obtain z :: "nat balanced_proxy" where z: "bp_sessions z 0 = Some (Requesting 4)" "bp_open z = [5, 4, 3]" "bp_index z = -1" "bp_os z = \<lparr>trace = []\<rparr>"
    using sample_arrive by (auto elim!: runs_toE)
  obtain st s h where h: "proxy_ThreadHandler RoundRobin sample_proxy \<lparr>by_name = True, by_addr = True\<rparr> 0 9
      [one_turn 4 ''a'', last_turn 4] 4 (bp_index z) (bp_os z) 0 = Some (True, st, s, h)"
    using sample_handler_run unfolding z by (auto split: option.splits prod.splits)
  have "(9 :: fd) \<noteq> -1 \<longrightarrow> 9 \<notin> set (bp_open z) \<and> length (bp_open z) < 5" using z(2) by simp
  moreover have "px_handler sample_proxy = Some counting_handler" by (simp add: sample_proxy_def)
  ultimately obtain k y where "bp_run sample_proxy 5 ([Load_current 0, Store_current 0,
      Connect_target 0 \<lparr>by_name = True, by_addr = True\<rparr> 0 9 0] @
      map (Session_turn 0) (take k [one_turn 4 ''a'', last_turn 4])) z = Some (Running y)"
    "bp_sessions y = (bp_sessions z)(0 := None)"
    using steps_are_ThreadHandler [OF z(1) _ h] by blast
  then show ?thesis by (intro exI conjI) (assumption, simp)
qed

end
