(* ===== verification/RelayThreads.thy ===== *)
theory RelayThreads
  imports Proxies "HOL-Library.Multiset"
begin

text \<open>
  The pass-through proxy as a process (\<open>passthrough-proxy/Proxy.cpp\<close>): the main thread accepts clients and
  starts a thread for each, the threads build their socket to the target, relay, and close both sockets when they
  end, in every interleaving.  The threads share the process's descriptors: a call that opens one gets any that
  is not open, so the numbers a session has closed come back in later ones.
\<close>

section \<open>State and steps\<close>

text \<open>A thread that was created with the accepted socket, or one that relays; the client is absent when \<open>Accept\<close>
  returned a null pointer.\<close>

datatype relay_thread = Created "fd option" | Relaying "fd option" fd

record relay_system =
  rt_open :: "fd list"
  rt_threads :: "nat \<rightharpoonup> relay_thread"
  rt_created :: nat
  rt_os :: os

definition rt_initial :: "fd list \<Rightarrow> os \<Rightarrow> relay_system" where
  "rt_initial fds s = \<lparr>rt_open = fds, rt_threads = Map.empty, rt_created = 0, rt_os = s\<rparr>"

text \<open>One turn of \<open>main\<close>'s loop.  A socket that cannot be made non-blocking has been closed by
  \<open>make_nonblocking\<close>, but is handed to the thread all the same.\<close>

definition rt_accept :: "fd \<Rightarrow> int \<Rightarrow> errno \<Rightarrow> int \<Rightarrow> int \<Rightarrow> relay_system \<Rightarrow> relay_system outcome option" where
  "rt_accept server c err getfl setfl z =
     (if c \<noteq> -1 \<and> c \<in> set (rt_open z) then None
      else
        (case proxy_Accept server c err getfl setfl (rt_os z) of
           (Inl m, s) \<Rightarrow> Some (Exited 134 (z\<lparr>rt_os := s\<rparr>))
         | (Inr client, s) \<Rightarrow>
             Some (Running (z\<lparr>rt_os := s,
               rt_threads := (rt_threads z)(rt_created z \<mapsto> Created client), rt_created := Suc (rt_created z),
               rt_open := (if client \<noteq> None \<and> getfl \<noteq> -1 \<and> setfl \<noteq> -1 then c # rt_open z else rt_open z)\<rparr>))))"

text \<open>A thread begins: \<open>SocketClient target_socket(server_addr, server_port)\<close>, whose exceptions nothing catches.\<close>

definition rt_begin :: "int \<Rightarrow> nat \<Rightarrow> int \<Rightarrow> bool \<Rightarrow> int \<Rightarrow> relay_system \<Rightarrow> relay_system outcome option" where
  "rt_begin server_port i sock found rv z =
     (case rt_threads z i of
        Some (Created client) \<Rightarrow>
          (if sock \<noteq> -1 \<and> sock \<in> set (rt_open z) then None
           else
             (case proxy_client_ctor sock found rv server_port (rt_os z) of
                (t, Raised m s) \<Rightarrow> Some (Exited 134 (z\<lparr>rt_os := s\<rparr>))
              | (t, Done s) \<Rightarrow>
                  Some (Running (z\<lparr>rt_os := s, rt_threads := (rt_threads z)(i \<mapsto> Relaying client t),
                    rt_open := t # rt_open z\<rparr>))))
      | _ \<Rightarrow> None)"

text \<open>A turn of a thread's loop; after the last one the client socket is deleted and the target's destructor runs.
  A null client is dereferenced.\<close>

definition rt_turn :: "nat \<Rightarrow> relay_env \<Rightarrow> relay_system \<Rightarrow> relay_system outcome option" where
  "rt_turn i e z =
     (case rt_threads z i of
        Some (Relaying (Some c) t) \<Rightarrow>
          (case relay_turn e c t (rt_os z) of
             None \<Rightarrow> None
           | Some (Inl m, s) \<Rightarrow> Some (Exited 134 (z\<lparr>rt_os := s\<rparr>))
           | Some (Inr True, s) \<Rightarrow> Some (Running (z\<lparr>rt_os := s\<rparr>))
           | Some (Inr False, s) \<Rightarrow>
               Some (Running (z\<lparr>rt_os := emit (Call_close t) (emit (Call_close c) s),
                 rt_threads := (rt_threads z)(i := None), rt_open := removeAll t (removeAll c (rt_open z))\<rparr>)))
      | _ \<Rightarrow> None)"

datatype rt_event =
    Accepts int errno int int
  | Begins nat int bool int
  | Turns nat relay_env

fun rt_step :: "fd \<Rightarrow> int \<Rightarrow> rt_event \<Rightarrow> relay_system \<Rightarrow> relay_system outcome option" where
  "rt_step server port (Accepts c err getfl setfl) z = rt_accept server c err getfl setfl z"
| "rt_step server port (Begins i sock found rv) z = rt_begin port i sock found rv z"
| "rt_step server port (Turns i e) z = rt_turn i e z"

fun rt_run :: "fd \<Rightarrow> int \<Rightarrow> rt_event list \<Rightarrow> relay_system \<Rightarrow> relay_system outcome option" where
  "rt_run server port [] z = Some (Running z)"
| "rt_run server port (e # es) z =
     (case rt_step server port e z of
        None \<Rightarrow> None
      | Some (Exited k y) \<Rightarrow> Some (Exited k y)
      | Some (Running y) \<Rightarrow> rt_run server port es y)"

section \<open>The cases of a step\<close>

lemma proxy_Accept_cases:
  assumes "proxy_Accept server c err getfl setfl s = (Inr client, u)"
  obtains (nobody) "c = -1" "client = None" "u = emit (Call_accept server) s"
  | (somebody) "c \<noteq> -1" "client = Some c" "u = snd (make_nonblocking c getfl setfl (emit (Call_accept server) s))"
  using assms by (auto simp: proxy_Accept_def Let_def split: if_splits)

lemma proxy_client_ctor_cases:
  assumes "proxy_client_ctor sock found rv port s = (t, Done u)"
  shows "t = sock \<and> sock \<noteq> -1 \<and> found \<and> rv = 0 \<and> u = emit (Call_connect sock (port_of port)) (emit Call_socket s)"
  using assms by (auto simp: proxy_client_ctor_def CreateSocket_def Let_def split: if_splits)

lemma rt_step_cases:
  assumes "rt_step server port e z = Some (Running y)"
  obtains (nobody) err getfl setfl where "e = Accepts (-1) err getfl setfl"
      "y = z\<lparr>rt_os := emit (Call_accept server) (rt_os z), rt_threads := (rt_threads z)(rt_created z \<mapsto> Created None),
         rt_created := Suc (rt_created z)\<rparr>"
  | (accepted) c err getfl setfl where "e = Accepts c err getfl setfl" "c \<notin> set (rt_open z)" "c \<noteq> -1"
      "y = z\<lparr>rt_os := snd (make_nonblocking c getfl setfl (emit (Call_accept server) (rt_os z))),
         rt_threads := (rt_threads z)(rt_created z \<mapsto> Created (Some c)), rt_created := Suc (rt_created z),
         rt_open := (if getfl \<noteq> -1 \<and> setfl \<noteq> -1 then c # rt_open z else rt_open z)\<rparr>"
  | (begun) i t found client where "e = Begins i t found 0" "rt_threads z i = Some (Created client)" "t \<notin> set (rt_open z)"
      "y = z\<lparr>rt_os := emit (Call_connect t (port_of port)) (emit Call_socket (rt_os z)),
         rt_threads := (rt_threads z)(i \<mapsto> Relaying client t), rt_open := t # rt_open z\<rparr>"
  | (goes_on) i x c t s where "e = Turns i x" "rt_threads z i = Some (Relaying (Some c) t)"
      "relay_turn x c t (rt_os z) = Some (Inr True, s)" "y = z\<lparr>rt_os := s\<rparr>"
  | (ends) i x c t s where "e = Turns i x" "rt_threads z i = Some (Relaying (Some c) t)"
      "relay_turn x c t (rt_os z) = Some (Inr False, s)"
      "y = z\<lparr>rt_os := emit (Call_close t) (emit (Call_close c) s), rt_threads := (rt_threads z)(i := None),
         rt_open := removeAll t (removeAll c (rt_open z))\<rparr>"
proof (cases e)
  case (Accepts c err getfl setfl)
  then obtain client s where a: "proxy_Accept server c err getfl setfl (rt_os z) = (Inr client, s)"
    "c \<noteq> -1 \<longrightarrow> c \<notin> set (rt_open z)"
    "y = z\<lparr>rt_os := s, rt_threads := (rt_threads z)(rt_created z \<mapsto> Created client), rt_created := Suc (rt_created z),
       rt_open := (if client \<noteq> None \<and> getfl \<noteq> -1 \<and> setfl \<noteq> -1 then c # rt_open z else rt_open z)\<rparr>"
    using assms by (auto simp: rt_accept_def split: if_splits prod.splits sum.splits)
  from a(1) show thesis
    by (cases rule: proxy_Accept_cases) (use Accepts a(2,3) nobody accepted in auto)
next
  case (Begins i sock found rv)
  then obtain client t s where b: "rt_threads z i = Some (Created client)" "sock \<noteq> -1 \<longrightarrow> sock \<notin> set (rt_open z)"
    "proxy_client_ctor sock found rv port (rt_os z) = (t, Done s)"
    "y = z\<lparr>rt_os := s, rt_threads := (rt_threads z)(i \<mapsto> Relaying client t), rt_open := t # rt_open z\<rparr>"
    using assms by (auto simp: rt_begin_def split: if_splits prod.splits option.splits relay_thread.splits completion.splits)
  with proxy_client_ctor_cases [OF b(3)] Begins show thesis by (intro begun) auto
next
  case (Turns i x)
  then obtain c t ok s where t: "rt_threads z i = Some (Relaying (Some c) t)" "relay_turn x c t (rt_os z) = Some (Inr ok, s)"
    using assms by (auto simp: rt_turn_def split: option.splits relay_thread.splits sum.splits prod.splits)
  show thesis
    by (cases ok) (use assms t Turns goes_on ends in \<open>auto simp: rt_turn_def\<close>)
qed

lemma rt_run_invariant:
  assumes "rt_run server port es z = Some (Running y)" "I z" "\<forall>e \<in> set es. G e"
    and "\<And>e u v. rt_step server port e u = Some (Running v) \<Longrightarrow> G e \<Longrightarrow> I u \<Longrightarrow> I v"
  shows "I y"
  using assms(1-3)
proof (induction es arbitrary: z)
  case (Cons e es)
  then obtain u where "rt_step server port e z = Some (Running u)" "rt_run server port es u = Some (Running y)"
    by (auto split: option.splits outcome.splits)
  then show ?case using Cons.IH [of u] assms(4) [of e z u] Cons.prems(2,3) by simp
qed simp

section \<open>Who owns which descriptor\<close>

fun thread_fds :: "relay_thread \<Rightarrow> fd set" where
  "thread_fds (Created client) = set_option client"
| "thread_fds (Relaying client t) = insert t (set_option client)"

definition rt_owned :: "relay_system \<Rightarrow> nat \<Rightarrow> fd set" where
  "rt_owned z i = (case rt_threads z i of None \<Rightarrow> {} | Some th \<Rightarrow> thread_fds th)"

text \<open>The open descriptors are those the process started with and, apart from them and from each other, those of
  the owners; an owner opens a descriptor that is not open, and closes all it has.\<close>

definition apart :: "fd list \<Rightarrow> fd list \<Rightarrow> (nat \<Rightarrow> fd set) \<Rightarrow> bool" where
  "apart fds opened own \<longleftrightarrow> distinct opened \<and> set opened = set fds \<union> (\<Union>i. own i) \<and>
     (\<forall>i. own i \<inter> set fds = {}) \<and> (\<forall>i j. i \<noteq> j \<longrightarrow> own i \<inter> own j = {})"

lemma apart_opens:
  assumes "apart fds opened own" "x \<notin> set opened"
  shows "apart fds (x # opened) (own(i := insert x (own i)))"
proof -
  have "(\<Union>j. (own(i := insert x (own i))) j) = insert x (\<Union>j. own j)" by auto
  moreover have "x \<notin> set fds" "\<And>j. x \<notin> own j" using assms by (auto simp: apart_def)
  ultimately show ?thesis using assms by (simp add: apart_def)
qed

lemma apart_closes:
  assumes "apart fds opened own" "own i = {c, t}"
  shows "apart fds (removeAll t (removeAll c opened)) (own(i := {}))"
proof -
  have "(\<Union>j. (own(i := {})) j) = (\<Union>j. own j) - {c, t}"
    using assms by (auto simp: apart_def split: if_splits) (metis disjoint_iff insertCI)+
  moreover have "c \<notin> set fds" "t \<notin> set fds" using assms unfolding apart_def by blast+
  ultimately show ?thesis using assms(1) by (auto simp: apart_def distinct_removeAll)
qed

definition rt_ok :: "fd list \<Rightarrow> relay_system \<Rightarrow> bool" where
  "rt_ok fds z \<longleftrightarrow> apart fds (rt_open z) (rt_owned z) \<and>
     (\<forall>i c t. rt_threads z i = Some (Relaying (Some c) t) \<longrightarrow> c \<noteq> t) \<and> (\<forall>i \<ge> rt_created z. rt_threads z i = None)"

text \<open>The \<open>fcntl\<close> calls for an accepted socket succeed.\<close>

fun fcntl_works :: "rt_event \<Rightarrow> bool" where
  "fcntl_works (Accepts c err getfl setfl) = (getfl \<noteq> -1 \<and> setfl \<noteq> -1)"
| "fcntl_works _ = True"

lemma rt_ok_initial: "distinct fds \<Longrightarrow> rt_ok fds (rt_initial fds s)"
  by (simp add: rt_ok_def apart_def rt_initial_def rt_owned_def)

lemma rt_ok_step:
  assumes "rt_step server port e z = Some (Running y)" "fcntl_works e" "rt_ok fds z"
  shows "rt_ok fds y"
proof -
  have ok: "apart fds (rt_open z) (rt_owned z)" "rt_owned z (rt_created z) = {}"
    "\<And>i c t. rt_threads z i = Some (Relaying (Some c) t) \<Longrightarrow> c \<noteq> t" "\<And>i. rt_threads z i \<noteq> None \<Longrightarrow> i < rt_created z"
    using assms(3) by (auto simp: rt_ok_def rt_owned_def not_less [symmetric])
  from assms(1) show ?thesis
  proof (cases rule: rt_step_cases)
    case (nobody err getfl setfl)
    have "rt_owned y = rt_owned z" using nobody ok(2) by (intro ext) (auto simp: rt_owned_def)
    then show ?thesis using nobody assms(3) by (simp add: rt_ok_def)
  next
    case (accepted c err getfl setfl)
    let ?i = "rt_created z"
    have "rt_owned y = (rt_owned z)(?i := insert c (rt_owned z ?i))" "rt_open y = c # rt_open z"
      using accepted assms(2) ok(2) by (auto simp: rt_owned_def fun_eq_iff)
    then show ?thesis
      using apart_opens [OF ok(1) accepted(2), of ?i] accepted(4) assms(3) by (simp add: rt_ok_def)
  next
    case (begun i t found client)
    have "rt_owned y = (rt_owned z)(i := insert t (rt_owned z i))" using begun by (auto simp: rt_owned_def fun_eq_iff)
    then have "apart fds (rt_open y) (rt_owned y)" using apart_opens [OF ok(1) begun(3), of i] begun(4) by simp
    moreover have "client \<noteq> Some t"
    proof
      assume "client = Some t"
      then have "t \<in> rt_owned z i" using begun(2) by (simp add: rt_owned_def)
      then show False using ok(1) begun(3) by (auto simp: apart_def)
    qed
    then have "c' \<noteq> t'" if "rt_threads y j = Some (Relaying (Some c') t')" for j c' t'
      using that begun(4) ok(3) by (auto split: if_splits)
    moreover have "rt_threads y j = None" if "rt_created y \<le> j" for j
      using that begun(2,4) ok(4) [of i] assms(3) by (auto simp: rt_ok_def)
    ultimately show ?thesis by (auto simp: rt_ok_def)
  next
    case (goes_on i x c t s)
    then have "rt_owned y = rt_owned z" by (simp add: rt_owned_def fun_eq_iff)
    then show ?thesis using goes_on(4) assms(3) by (simp add: rt_ok_def)
  next
    case (ends i x c t s)
    have "rt_owned z i = {c, t}" "rt_owned y = (rt_owned z)(i := {})" using ends(2,4) by (auto simp: rt_owned_def fun_eq_iff)
    then show ?thesis using apart_closes [OF ok(1), of i c t] ends(4) assms(3) by (simp add: rt_ok_def)
  qed
qed

text \<open>The descriptors the kernel hands out in a run, and those the program closes.\<close>

fun rt_handed_out :: "rt_event list \<Rightarrow> fd list" where
  "rt_handed_out [] = []"
| "rt_handed_out (Accepts c err getfl setfl # es) = (if c = -1 then [] else [c]) @ rt_handed_out es"
| "rt_handed_out (Begins i sock found rv # es) = (if sock = -1 then [] else [sock]) @ rt_handed_out es"
| "rt_handed_out (Turns i e # es) = rt_handed_out es"

lemma rt_handed_out_Cons: "rt_handed_out (e # es) = rt_handed_out [e] @ rt_handed_out es"
  by (cases e) auto

lemma relay_turn_hangups:
  assumes "relay_turn e c t s = Some (r, u)"
  shows "hangups (trace u) = hangups (trace s)"
proof -
  have side: "hangups (trace w) = hangups (trace v)" if ran: "relay_side a b readable as v = Some (b1, w)" for a b readable as b1 v w
  proof (cases readable)
    case True
    then obtain bytes rest x where x: "pool_receiveBytes a [] as v = Some (bytes, rest, x)" "w = SendString b bytes x"
      using ran by (auto simp: relay_side_def proxy_is_pool split: option.splits)
    then show ?thesis using pool_receiveBytes_sends [OF x(1)] by (simp add: SendString_def)
  qed (use ran in \<open>simp add: relay_side_def\<close>)
  obtain x v where 1: "proxy_SocketSelect c (Some t) (re_select e) (re_ready e) s = Some (x, v)"
    using assms by (auto simp: relay_turn_def split: option.splits)
  have select: "hangups (trace v) = hangups (trace s)" using 1 by (auto simp: proxy_SocketSelect_def Let_def split: if_splits)
  show ?thesis
  proof (cases x)
    case (Inl m)
    then show ?thesis using assms 1 select by (simp add: relay_turn_def)
  next
    case (Inr fds)
    then obtain ok1 w ok2 where "relay_side c t (Readable c fds) (re_client e) v = Some (ok1, w)"
      "relay_side t c (Readable t fds) (re_target e) w = Some (ok2, u)"
      using assms 1 by (auto simp: relay_turn_def split: option.splits)
    then show ?thesis using side select by metis
  qed
qed

lemma distinct_parts:
  assumes "distinct xs" "{a, b} \<subseteq> set xs" "a \<noteq> b"
  shows "mset xs = mset [a, b] + mset (removeAll b (removeAll a xs))"
proof -
  have "set xs = set (a # b # removeAll b (removeAll a xs))" "distinct (a # b # removeAll b (removeAll a xs))"
    using assms by (auto simp: distinct_removeAll)
  then have "mset xs = mset (a # b # removeAll b (removeAll a xs))" using assms(1) set_eq_iff_mset_eq_distinct by blast
  then show ?thesis by simp
qed

lemma rt_step_accounts:
  assumes "rt_step server port e z = Some (Running y)" "fcntl_works e" "rt_ok fds z"
  shows "\<exists>closed. hangups (trace (rt_os y)) = hangups (trace (rt_os z)) @ closed \<and>
    mset (rt_open z) + mset (rt_handed_out [e]) = mset closed + mset (rt_open y)"
  using assms(1)
proof (cases rule: rt_step_cases)
  case (accepted c err getfl setfl)
  show ?thesis
    by (rule exI [of _ "[]"])
      (use accepted(1,3,4) assms(2) in \<open>simp add: make_nonblocking_def Let_def\<close>)
next
  case (goes_on i x c t s)
  then show ?thesis using relay_turn_hangups [OF goes_on(3)] by simp
next
  case (ends i x c t s)
  have ok: "apart fds (rt_open z) (rt_owned z)" "c \<noteq> t" using assms(3) ends(2) by (auto simp: rt_ok_def)
  have "{c, t} \<subseteq> rt_owned z i" using ends(2) by (simp add: rt_owned_def)
  then have "{c, t} \<subseteq> set (rt_open z)" "distinct (rt_open z)" using ok(1) unfolding apart_def by blast+
  then have "mset (rt_open z) = mset [c, t] + mset (removeAll t (removeAll c (rt_open z)))"
    using ok(2) by (intro distinct_parts) auto
  then show ?thesis using ends(1,4) relay_turn_hangups [OF ends(3)] by (intro exI [of _ "[c, t]"]) simp
next
  case (begun i t found client)
  have "t \<noteq> -1" using assms(1) begun(1,2) by (auto simp: rt_begin_def proxy_client_ctor_def CreateSocket_def Let_def split: if_splits)
  then show ?thesis using begun(1,4) by simp
qed simp

lemma rt_run_accounts:
  assumes "rt_run server port es z = Some (Running y)" "\<forall>e \<in> set es. fcntl_works e" "rt_ok fds z"
  shows "rt_ok fds y \<and> (\<exists>closed. hangups (trace (rt_os y)) = hangups (trace (rt_os z)) @ closed \<and>
    mset (rt_open z) + mset (rt_handed_out es) = mset closed + mset (rt_open y))"
  using assms
proof (induction es arbitrary: z)
  case (Cons e es)
  then obtain u where u: "rt_step server port e z = Some (Running u)" "rt_run server port es u = Some (Running y)"
    by (auto split: option.splits outcome.splits)
  have "rt_ok fds u" using rt_ok_step [OF u(1)] Cons.prems(2,3) by simp
  with Cons.IH [OF u(2)] Cons.prems(2) obtain closed where IH: "rt_ok fds y"
    "hangups (trace (rt_os y)) = hangups (trace (rt_os u)) @ closed" "mset (rt_open u) + mset (rt_handed_out es) = mset closed + mset (rt_open y)"
    by auto
  obtain closed1 where 1: "hangups (trace (rt_os u)) = hangups (trace (rt_os z)) @ closed1"
    "mset (rt_open z) + mset (rt_handed_out [e]) = mset closed1 + mset (rt_open u)"
    using rt_step_accounts [OF u(1)] Cons.prems(2,3) by auto
  have "mset (rt_open z) + mset (rt_handed_out (e # es)) = mset (closed1 @ closed) + mset (rt_open y)"
    using arg_cong2 [OF 1(2) IH(3), of "(+)"] by (simp add: rt_handed_out_Cons [of e es] ac_simps)
  then show ?case using IH(1,2) 1(1) by auto
qed simp

section \<open>Properties\<close>

text \<open>C14: As long as \<open>fcntl\<close> does not fail for an accepted socket, no thread of the pass-through proxy ever touches another's
  socket, and no descriptor leaks.  In every such run that goes on, however the threads and the main loop interleave and
  whichever free numbers come back, the descriptors the process began with and those the kernel has handed out since
  are together those the program has closed and those still open; the ones still open are those the process began with
  and those of the live threads; no two threads share one; and when all threads have ended the process has the
  descriptors it began with.  (If \<open>fcntl\<close> fails, a thread works on a number that is free again: \<open>failed_fcntl_shares\<close>.)\<close>

theorem relay_threads_own:
  assumes "rt_run server port es (rt_initial fds s) = Some (Running z)" "distinct fds" "\<forall>e \<in> set es. fcntl_works e"
  shows "(\<exists>closed. hangups (trace (rt_os z)) = hangups (trace s) @ closed \<and>
      mset fds + mset (rt_handed_out es) = mset closed + mset (rt_open z)) \<and>
    distinct (rt_open z) \<and> set (rt_open z) = set fds \<union> (\<Union>i. rt_owned z i) \<and>
    (\<forall>i j. i \<noteq> j \<longrightarrow> rt_owned z i \<inter> rt_owned z j = {}) \<and>
    (rt_threads z = Map.empty \<longrightarrow> set (rt_open z) = set fds)"
proof -
  have "rt_ok fds z" "\<exists>closed. hangups (trace (rt_os z)) = hangups (trace s) @ closed \<and>
      mset fds + mset (rt_handed_out es) = mset closed + mset (rt_open z)"
    using rt_run_accounts [OF assms(1,3) rt_ok_initial [OF assms(2)]] by (simp_all add: rt_initial_def)
  then show ?thesis by (simp add: rt_ok_def apart_def rt_owned_def)
qed

section \<open>Sessions among other threads\<close>

text \<open>The turns of a thread in a run.\<close>

fun rt_turns :: "nat \<Rightarrow> rt_event list \<Rightarrow> relay_env list" where
  "rt_turns i [] = []"
| "rt_turns i (Turns j e # es) = (if j = i then e # rt_turns i es else rt_turns i es)"
| "rt_turns i (_ # es) = rt_turns i es"

lemma relay_side_other:
  assumes "relay_side a b readable as s = Some (ok, u)" "f \<noteq> b"
  shows "stream_to f u = stream_to f s"
proof (cases readable)
  case True
  then obtain bytes rest v where v: "pool_receiveBytes a [] as s = Some (bytes, rest, v)" "u = SendString b bytes v"
    using assms(1) by (auto simp: relay_side_def proxy_is_pool split: option.splits)
  have "stream_to f v = stream_to f s" using pool_receiveBytes_sends [OF v(1)] by (simp add: stream_to_def)
  then show ?thesis using v(2) assms(2) by simp
qed (use assms in \<open>simp add: relay_side_def\<close>)

lemma relay_turn_other:
  assumes "relay_turn e c t s = Some (r, u)" "f \<noteq> c" "f \<noteq> t"
  shows "stream_to f u = stream_to f s"
proof -
  have select: "stream_to f v = stream_to f s" if "proxy_SocketSelect c (Some t) (re_select e) (re_ready e) s = Some (x, v)" for x v
    using that by (auto simp: proxy_SocketSelect_def Let_def split: if_splits)
  obtain x v where 1: "proxy_SocketSelect c (Some t) (re_select e) (re_ready e) s = Some (x, v)"
    using assms(1) by (auto simp: relay_turn_def split: option.splits)
  show ?thesis
  proof (cases x)
    case (Inl m)
    then show ?thesis using assms(1) 1 select by (simp add: relay_turn_def)
  next
    case (Inr fds)
    then obtain ok1 w ok2 where "relay_side c t (Readable c fds) (re_client e) v = Some (ok1, w)"
      "relay_side t c (Readable t fds) (re_target e) w = Some (ok2, u)"
      using assms(1) 1 by (auto simp: relay_turn_def split: option.splits)
    then show ?thesis using relay_side_other assms(2,3) select [OF 1] by metis
  qed
qed

lemma make_nonblocking_streams [simp]: "stream_to f (snd (make_nonblocking g a b s)) = stream_to f s"
  by (simp add: make_nonblocking_def stream_to_def Let_def)

lemma stream_to_calls [simp]:
  "stream_to f (emit (Call_accept g) s) = stream_to f s" "stream_to f (emit Call_socket s) = stream_to f s"
  "stream_to f (emit (Call_connect g p) s) = stream_to f s" "stream_to f (emit (Call_close g) s) = stream_to f s"
  by (simp_all add: stream_to_def)

lemma rt_other_step:
  assumes "rt_step server port e z = Some (Running y)" "rt_ok fds z" "rt_threads z i = Some (Relaying (Some c) t)"
    and "\<forall>x. e \<noteq> Turns i x" "f \<in> {c, t}"
  shows "stream_to f (rt_os y) = stream_to f (rt_os z) \<and> rt_threads y i = rt_threads z i"
proof -
  have own: "f \<in> rt_owned z i" "i \<noteq> rt_created z"
    using assms(2,3,5) by (auto simp: rt_owned_def rt_ok_def)
  have disjoint: "j \<noteq> i \<Longrightarrow> rt_owned z j \<inter> rt_owned z i = {}" for j using assms(2) by (simp add: rt_ok_def apart_def)
  have other: "f \<noteq> c' \<and> f \<noteq> t'" if "rt_threads z j = Some (Relaying (Some c') t')" "j \<noteq> i" for j c' t'
  proof -
    have "rt_owned z j = {c', t'}" using that(1) by (auto simp: rt_owned_def)
    then show ?thesis using own(1) disjoint [OF that(2)] by blast
  qed
  from assms(1) show ?thesis
  proof (cases rule: rt_step_cases)
    case (goes_on j x c' t' s)
    then have "j \<noteq> i" using assms(4) by blast
    then show ?thesis using relay_turn_other [OF goes_on(3)] other [OF goes_on(2)] goes_on(4) by simp
  next
    case (ends j x c' t' s)
    then have "j \<noteq> i" using assms(4) by blast
    then have "stream_to f s = stream_to f (rt_os z)" using relay_turn_other [OF ends(3)] other [OF ends(2)] by blast
    then show ?thesis using ends(4) \<open>j \<noteq> i\<close> by simp
  qed (use assms(3) own(2) in auto)
qed

text \<open>C15: The pass-through proxy keeps its sessions apart, as long as \<open>fcntl\<close> does not fail for an accepted socket.  From any
  state of any such run in which a thread relays, and through whatever the other threads and the main loop do from
  there while the process goes on: if \<open>select\<close> succeeds in the thread's turns and reports only sockets that have data, the
  thread goes on relaying, its target is handed exactly what was read from its client in its turns and its
  client exactly what was read from its target, in order.\<close>

theorem relay_threads_apart:
  assumes "rt_run server port es0 (rt_initial fds s) = Some (Running z)" "distinct fds" "\<forall>e \<in> set (es0 @ es). fcntl_works e"
    and "rt_run server port es z = Some (Running y)" "rt_threads z i = Some (Relaying (Some c) t)"
    and "\<forall>e \<in> set (rt_turns i es). re_select e \<noteq> -1 \<and> serves_asked (P e) (re_client e) \<and> serves_asked (Q e) (re_target e) \<and>
      (c \<in> set (re_ready e) \<longrightarrow> P e \<noteq> []) \<and> (t \<in> set (re_ready e) \<longrightarrow> Q e \<noteq> [])"
  shows "rt_threads y i = Some (Relaying (Some c) t) \<and>
    stream_to t (rt_os y) = stream_to t (rt_os z) @ concat (map P (filter (\<lambda>e. c \<in> set (re_ready e)) (rt_turns i es))) \<and>
    stream_to c (rt_os y) = stream_to c (rt_os z) @ concat (map Q (filter (\<lambda>e. t \<in> set (re_ready e)) (rt_turns i es)))"
proof -
  have "rt_ok fds z"
    by (rule rt_run_invariant [where I = "rt_ok fds" and G = fcntl_works, OF assms(1) rt_ok_initial [OF assms(2)] _ rt_ok_step])
      (use assms(3) in auto)
  moreover have "\<forall>e \<in> set es. fcntl_works e" using assms(3) by simp
  ultimately show ?thesis
    using assms(4-6)
  proof (induction es arbitrary: z)
    case (Cons e es)
    then obtain u where u: "rt_step server port e z = Some (Running u)" "rt_run server port es u = Some (Running y)"
      by (auto split: option.splits outcome.splits)
    have ok: "rt_ok fds u" using rt_ok_step [OF u(1)] Cons.prems(1,2) by simp
    show ?case
    proof (cases "\<exists>x. e = Turns i x")
      case True
      then obtain x where e: "e = Turns i x" by blast
      have "c \<noteq> t" using Cons.prems(1,4) by (simp add: rt_ok_def)
      moreover have turn: "re_select x \<noteq> -1" "serves_asked (P x) (re_client x)" "serves_asked (Q x) (re_target x)"
        "c \<in> set (re_ready x) \<longrightarrow> P x \<noteq> []" "t \<in> set (re_ready x) \<longrightarrow> Q x \<noteq> []"
        using Cons.prems(5) e by simp_all
      ultimately obtain w where w: "relay_turn x c t (rt_os z) = Some (Inr True, w)"
        "stream_to t w = stream_to t (rt_os z) @ (if c \<in> set (re_ready x) then P x else [])"
        "stream_to c w = stream_to c (rt_os z) @ (if t \<in> set (re_ready x) then Q x else [])"
        using relay_turn_serves [OF turn(1-3), of c t "rt_os z"] by auto
      then have "u = z\<lparr>rt_os := w\<rparr>" using u(1) e Cons.prems(4) by (simp add: rt_turn_def)
      with Cons.IH [OF ok _ u(2)] Cons.prems(2,4,5) e w show ?thesis by simp
    next
      case False
      then have e: "\<forall>x. e \<noteq> Turns i x" "rt_turns i (e # es) = rt_turns i es" by (cases e; auto)+
      note other = rt_other_step [OF u(1) Cons.prems(1,4) e(1)]
      show ?thesis
        using Cons.IH [OF ok _ u(2)] other [of c] other [of t] Cons.prems(2,4,5) e(2) by simp
    qed
  qed simp
qed

section \<open>The steps are the thread's function\<close>

definition rt_ended :: "nat \<Rightarrow> fd \<Rightarrow> fd \<Rightarrow> os \<Rightarrow> relay_system \<Rightarrow> relay_system" where
  "rt_ended i c t s z =
     z\<lparr>rt_os := s, rt_threads := (rt_threads z)(i := None), rt_open := removeAll t (removeAll c (rt_open z))\<rparr>"

lemma rt_turns_loop:
  assumes "relay_loop es c t (rt_os z) = Some (Exited j s)" "rt_threads z i = Some (Relaying (Some c) t)"
  shows "\<exists>k. rt_run server port (map (Turns i) (take k es)) z =
    Some (if j = 0 then Running (rt_ended i c t s z) else Exited j (z\<lparr>rt_os := s\<rparr>))"
  using assms
proof (induction es arbitrary: z)
  case (Cons e es)
  then obtain r s1 where r: "relay_turn e c t (rt_os z) = Some (r, s1)" by (auto split: option.splits)
  show ?case
  proof (cases "r = Inr True")
    case True
    let ?u = "z\<lparr>rt_os := s1\<rparr>"
    have step: "rt_step server port (Turns i e) z = Some (Running ?u)" using r True Cons.prems(2) by (simp add: rt_turn_def)
    have "relay_loop es c t (rt_os ?u) = Some (Exited j s)" using Cons.prems(1) r True by simp
    from Cons.IH [OF this] Cons.prems(2) obtain k where "rt_run server port (map (Turns i) (take k es)) ?u =
      Some (if j = 0 then Running (rt_ended i c t s ?u) else Exited j (?u\<lparr>rt_os := s\<rparr>))" by auto
    moreover have "rt_ended i c t s ?u = rt_ended i c t s z" by (simp add: rt_ended_def)
    ultimately show ?thesis using step by (intro exI [of _ "Suc k"]) simp
  next
    case False
    then show ?thesis
      using r Cons.prems by (intro exI [of _ 1]) (auto simp: rt_turn_def rt_ended_def split: sum.splits if_splits)
  qed
qed simp

text \<open>The steps of a thread, run without interruption, are \<open>RunProxyThread\<close>: the same calls in the same order; when
  it returns the thread is gone and its client's descriptor is free again, like its own to the target; and an
  exception of the connection or of \<open>select\<close> ends the whole proxy, with all its other sessions.\<close>

theorem relay_steps_are_RunProxyThread:
  assumes "RunProxyThread sock found rv port es c (rt_os z) = Some (Exited code s)"
    and "rt_threads z i = Some (Created (Some c))" "sock \<noteq> -1 \<longrightarrow> sock \<notin> set (rt_open z)"
  shows "\<exists>k y. rt_run server port (Begins i sock found rv # map (Turns i) (take k es)) z =
      Some (if code = 0 then Running y else Exited code y) \<and> rt_os y = s \<and>
    (code = 0 \<longrightarrow> rt_threads y = (rt_threads z)(i := None) \<and> rt_open y = removeAll c (rt_open z))"
proof -
  obtain t x where x: "proxy_client_ctor sock found rv port (rt_os z) = (t, x)" by (metis surj_pair)
  show ?thesis
  proof (cases x)
    case (Raised m s1)
    then have "rt_step server port (Begins i sock found rv) z = Some (Exited 134 (z\<lparr>rt_os := s\<rparr>))" "code = 134"
      using assms x by (auto simp: RunProxyThread_def rt_begin_def)
    then show ?thesis by (intro exI [of _ 0] exI [of _ "z\<lparr>rt_os := s\<rparr>"]) simp
  next
    case (Done s1)
    let ?u = "z\<lparr>rt_os := s1, rt_threads := (rt_threads z)(i \<mapsto> Relaying (Some c) t), rt_open := t # rt_open z\<rparr>"
    have t: "t \<notin> set (rt_open z)" using proxy_client_ctor_cases [of sock found rv port "rt_os z" t s1] x Done assms(3) by auto
    have step: "rt_step server port (Begins i sock found rv) z = Some (Running ?u)"
      using assms(2,3) x Done by (auto simp: rt_begin_def)
    have "relay_loop es c t (rt_os ?u) = Some (Exited code s)" using assms(1) x Done by (simp add: RunProxyThread_def)
    then obtain k where k: "rt_run server port (map (Turns i) (take k es)) ?u =
      Some (if code = 0 then Running (rt_ended i c t s ?u) else Exited code (?u\<lparr>rt_os := s\<rparr>))"
      using rt_turns_loop [of es c t ?u code s i server port] by auto
    have "removeAll t (removeAll c (rt_open ?u)) = removeAll c (rt_open z)" using t by (auto simp: removeAll_id)
    then show ?thesis
      using k step
      by (intro exI [of _ k] exI [of _ "if code = 0 then rt_ended i c t s ?u else ?u\<lparr>rt_os := s\<rparr>"])
        (simp add: rt_ended_def)
  qed
qed

section \<open>Witnesses\<close>

text \<open>Two clients; the first session ends, and a third client gets its numbers.\<close>

definition two_relays :: "rt_event list" where
  "two_relays = [Accepts 4 EAGAIN 2 0, Accepts 5 EAGAIN 2 0, Begins 1 6 True 0, Begins 0 7 True 0,
     Turns 0 (sample_relay [4] [AIoctl 0 0]), Accepts 4 EAGAIN 2 0, Begins 2 7 True 0]"

definition three_turns :: "rt_event list" where
  "three_turns = [Turns 1 (sample_relay [5] [AIoctl 0 1, ARecv (RData ''b''), AIoctl 0 0]),
     Turns 2 (sample_relay [4] [AIoctl 0 2, ARecv (RData ''hi''), AIoctl 0 0]), Turns 1 (sample_relay [5] [AIoctl 0 0])]"

lemma sample_relays:
  "runs_to (rt_run 3 80 two_relays (rt_initial [3] \<lparr>trace = []\<rparr>))
     (\<lambda>z. rt_open z = [7, 4, 6, 5, 3] \<and> rt_threads z 2 = Some (Relaying (Some 4) 7) \<and>
       runs_to (rt_run 3 80 three_turns z) (\<lambda>y. rt_threads y 1 = None))"
  by code_simp

lemma relay_threads_own_witness:
  "\<exists>z. rt_run 3 80 two_relays (rt_initial [3] \<lparr>trace = []\<rparr>) = Some (Running z) \<and>
    (\<forall>i j. i \<noteq> j \<longrightarrow> rt_owned z i \<inter> rt_owned z j = {})"
proof -
  obtain z where z: "rt_run 3 80 two_relays (rt_initial [3] \<lparr>trace = []\<rparr>) = Some (Running z)"
    using sample_relays by (auto elim!: runs_toE)
  moreover have "\<forall>i j. i \<noteq> j \<longrightarrow> rt_owned z i \<inter> rt_owned z j = {}"
    using relay_threads_own [OF z] by (simp add: two_relays_def)
  ultimately show ?thesis by blast
qed

lemma relay_threads_apart_witness:
  "\<exists>z y. rt_run 3 80 three_turns z = Some (Running y) \<and> rt_threads y 2 = Some (Relaying (Some 4) 7) \<and>
    stream_to 7 (rt_os y) = stream_to 7 (rt_os z) @ ''hi''"
proof -
  obtain z y where z: "rt_run 3 80 two_relays (rt_initial [3] \<lparr>trace = []\<rparr>) = Some (Running z)"
    "rt_threads z 2 = Some (Relaying (Some 4) 7)" "rt_run 3 80 three_turns z = Some (Running y)"
    using sample_relays by (auto elim!: runs_toE)
  have "serves_asked ''hi'' [AIoctl 0 2, ARecv (RData ''hi''), AIoctl 0 0]"
    using serves_asked.chunk [OF _ _ serves_asked.empty, of "''hi''"] by (simp add: numeral_2_eq_2)
  then have "rt_threads y 2 = Some (Relaying (Some 4) 7) \<and>
    stream_to 7 (rt_os y) = stream_to 7 (rt_os z) @ concat (map (\<lambda>e. ''hi'') (filter (\<lambda>e. 4 \<in> set (re_ready e)) (rt_turns 2 three_turns))) \<and>
    stream_to 4 (rt_os y) = stream_to 4 (rt_os z) @ concat (map (\<lambda>e. []) (filter (\<lambda>e. 7 \<in> set (re_ready e)) (rt_turns 2 three_turns)))"
    by (intro relay_threads_apart [OF z(1) _ _ z(3,2)])
      (auto simp: two_relays_def three_turns_def sample_relay_def intro: serves_asked.empty)
  with z(3) show ?thesis by (auto simp: three_turns_def sample_relay_def)
qed

lemma sample_thread:
  "case RunProxyThread 6 True 0 80 [sample_relay [4] [AIoctl 0 0]] 4 \<lparr>trace = []\<rparr> of Some (Exited k s) \<Rightarrow> k = 0 | _ \<Rightarrow> False"
  by code_simp

lemma relay_steps_are_RunProxyThread_witness:
  "\<exists>z k y. rt_run 3 80 (Begins 0 6 True 0 # map (Turns 0) (take k [sample_relay [4] [AIoctl 0 0]])) z = Some (Running y) \<and>
    rt_threads y 0 = None \<and> rt_open y = [3]"
proof -
  define z where "z = \<lparr>rt_open = [4, 3], rt_threads = [0 \<mapsto> Created (Some 4)], rt_created = 1, rt_os = \<lparr>trace = []\<rparr>\<rparr>"
  obtain s where "RunProxyThread 6 True 0 80 [sample_relay [4] [AIoctl 0 0]] 4 (rt_os z) = Some (Exited 0 s)"
    using sample_thread by (auto simp: z_def split: option.splits outcome.splits)
  from relay_steps_are_RunProxyThread [OF this, of 0 3] show ?thesis by (fastforce simp: z_def)
qed

text \<open>When \<open>fcntl\<close> fails for an accepted socket the thread is left with a number that is free again: its own socket to
  the target can get it, and the proxy then waits on the target for both sides.\<close>

lemma failed_fcntl_shares:
  "runs_to (rt_run 3 80 [Accepts 4 EAGAIN (-1) 0, Begins 0 4 True 0] (rt_initial [3] \<lparr>trace = []\<rparr>))
     (\<lambda>z. rt_threads z 0 = Some (Relaying (Some 4) 4))"
  by code_simp

end
