(* ===== verification/LogThreads.thy ===== *)
theory LogThreads
  imports LogService
begin

text \<open>
  The logger under its threads (\<open>utils/logger/Logger.h\<close>): any number of threads in \<open>Log\<close>, the worker in
  \<open>logWorker\<close>, and a thread in \<open>~Logger\<close>, with the mutex, the condition variable and the plain \<open>bool stopThread\<close>
  they share.  A step is what a thread does between two moments at which another can get in.  \<open>wait\<close> with a
  predicate is the loop the standard defines it to be: test, release the mutex and sleep, lock it again, test
  again; it may also wake up for no reason.
\<close>

section \<open>State and steps\<close>

datatype worker_pc =
    W_lock  \<comment> \<open>about to take the mutex, at the start of a round or inside \<open>wait\<close> after waking up\<close>
  | W_test  \<comment> \<open>about to evaluate the predicate of \<open>wait\<close>\<close>
  | W_sleep  \<comment> \<open>found it false, about to release the mutex and sleep\<close>
  | W_asleep
  | W_decide  \<comment> \<open>\<open>if (stopThread && lf->Empty())\<close>\<close>
  | W_flush
  | W_gone

datatype producer_pc =
    P_lock string "string \<times> string \<times> string"
  | P_log string "string \<times> string \<times> string"
  | P_unlock
  | P_notify

datatype destructor_pc = D_set | D_notify | D_join | D_done

datatype lock_holder = By_worker | By_producer nat

text \<open>\<open>lt_history\<close> is the order of the calls of \<open>lf\<close>, as events of \<open>logger_run\<close>.\<close>

record log_threads =
  lt_mutex :: "lock_holder option"
  lt_worker :: worker_pc
  lt_producers :: "nat \<rightharpoonup> producer_pc"
  lt_destructor :: "destructor_pc option"
  lt_stop :: bool
  lt_log :: log_state
  lt_media :: media
  lt_history :: "log_event list"

definition lt_initial :: "log_state \<Rightarrow> media \<Rightarrow> log_threads" where
  "lt_initial s m = \<lparr>lt_mutex = None, lt_worker = W_lock, lt_producers = Map.empty, lt_destructor = None,
     lt_stop = False, lt_log = s, lt_media = m, lt_history = []\<rparr>"

text \<open>\<open>notify_one\<close>: it has an effect only on a thread that sleeps.\<close>

definition lt_wake :: "log_threads \<Rightarrow> log_threads" where
  "lt_wake z = (if lt_worker z = W_asleep then z\<lparr>lt_worker := W_lock\<rparr> else z)"

fun worker_step :: "log_threads \<Rightarrow> worker_pc \<Rightarrow> log_threads option" where
  "worker_step z W_lock = (if lt_mutex z = None then Some (z\<lparr>lt_mutex := Some By_worker, lt_worker := W_test\<rparr>) else None)"
| "worker_step z W_test =
     Some (z\<lparr>lt_worker := (if \<not> lq_empty (log_items (lt_log z)) \<or> lt_stop z then W_decide else W_sleep)\<rparr>)"
| "worker_step z W_sleep = Some (z\<lparr>lt_mutex := None, lt_worker := W_asleep\<rparr>)"
| "worker_step z W_asleep = None"
| "worker_step z W_decide =
     (if lt_stop z \<and> lq_empty (log_items (lt_log z)) then Some (z\<lparr>lt_mutex := None, lt_worker := W_gone\<rparr>)
      else Some (z\<lparr>lt_worker := W_flush\<rparr>))"
| "worker_step z W_flush =
     (let (q, m) = Flush (log_writer (lt_log z)) (log_items (lt_log z)) (lt_media z) in
      Some (z\<lparr>lt_log := (lt_log z)\<lparr>log_items := q\<rparr>, lt_media := m, lt_history := lt_history z @ [Worker_round],
        lt_mutex := None, lt_worker := W_lock\<rparr>))"
| "worker_step z W_gone = None"

fun producer_step :: "nat \<Rightarrow> log_threads \<Rightarrow> producer_pc \<Rightarrow> log_threads option" where
  "producer_step k z (P_lock today msg) =
     (if lt_mutex z = None
      then Some (z\<lparr>lt_mutex := Some (By_producer k), lt_producers := (lt_producers z)(k \<mapsto> P_log today msg)\<rparr>)
      else None)"
| "producer_step k z (P_log today msg) =
     (case strategy_Log today msg (lt_log z) (lt_media z) of
        None \<Rightarrow> None
      | Some (s, m) \<Rightarrow> Some (z\<lparr>lt_log := s, lt_media := m, lt_history := lt_history z @ [Log_call today msg],
          lt_producers := (lt_producers z)(k \<mapsto> P_unlock)\<rparr>))"
| "producer_step k z P_unlock = Some (z\<lparr>lt_mutex := None, lt_producers := (lt_producers z)(k \<mapsto> P_notify)\<rparr>)"
| "producer_step k z P_notify = Some (lt_wake (z\<lparr>lt_producers := (lt_producers z)(k := None)\<rparr>))"

fun destructor_step :: "log_threads \<Rightarrow> destructor_pc \<Rightarrow> log_threads option" where
  "destructor_step z D_set = Some (z\<lparr>lt_stop := True, lt_destructor := Some D_notify\<rparr>)"
| "destructor_step z D_notify = Some (lt_wake (z\<lparr>lt_destructor := Some D_join\<rparr>))"
| "destructor_step z D_join = (if lt_worker z = W_gone then Some (z\<lparr>lt_destructor := Some D_done\<rparr>) else None)"
| "destructor_step z D_done = None"

datatype lt_event =
    Calls nat string "string \<times> string \<times> string"
  | Destroys
  | Worker_steps
  | Producer_steps nat
  | Destructor_steps
  | Wakes_up

fun lt_step :: "lt_event \<Rightarrow> log_threads \<Rightarrow> log_threads option" where
  "lt_step (Calls k today msg) z =
     (if lt_producers z k = None then Some (z\<lparr>lt_producers := (lt_producers z)(k \<mapsto> P_lock today msg)\<rparr>) else None)"
| "lt_step Destroys z = (if lt_destructor z = None then Some (z\<lparr>lt_destructor := Some D_set\<rparr>) else None)"
| "lt_step Worker_steps z = worker_step z (lt_worker z)"
| "lt_step (Producer_steps k) z = (case lt_producers z k of None \<Rightarrow> None | Some p \<Rightarrow> producer_step k z p)"
| "lt_step Destructor_steps z = (case lt_destructor z of None \<Rightarrow> None | Some d \<Rightarrow> destructor_step z d)"
| "lt_step Wakes_up z = (if lt_worker z = W_asleep then Some (z\<lparr>lt_worker := W_lock\<rparr>) else None)"

fun lt_run :: "lt_event list \<Rightarrow> log_threads \<Rightarrow> log_threads option" where
  "lt_run [] z = Some z"
| "lt_run (e # es) z = (case lt_step e z of None \<Rightarrow> None | Some y \<Rightarrow> lt_run es y)"

inductive lt_reach :: "log_state \<Rightarrow> media \<Rightarrow> log_threads \<Rightarrow> bool" for s0 :: log_state and m0 :: media where
  start: "lt_reach s0 m0 (lt_initial s0 m0)"
| move: "lt_reach s0 m0 z \<Longrightarrow> lt_step e z = Some y \<Longrightarrow> lt_reach s0 m0 y"

lemma lt_run_reach: "lt_run es z = Some y \<Longrightarrow> lt_reach s0 m0 z \<Longrightarrow> lt_reach s0 m0 y"
  by (induction es arbitrary: z) (auto split: option.splits intro: lt_reach.move)

section \<open>Invariants\<close>

abbreviation lt_queue :: "log_threads \<Rightarrow> string list" where
  "lt_queue z \<equiv> lq_queue (log_items (lt_log z))"

fun p_holds :: "producer_pc \<Rightarrow> bool" where
  "p_holds (P_log d msg) = True"
| "p_holds P_unlock = True"
| "p_holds _ = False"

definition lock_ok :: "log_threads \<Rightarrow> bool" where
  "lock_ok z \<longleftrightarrow> (lt_mutex z = Some By_worker \<longleftrightarrow> lt_worker z \<in> {W_test, W_sleep, W_decide, W_flush}) \<and>
     (\<forall>k. lt_mutex z = Some (By_producer k) \<longleftrightarrow> (\<exists>p. lt_producers z k = Some p \<and> p_holds p))"

lemma p_holds_lock: "lock_ok z \<Longrightarrow> lt_producers z k = Some p \<Longrightarrow> p_holds p \<Longrightarrow> lt_mutex z = Some (By_producer k)"
  by (auto simp: lock_ok_def)

lemma w_holds_lock: "lock_ok z \<Longrightarrow> lt_worker z \<in> {W_test, W_sleep, W_decide, W_flush} \<longleftrightarrow> lt_mutex z = Some By_worker"
  by (simp add: lock_ok_def)

text \<open>A worker that sleeps, or is about to, has nothing to do, or a notification is still to come.\<close>

fun notifying :: "producer_pc \<Rightarrow> bool" where
  "notifying P_unlock = True"
| "notifying P_notify = True"
| "notifying _ = False"

definition promised :: "(nat \<rightharpoonup> producer_pc) \<Rightarrow> bool" where
  "promised ps \<longleftrightarrow> (\<exists>k p. ps k = Some p \<and> notifying p)"

lemma promised_update:
  "promised ps \<Longrightarrow> (\<And>p. ps k = Some p \<Longrightarrow> \<not> notifying p) \<Longrightarrow> promised (ps(k := x))"
  unfolding promised_def by (metis fun_upd_other)

lemma promised_new: "notifying p \<Longrightarrow> promised (ps(k \<mapsto> p))"
  by (auto simp: promised_def)

definition wake_ok :: "log_threads \<Rightarrow> bool" where
  "wake_ok z \<longleftrightarrow> (lt_worker z = W_sleep \<longrightarrow> lt_queue z = []) \<and>
     (lt_worker z = W_asleep \<longrightarrow> lt_queue z = [] \<or> promised (lt_producers z)) \<and>
     (lt_worker z = W_decide \<longrightarrow> lt_stop z \<or> lt_queue z \<noteq> []) \<and> (lt_worker z = W_flush \<longrightarrow> lt_queue z \<noteq> [])"

lemma logger_run_append:
  "logger_run (xs @ ys) s m = (case logger_run xs s m of None \<Rightarrow> None | Some (s1, m1) \<Rightarrow> logger_run ys s1 m1)"
proof (induction xs arbitrary: s m)
  case (Cons x xs)
  then show ?case by (cases x) (auto split: option.splits prod.splits)
qed simp

lemma lt_wake_simps [simp]:
  "lt_mutex (lt_wake z) = lt_mutex z" "lt_producers (lt_wake z) = lt_producers z" "lt_destructor (lt_wake z) = lt_destructor z"
  "lt_stop (lt_wake z) = lt_stop z" "lt_log (lt_wake z) = lt_log z" "lt_media (lt_wake z) = lt_media z"
  "lt_history (lt_wake z) = lt_history z"
  "lt_worker (lt_wake z) = (if lt_worker z = W_asleep then W_lock else lt_worker z)"
  by (simp_all add: lt_wake_def)

lemma lt_step_cases:
  assumes "lt_step e z = Some y"
  obtains (calls) k d msg where "e = Calls k d msg" "lt_producers z k = None" "y = z\<lparr>lt_producers := (lt_producers z)(k \<mapsto> P_lock d msg)\<rparr>"
  | (destroys) "e = Destroys" "lt_destructor z = None" "y = z\<lparr>lt_destructor := Some D_set\<rparr>"
  | (locks) "e = Worker_steps" "lt_worker z = W_lock" "lt_mutex z = None" "y = z\<lparr>lt_mutex := Some By_worker, lt_worker := W_test\<rparr>"
  | (tests) "e = Worker_steps" "lt_worker z = W_test"
      "y = z\<lparr>lt_worker := (if lt_queue z \<noteq> [] \<or> lt_stop z then W_decide else W_sleep)\<rparr>"
  | (sleeps) "e = Worker_steps" "lt_worker z = W_sleep" "y = z\<lparr>lt_mutex := None, lt_worker := W_asleep\<rparr>"
  | (leaves) "e = Worker_steps" "lt_worker z = W_decide" "lt_stop z" "lt_queue z = []" "y = z\<lparr>lt_mutex := None, lt_worker := W_gone\<rparr>"
  | (stays) "e = Worker_steps" "lt_worker z = W_decide" "\<not> lt_stop z \<or> lt_queue z \<noteq> []" "y = z\<lparr>lt_worker := W_flush\<rparr>"
  | (flushes) q m where "e = Worker_steps" "lt_worker z = W_flush"
      "Flush (log_writer (lt_log z)) (log_items (lt_log z)) (lt_media z) = (q, m)"
      "y = z\<lparr>lt_log := (lt_log z)\<lparr>log_items := q\<rparr>, lt_media := m, lt_history := lt_history z @ [Worker_round],
        lt_mutex := None, lt_worker := W_lock\<rparr>"
  | (p_locks) k d msg where "e = Producer_steps k" "lt_producers z k = Some (P_lock d msg)" "lt_mutex z = None"
      "y = z\<lparr>lt_mutex := Some (By_producer k), lt_producers := (lt_producers z)(k \<mapsto> P_log d msg)\<rparr>"
  | (p_logs) k d msg s m where "e = Producer_steps k" "lt_producers z k = Some (P_log d msg)"
      "strategy_Log d msg (lt_log z) (lt_media z) = Some (s, m)"
      "y = z\<lparr>lt_log := s, lt_media := m, lt_history := lt_history z @ [Log_call d msg], lt_producers := (lt_producers z)(k \<mapsto> P_unlock)\<rparr>"
  | (p_unlocks) k where "e = Producer_steps k" "lt_producers z k = Some P_unlock"
      "y = z\<lparr>lt_mutex := None, lt_producers := (lt_producers z)(k \<mapsto> P_notify)\<rparr>"
  | (p_notifies) k where "e = Producer_steps k" "lt_producers z k = Some P_notify"
      "y = lt_wake (z\<lparr>lt_producers := (lt_producers z)(k := None)\<rparr>)"
  | (d_sets) "e = Destructor_steps" "lt_destructor z = Some D_set" "y = z\<lparr>lt_stop := True, lt_destructor := Some D_notify\<rparr>"
  | (d_notifies) "e = Destructor_steps" "lt_destructor z = Some D_notify" "y = lt_wake (z\<lparr>lt_destructor := Some D_join\<rparr>)"
  | (d_joins) "e = Destructor_steps" "lt_destructor z = Some D_join" "lt_worker z = W_gone" "y = z\<lparr>lt_destructor := Some D_done\<rparr>"
  | (wakes) "e = Wakes_up" "lt_worker z = W_asleep" "y = z\<lparr>lt_worker := W_lock\<rparr>"
proof (cases e)
  case (Calls k d msg)
  show thesis by (rule calls [of k d msg]) (use assms Calls in \<open>simp_all split: if_splits\<close>)
next
  case Destroys
  show thesis by (rule destroys) (use assms Destroys in \<open>simp_all split: if_splits\<close>)
next
  case Wakes_up
  show thesis by (rule wakes) (use assms Wakes_up in \<open>simp_all split: if_splits\<close>)
next
  case Worker_steps
  then have w: "worker_step z (lt_worker z) = Some y" using assms by simp
  show thesis
  proof (cases "lt_worker z")
    case W_lock
    show thesis by (rule locks) (use w Worker_steps W_lock in \<open>simp_all split: if_splits\<close>)
  next
    case W_test
    show thesis by (rule tests) (use w Worker_steps W_test in \<open>simp_all add: lq_empty_def\<close>)
  next
    case W_sleep
    show thesis by (rule sleeps) (use w Worker_steps W_sleep in simp_all)
  next
    case W_decide
    show thesis
    proof (cases "lt_stop z \<and> lt_queue z = []")
      case True
      show thesis by (rule leaves) (use w Worker_steps W_decide True in \<open>simp_all add: lq_empty_def\<close>)
    next
      case False
      show thesis by (rule stays) (use w Worker_steps W_decide False in \<open>auto simp: lq_empty_def split: if_splits\<close>)
    qed
  next
    case W_flush
    obtain q m where "Flush (log_writer (lt_log z)) (log_items (lt_log z)) (lt_media z) = (q, m)" by fastforce
    then show thesis using flushes w Worker_steps W_flush by simp
  qed (use w in simp_all)
next
  case (Producer_steps k)
  then obtain p where p: "lt_producers z k = Some p" "producer_step k z p = Some y" using assms by (auto split: option.splits)
  show thesis
  proof (cases p)
    case (P_lock d msg)
    show thesis by (rule p_locks [of k d msg]) (use p P_lock Producer_steps in \<open>auto split: if_splits\<close>)
  next
    case (P_log d msg)
    then obtain s m where "strategy_Log d msg (lt_log z) (lt_media z) = Some (s, m)" using p(2) by (auto split: option.splits)
    then show thesis using p_logs [of k d msg s m] p P_log Producer_steps by simp
  next
    case P_unlock
    show thesis by (rule p_unlocks [of k]) (use p P_unlock Producer_steps in auto)
  next
    case P_notify
    show thesis by (rule p_notifies [of k]) (use p P_notify Producer_steps in auto)
  qed
next
  case Destructor_steps
  then obtain d where d: "lt_destructor z = Some d" "destructor_step z d = Some y" using assms by (auto split: option.splits)
  show thesis
  proof (cases d)
    case D_set
    show thesis by (rule d_sets) (use d D_set Destructor_steps in auto)
  next
    case D_notify
    show thesis by (rule d_notifies) (use d D_notify Destructor_steps in auto)
  next
    case D_join
    show thesis by (rule d_joins) (use d D_join Destructor_steps in \<open>auto split: if_splits\<close>)
  qed (use d in simp)
qed

lemma lock_ok_step:
  assumes "lt_step e z = Some y" "lock_ok z"
  shows "lock_ok y"
  using assms(1)
proof (cases rule: lt_step_cases)
  case (p_locks k d msg)
  then show ?thesis using assms(2) by (auto simp: lock_ok_def)
next
  case (p_logs k d msg s m)
  then show ?thesis using assms(2) p_holds_lock [OF assms(2) p_logs(2)] by (auto simp: lock_ok_def)
next
  case (p_unlocks k)
  have "lt_mutex z = Some (By_producer k)" using p_holds_lock [OF assms(2) p_unlocks(2)] by simp
  then show ?thesis using p_unlocks(3) assms(2) p_holds_lock [OF assms(2)] by (fastforce simp: lock_ok_def)
qed (use assms(2) in \<open>auto simp: lock_ok_def\<close>)

lemma wake_ok_step:
  assumes "lt_step e z = Some y" "wake_ok z" "lock_ok z"
  shows "wake_ok y"
  using assms(1)
proof (cases rule: lt_step_cases)
  case (calls k d msg)
  then have "promised (lt_producers z) \<Longrightarrow> promised (lt_producers y)"
    using promised_update [of "lt_producers z" k] by simp
  then show ?thesis using assms(2) calls(3) by (auto simp: wake_ok_def)
next
  case (p_locks k d msg)
  then have "promised (lt_producers z) \<Longrightarrow> promised (lt_producers y)"
    using promised_update [of "lt_producers z" k] by simp
  then show ?thesis using assms(2) p_locks(4) by (auto simp: wake_ok_def)
next
  case (p_logs k d msg s m)
  have "lt_worker z \<notin> {W_test, W_sleep, W_decide, W_flush}"
    using w_holds_lock [OF assms(3)] p_holds_lock [OF assms(3) p_logs(2)] by simp
  then show ?thesis using p_logs(4) by (simp add: wake_ok_def promised_new)
next
  case (p_unlocks k)
  then show ?thesis using assms(2) by (simp add: wake_ok_def promised_new)
next
  case (p_notifies k)
  then show ?thesis using assms(2) by (simp add: wake_ok_def)
next
  case d_notifies
  then show ?thesis using assms(2) by (simp add: wake_ok_def)
qed (use assms(2) in \<open>auto simp: wake_ok_def\<close>)

text \<open>The worker leaves only after the flag is set.\<close>

definition stop_ok :: "log_threads \<Rightarrow> bool" where
  "stop_ok z \<longleftrightarrow> (lt_worker z = W_gone \<longrightarrow> lt_stop z) \<and> (lt_destructor z = Some D_done \<longrightarrow> lt_worker z = W_gone)"

lemma stop_ok_step:
  assumes "lt_step e z = Some y" "stop_ok z"
  shows "stop_ok y"
  using assms(1)
  by (cases rule: lt_step_cases) (use assms(2) in \<open>auto simp: stop_ok_def\<close>)

definition history_ok :: "log_state \<Rightarrow> media \<Rightarrow> log_threads \<Rightarrow> bool" where
  "history_ok s0 m0 z \<longleftrightarrow> logger_run (lt_history z) s0 m0 = Some (lt_log z, lt_media z)"

lemma history_ok_step:
  assumes "lt_step e z = Some y" "history_ok s0 m0 z" "wake_ok z"
  shows "history_ok s0 m0 y"
  using assms(1)
proof (cases rule: lt_step_cases)
  case (flushes q m)
  then have "lt_queue z \<noteq> []" using assms(3) by (simp add: wake_ok_def)
  then show ?thesis using flushes assms(2) by (simp add: history_ok_def logger_run_append logWorker_def lq_empty_def)
next
  case (p_logs k d msg s m)
  then show ?thesis using assms(2) by (simp add: history_ok_def logger_run_append)
qed (use assms(2) in \<open>simp_all add: history_ok_def\<close>)

lemma lt_reach_ok:
  assumes "lt_reach s0 m0 z"
  shows "lock_ok z \<and> wake_ok z \<and> stop_ok z \<and> history_ok s0 m0 z"
  using assms
proof induction
  case start
  show ?case by (simp add: lock_ok_def wake_ok_def stop_ok_def history_ok_def lt_initial_def)
next
  case (move z e y)
  then show ?case using lock_ok_step wake_ok_step stop_ok_step history_ok_step by blast
qed

text \<open>
  While the worker is there, the history only grows; when it leaves, the queue is empty, and all that happens to the
  logger afterwards is that lines are accepted, which stay in the queue.
\<close>

definition left_behind :: "log_state \<Rightarrow> media \<Rightarrow> log_event list \<Rightarrow> log_event list \<Rightarrow> bool" where
  "left_behind s0 m0 H history \<longleftrightarrow> (\<exists>before late s m. history = H @ before @ late \<and> Worker_round \<notin> set late \<and>
     logger_run (H @ before) s0 m0 = Some (s, m) \<and> lq_queue (log_items s) = [])"

lemma left_behind_now:
  "logger_run (H @ before) s0 m0 = Some (s, m) \<Longrightarrow> lq_queue (log_items s) = [] \<Longrightarrow> left_behind s0 m0 H (H @ before)"
  unfolding left_behind_def by (intro exI [of _ before] exI [of _ "[]"]) simp

lemma left_behind_later: "left_behind s0 m0 H history \<Longrightarrow> left_behind s0 m0 H (history @ [Log_call d msg])"
  unfolding left_behind_def by (metis UnE append.assoc list.set(1) list.set(2) log_event.distinct(1) set_append singletonD)

definition since :: "log_state \<Rightarrow> media \<Rightarrow> log_event list \<Rightarrow> log_threads \<Rightarrow> bool" where
  "since s0 m0 H z \<longleftrightarrow> prefix H (lt_history z) \<and> (lt_worker z = W_gone \<longrightarrow> left_behind s0 m0 H (lt_history z))"

lemma since_step:
  assumes "lt_step e z = Some y" "since s0 m0 H z" "history_ok s0 m0 z" "wake_ok z" "lock_ok z"
  shows "since s0 m0 H y"
  using assms(1)
proof (cases rule: lt_step_cases)
  case leaves
  obtain before where "lt_history z = H @ before" using assms(2) by (auto simp: since_def prefix_def)
  then show ?thesis using leaves assms(2,3) left_behind_now by (simp add: since_def history_ok_def)
next
  case (p_logs k d msg s m)
  then show ?thesis using assms(2) left_behind_later by (simp add: since_def)
qed (use assms(2) in \<open>simp_all add: since_def\<close>)

lemma since_run:
  assumes "lt_run es z = Some y" "lt_reach s0 m0 z" "since s0 m0 H z"
  shows "since s0 m0 H y"
  using assms
proof (induction es arbitrary: z)
  case (Cons e es)
  then obtain u where u: "lt_step e z = Some u" "lt_run es u = Some y" by (auto split: option.splits)
  then show ?case
    using Cons.IH [OF u(2)] since_step [OF u(1) Cons.prems(3)] lt_reach_ok [OF Cons.prems(2)] lt_reach.move [OF Cons.prems(2) u(1)]
    by blast
qed simp

lemma logged_append: "logged st (xs @ ys) = logged st xs @ logged st ys"
  by (induction st xs rule: logged.induct) simp_all

lemma logged_only_rounds [simp]: "logged st (replicate k Worker_round) = []"
  by (induction k) simp_all

text \<open>What is written and what is queued, in any reachable state of a good day.\<close>

definition good_day :: "log_state \<Rightarrow> media \<Rightarrow> log_event list \<Rightarrow> bool" where
  "good_day s0 m0 history \<longleftrightarrow> media_ok m0 \<and> (\<forall>ev \<in> set history. same_day s0 ev) \<and>
     (strategy s0 = Null_strategy \<longrightarrow> lq_queue (log_items s0) = [])"

lemma lines_kept:
  assumes "logger_run history s0 m0 = Some (s, m)" "good_day s0 m0 history"
  shows "held_by (log_writer s0) m @ map (rendered_by (log_writer s0)) (lq_queue (log_items s)) =
    held_by (log_writer s0) m0 @ map (rendered_by (log_writer s0)) (lq_queue (log_items s0) @ logged (strategy s0) history)"
  using log_lossless [of m0 history s0] assms by (auto simp: good_day_def)

section \<open>Properties\<close>

text \<open>C9: The logger is linearizable under any number of threads, and loses nothing on a good day.  In every interleaving of
  the threads in \<open>Log\<close>, the worker and the destructor, the logger is in the state that a sequence of undisturbed calls
  leads to, in the order in which the threads got the mutex.  And if no write, \<open>send\<close> or query of the medium fails, every
  call was made on the date of the file that is open (when logging to a file) and with a known key, then what
  has been written and then what is queued are exactly the lines logged, each once and in that order.
  (On another day, or with a medium that fails, lines are lost: \<open>midnight_loses_queue\<close>.)\<close>

theorem logger_threads_keep_lines:
  assumes "lt_reach s0 m0 z"
  shows "logger_run (lt_history z) s0 m0 = Some (lt_log z, lt_media z) \<and>
    (media_ok m0 \<and> (\<forall>ev \<in> set (lt_history z). same_day s0 ev) \<and> (strategy s0 = Null_strategy \<longrightarrow> lq_queue (log_items s0) = []) \<longrightarrow>
     held_by (log_writer s0) (lt_media z) @ map (rendered_by (log_writer s0)) (lt_queue z) =
      held_by (log_writer s0) m0 @ map (rendered_by (log_writer s0)) (lq_queue (log_items s0) @ logged (strategy s0) (lt_history z)))"
proof -
  have "logger_run (lt_history z) s0 m0 = Some (lt_log z, lt_media z)" using lt_reach_ok [OF assms] by (simp add: history_ok_def)
  then show ?thesis using lines_kept by (auto simp: good_day_def)
qed

text \<open>The worker on its own, from each place with the mutex in its hands or free.\<close>

definition comes_to_rest :: "nat \<Rightarrow> log_threads \<Rightarrow> bool" where
  "comes_to_rest n z \<longleftrightarrow>
     (\<exists>y k. lt_run (replicate n Worker_steps) z = Some y \<and> lt_queue y = [] \<and> lt_worker y \<in> {W_asleep, W_gone} \<and>
        lt_history y = lt_history z @ replicate k Worker_round)"

lemma comes_to_rest_step:
  assumes "worker_step z (lt_worker z) = Some y" "lt_history y = lt_history z @ replicate k Worker_round" "comes_to_rest n y"
  shows "comes_to_rest (Suc n) z"
proof -
  obtain x j where "lt_run (replicate n Worker_steps) y = Some x" "lt_queue x = []" "lt_worker x \<in> {W_asleep, W_gone}"
    "lt_history x = lt_history y @ replicate j Worker_round"
    using assms(3) by (auto simp: comes_to_rest_def)
  then show ?thesis
    using assms(1,2) unfolding comes_to_rest_def by (intro exI [of _ x] exI [of _ "k + j"]) (simp add: replicate_add)
qed

lemma rests_here:
  "lt_queue z = [] \<Longrightarrow> lt_worker z \<in> {W_asleep, W_gone} \<Longrightarrow> comes_to_rest 0 z"
  unfolding comes_to_rest_def by (intro exI [of _ z] exI [of _ 0]) simp

lemma rests_empty:
  "lt_queue z = [] \<Longrightarrow> lt_worker z = W_sleep \<Longrightarrow> comes_to_rest 1 z"
  "lt_queue z = [] \<Longrightarrow> lt_stop z \<Longrightarrow> lt_worker z = W_decide \<Longrightarrow> comes_to_rest 1 z"
  using comes_to_rest_step [of z "z\<lparr>lt_mutex := None, lt_worker := W_asleep\<rparr>" 0 0]
    comes_to_rest_step [of z "z\<lparr>lt_mutex := None, lt_worker := W_gone\<rparr>" 0 0] rests_here
  by (simp_all add: lq_empty_def)

lemma rests_test_empty:
  assumes "lt_queue z = []" "lt_worker z = W_test"
  shows "comes_to_rest 2 z"
proof -
  let ?y = "z\<lparr>lt_worker := (if lt_stop z then W_decide else W_sleep)\<rparr>"
  have "comes_to_rest 1 ?y" using rests_empty [of ?y] assms(1) by (cases "lt_stop z") simp_all
  then show ?thesis using comes_to_rest_step [of z ?y 0 1] assms by (simp add: lq_empty_def numeral_2_eq_2)
qed

lemma rests_lock_empty: "lt_queue z = [] \<Longrightarrow> lt_worker z = W_lock \<Longrightarrow> lt_mutex z = None \<Longrightarrow> comes_to_rest 3 z"
  using comes_to_rest_step [of z "z\<lparr>lt_mutex := Some By_worker, lt_worker := W_test\<rparr>" 0 2] rests_test_empty
  by (simp add: numeral_3_eq_3 numeral_2_eq_2)

lemma rests_flush: "lt_worker z = W_flush \<Longrightarrow> comes_to_rest 4 z"
  using comes_to_rest_step [of z _ 1 3] rests_lock_empty by (fastforce simp: Flush_def)

lemma rests_decide: "lt_worker z = W_decide \<Longrightarrow> lt_queue z \<noteq> [] \<Longrightarrow> comes_to_rest 5 z"
  using comes_to_rest_step [of z "z\<lparr>lt_worker := W_flush\<rparr>" 0 4] rests_flush by (simp add: lq_empty_def)

lemma rests_test: "lt_worker z = W_test \<Longrightarrow> lt_queue z \<noteq> [] \<Longrightarrow> comes_to_rest 6 z"
  using comes_to_rest_step [of z "z\<lparr>lt_worker := W_decide\<rparr>" 0 5] rests_decide by (simp add: lq_empty_def)

lemma rests_lock: "lt_worker z = W_lock \<Longrightarrow> lt_mutex z = None \<Longrightarrow> lt_queue z \<noteq> [] \<Longrightarrow> comes_to_rest 7 z"
  using comes_to_rest_step [of z "z\<lparr>lt_mutex := Some By_worker, lt_worker := W_test\<rparr>" 0 6] rests_test by simp

lemma worker_rests:
  assumes "lt_reach s0 m0 z" "lt_producers z = Map.empty" "lt_worker z \<noteq> W_gone"
  shows "\<exists>n \<le> 7. comes_to_rest n z"
proof -
  have ok: "lock_ok z" "wake_ok z" using lt_reach_ok [OF assms(1)] by simp_all
  have free: "lt_worker z = W_lock \<Longrightarrow> lt_mutex z = None"
    using ok(1) assms(2) by (cases "lt_mutex z") (auto simp: lock_ok_def intro: lock_holder.exhaust)
  have ends: ?thesis if "comes_to_rest n z" "n \<le> 7" for n using that by blast
  show ?thesis
  proof (cases "lt_queue z = []")
    case True
    show ?thesis
    proof (cases "lt_worker z")
      case W_decide
      then have "lt_stop z" using ok(2) True by (simp add: wake_ok_def)
      then show ?thesis using ends rests_empty(2) [OF True _ W_decide] by simp
    next
      case W_asleep
      then show ?thesis using ends [OF rests_here] True by simp
    next
      case W_flush
      then show ?thesis using ends [OF rests_flush] by simp
    qed (use True free assms(3) ends [OF rests_empty(1)] ends [OF rests_test_empty] ends [OF rests_lock_empty] in auto)
  next
    case False
    have "lt_worker z \<noteq> W_asleep" "lt_worker z \<noteq> W_sleep" using ok(2) False assms(2) by (auto simp: wake_ok_def promised_def)
    then show ?thesis
      using False free assms(3) ends [OF rests_flush] ends [OF rests_decide] ends [OF rests_test] ends [OF rests_lock]
      by (cases "lt_worker z") auto
  qed
qed

text \<open>C10: No line is left behind by a lost notification.  In every reachable state in which no thread is inside \<open>Log\<close> and the
  worker has not left, whichever notifications came too early or woke nobody, the worker by itself empties the
  queue in at most seven steps and sleeps or leaves only then.  And on a day on which the medium takes every line and the
  logger's date stays, the medium then holds what it held before followed by exactly the lines that were queued,
  in order, and so in all every line ever logged.\<close>

theorem worker_writes_everything:
  assumes "lt_reach s0 m0 z" "lt_producers z = Map.empty" "lt_worker z \<noteq> W_gone"
  shows "\<exists>n \<le> 7. \<exists>y. lt_run (replicate n Worker_steps) z = Some y \<and> lt_queue y = [] \<and> lt_worker y \<in> {W_asleep, W_gone} \<and>
    (media_ok m0 \<and> (\<forall>ev \<in> set (lt_history z). same_day s0 ev) \<and> (strategy s0 = Null_strategy \<longrightarrow> lq_queue (log_items s0) = []) \<longrightarrow>
       held_by (log_writer s0) (lt_media y) = held_by (log_writer s0) (lt_media z) @ map (rendered_by (log_writer s0)) (lt_queue z) \<and>
       held_by (log_writer s0) (lt_media y) =
         held_by (log_writer s0) m0 @ map (rendered_by (log_writer s0)) (lq_queue (log_items s0) @ logged (strategy s0) (lt_history z)))"
proof -
  obtain n y k where y: "n \<le> 7" "lt_run (replicate n Worker_steps) z = Some y" "lt_queue y = []" "lt_worker y \<in> {W_asleep, W_gone}"
    "lt_history y = lt_history z @ replicate k Worker_round"
    using worker_rests [OF assms] by (auto simp: comes_to_rest_def)
  have runs: "logger_run (lt_history z) s0 m0 = Some (lt_log z, lt_media z)" "logger_run (lt_history y) s0 m0 = Some (lt_log y, lt_media y)"
    using lt_reach_ok assms(1) lt_run_reach [OF y(2) assms(1)] by (auto simp: history_ok_def)
  have same: "logged (strategy s0) (lt_history y) = logged (strategy s0) (lt_history z)"
    by (simp add: y(5) logged_append)
  have good: "good_day s0 m0 (lt_history y)" if "good_day s0 m0 (lt_history z)"
    using that y(5) by (auto simp: good_day_def same_day_def)
  show ?thesis
    using y(1-4) lines_kept [OF runs(1)] lines_kept [OF runs(2)] same good
    by (intro exI [of _ n] conjI exI [of _ y]) (auto simp: good_day_def)
qed

text \<open>The worker tests, the destructor sets the flag and notifies, the worker sleeps.\<close>

definition lost_stop :: "lt_event list" where
  "lost_stop = [Worker_steps, Worker_steps, Destroys, Destructor_steps, Destructor_steps, Worker_steps]"

text \<open>Without the worker, a logger that queues only collects lines.\<close>

lemma same_day_keeps:
  "logger_run evs s m = Some (s', m') \<Longrightarrow> \<forall>ev \<in> set evs. same_day s ev \<Longrightarrow> strategy s' = strategy s \<and> log_date s' = log_date s"
proof (induction evs arbitrary: s m)
  case (Cons ev evs)
  obtain s1 m1 where 1: "strategy s1 = strategy s \<and> log_date s1 = log_date s" "logger_run evs s1 m1 = Some (s', m')"
  proof (cases ev)
    case (Log_call d msg)
    then obtain s1 m1 where s1: "strategy_Log d msg s m = Some (s1, m1)" "logger_run evs s1 m1 = Some (s', m')"
      using Cons.prems(1) by (auto split: option.splits)
    then have "strategy s1 = strategy s \<and> log_date s1 = log_date s"
      using Cons.prems(2) Log_call by (cases "strategy s") (auto simp: strategy_Log_def DoLog_def same_day_Log)
    then show thesis using that s1(2) by blast
  next
    case Worker_round
    have "strategy (fst (logWorker s m)) = strategy s \<and> log_date (fst (logWorker s m)) = log_date s"
      by (simp add: logWorker_def case_prod_beta Let_def)
    then show thesis using that [of "fst (logWorker s m)" "snd (logWorker s m)"] Cons.prems(1) Worker_round
      by (simp add: case_prod_beta Let_def)
  qed
  have "\<forall>ev \<in> set evs. same_day s1 ev" using Cons.prems(2) 1(1) by (simp add: same_day_def)
  from Cons.IH [OF 1(2) this] 1(1) show ?case by simp
qed simp

lemma late_lines:
  "logger_run evs s m = Some (s', m') \<Longrightarrow> Worker_round \<notin> set evs \<Longrightarrow> \<forall>ev \<in> set evs. same_day s ev \<Longrightarrow>
   strategy s \<noteq> Null_strategy \<Longrightarrow> m' = m \<and> lq_queue (log_items s') = lq_queue (log_items s) @ logged (strategy s) evs"
proof (induction evs arbitrary: s m)
  case (Cons ev evs)
  obtain d msg where ev: "ev = Log_call d msg" using Cons.prems(2) by (cases ev) auto
  obtain line where line: "log_line (strategy s) msg = Some line" using Cons.prems(3) ev by (auto simp: same_day_Log)
  let ?s = "s\<lparr>log_items := Write line (log_items s)\<rparr>"
  have "strategy_Log d msg s m = Some (?s, m)"
    using Cons.prems(3,4) ev line by (cases "strategy s") (auto simp: strategy_Log_def DoLog_def same_day_Log)
  then have "logger_run evs ?s m = Some (s', m')" using Cons.prems(1) ev by simp
  moreover have "\<forall>ev \<in> set evs. same_day ?s ev" using Cons.prems(3) by (simp add: same_day_def)
  ultimately show ?case using Cons.IH [of ?s m] Cons.prems(2,4) ev line by (simp add: Write_def lq_push_def)
qed simp

lemma destructor_flushes:
  assumes "lt_reach s0 m0 z" "\<not> lt_stop z" "lt_run es z = Some y" "lt_destructor y = Some D_done"
    and "good_day s0 m0 (lt_history y)" "strategy s0 \<noteq> Null_strategy"
  obtains before late where "lt_history y = lt_history z @ before @ late" "Worker_round \<notin> set late"
    "lt_queue y = logged (strategy s0) late"
    "held_by (log_writer s0) (lt_media y) = held_by (log_writer s0) m0 @
       map (rendered_by (log_writer s0)) (lq_queue (log_items s0) @ logged (strategy s0) (lt_history z @ before))"
proof -
  have "since s0 m0 (lt_history z) z" using lt_reach_ok [OF assms(1)] assms(2) by (auto simp: since_def stop_ok_def)
  then have y: "since s0 m0 (lt_history z) y" "lt_reach s0 m0 y"
    using since_run [OF assms(3,1)] lt_run_reach [OF assms(3,1)] by simp_all
  then have ok: "stop_ok y" "history_ok s0 m0 y" using lt_reach_ok by blast+
  then obtain before late s m where h: "lt_history y = lt_history z @ before @ late" "Worker_round \<notin> set late"
    "logger_run (lt_history z @ before) s0 m0 = Some (s, m)" "lq_queue (log_items s) = []"
    using y(1) assms(4) by (auto simp: since_def stop_ok_def left_behind_def)
  have day: "good_day s0 m0 (lt_history z @ before)" "\<forall>ev \<in> set late. same_day s0 ev" using assms(5) h(1) by (auto simp: good_day_def)
  have same: "strategy s = strategy s0 \<and> log_date s = log_date s0" using same_day_keeps [OF h(3)] day(1) by (simp add: good_day_def)
  have "logger_run late s m = Some (lt_log y, lt_media y)"
    using ok(2) h(3) logger_run_append [of "lt_history z @ before" late s0 m0] by (simp add: history_ok_def h(1))
  moreover have "\<forall>ev \<in> set late. same_day s ev" using day(2) same by (simp add: same_day_def)
  ultimately have "lt_media y = m" "lt_queue y = logged (strategy s0) late"
    using late_lines [of late s m] h(2,4) same assms(6) by simp_all
  then show thesis using that h(1,2) lines_kept [OF h(3) day(1)] h(4) by simp
qed

text \<open>C33: What the destructor waits for.  Take any moment before the destructor has set the flag.  If it returns, the
  worker has written by then all that had been logged at that moment, and what was logged until the worker left: for a
  strategy that queues, and as long as no write of the medium fails and the logger's date stays, the medium holds what it
  held at the start followed by exactly these lines, and the lines logged later are in the queue and are never
  written.  But the flag is set without the mutex, so the notification can fall between the worker's test and its
  sleep: then the worker sleeps, the destructor waits for it, and nothing but a wake-up without a reason or
  another call of \<open>Log\<close> can go on.\<close>

theorem destructor_flushes_or_hangs:
  "(\<forall>z es y. lt_reach s0 m0 z \<and> \<not> lt_stop z \<and> lt_run es z = Some y \<and> lt_destructor y = Some D_done \<and>
      strategy s0 \<noteq> Null_strategy \<and> media_ok m0 \<and> (\<forall>ev \<in> set (lt_history y). same_day s0 ev) \<longrightarrow>
      (\<exists>before late. lt_history y = lt_history z @ before @ late \<and> Worker_round \<notin> set late \<and>
         lt_queue y = logged (strategy s0) late \<and>
         held_by (log_writer s0) (lt_media y) = held_by (log_writer s0) m0 @
           map (rendered_by (log_writer s0)) (lq_queue (log_items s0) @ logged (strategy s0) (lt_history z @ before)))) \<and>
   (lq_queue (log_items s0) = [] \<longrightarrow> (\<exists>z. lt_reach s0 m0 z \<and> lt_worker z = W_asleep \<and> lt_destructor z = Some D_join \<and>
      (\<forall>e. lt_step e z \<noteq> None \<longrightarrow> e = Wakes_up \<or> (\<exists>k d msg. e = Calls k d msg))))"
proof (intro conjI impI allI)
  fix z es y
  assume z: "lt_reach s0 m0 z \<and> \<not> lt_stop z \<and> lt_run es z = Some y \<and> lt_destructor y = Some D_done \<and>
      strategy s0 \<noteq> Null_strategy \<and> media_ok m0 \<and> (\<forall>ev \<in> set (lt_history y). same_day s0 ev)"
  then have "good_day s0 m0 (lt_history y)" by (simp add: good_day_def)
  with z show "\<exists>before late. lt_history y = lt_history z @ before @ late \<and> Worker_round \<notin> set late \<and>
         lt_queue y = logged (strategy s0) late \<and>
         held_by (log_writer s0) (lt_media y) = held_by (log_writer s0) m0 @
           map (rendered_by (log_writer s0)) (lq_queue (log_items s0) @ logged (strategy s0) (lt_history z @ before))"
    by (blast elim: destructor_flushes)
next
  assume "lq_queue (log_items s0) = []"
  then obtain z where z: "lt_run lost_stop (lt_initial s0 m0) = Some z" "lt_worker z = W_asleep" "lt_destructor z = Some D_join"
    "lt_producers z = Map.empty"
    by (simp add: lost_stop_def lt_initial_def lq_empty_def lt_wake_def)
  moreover have "\<exists>k d msg. e = Calls k d msg" if "lt_step e z \<noteq> None" "e \<noteq> Wakes_up" for e
    using that z(2-4) by (cases e) auto
  ultimately show "\<exists>z. lt_reach s0 m0 z \<and> lt_worker z = W_asleep \<and> lt_destructor z = Some D_join \<and>
      (\<forall>e. lt_step e z \<noteq> None \<longrightarrow> e = Wakes_up \<or> (\<exists>k d msg. e = Calls k d msg))"
    using lt_run_reach lt_reach.start by blast
qed

section \<open>Witnesses\<close>

definition sample_logger :: log_state where
  "sample_logger = fst (logger_ctor ''FILE'' ''d1'' 3)"

text \<open>Two threads log; the first notification comes before the worker sleeps.\<close>

definition two_log :: "lt_event list" where
  "two_log = [Calls 1 ''d1'' (''a'', ''INFO'', ''x''), Calls 2 ''d1'' (''b'', ''INFO'', ''y''),
     Producer_steps 2, Producer_steps 2, Producer_steps 2, Producer_steps 2, Worker_steps, Worker_steps, Worker_steps, Worker_steps,
     Producer_steps 1, Producer_steps 1, Producer_steps 1]"

lemma sample_logging:
  "case lt_run two_log (lt_initial sample_logger sample_media) of
     None \<Rightarrow> False
   | Some z \<Rightarrow> lt_history z = [Log_call ''d1'' (''b'', ''INFO'', ''y''), Worker_round, Log_call ''d1'' (''a'', ''INFO'', ''x'')] \<and>
       lt_queue z = [''a INFO x''] \<and> lt_worker z = W_lock \<and> lt_producers z 1 = Some P_notify"
  by code_simp

lemma logger_threads_keep_lines_witness:
  "\<exists>z. lt_reach sample_logger sample_media z \<and> lt_queue z = [''a INFO x''] \<and>
    held_by (log_writer sample_logger) (lt_media z) @ map (rendered_by (log_writer sample_logger)) (lt_queue z) =
      map (rendered_by (log_writer sample_logger)) [''b INFO y'', ''a INFO x'']"
proof -
  obtain z where z: "lt_run two_log (lt_initial sample_logger sample_media) = Some z" "lt_queue z = [''a INFO x'']"
    "lt_history z = [Log_call ''d1'' (''b'', ''INFO'', ''y''), Worker_round, Log_call ''d1'' (''a'', ''INFO'', ''x'')]"
    using sample_logging by (auto split: option.splits)
  have r: "lt_reach sample_logger sample_media z" by (rule lt_run_reach [OF z(1) lt_reach.start])
  show ?thesis
    using logger_threads_keep_lines [OF r] r z(2,3)
    by (auto simp: media_ok_def sample_media_def sample_logger_def same_day_def logger_ctor_def CreateLogger_def log_line_def
        held_by_def Let_def)
qed

lemma worker_writes_everything_witness:
  "\<exists>z n y. lt_queue z = [''b INFO y''] \<and> lt_run (replicate n Worker_steps) z = Some y \<and> lt_queue y = [] \<and>
    held_by (log_writer sample_logger) (lt_media y) =
      held_by (log_writer sample_logger) (lt_media z) @ [rendered_by (log_writer sample_logger) ''b INFO y'']"
proof -
  let ?es = "[Calls 2 ''d1'' (''b'', ''INFO'', ''y''), Producer_steps 2, Producer_steps 2, Producer_steps 2, Producer_steps 2]"
  obtain z where z: "lt_run ?es (lt_initial sample_logger sample_media) = Some z" "lt_queue z = [''b INFO y'']"
    "lt_producers z = Map.empty" "lt_worker z = W_lock" "lt_history z = [Log_call ''d1'' (''b'', ''INFO'', ''y'')]"
    by (simp add: lt_initial_def lt_wake_def strategy_Log_def log_line_def DoLog_def Write_def lq_push_def
        sample_logger_def logger_ctor_def CreateLogger_def Let_def)
  have r: "lt_reach sample_logger sample_media z" by (rule lt_run_reach [OF z(1) lt_reach.start])
  have "media_ok sample_media" "\<forall>ev \<in> set (lt_history z). same_day sample_logger ev" "lq_queue (log_items sample_logger) = []"
    by (simp_all add: z(5) media_ok_def sample_media_def sample_logger_def same_day_def logger_ctor_def CreateLogger_def log_line_def Let_def)
  with worker_writes_everything [OF r z(3)] z(2,4) show ?thesis by auto
qed

text \<open>A line is logged, the logger is destroyed, and the worker writes the line before it leaves.\<close>

definition orderly_stop :: "lt_event list" where
  "orderly_stop = [Destroys, Destructor_steps, Destructor_steps] @ replicate 7 Worker_steps @ [Destructor_steps]"

lemma destructor_flushes_or_hangs_witness:
  "\<exists>z y. lt_queue z = [''b INFO y''] \<and> lt_run orderly_stop z = Some y \<and> lt_destructor y = Some D_done \<and>
    held_by (log_writer sample_logger) (lt_media y) =
      held_by (log_writer sample_logger) sample_media @ [rendered_by (log_writer sample_logger) ''b INFO y'']"
proof -
  let ?es = "[Calls 2 ''d1'' (''b'', ''INFO'', ''y''), Producer_steps 2, Producer_steps 2, Producer_steps 2, Producer_steps 2]"
  obtain z y where z: "lt_run ?es (lt_initial sample_logger sample_media) = Some z" "lt_queue z = [''b INFO y'']"
    "\<not> lt_stop z" "lt_history z = [Log_call ''d1'' (''b'', ''INFO'', ''y'')]"
    and y: "lt_run orderly_stop z = Some y" "lt_destructor y = Some D_done"
      "lt_history y = [Log_call ''d1'' (''b'', ''INFO'', ''y''), Worker_round]"
    by (simp add: lt_initial_def lt_wake_def strategy_Log_def log_line_def DoLog_def Write_def lq_push_def lq_empty_def Flush_def
        sample_logger_def logger_ctor_def CreateLogger_def Let_def orderly_stop_def numeral_eq_Suc)
  have r: "lt_reach sample_logger sample_media z" by (rule lt_run_reach [OF z(1) lt_reach.start])
  have day: "strategy sample_logger \<noteq> Null_strategy" "media_ok sample_media" "\<forall>ev \<in> set (lt_history y). same_day sample_logger ev"
    by (simp_all add: y(3) media_ok_def sample_media_def sample_logger_def same_day_def logger_ctor_def CreateLogger_def log_line_def Let_def)
  have "\<exists>before late. lt_history y = lt_history z @ before @ late \<and> Worker_round \<notin> set late \<and>
      lt_queue y = logged (strategy sample_logger) late \<and>
      held_by (log_writer sample_logger) (lt_media y) = held_by (log_writer sample_logger) sample_media @
        map (rendered_by (log_writer sample_logger))
          (lq_queue (log_items sample_logger) @ logged (strategy sample_logger) (lt_history z @ before))"
    using destructor_flushes_or_hangs [THEN conjunct1, rule_format, of sample_logger sample_media z orderly_stop y] r z(3) y(1,2) day
    by blast
  then obtain before late where b: "[Worker_round] = before @ late" "Worker_round \<notin> set late"
    "held_by (log_writer sample_logger) (lt_media y) = held_by (log_writer sample_logger) sample_media @
        map (rendered_by (log_writer sample_logger))
          (lq_queue (log_items sample_logger) @ logged (strategy sample_logger) (lt_history z @ before))"
    using y(3) z(4) by auto
  then have "before = [Worker_round]" by (cases before) auto
  then have "held_by (log_writer sample_logger) (lt_media y) =
      held_by (log_writer sample_logger) sample_media @ [rendered_by (log_writer sample_logger) ''b INFO y'']"
    using b(3) by (simp add: z(4) sample_logger_def logger_ctor_def CreateLogger_def log_line_def Let_def)
  then show ?thesis using z(2) y(1,2) by blast
qed

end
