(* ===== verification/SocketVersions.thy ===== *)
theory SocketVersions
  imports SocketObject SocketConn
begin

text \<open>
  The counted sockets of the other two programs, \<open>connection-pool/src/socket/Socket.cpp\<close> and
  \<open>passthrough-proxy/Socket.cpp\<close>, from their own sources, beside those of \<open>protocol-server\<close> in
  \<open>SocketObject\<close>.  They differ in how a descriptor is closed, in what the constructor throws and in whether
  the client's class has a destructor of its own.
\<close>

section \<open>The pool's class\<close>

definition pool_CloseSocket :: "fd \<Rightarrow> 'a os_scheme \<Rightarrow> int \<times> 'a os_scheme" where
  "pool_CloseSocket f s = (0, emit (Call_close f) s)"

definition pool_Close :: "fd \<Rightarrow> sock_heap \<Rightarrow> sock_heap" where
  "pool_Close f s = snd (pool_CloseSocket f s)"

text \<open>\<open>Start\<close> on POSIX; the branch on the first socket is empty, and so is \<open>End\<close>.\<close>

definition pool_socket_Start :: "sock_heap \<Rightarrow> sock_heap" where
  "pool_socket_Start s = s\<lparr>nofSockets := nofSockets s + 1\<rparr>"

definition pool_socket_create :: "nat \<Rightarrow> int \<Rightarrow> sock_heap \<Rightarrow> sock_heap completion" where
  "pool_socket_create a sock s =
     (case CreateSocket sock (pool_socket_Start s) of
        (f, Raised m s1) \<Rightarrow> Raised m s1
      | (f, Done s1) \<Rightarrow> Done (new_counter a f s1))"

definition pool_socket_wrap :: "nat \<Rightarrow> fd \<Rightarrow> sock_heap \<Rightarrow> sock_heap" where
  "pool_socket_wrap a f s = new_counter a f (pool_socket_Start s)"

definition pool_socket_destroy :: "nat \<Rightarrow> sock_heap \<Rightarrow> sock_heap option" where
  "pool_socket_destroy a s =
     Option.bind (map_of (sock_objs s) a) (\<lambda>(f, k).
     Option.bind (ref_cells s k) (\<lambda>n.
       let s1 = s\<lparr>ref_cells := (ref_cells s)(k \<mapsto> n - 1)\<rparr>;
           s2 = (if n - 1 = 0 then (pool_Close f s1)\<lparr>ref_cells := (ref_cells s1)(k := None)\<rparr> else s1)
       in Some (s2\<lparr>nofSockets := nofSockets s2 - 1, sock_objs := drop_obj a (sock_objs s2)\<rparr>)))"

definition pool_socket_copy :: "nat \<Rightarrow> nat \<Rightarrow> sock_heap \<Rightarrow> sock_heap option" where
  "pool_socket_copy a b s =
     Option.bind (map_of (sock_objs s) b) (\<lambda>(f, k).
     Option.bind (ref_cells s k) (\<lambda>n.
       Some (s\<lparr>ref_cells := (ref_cells s)(k \<mapsto> n + 1), sock_objs := (a, f, k) # sock_objs s, nofSockets := nofSockets s + 1\<rparr>)))"

definition pool_socket_assign :: "nat \<Rightarrow> nat \<Rightarrow> sock_heap \<Rightarrow> sock_heap option" where
  "pool_socket_assign a b s =
     Option.bind (map_of (sock_objs s) b) (\<lambda>(f, k).
     Option.bind (ref_cells s k) (\<lambda>n.
       if map_of (sock_objs s) a = None then None
       else Some (s\<lparr>ref_cells := (ref_cells s)(k \<mapsto> n + 1), sock_objs := (a, f, k) # drop_obj a (sock_objs s),
              nofSockets := nofSockets s + 1\<rparr>)))"

text \<open>\<open>~CClientSocket() { Close(); }\<close> and the destructor of the base class.\<close>

definition pool_client_destroy :: "nat \<Rightarrow> sock_heap \<Rightarrow> sock_heap option" where
  "pool_client_destroy a s =
     Option.bind (map_of (sock_objs s) a) (\<lambda>(f, k). pool_socket_destroy a (pool_Close f s))"

section \<open>The pass-through proxy's class\<close>

text \<open>What is thrown: an exception object, or a pointer to characters, which no handler for exceptions catches.\<close>

datatype thrown = Thrown_exception string | Thrown_literal string

definition passthrough_Close :: "fd \<Rightarrow> sock_heap \<Rightarrow> sock_heap" where
  "passthrough_Close f s = emit (Call_close f) s"

definition passthrough_Start :: "sock_heap \<Rightarrow> sock_heap" where
  "passthrough_Start s = s\<lparr>nofSockets := nofSockets s + 1\<rparr>"

definition proxy_socket_create :: "nat \<Rightarrow> int \<Rightarrow> sock_heap \<Rightarrow> thrown option \<times> sock_heap" where
  "proxy_socket_create a sock s =
     (let s1 = emit Call_socket (passthrough_Start s) in
      if sock = -1 then (Some (Thrown_literal ''INVALID_SOCKET''), s1) else (None, new_counter a sock s1))"

definition proxy_socket_wrap :: "nat \<Rightarrow> fd \<Rightarrow> sock_heap \<Rightarrow> sock_heap" where
  "proxy_socket_wrap a f s = new_counter a f (passthrough_Start s)"

definition proxy_socket_destroy :: "nat \<Rightarrow> sock_heap \<Rightarrow> sock_heap option" where
  "proxy_socket_destroy a s =
     Option.bind (map_of (sock_objs s) a) (\<lambda>(f, k).
     Option.bind (ref_cells s k) (\<lambda>n.
       let s1 = s\<lparr>ref_cells := (ref_cells s)(k \<mapsto> n - 1)\<rparr>;
           s2 = (if n - 1 = 0 then (passthrough_Close f s1)\<lparr>ref_cells := (ref_cells s1)(k := None)\<rparr> else s1)
       in Some (s2\<lparr>nofSockets := nofSockets s2 - 1, sock_objs := drop_obj a (sock_objs s2)\<rparr>)))"

definition proxy_socket_copy :: "nat \<Rightarrow> nat \<Rightarrow> sock_heap \<Rightarrow> sock_heap option" where
  "proxy_socket_copy a b s =
     Option.bind (map_of (sock_objs s) b) (\<lambda>(f, k).
     Option.bind (ref_cells s k) (\<lambda>n.
       Some (s\<lparr>ref_cells := (ref_cells s)(k \<mapsto> n + 1), sock_objs := (a, f, k) # sock_objs s, nofSockets := nofSockets s + 1\<rparr>)))"

definition proxy_socket_assign :: "nat \<Rightarrow> nat \<Rightarrow> sock_heap \<Rightarrow> sock_heap option" where
  "proxy_socket_assign a b s =
     Option.bind (map_of (sock_objs s) b) (\<lambda>(f, k).
     Option.bind (ref_cells s k) (\<lambda>n.
       if map_of (sock_objs s) a = None then None
       else Some (s\<lparr>ref_cells := (ref_cells s)(k \<mapsto> n + 1), sock_objs := (a, f, k) # drop_obj a (sock_objs s),
              nofSockets := nofSockets s + 1\<rparr>)))"

text \<open>\<open>SocketClient\<close> declares no destructor: its objects die like any \<open>Socket\<close>.\<close>

definition proxy_client_destroy :: "nat \<Rightarrow> sock_heap \<Rightarrow> sock_heap option" where
  "proxy_client_destroy a s = proxy_socket_destroy a s"

section \<open>The three classes\<close>

datatype socket_class = Protocol_server | Connection_pool | Pass_through

text \<open>An operation on objects of one of the classes; a client's object is destroyed by \<open>class_client_dies\<close>.\<close>

fun class_step :: "socket_class \<Rightarrow> sock_op \<Rightarrow> sock_heap \<Rightarrow> sock_heap option" where
  "class_step Protocol_server op s = sock_step op s"
| "class_step Connection_pool op s =
     (case op of Create a f \<Rightarrow> Some (state_of (pool_socket_create a f s)) | Wrap a f \<Rightarrow> Some (pool_socket_wrap a f s)
      | Copy a b \<Rightarrow> pool_socket_copy a b s | Assign a b \<Rightarrow> pool_socket_assign a b s | Destroy a \<Rightarrow> pool_socket_destroy a s)"
| "class_step Pass_through op s =
     (case op of Create a f \<Rightarrow> Some (snd (proxy_socket_create a f s)) | Wrap a f \<Rightarrow> Some (proxy_socket_wrap a f s)
      | Copy a b \<Rightarrow> proxy_socket_copy a b s | Assign a b \<Rightarrow> proxy_socket_assign a b s | Destroy a \<Rightarrow> proxy_socket_destroy a s)"

fun class_run :: "socket_class \<Rightarrow> sock_op list \<Rightarrow> sock_heap \<Rightarrow> sock_heap option" where
  "class_run V [] s = Some s"
| "class_run V (op # ops) s = (case class_step V op s of None \<Rightarrow> None | Some t \<Rightarrow> class_run V ops t)"

definition class_client_dies :: "socket_class \<Rightarrow> nat \<Rightarrow> sock_heap \<Rightarrow> sock_heap option" where
  "class_client_dies V a s =
     (case V of Protocol_server \<Rightarrow> client_socket_destroy a s | Connection_pool \<Rightarrow> pool_client_destroy a s
      | Pass_through \<Rightarrow> proxy_client_destroy a s)"

section \<open>They are the same, but for the clients' destructors\<close>

lemma pool_is_server:
  "state_of (pool_socket_create a f s) = state_of (socket_create a f s)" "pool_socket_wrap a f s = socket_wrap a f s"
  "pool_socket_copy a b s = socket_copy a b s" "pool_socket_assign a b s = socket_assign a b s"
  "pool_socket_destroy a s = socket_destroy a s"
  by (auto simp: pool_socket_create_def socket_create_def CreateSocket_def pool_socket_Start_def socket_start_def Let_def
      pool_socket_wrap_def socket_wrap_def pool_socket_copy_def socket_copy_def pool_socket_assign_def socket_assign_def
      pool_socket_destroy_def socket_destroy_def pool_Close_def pool_CloseSocket_def socket_Close_def
      split: option.splits)

lemma proxy_is_server:
  "snd (proxy_socket_create a f s) = state_of (socket_create a f s)" "proxy_socket_wrap a f s = socket_wrap a f s"
  "proxy_socket_copy a b s = socket_copy a b s" "proxy_socket_assign a b s = socket_assign a b s"
  "proxy_socket_destroy a s = socket_destroy a s"
  by (auto simp: proxy_socket_create_def socket_create_def passthrough_Start_def socket_start_def Let_def
      proxy_socket_wrap_def socket_wrap_def proxy_socket_copy_def socket_copy_def proxy_socket_assign_def socket_assign_def
      proxy_socket_destroy_def socket_destroy_def passthrough_Close_def socket_Close_def
      split: option.splits)

lemma class_step_same: "class_step V op s = sock_step op s"
  by (cases V; cases op) (simp_all add: pool_is_server proxy_is_server)

lemma class_run_same: "class_run V ops s = sock_run ops s"
  by (induction ops arbitrary: s) (simp_all add: class_step_same split: option.split)

text \<open>C8: Reference counting is ownership up to assignment, in each of the three classes.  For every sequence of
  constructions, copies, assignments and destructions of sockets (constructions at fresh addresses, the others on
  live objects), the counted implementation never touches an unallocated counter, and it closes exactly the
  descriptors, in exactly the order, that the specification without counters closes: each when the last object sharing
  it dies, but never when a share of it was overwritten by an assignment, not even by one of an object to itself.
  And when a client's object dies, the two programs whose class has a destructor of its own close its descriptor once
  more than ownership asks, whoever else still uses it; the pass-through proxy closes it as ownership asks.\<close>

theorem every_class_counts_owners:
  assumes "heap_wf s" "proper_run ops s"
  shows "\<exists>t lost. class_run V ops s = Some t \<and> heap_counts lost t \<and>
    owners_of lost t = fold owner_step ops (owners_of [] s) \<and>
    (\<forall>a f k. map_of (sock_objs t) a = Some (f, k) \<longrightarrow>
       (\<exists>u. class_client_dies V a t = Some u \<and>
          closes (trace u) = closes (trace t) @ (if V = Pass_through then [] else [f]) @
            (if k \<in> set lost \<or> group_size k (sock_objs t) \<noteq> 1 then [] else [f])))"
proof -
  obtain t lost where t: "sock_run ops s = Some t" "heap_counts lost t" "owners_of lost t = fold owner_step ops (owners_of [] s)"
    using proper_run_refines [OF _ assms(2), of "[]"] assms(1) by (auto simp: heap_wf_def)
  have "\<exists>u. class_client_dies V a t = Some u \<and>
      closes (trace u) = closes (trace t) @ (if V = Pass_through then [] else [f]) @
        (if k \<in> set lost \<or> group_size k (sock_objs t) \<noteq> 1 then [] else [f])"
    if fk: "map_of (sock_objs t) a = Some (f, k)" for a f k
  proof -
    note cell = heap_counts_cell [OF t(2) fk]
    have one: "int (shares lost k t) = 1 \<longleftrightarrow> \<not> (k \<in> set lost \<or> group_size k (sock_objs t) \<noteq> 1)"
      using cell(2) count_list_0_iff [of lost k] by (auto simp: shares_def)
    show ?thesis
      using cell(1) fk one
      by (cases V)
        (simp_all add: class_client_dies_def client_socket_destroy_def pool_client_destroy_def proxy_client_destroy_def
          pool_is_server proxy_is_server socket_destroy_def socket_Close_def pool_Close_def pool_CloseSocket_def emit_def Let_def)
  qed
  then show ?thesis using t unfolding class_run_same by blast
qed

lemma every_class_counts_owners_witness:
  "\<exists>t lost. class_run Connection_pool [Create 1 7, Wrap 2 8, Copy 3 1, Assign 2 1, Destroy 1] empty_heap = Some t \<and>
    owners_of lost t = fold owner_step [Create 1 7, Wrap 2 8, Copy 3 1, Assign 2 1, Destroy 1] (owners_of [] empty_heap)"
proof -
  have "heap_wf empty_heap" "proper_run [Create 1 7, Wrap 2 8, Copy 3 1, Assign 2 1, Destroy 1] empty_heap"
    by (simp_all add: empty_heap_def heap_wf_def heap_counts_def shares_def group_size_def socket_create_def socket_start_def
        new_counter_def socket_wrap_def socket_copy_def socket_assign_def socket_destroy_def socket_Close_def drop_obj_def emit_def)
  from every_class_counts_owners [OF this, of Connection_pool] show ?thesis by blast
qed

end
