(* ===== verification/ClientProgram.thy ===== *)
theory ClientProgram
  imports ProtocolPipeline
begin

text \<open>
  The protocol client's \<open>main\<close> with its socket calls (\<open>protocol-client/src/main.cpp\<close>, over the class
  \<open>CClientSocket\<close>): one connection per request, made, used and deleted.  \<open>SyncApi.client_main\<close> has the same
  program over whole messages.  Then client and server together over a network that cuts what either sends
  into pieces as it likes.
\<close>

section \<open>The program\<close>

text \<open>What the calls of one request answer: \<open>socket\<close>, the resolver, \<open>connect\<close>, \<open>send\<close>, and the reads.\<close>

record exchange_env =
  xe_socket :: int
  xe_resolver :: resolver
  xe_connect :: int
  xe_send :: int
  xe_recv :: "answer list"

text \<open>\<open>delete target_socket\<close>: the derived and the base destructor each close the descriptor.\<close>

definition delete_socket :: "fd \<Rightarrow> 'a os_scheme \<Rightarrow> 'a os_scheme" where
  "delete_socket f s = emit (Call_close f) (emit (Call_close f) s)"

text \<open>
  A connection for one packet: \<open>None\<close> inside when the constructor throws, and else what was received.  The
  result of \<open>SendBytes\<close> is not looked at.
\<close>

definition client_exchange :: "exchange_env \<Rightarrow> string \<Rightarrow> os \<Rightarrow> (string option \<times> os) option" where
  "client_exchange e packet s =
     (case client_ctor (server_Connect ''localhost'' 8080 (xe_resolver e) (xe_connect e)) ''localhost'' (xe_socket e) s of
        None \<Rightarrow> None
      | Some (f, Raised m s1) \<Rightarrow> Some (None, s1)
      | Some (f, Done s1) \<Rightarrow>
          (case ReceiveBytes f (xe_recv e) (snd (SendBytes_checked f packet (length packet) (xe_send e) s1)) of
             None \<Rightarrow> None
           | Some (response, rest, s2) \<Rightarrow> Some (Some response, delete_socket f s2)))"

fun program_polls :: "string \<Rightarrow> string \<Rightarrow> exchange_env list \<Rightarrow> os \<Rightarrow> os outcome option" where
  "program_polls mem uid [] s = Some (Running s)"
| "program_polls mem uid (e # es) s =
     (case client_check_packet mem uid of
        None \<Rightarrow> None
      | Some packet \<Rightarrow>
          (case client_exchange e packet s of
             None \<Rightarrow> None
           | Some (None, s1) \<Rightarrow> Some (Exited 1 s1)
           | Some (Some response, s1) \<Rightarrow>
               (case field_at 4 response of
                  None \<Rightarrow> None
                | Some status \<Rightarrow> if status = ''completed'' then Some (Exited 0 s1) else program_polls mem uid es s1)))"

definition client_program :: "string \<Rightarrow> exchange_env \<Rightarrow> exchange_env list \<Rightarrow> os \<Rightarrow> os outcome option" where
  "client_program mem e es s =
     (case client_exchange e (client_connect_packet (take 1 (drop 255 mem))) s of
        None \<Rightarrow> None
      | Some (None, s1) \<Rightarrow> Some (Exited 1 s1)
      | Some (Some response, s1) \<Rightarrow>
          (case field_at 5 response of None \<Rightarrow> None | Some uid \<Rightarrow> program_polls mem uid es s1))"

section \<open>What the program does is what \<open>client_main\<close> says\<close>

text \<open>How one exchange ends: the target cannot be reached, or \<open>r\<close> is received however it is cut.\<close>

definition exchange_gives :: "exchange_env \<Rightarrow> string option \<Rightarrow> bool" where
  "exchange_gives e a \<longleftrightarrow>
     (case a of
        None \<Rightarrow> xe_socket e = -1 \<or> \<not> by_name (xe_resolver e) \<or> xe_connect e \<noteq> 0
      | Some r \<Rightarrow> xe_socket e \<noteq> -1 \<and> by_name (xe_resolver e) \<and> xe_connect e = 0 \<and> serves 1024 r (xe_recv e))"

lemma localhost_resolves:
  "server_Connect ''localhost'' 8080 r rv f s =
     (if by_name r then let s1 = emit (Call_connect f (port_of 8080)) s in if rv \<noteq> 0 then Some (Raised ''connect'' s1) else Some (Done s1)
      else Some (Raised ''Unable to get host endpoint by name'' s))"
  by (simp add: server_Connect_def Resolve_def is_alpha_def c_str_def)

lemma exchange_fails:
  assumes "exchange_gives e None"
  shows "\<exists>t. client_exchange e packet s = Some (None, t) \<and> wire t = wire s \<and>
    hangups (trace t) = hangups (trace s) @ (if xe_socket e = -1 then [] else [xe_socket e])"
  using assms
  by (auto simp: exchange_gives_def client_exchange_def client_ctor_def CreateSocket_def localhost_resolves c_str_def wire_def Let_def)

lemma exchange_succeeds:
  assumes "exchange_gives e (Some r)"
  shows "\<exists>t. client_exchange e packet s = Some (Some r, t) \<and> wire t = wire s @ [packet] \<and>
    hangups (trace t) = hangups (trace s) @ [xe_socket e, xe_socket e]"
proof -
  let ?f = "xe_socket e"
  define s1 where "s1 = emit (Call_send ?f packet (length packet)) (emit (Call_connect ?f (port_of 8080)) (emit Call_socket s))"
  have e: "?f \<noteq> -1" "by_name (xe_resolver e)" "xe_connect e = 0" "serves 1024 r (xe_recv e)"
    using assms by (simp_all add: exchange_gives_def)
  obtain t where t: "ReceiveBytes ?f (xe_recv e) s1 = Some (r, [], t)"
    using receiveBytes_drains [OF e(4), of ?f "[]" "[]" s1] by (auto simp: ReceiveBytes_def)
  have "sends (trace t) = sends (trace s1)" "hangups (trace t) = hangups (trace s1)"
    using receiveBytes_sends t unfolding ReceiveBytes_def by blast+
  moreover have "client_exchange e packet s = Some (Some r, delete_socket ?f t)"
    using e(1-3) t by (simp add: client_exchange_def client_ctor_def CreateSocket_def localhost_resolves c_str_def
        SendBytes_checked_def s1_def Let_def)
  ultimately show ?thesis by (simp add: delete_socket_def s1_def wire_def)
qed

text \<open>The descriptors an exchange closes, and the runs of the two programs that belong together: the same end, and
  on the wire what \<open>client_main\<close> counts as sent.\<close>

definition exchange_closes :: "exchange_env \<Rightarrow> string option \<Rightarrow> fd list" where
  "exchange_closes e a =
     (case a of Some r \<Rightarrow> [xe_socket e, xe_socket e] | None \<Rightarrow> if xe_socket e = -1 then [] else [xe_socket e])"

fun refines_client :: "os \<Rightarrow> protocol_client \<Rightarrow> os outcome \<Rightarrow> protocol_client outcome \<Rightarrow> bool" where
  "refines_client s c (Running t) (Running c') = (\<exists>sent. wire t = wire s @ sent \<and> requests_sent c' = requests_sent c @ sent)"
| "refines_client s c (Exited k t) (Exited k' c') =
     (k = k' \<and> (\<exists>sent. wire t = wire s @ sent \<and> requests_sent c' = requests_sent c @ sent))"
| "refines_client s c _ _ = False"

lemma refines_after:
  "refines_client t d out out' \<Longrightarrow> wire t = wire s @ sent \<Longrightarrow> requests_sent d = requests_sent c @ sent \<Longrightarrow>
   refines_client s c out out'"
  by (cases "(t, d, out, out')" rule: refines_client.cases) auto

lemma polls_refine:
  assumes "list_all2 exchange_gives es as" "client_check_packet memc uid = Some p" "client_polls memc uid as c = Some out'"
  shows "\<exists>out. program_polls memc uid es s = Some out \<and> refines_client s c out out' \<and>
    (\<exists>k. hangups (trace (final_state out)) = hangups (trace s) @ concat (map2 exchange_closes (take k es) (take k as)))"
  using assms(1,3)
proof (induction arbitrary: s c rule: list_all2_induct)
  case Nil
  then show ?case by auto
next
  case (Cons e es a as)
  show ?case
  proof (cases a)
    case None
    then obtain t where t: "client_exchange e p s = Some (None, t)" "wire t = wire s"
      "hangups (trace t) = hangups (trace s) @ exchange_closes e a"
      using exchange_fails [of e p s] Cons.hyps(1) by (auto simp: exchange_closes_def)
    then show ?thesis
      using None Cons.prems assms(2) by (auto intro!: exI [of _ 1])
  next
    case (Some r)
    then obtain t where t: "client_exchange e p s = Some (Some r, t)" "wire t = wire s @ [p]"
      "hangups (trace t) = hangups (trace s) @ exchange_closes e a"
      using exchange_succeeds [of e r p s] Cons.hyps(1) by (auto simp: exchange_closes_def)
    let ?d = "c\<lparr>requests_sent := requests_sent c @ [p]\<rparr>"
    obtain status where status: "field_at 4 r = Some status"
      using Cons.prems Some assms(2) by (auto simp: Let_def split: option.splits)
    show ?thesis
    proof (cases "status = ''completed''")
      case True
      then show ?thesis
        using t Some Cons.prems assms(2) status by (auto simp: Let_def intro!: exI [of _ 1])
    next
      case False
      then have "client_polls memc uid as ?d = Some out'" using Cons.prems Some assms(2) status by (simp add: Let_def)
      from Cons.IH [OF this, of t] obtain out k where out: "program_polls memc uid es t = Some out" "refines_client t ?d out out'"
        "hangups (trace (final_state out)) = hangups (trace t) @ concat (map2 exchange_closes (take k es) (take k as))" by blast
      have "refines_client s c out out'" by (rule refines_after [OF out(2) t(2)]) simp
      then show ?thesis
        using t out False status assms(2) by (intro exI [of _ out]) (auto intro!: exI [of _ "Suc k"])
    qed
  qed
qed

text \<open>The client program with its sockets implements the client over messages.  Whatever the kernel answers, however
  a response is cut into pieces, and whether or not a target can be reached, it ends as \<open>client_main\<close> does, has put on the
  wire exactly the packets that \<open>client_main\<close> sends, each whole, and has closed the descriptor of every connection
  twice, those that failed once.\<close>

theorem client_program_refines:
  assumes "list_all2 exchange_gives (e # es) (a # as)" "length memc = 256" "client_main memc a as c = Some out'"
    and "case a of None \<Rightarrow> True | Some r \<Rightarrow> (\<exists>ds. uuid_digits ds \<and> field_at 5 r = Some (generateUuid ds))"
  shows "\<exists>out. client_program memc e es s = Some out \<and> refines_client s c out out' \<and>
    (\<exists>k. hangups (trace (final_state out)) = hangups (trace s) @ concat (map2 exchange_closes (take k (e # es)) (take k (a # as))))"
proof -
  let ?cp = "client_connect_packet (take 1 (drop 255 memc))"
  show ?thesis
  proof (cases a)
    case None
    then obtain t where t: "client_exchange e ?cp s = Some (None, t)" "wire t = wire s"
      "hangups (trace t) = hangups (trace s) @ exchange_closes e a"
      using exchange_fails [of e ?cp s] assms(1) by (auto simp: exchange_closes_def)
    then show ?thesis using None assms(3) by (auto simp: client_program_def client_main_def intro!: exI [of _ 1])
  next
    case (Some r)
    then obtain t where t: "client_exchange e ?cp s = Some (Some r, t)" "wire t = wire s @ [?cp]"
      "hangups (trace t) = hangups (trace s) @ exchange_closes e a"
      using exchange_succeeds [of e r ?cp s] assms(1) by (auto simp: exchange_closes_def)
    let ?d = "c\<lparr>requests_sent := requests_sent c @ [?cp]\<rparr>"
    obtain ds where ds: "uuid_digits ds" "field_at 5 r = Some (generateUuid ds)" using assms(4) Some by auto
    obtain p where p: "client_check_packet memc (generateUuid ds) = Some p" using client_check_packet_fields [OF ds(1) assms(2)] by blast
    have "client_polls memc (generateUuid ds) as ?d = Some out'" using assms(3) Some ds(2) by (simp add: client_main_def Let_def)
    from polls_refine [OF _ p this, of es t] assms(1) obtain out k where
      out: "program_polls memc (generateUuid ds) es t = Some out" "refines_client t ?d out out'"
      "hangups (trace (final_state out)) = hangups (trace t) @ concat (map2 exchange_closes (take k es) (take k as))" by auto
    have "refines_client s c out out'" by (rule refines_after [OF out(2) t(2)]) simp
    then show ?thesis
      using t out ds(2) by (intro exI [of _ out]) (auto simp: client_program_def intro!: exI [of _ "Suc k"])
  qed
qed


section \<open>A network between client and server\<close>

text \<open>What is sent arrives cut into pieces of the given sizes (at least one byte each), the rest in one.\<close>

fun pieces :: "nat list \<Rightarrow> string \<Rightarrow> string list" where
  "pieces [] d = (if d = [] then [] else [d])"
| "pieces (n # ns) d = (if d = [] then [] else take (Suc n) d # pieces ns (drop (Suc n) d))"

text \<open>Pieces that lie in the kernel's buffer together are read one after the other.\<close>

fun buffered :: "string list \<Rightarrow> answer list" where
  "buffered [] = []"
| "buffered (d # ds) = ARecv (RData d) # AIoctl 0 (length (concat ds)) # buffered ds"

definition burst :: "fd \<Rightarrow> nat list \<Rightarrow> string \<Rightarrow> pipeline_env" where
  "burst f ns d = \<lparr>pe_select = 1, pe_ready = [f], pe_recv = buffered (pieces ns d)\<rparr>"

text \<open>
  How a request reaches the turns of the server's loop: a number of idle turns, then a burst of some size, cut on
  its own; what is left comes in one burst.  After the request there is nothing more: the client waits.
\<close>

type_synonym upload = "(nat \<times> nat \<times> nat list) list"

fun request_turns :: "fd \<Rightarrow> upload \<Rightarrow> string \<Rightarrow> pipeline_env list" where
  "request_turns f [] d = (if d = [] then [] else [burst f [] d])"
| "request_turns f ((i, n, ns) # us) d =
     (if d = [] then [] else replicate i quiet_turn @ burst f ns (take (Suc n) d) # request_turns f us (drop (Suc n) d))"

text \<open>
  One exchange as the network and the kernels shape it: the descriptors on both sides, the cuts of the request and of
  the response.
\<close>

record delivery =
  dv_client :: fd
  dv_server :: fd
  dv_up :: upload
  dv_down :: "nat list"

definition patient :: "delivery \<Rightarrow> bool" where
  "patient d \<longleftrightarrow> dv_client d \<noteq> -1 \<and> sum_list (map fst (dv_up d)) < 100"

definition client_side :: "delivery \<Rightarrow> string \<Rightarrow> exchange_env" where
  "client_side d response =
     \<lparr>xe_socket = dv_client d, xe_resolver = \<lparr>by_name = True, by_addr = True\<rparr>, xe_connect = 0, xe_send = 0,
       xe_recv = buffered (pieces (dv_down d) response)\<rparr>"

definition serve_connection ::
  "delivery \<Rightarrow> string \<Rightarrow> string \<Rightarrow> string \<Rightarrow> os \<Rightarrow> sync_server \<Rightarrow> (bool \<times> os \<times> sync_server) option" where
  "serve_connection d uid mem packet o1 s =
     CProtocolPipeline (Some (HandleData uid mem)) (request_turns (dv_server d) (dv_up d) packet @ replicate 100 quiet_turn)
       (dv_server d) o1 s"

text \<open>
  The server for a client that sends \<open>packet\<close> again and again, with what happens in between, over the network: what
  the client's connections see, and the states of the server.
\<close>

fun serve_rounds ::
  "string \<Rightarrow> string \<Rightarrow> string \<Rightarrow> (sync_event list \<times> delivery) list \<Rightarrow> os \<Rightarrow> sync_server \<Rightarrow>
   (exchange_env list \<times> os \<times> sync_server) option" where
  "serve_rounds gen mem packet [] o1 s = Some ([], o1, s)"
| "serve_rounds gen mem packet ((es, d) # rs) o1 s =
     (case serve_connection d gen mem packet o1 (sync_run es s) of
        Some (True, o2, t) \<Rightarrow> map_option (\<lambda>(xs, o3, u). (client_side d (last (wire o2)) # xs, o3, u)) (serve_rounds gen mem packet rs o2 t)
      | _ \<Rightarrow> None)"

lemma pieces_whole: "concat (pieces ns d) = d" "pieces ns d = [] \<longleftrightarrow> d = []" "\<forall>x \<in> set (pieces ns d). x \<noteq> []"
  by (induction ns d rule: pieces.induct) auto

lemma length_part: "x \<in> set ds \<Longrightarrow> length x \<le> length (concat ds)"
  by (induction ds) auto

lemma buffered_serves:
  assumes "\<forall>x \<in> set ds. x \<noteq> [] \<and> length x \<le> n" "ds \<noteq> []" "n \<le> 1024" "length (concat ds) \<le> n"
  shows "serves n (concat ds) (buffered ds)"
  using assms
proof (induction ds arbitrary: n)
  case (Cons d ds)
  show ?case
  proof (cases "ds = []")
    case True
    then show ?thesis using Cons.prems by (simp add: serves.last)
  next
    case False
    then have "concat ds \<noteq> []" using Cons.prems(1) by (cases ds) auto
    moreover have "serves (length (concat ds)) (concat ds) (buffered ds)"
      using Cons.IH [of "length (concat ds)"] Cons.prems False by (auto intro: length_part)
    ultimately show ?thesis using Cons.prems by (auto intro!: serves.part)
  qed
qed simp

lemma pieces_served: "d \<noteq> [] \<Longrightarrow> length d \<le> 1024 \<Longrightarrow> serves 1024 d (buffered (pieces ns d))"
  using buffered_serves [of "pieces ns d" 1024] pieces_whole [of ns d] length_part [of _ "pieces ns d"] by fastforce

definition gathered :: "pipeline_env \<Rightarrow> string" where
  "gathered e = concat (map (\<lambda>a. case a of ARecv r \<Rightarrow> recv_bytes r | _ \<Rightarrow> []) (pe_recv e))"

lemma gathered_burst [simp]: "gathered (burst f ns d) = d"
proof -
  have "concat (map (\<lambda>a. case a of ARecv r \<Rightarrow> recv_bytes r | _ \<Rightarrow> []) (buffered ds)) = concat ds" for ds
    by (induction ds) simp_all
  then show ?thesis by (simp add: gathered_def burst_def pieces_whole(1))
qed

lemma idle_quiet [simp]: "idle_turn f quiet_turn" "\<not> idle_turn f (burst f ns d)" "turn_serves f P quiet_turn"
  by (simp_all add: idle_turn_def quiet_turn_def burst_def turn_serves_def)

lemma burst_serves: "d \<noteq> [] \<Longrightarrow> length d \<le> 1024 \<Longrightarrow> turn_serves f gathered (burst f ns d)"
  using pieces_served [of d ns] gathered_burst [of f ns d] by (auto simp: turn_serves_def) (simp_all add: burst_def)

lemma request_turns_arrive:
  assumes "length d \<le> 1024"
  shows "\<forall>e \<in> set (request_turns f us d). turn_serves f gathered e"
    and "length (filter (idle_turn f) (request_turns f us d)) \<le> sum_list (map fst us)"
    and "collected f gathered (request_turns f us d) = d"
  using assms by (induction f us d rule: request_turns.induct) (auto simp: burst_serves collected_def)

text \<open>The server answers a request once, in whatever bursts it came: at the hundredth idle turn.\<close>

lemma serve_connection_answers:
  assumes "HandleData uid mem packet (length packet) s = Some (r, t)" "5 \<le> length r"
    and "packet \<noteq> []" "length packet \<le> 1024" "sum_list (map fst (dv_up d)) < 100"
  shows "\<exists>o2. serve_connection d uid mem packet o1 s = Some (True, o2, t) \<and> wire o2 = wire o1 @ [r] \<and>
    hangups (trace o2) = hangups (trace o1) @ [dv_server d]"
proof -
  let ?f = "dv_server d" and ?ts = "request_turns (dv_server d) (dv_up d) packet"
  let ?k = "length (filter (idle_turn ?f) ?ts)"
  let ?es = "?ts @ replicate (99 - ?k) quiet_turn"
  have k: "?k < 100" using request_turns_arrive(2) [OF assms(4), of ?f "dv_up d"] assms(5) by simp
  have "(100::nat) = (99 - ?k) + Suc ?k" using k by simp
  then have "replicate 100 quiet_turn = replicate (99 - ?k) quiet_turn @ replicate (Suc ?k) quiet_turn"
    by (metis replicate_add)
  then have all: "?ts @ replicate 100 quiet_turn = ?es @ quiet_turn # replicate ?k quiet_turn" by simp
  have idle: "length (filter (idle_turn ?f) ?es) = 99" using k by simp
  have col: "collected ?f gathered ?es = packet"
    using request_turns_arrive(3) [OF assms(4), of ?f "dv_up d"] by (simp add: collected_def)
  have "\<forall>e \<in> set ?es. turn_serves ?f gathered e"
    using request_turns_arrive(1) [OF assms(4), of ?f "dv_up d"] by auto
  moreover have "ends_request ?f (length (filter (idle_turn ?f) ?es)) quiet_turn"
    unfolding idle by (simp add: ends_request_def) (simp add: quiet_turn_def)
  ultimately show ?thesis
    using pipeline_answers [of ?es ?f gathered quiet_turn "HandleData uid mem" s r t "replicate ?k quiet_turn" o1] assms(1-3) idle col
    by (simp add: serve_connection_def all)
qed

lemma client_side_gives:
  "dv_client d \<noteq> -1 \<Longrightarrow> 5 \<le> length r \<Longrightarrow> length r \<le> 1024 \<Longrightarrow> exchange_gives (client_side d r) (Some r)"
  by (cases r) (simp_all add: exchange_gives_def client_side_def pieces_served)

lemma serve_rounds_answers:
  assumes "server_answers gen mem p (map fst rds) s = Some (rs, u)" "length mem = 512" "p \<noteq> []" "length p \<le> 1024"
    and "\<forall>d \<in> set (map snd rds). patient d"
  shows "\<exists>xs o2. serve_rounds gen mem p rds o1 s = Some (xs, o2, u) \<and> list_all2 exchange_gives xs (map Some rs) \<and>
    wire o2 = wire o1 @ rs \<and> hangups (trace o2) = hangups (trace o1) @ map (\<lambda>x. dv_server (snd x)) rds"
  using assms(1,5)
proof (induction rds arbitrary: s rs o1)
  case (Cons rd rds)
  obtain es d where rd: "rd = (es, d)" by (cases rd)
  obtain r t rs' where r: "HandleData gen mem p (length p) (sync_run es s) = Some (r, t)"
    "server_answers gen mem p (map fst rds) t = Some (rs', u)" "rs = r # rs'"
    using Cons.prems(1) by (auto simp: rd split: option.splits)
  have len: "5 \<le> length r" "length r \<le> 1024" using HandleData_answer_length [OF r(1) assms(2)] by auto
  have d: "dv_client d \<noteq> -1" "sum_list (map fst (dv_up d)) < 100" using Cons.prems(2) by (simp_all add: rd patient_def)
  obtain o2 where o2: "serve_connection d gen mem p o1 (sync_run es s) = Some (True, o2, t)" "wire o2 = wire o1 @ [r]"
    "hangups (trace o2) = hangups (trace o1) @ [dv_server d]"
    using serve_connection_answers [OF r(1) len(1) assms(3,4) d(2)] by blast
  obtain xs o3 where "serve_rounds gen mem p rds o2 t = Some (xs, o3, u)" "list_all2 exchange_gives xs (map Some rs')"
    "wire o3 = wire o2 @ rs'" "hangups (trace o3) = hangups (trace o2) @ map (\<lambda>x. dv_server (snd x)) rds"
    using Cons.IH [OF r(2), of o2] Cons.prems(2) by (auto simp: rd)
  moreover have "exchange_gives (client_side d r) (Some r)" by (rule client_side_gives [OF d(1) len])
  ultimately show ?case using o2 r(3) by (simp add: rd)
qed simp

text \<open>
  Client and server together: the connection that asks for the job, the rounds of the server for the id that came
  back, and the client program against what its connections see.
\<close>

definition network_session ::
  "string \<Rightarrow> string \<Rightarrow> string \<Rightarrow> string \<Rightarrow> delivery \<Rightarrow> (sync_event list \<times> delivery) list \<Rightarrow> os \<Rightarrow> os \<Rightarrow> sync_server \<Rightarrow>
   (os outcome \<times> os \<times> sync_server) option" where
  "network_session uid gen mem memc d rds c1 o1 s =
     (case serve_connection d uid mem (client_connect_packet (take 1 (drop 255 memc))) o1 s of
        Some (True, o2, t) \<Rightarrow>
          Option.bind (Option.bind (field_at 5 (last (wire o2))) (client_check_packet memc)) (\<lambda>p.
          Option.bind (serve_rounds gen mem p rds o2 t) (\<lambda>(xs, o3, u).
            map_option (\<lambda>out. (out, o3, u)) (client_program memc (client_side d (last (wire o2))) xs c1)))
      | _ \<Rightarrow> None)"

text \<open>C6: The protocol works end to end, over sockets, for one client under these conditions: every call to open a
  socket, to connect and to send succeeds; each request reaches the server in any pieces, the loop of the connection
  finding nothing to read in fewer than 100 of its turns before the request is complete (a slower client is closed
  without an answer); each response lies whole in the client's kernel when the client reads it, and is
  read in any pieces; no other event of the server falls within the handling of one of its requests (between the
  push of its job and the store of the map entry the job could be lost: \<open>early_job_lost\<close>); the id made
  from its random digits is not in use and nobody is given it again; and the map holds only what the program
  stores in it.  Then the client that connects gets the id and its job is in the pool; whatever other requests and the
  jobs do before each of its polls, it is told pending until its job has finished and completed from the first poll after that.  There it exits
  with status 0, and until then it runs.  It has put on the wire one CONNECT packet and then only copies of the status
  packet for its id; the server has answered each connection once and closed it once.\<close>

theorem session_over_sockets:
  assumes "well_filled s" "\<not> in_pool (generateUuid ds) s" "uuid_digits ds" "length mem = 512" "length memc = 256"
    and "\<forall>es \<in> set (map fst rds). \<forall>ev \<in> set es. foreign (generateUuid ds) ev" "\<forall>x \<in> set (d # map snd rds). patient x"
  shows "\<exists>out o2 u p m.
    network_session (generateUuid ds) gen mem memc d rds c1 o1 s = Some (out, o2, u) \<and> m \<le> length rds \<and>
    client_check_packet memc (generateUuid ds) = Some p \<and>
    out = (if m < length rds then Exited 0 (final_state out) else Running (final_state out)) \<and>
    wire (final_state out) = wire c1 @ client_connect_packet (drop 255 memc) # replicate (if m < length rds then Suc m else m) p \<and>
    (job_done (generateUuid ds) u \<longleftrightarrow> m < length rds) \<and> (job_waiting (generateUuid ds) u \<longleftrightarrow> m = length rds) \<and>
    length (wire o2) = length (wire o1) + Suc (length rds) \<and>
    hangups (trace o2) = hangups (trace o1) @ dv_server d # map (\<lambda>x. dv_server (snd x)) rds"
proof -
  let ?uid = "generateUuid ds" and ?cp = "client_connect_packet (drop 255 memc)" and ?c = "\<lparr>requests_sent = []\<rparr>"
  obtain r t p rs u m where S: "HandleData ?uid mem ?cp 260 s = Some (r, t)" "field_at 5 r = Some ?uid"
    "client_check_packet memc ?uid = Some p" "server_answers gen mem p (map fst rds) t = Some (rs, u)" "m \<le> length rds"
    "client_main memc (Some r) (map Some rs) ?c = Some
      (if m < length rds then Exited 0 \<lparr>requests_sent = ?cp # replicate (Suc m) p\<rparr>
       else Running \<lparr>requests_sent = ?cp # replicate m p\<rparr>)"
    "job_done ?uid u \<longleftrightarrow> m < length rds" "job_waiting ?uid u \<longleftrightarrow> m = length rds"
    using session_steps [OF assms(1-6), of gen ?c]
    by (simp only: length_map protocol_client.select_convs protocol_client.update_convs append_Nil) blast
  have lens: "length ?cp = 260" "length p = 260"
    using assms(5) client_check_packet_fields [OF assms(3,5)] S(3) by (auto simp: client_connect_packet_def connect_bytes_def)
  have r: "5 \<le> length r" "length r \<le> 1024" using HandleData_answer_length [OF S(1) assms(4)] by auto
  have d: "dv_client d \<noteq> -1" "sum_list (map fst (dv_up d)) < 100" using assms(7) by (simp_all add: patient_def)
  obtain o2 where o2: "serve_connection d ?uid mem ?cp o1 s = Some (True, o2, t)" "wire o2 = wire o1 @ [r]"
    "hangups (trace o2) = hangups (trace o1) @ [dv_server d]"
    using serve_connection_answers [of ?uid mem ?cp s r t d o1] S(1) r(1) lens(1) d(2) by force
  obtain xs o3 where xs: "serve_rounds gen mem p rds o2 t = Some (xs, o3, u)" "list_all2 exchange_gives xs (map Some rs)"
    "wire o3 = wire o2 @ rs" "hangups (trace o3) = hangups (trace o2) @ map (\<lambda>x. dv_server (snd x)) rds"
    using serve_rounds_answers [OF S(4) assms(4), of o2] lens(2) assms(7) by force
  have "exchange_gives (client_side d r) (Some r)" by (rule client_side_gives [OF d(1) r])
  then have "list_all2 exchange_gives (client_side d r # xs) (Some r # map Some rs)" using xs(2) by simp
  from client_program_refines [OF this assms(5) S(6), of c1] S(2) assms(3) obtain out where
    out: "client_program memc (client_side d r) xs c1 = Some out"
      "refines_client c1 ?c out (if m < length rds then Exited 0 \<lparr>requests_sent = ?cp # replicate (Suc m) p\<rparr>
         else Running \<lparr>requests_sent = ?cp # replicate m p\<rparr>)" by auto
  have "length rs = length rds" using server_answers_length [OF S(4)] by simp
  moreover have "network_session ?uid gen mem memc d rds c1 o1 s = Some (out, o3, u)"
    using o2 S(2,3) xs(1) out(1) assms(5) by (simp add: network_session_def)
  moreover have "out = (if m < length rds then Exited 0 (final_state out) else Running (final_state out)) \<and>
      wire (final_state out) = wire c1 @ ?cp # replicate (if m < length rds then Suc m else m) p"
    using out(2) by (cases out) (auto split: if_splits simp del: replicate_Suc)
  ultimately show ?thesis using S(3,5,7,8) o2(2,3) xs(3,4) by (intro exI [of _ out] exI [of _ o3] exI [of _ u] exI [of _ p] exI [of _ m]) simp
qed

definition sample_delivery :: delivery where
  "sample_delivery = \<lparr>dv_client = 5, dv_server = 6, dv_up = [(3, 9, [1]), (40, 99, [])], dv_down = [2, 255]\<rparr>"

definition sample_rounds :: "(sync_event list \<times> delivery) list" where
  "sample_rounds = [([], sample_delivery), ([Finish 0], sample_delivery)]"

definition sample_os :: os where
  "sample_os = \<lparr>trace = []\<rparr>"

lemma session_over_sockets_witness:
  "\<exists>out o2 u p m.
    network_session (generateUuid (replicate 32 1)) [] (replicate 512 NUL) (replicate 256 NUL) sample_delivery sample_rounds
      sample_os sample_os sync_initial = Some (out, o2, u) \<and> m \<le> length sample_rounds \<and>
    client_check_packet (replicate 256 NUL) (generateUuid (replicate 32 1)) = Some p \<and>
    out = (if m < length sample_rounds then Exited 0 (final_state out) else Running (final_state out)) \<and>
    wire (final_state out) = wire sample_os @ client_connect_packet (drop 255 (replicate 256 NUL)) #
      replicate (if m < length sample_rounds then Suc m else m) p \<and>
    (job_done (generateUuid (replicate 32 1)) u \<longleftrightarrow> m < length sample_rounds) \<and>
    (job_waiting (generateUuid (replicate 32 1)) u \<longleftrightarrow> m = length sample_rounds) \<and>
    length (wire o2) = length (wire sample_os) + Suc (length sample_rounds) \<and>
    hangups (trace o2) = hangups (trace sample_os) @ dv_server sample_delivery # map (\<lambda>x. dv_server (snd x)) sample_rounds"
  by (rule session_over_sockets [OF sync_initial_idle sample_digits])
    (simp_all add: foreign_def patient_def sample_delivery_def sample_rounds_def)

end
