(* ===== verification/Spec2Isabelle.thy ===== *)
theory Spec2Isabelle
  imports ChatFailures PollServer ChatClient Terminals SocketObject SocketIO SocketConn Proxies TlsEcho
    FileUpload UvProxy ConnectionPool PoolProxy ProtocolPipeline ProxySocket ThreadPool ServerDispatch
    WireReaders Scheduler LogService ServerJobs PoolThreads TestHarness ListenThread LogDatabase TlsEchoMain ByteOrder
    BalancerRace ProxyRuns RelayThreads LogThreads SocketVersions ClientProgram
begin

text \<open>
  A verification development for the cpp-socket-programming repository: a collection of network
  programs in C++, from a turn-based dialogue to a protocol server with a thread pool, a load
  balancer and a logger.  The POSIX branch of every \<open>#ifdef WINDOWS_OS\<close> is the one modelled, and
  the protocol programs are the \<open>DEBUG\<close> builds of their Makefiles, whose log lines read the packets.

  \<^bold>\<open>The programs and their theories.\<close>

  \<^item> \<open>Prelude\<close>: theorem collections, the searching loops over arrays, C strings in fixed buffers
    (\<open>c_str\<close>, \<open>filled_buffer\<close>), \<open>std::map\<close>'s \<open>insert\<close> and \<open>operator[]\<close>.
  \<^item> \<open>Posix\<close>: descriptors, the calls a program makes (\<open>trace\<close>) and the results it is given, how a
    routine ends (\<open>outcome\<close>: it goes on or the process exits; \<open>completion\<close>: it returns or throws),
    and the helpers every program repeats.  \<open>SlotTable\<close>: the client table of the select, poll and
    chat servers, as the locale \<open>bounded_table\<close>.
  \<^item> \<open>SelectServer\<close>, \<open>PollServer\<close> (\<open>multiple-client-single-thread/Server_select.cpp\<close>,
    \<open>Server_poll.cpp\<close>), \<open>ChatServer\<close>, \<open>ChatClient\<close> (\<open>chat-server/Server.cpp\<close>, \<open>Client.cpp\<close>):
    start-up, one turn of the main loop, and the loop over a list of environments (what \<open>select\<close>,
    \<open>recv\<close> and \<open>accept\<close> answer in each turn), so a statement about a run holds for every behaviour
    of kernel and peers.  \<open>ChatSession\<close> lets two chat clients talk through the chat server;
    \<open>ChatNetwork\<close> puts the server and any number of clients together, over connections that carry
    bytes, as a run of events (\<open>net_run\<close>) in which clients also leave, and \<open>ChatRuns\<close> has what follows for what is shown at each
    terminal; \<open>ChatFailures\<close> has the other side: partners of clients that left, connections that are reset, and
    messages that arrive in parts.
    \<open>Terminals\<close>: \<open>single-client-turn-based\<close> and
    \<open>multiple-client-single-thread/Client.cpp\<close>, with \<open>fgets\<close> on the terminal.
  \<^item> \<open>SocketObject\<close>, \<open>SocketIO\<close>, \<open>SocketConn\<close>: the classes \<open>Socket\<close>, \<open>CClientSocket\<close>,
    \<open>CServerSocket\<close>, \<open>SocketSelect\<close> and \<open>ProtocolHelper\<close> of \<open>protocol-server/src\<close>,
    \<open>connection-pool/src/socket\<close> and \<open>passthrough-proxy\<close>, with a definition per version where the
    versions differ.  Objects are addresses in an explicit heap with their shared counters;
    \<open>SocketVersions\<close> has the counted sockets of the other two programs, and what the three classes share.
  \<^item> \<open>Proxies\<close> (\<open>passthrough-proxy/Proxy.cpp\<close>, \<open>ssl-proxy/Proxy.cpp\<close>), \<open>TlsEcho\<close> and \<open>TlsEchoMain\<close>
    (\<open>ssl-client/Client.cpp\<close>: its loops, and \<open>main\<close> around them), \<open>FileUpload\<close>
    (\<open>file-upload/main.cpp\<close>), \<open>UvProxy\<close> (\<open>libuv-based/Server.cpp\<close>: its callbacks, in any
    order, and in an order that libuv's contract allows).  \<open>RelayThreads\<close> interleaves the main
    loop and the threads of the pass-through proxy over the descriptors of the process (\<open>rt_run\<close>).
  \<^item> \<open>ConnectionPool\<close>, \<open>PoolProxy\<close> (\<open>connection-pool\<close>): the pool over an abstract connection class
    (locale \<open>connection_class\<close>, interpreted for \<open>TestConnection\<close> and \<open>TcpConnection\<close>), the RAII
    proxies, and the proxy program on top.  \<open>PoolThreads\<close> interleaves its listening thread with its
    client threads; \<open>TestHarness\<close> has the macros of \<open>unittest.h\<close> and the repository's two tests.
  \<^item> \<open>Payload\<close>, \<open>SyncApi\<close>, \<open>ProtocolPipeline\<close>, \<open>ServerDispatch\<close>: the protocol server and the
    client program (\<open>protocol-server/src\<close>, \<open>protocol-client/src/main.cpp\<close>), from the bytes of the
    packets to the interleaving of requests and jobs; \<open>ListenThread\<close> has the listening thread's node
    information and the description it makes of each connection.  \<open>ServerSystem\<close> puts the parts
    together: two listeners, one pool for connections and jobs, the shared map, as a run of events
    (\<open>system_run\<close>); \<open>ServerJobs\<close> has what follows for jobs.  \<open>ClientProgram\<close> has the client with its socket
    calls and puts client and server together over a network that cuts and delays the bytes (\<open>network_session\<close>).
  \<^item> \<open>WorkQueue\<close>, \<open>ThreadPool\<close>, \<open>LoadBalancer\<close>, \<open>BalancerRace\<close>, \<open>ProxySocket\<close>, \<open>StringTools\<close>,
    \<open>WireReaders\<close>, \<open>ByteOrder\<close>, \<open>Scheduler\<close>, \<open>LogService\<close>, \<open>LogDatabase\<close>: the libraries under
    \<open>protocol-server/src\<close>; \<open>ProxySystem\<close> interleaves the listening thread, the pool and the sessions of the
    balancing proxy (\<open>bp_run\<close>), with \<open>ProxyRuns\<close> for its properties, and \<open>LogThreads\<close> the threads that log, the
    worker and the destructor of the logger (\<open>lt_run\<close>, \<open>lt_reach\<close>), down to the mutex and the condition variable.
    The libraries have the locales \<open>fifo\<close> (both queue classes), \<open>balancing\<close> (the three strategies) and \<open>log_medium\<close> (the four writers).

  \<^bold>\<open>How the code is rendered.\<close> A program's state is a record that extends
  \<open>os\<close>, the list of calls it has made. Results of system calls, of OpenSSL, of libuv and of
  SQLite, uninitialised memory, random numbers, dates and the environment are arguments. Undefined behaviour
  (a null pointer, an index outside, a buffer overrun that ends the description) is \<open>None\<close>;
  where the analysis goes on behind it, it is recorded in the state instead (writes in front of a buffer,
  reads of dead memory). A list of answers that runs out is a program that is still waiting, which each
  routine reports as such. \<open>int\<close>s are unbounded where they are descriptors or lengths the code
  cannot drive to its limits, and 16-, 32- and 64-bit words where wrap-around, sign or truncation matters
  (ports, \<open>RecvBlocking\<close>, the indices of the load balancer, the size of the pool). Threads are
  events of a run: each operation under a mutex is one step, and accesses without a mutex are separate
  steps; in \<open>LogThreads\<close>, which is about the mutex itself, taking it, testing, sleeping and waking up are steps.
  Where programs are put together (\<open>ChatNetwork\<close>), a \<open>send\<close> delivers all its bytes in order and a \<open>recv\<close> takes
  as many as have arrived, up to the size of its buffer (in \<open>ClientProgram\<close> any part of what has arrived, and a
  response is in the client's kernel as a whole before it is read); where threads open descriptors, the kernel gives any
  number that is not open, and none beyond the process's limit. No model uses fuel: loops over inputs recurse on the inputs, \<open>split\<close>, which may
  not end, is a partial function (as is the loop over a database statement's rows), and the thread pool is a
  step relation.

  \<^bold>\<open>What is shown.\<close> Safety and provenance of the chat server, its liveness round by
  round, and what each of any number of chat clients is shown, in every interleaving, of what the others typed, while clients
  come and go, over connections that deliver each message whole; equivalence of the poll and the select server where no
  \<open>accept\<close> fails and no descriptor lies beyond what \<open>select\<close> examines (\<open>examined\<close>); the
  counted sockets, in three versions and with assignments, as a refinement of ownership in which an overwritten share is never
  given up; transparency of the relays (for the balancing proxy against
  a specification with handlers, for the event-loop proxy under libuv's contract), and that sessions on different threads keep
  apart where no \<open>fcntl\<close> fails and each client has been handed over before the next is accepted (\<open>prompt\<close>), the descriptors
  handed out accounted for by those closed and those open, and where they run out; draining and framing of the receive
  routines; conservation and exclusiveness of pooled connections; the job protocol end to end, over sockets, composed of the
  client program, the connection routine and the handler, for a client that does not dawdle (\<open>patient\<close>) and however its bytes
  are cut, and that completed is only reported of finished jobs; the whole server as a refinement of the
  thread pool and the job protocol, its coming to rest, and how the fate of a job depends on the number of
  workers; which thread holds which connection when several clients use the pooled proxy; order, completeness and
  shutdown of the thread pool, and how the shutdown can hang; fairness of the balancing strategies and what threads racing in
  the weighted one can and cannot do; linearizability of the logger under its threads, its notifications and its shutdown, and
  that it loses nothing while the medium does not fail and the date stays; the rows a database query returns; the
  values of the byte-order functions, at each width, on every platform; what the tests report; and round trips of the
  formats. Theorems about flaws
  state what the code does instead (starvation, lost jobs, leaked descriptors, overruns, log text read as
  SQL, a client served by two threads).

  \<^bold>\<open>What is not modelled.\<close> Console output; the vendored libuv headers, which are
  declarations of a library; the assertions of the test harness on floating-point numbers and on time; the
  Windows branches other than those of the byte-order header; code that no path reaches (the lines behind
  the endless loops of the servers); the files of
  \<open>protocol-client/src\<close> that repeat those of \<open>protocol-server/src\<close>; timing, other
  than as the order of events.

  What is left of the program's own code is of these kinds; every other routine has a definition, one for all its
  copies where these are alike.
  Some runs are narrower than the routines they are made of: in \<open>ChatNetwork\<close> a message is never split and a
  connection never reset (\<open>ChatFailures\<close> shows what one turn of the server does then), the requests of \<open>ClientProgram\<close> are each handled without another
  event in between (\<open>ServerSystem\<close> and \<open>ServerJobs\<close> have the other orders), and \<open>ProxySystem\<close>
  has the round-robin strategy only (\<open>BalancerRace\<close> has the threads that race in the weighted one).
\<close>

end
